(* ===== verification/Prelude.thy ===== *)
theory Prelude
  imports Main "HOL-Library.Sublist"
begin

text \<open>
  The prelude of the development: the C library functions on characters and strings that
  the repository calls (\<open>ctype.h\<close> in the C locale, \<open>string.h\<close>), the nullable strings of
  \<open>WvString\<close>, and the generic list lemmas and lemma collections the components share.

  A C string is a list of characters without the terminating NUL, so it never contains
  NUL itself; \<open>c_str\<close> is that well-formedness predicate.  A \<open>WvString\<close> is an optional
  C string: \<open>None\<close> is the null string, which the code distinguishes from the empty one.
\<close>

named_theorems key_simps \<open>unfolding rules of the UniConf key operations\<close>
named_theorems buf_simps \<open>unfolding rules of the buffer stores\<close>
named_theorems enc_simps \<open>unfolding rules of the encoders\<close>
named_theorems tree_simps \<open>unfolding rules of the UniConf trees and generators\<close>

type_synonym wvstring = "string option"

abbreviation NUL :: char where
  "NUL \<equiv> CHR 0x00"

abbreviation code_of :: "char \<Rightarrow> nat" where
  "code_of c \<equiv> of_char c"

definition c_str :: "string \<Rightarrow> bool" where
  "c_str s \<longleftrightarrow> NUL \<notin> set s"

text \<open>The \<open>!\<close> operator of \<open>WvFastString\<close>: true for a null or an empty string.\<close>

definition str_not :: "wvstring \<Rightarrow> bool" where
  "str_not s \<longleftrightarrow> (case s of None \<Rightarrow> True | Some t \<Rightarrow> t = [])"

definition str_len :: "wvstring \<Rightarrow> nat" where
  "str_len s = (case s of None \<Rightarrow> 0 | Some t \<Rightarrow> length t)"

subsection \<open>Character classes of the C locale\<close>

definition c_isspace :: "char \<Rightarrow> bool" where
  "c_isspace c \<longleftrightarrow> code_of c = (32::nat) \<or> (9 \<le> (code_of c :: nat) \<and> (code_of c :: nat) \<le> 13)"

definition c_isdigit :: "char \<Rightarrow> bool" where
  "c_isdigit c \<longleftrightarrow> 48 \<le> (code_of c :: nat) \<and> (code_of c :: nat) \<le> 57"

definition c_isupper :: "char \<Rightarrow> bool" where
  "c_isupper c \<longleftrightarrow> 65 \<le> (code_of c :: nat) \<and> (code_of c :: nat) \<le> 90"

definition c_islower :: "char \<Rightarrow> bool" where
  "c_islower c \<longleftrightarrow> 97 \<le> (code_of c :: nat) \<and> (code_of c :: nat) \<le> 122"

definition c_isalpha :: "char \<Rightarrow> bool" where
  "c_isalpha c \<longleftrightarrow> c_isupper c \<or> c_islower c"

definition c_isalnum :: "char \<Rightarrow> bool" where
  "c_isalnum c \<longleftrightarrow> c_isdigit c \<or> c_isupper c \<or> c_islower c"

definition c_isxdigit :: "char \<Rightarrow> bool" where
  "c_isxdigit c \<longleftrightarrow> c_isdigit c \<or> (65 \<le> (code_of c :: nat) \<and> (code_of c :: nat) \<le> 70)
     \<or> (97 \<le> (code_of c :: nat) \<and> (code_of c :: nat) \<le> 102)"

definition c_isprint :: "char \<Rightarrow> bool" where
  "c_isprint c \<longleftrightarrow> 32 \<le> (code_of c :: nat) \<and> (code_of c :: nat) \<le> 126"

definition c_tolower :: "char \<Rightarrow> char" where
  "c_tolower c = (if c_isupper c then char_of (code_of c + 32 :: nat) else c)"

definition c_toupper :: "char \<Rightarrow> char" where
  "c_toupper c = (if c_islower c then char_of (code_of c - 32 :: nat) else c)"

lemma code_of_less [simp]: "(code_of c :: nat) < 256"
  by (simp add: of_char_def)

lemma char_of_code [simp]: "n < 256 \<Longrightarrow> code_of (char_of (n::nat)) = n"
  by (simp add: of_char_of)

lemma code_of_eq_iff [simp]: "(code_of c :: nat) = code_of d \<longleftrightarrow> c = d"
  by (metis char_of_char)

text \<open>A property of every character follows from the 256 codes.\<close>

lemma all_chars: "(\<And>n::nat. n < 256 \<Longrightarrow> P (char_of n)) \<Longrightarrow> P c"
  by (metis char_of_char code_of_less)

lemma code_of_tolower:
  "(code_of (c_tolower c) :: nat) = (if c_isupper c then code_of c + 32 else code_of c)"
  by (auto simp: c_tolower_def c_isupper_def)

lemma code_of_toupper:
  "(code_of (c_toupper c) :: nat) = (if c_islower c then code_of c - 32 else code_of c)"
  by (auto simp: c_toupper_def c_islower_def less_imp_diff_less)

lemma c_tolower_idem [simp]: "c_tolower (c_tolower c) = c_tolower c"
proof -
  have "\<not> c_isupper (c_tolower c)"
    unfolding c_isupper_def code_of_tolower by (simp add: c_isupper_def)
  then show ?thesis by (simp add: c_tolower_def [of "c_tolower c"])
qed

text \<open>
  \<open>strcasecmp\<close>: the first difference of the lower-cased (unsigned) bytes, with the end of
  a string as a NUL byte.  The callers only use the sign.
\<close>

fun c_strcasecmp :: "string \<Rightarrow> string \<Rightarrow> int" where
  "c_strcasecmp [] [] = 0"
| "c_strcasecmp [] (y # ys) = - int (code_of (c_tolower y))"
| "c_strcasecmp (x # xs) [] = int (code_of (c_tolower x))"
| "c_strcasecmp (x # xs) (y # ys) =
     (let d = int (code_of (c_tolower x)) - int (code_of (c_tolower y))
      in if d \<noteq> 0 then d else c_strcasecmp xs ys)"

definition lower :: "string \<Rightarrow> string" where
  "lower s = map c_tolower s"

lemma lower_simps [simp]:
  "lower [] = []" "lower (c # s) = c_tolower c # lower s" "lower (s @ t) = lower s @ lower t"
  "lower (lower s) = lower s" "lower s = [] \<longleftrightarrow> s = []" "length (lower s) = length s"
  by (auto simp: lower_def)

text \<open>\<open>strcmp\<close> and \<open>strncmp\<close> on unsigned bytes; the callers only use the sign.\<close>

fun c_strcmp :: "string \<Rightarrow> string \<Rightarrow> int" where
  "c_strcmp [] [] = 0"
| "c_strcmp [] (y # ys) = - int (code_of y)"
| "c_strcmp (x # xs) [] = int (code_of x)"
| "c_strcmp (x # xs) (y # ys) =
     (let d = int (code_of x) - int (code_of y) in if d \<noteq> 0 then d else c_strcmp xs ys)"

definition c_strncmp :: "string \<Rightarrow> string \<Rightarrow> nat \<Rightarrow> int" where
  "c_strncmp s t n = c_strcmp (take n s) (take n t)"

text \<open>\<open>strchr\<close>: the suffix from the first occurrence on.\<close>

definition c_strchr :: "string \<Rightarrow> char \<Rightarrow> string option" where
  "c_strchr s c = (let r = dropWhile (\<lambda>x. x \<noteq> c) s in if r = [] then None else Some r)"

text \<open>\<open>atoi\<close>: blanks, an optional sign, then the decimal digits; the value is not cut to
  the width of an \<open>int\<close>, whose overflow C leaves undefined.\<close>

definition digits_value :: "string \<Rightarrow> int" where
  "digits_value ds = foldl (\<lambda>a c. a * 10 + (int (code_of c) - 48)) 0 ds"

definition c_atoi :: "string \<Rightarrow> int" where
  "c_atoi s =
     (case dropWhile c_isspace s of
        [] \<Rightarrow> 0
      | c # r \<Rightarrow>
          if c = CHR ''-'' then - digits_value (takeWhile c_isdigit r)
          else if c = CHR ''+'' then digits_value (takeWhile c_isdigit r)
          else digits_value (takeWhile c_isdigit (c # r)))"

lemma digits_value_Nil [simp]: "digits_value [] = 0"
  by (simp add: digits_value_def)

lemma digits_value_snoc [simp]:
  "digits_value (ds @ [c]) = digits_value ds * 10 + (int (code_of c) - 48)"
  by (simp add: digits_value_def)

lemma code_of_zero: "(code_of c :: nat) = 0 \<longleftrightarrow> c = NUL"
proof -
  have "(code_of NUL :: nat) = 0" by simp
  then show ?thesis by (metis code_of_eq_iff)
qed

lemma c_strcmp_zero: "c_str s \<Longrightarrow> c_str t \<Longrightarrow> c_strcmp s t = 0 \<longleftrightarrow> s = t"
  by (induction s t rule: c_strcmp.induct) (auto simp: c_str_def code_of_zero Let_def)

lemma c_str_simps [simp]:
  "c_str []" "c_str (c # s) \<longleftrightarrow> c \<noteq> NUL \<and> c_str s" "c_str (s @ t) \<longleftrightarrow> c_str s \<and> c_str t"
  by (auto simp: c_str_def)

lemma c_str_take [simp]: "c_str s \<Longrightarrow> c_str (take n s)"
  by (auto simp: c_str_def dest: in_set_takeD)

lemma c_str_drop [simp]: "c_str s \<Longrightarrow> c_str (drop n s)"
  by (auto simp: c_str_def dest: in_set_dropD)

end
