(* ===== verification/WvStringColl.thy ===== *)
theory WvStringColl
  imports Prelude
begin

text \<open>
  The splitting and joining of string collections: the templates \<open>strcoll_split\<close>,
  \<open>strcoll_splitstrict\<close> and \<open>strcoll_join\<close> of \<open>include/wvstrutils.h\<close>, which
  \<open>WvStringList::split\<close>, \<open>splitstrict\<close> and \<open>join\<close> call.  A collection of strings is the
  list of its elements; the elements the templates add are appended in order.  The limit is
  the C \<open>int\<close> that each round decrements; zero or less at the start means no limit
  (the decrement moves away from zero), as long as fewer than \<open>2 ^ 31\<close> parts are produced.
\<close>

definition is_sep :: "string \<Rightarrow> char \<Rightarrow> bool" where
  "is_sep splitchars c \<longleftrightarrow> c \<in> set splitchars"

lemma dropWhile_same_length: "length (dropWhile p s) = length s \<Longrightarrow> dropWhile p s = s"
proof (cases s)
  case (Cons c r)
  assume "length (dropWhile p s) = length s"
  then show ?thesis using Cons length_dropWhile_le [of p r] by (auto split: if_splits)
qed simp

text \<open>The loop of \<open>strcoll_split\<close>: \<open>first\<close> is the flag \<open>firstrun\<close>.\<close>

function split_loop :: "string \<Rightarrow> int \<Rightarrow> bool \<Rightarrow> string \<Rightarrow> string list" where
  "split_loop seps limit first s =
     (if s = [] then []
      else let limit' = limit - 1;
               s1 = (if first then s else dropWhile (is_sep seps) s);
               w = (if limit' \<noteq> 0 then takeWhile (\<lambda>c. \<not> is_sep seps c) s1 else s1)
           in w # split_loop seps limit' False (drop (length w) s1))"
  by pat_completeness auto
termination
proof (relation "measures [\<lambda>(seps, limit, first, s). length s,
                           \<lambda>(seps, limit, first, s). if first then 1 else 0]", goal_cases)
  case 1
  show ?case by simp
next
  case (2 seps limit first s limit' s1 w)
  have le: "length (drop (length w) s1) \<le> length s"
    using 2 by (simp add: le_diff_conv trans_le_add1 length_dropWhile_le)
  show ?case
  proof (cases "first")
    case True
    then show ?thesis using 2 le by auto
  next
    case nf: False
    then have s1: "s1 = dropWhile (is_sep seps) s" using 2 by simp
    have "length (drop (length w) s1) \<noteq> length s"
    proof
      assume eq: "length (drop (length w) s1) = length s"
      have "length s1 \<le> length s" by (simp add: s1 length_dropWhile_le)
      moreover have "0 < length s" using 2(1) by simp
      ultimately have len: "length s1 = length s" "length w = 0" using eq
        by (simp_all only: length_drop)
      then have "s1 = s" using s1 by (metis dropWhile_same_length)
      moreover obtain c r where s: "s = c # r" using 2(1) by (cases s) auto
      ultimately have "\<not> is_sep seps c" using s1
        by (metis dropWhile_eq_Cons_conv hd_dropWhile list.discI list.sel(1))
      then have "w \<noteq> []" using 2 s \<open>s1 = s\<close> by (auto split: if_splits)
      then show False using len by simp
    qed
    then show ?thesis using le nf by simp
  qed
qed

declare split_loop.simps [simp del]

definition strcoll_split :: "wvstring \<Rightarrow> string \<Rightarrow> int \<Rightarrow> string list" where
  "strcoll_split s seps limit =
     (case s of None \<Rightarrow> []
      | Some t \<Rightarrow> (if t = [] then [[]] else []) @ split_loop seps limit True t)"

text \<open>\<open>strcoll_splitstrict\<close>: every separator ends a field, empty fields are kept.\<close>

function splitstrict_loop :: "string \<Rightarrow> int \<Rightarrow> string \<Rightarrow> string list" where
  "splitstrict_loop seps limit cur =
     (let limit' = limit - 1
      in if limit' = 0 then [cur]
         else let w = takeWhile (\<lambda>c. \<not> is_sep seps c) cur; rest = drop (length w) cur
              in if rest = [] then [w] else w # splitstrict_loop seps limit' (tl rest))"
  by pat_completeness auto
termination
proof (relation "measure (\<lambda>(seps, limit, cur). length cur)", goal_cases)
  case 1
  show ?case by simp
next
  case (2 seps limit cur limit' w rest)
  then show ?case by (cases rest) (auto dest!: arg_cong [where f = length])
qed

declare splitstrict_loop.simps [simp del]

definition strcoll_splitstrict :: "wvstring \<Rightarrow> string \<Rightarrow> int \<Rightarrow> string list" where
  "strcoll_splitstrict s seps limit =
     (case s of None \<Rightarrow> [] | Some t \<Rightarrow> splitstrict_loop seps limit t)"

text \<open>\<open>strcoll_join\<close>: a null element contributes nothing, but still its separator.\<close>

fun join_from :: "string \<Rightarrow> bool \<Rightarrow> wvstring list \<Rightarrow> string" where
  "join_from joinchars first [] = []"
| "join_from joinchars first (s # ss) =
     (if first then [] else joinchars) @ (case s of None \<Rightarrow> [] | Some t \<Rightarrow> t)
       @ join_from joinchars False ss"

definition strcoll_join :: "wvstring list \<Rightarrow> string \<Rightarrow> string" where
  "strcoll_join coll joinchars = join_from joinchars True coll"

subsection \<open>The parts of a split\<close>

lemma split_loop_Nil [simp]: "split_loop seps limit first [] = []"
  by (simp add: split_loop.simps)

text \<open>The maximal runs of non-separators of a string, the specification of splitting.\<close>

fun words :: "(char \<Rightarrow> bool) \<Rightarrow> string \<Rightarrow> string list" where
  "words p [] = []"
| "words p (c # s) =
     (if p c then words p s
      else if s = [] \<or> p (hd s) then [c] # words p s
      else (case words p s of [] \<Rightarrow> [[c]] | w # ws \<Rightarrow> (c # w) # ws))"

lemma words_sep_append: "\<forall>c \<in> set u. p c \<Longrightarrow> words p (u @ s) = words p s"
  by (induction u) auto

lemma words_dropWhile: "words p (dropWhile p s) = words p s"
  by (induction s) auto

lemma words_run:
  "w \<noteq> [] \<Longrightarrow> \<forall>c \<in> set w. \<not> p c \<Longrightarrow> (r \<noteq> [] \<Longrightarrow> p (hd r)) \<Longrightarrow> words p (w @ r) = w # words p r"
proof (induction w)
  case Nil
  then show ?case by simp
next
  case (Cons c w)
  show ?case
  proof (cases w)
    case Nil
    then show ?thesis using Cons.prems by (cases r) auto
  next
    case (Cons d w')
    have "words p (w @ r) = w # words p r"
      using Cons Cons.prems by (intro Cons.IH) auto
    then show ?thesis using Cons Cons.prems by simp
  qed
qed

lemma words_step:
  assumes "s \<noteq> []" "\<not> p (hd s)"
  shows "words p s = takeWhile (\<lambda>c. \<not> p c) s # words p (dropWhile (\<lambda>c. \<not> p c) s)"
proof -
  have "words p (takeWhile (\<lambda>c. \<not> p c) s @ dropWhile (\<lambda>c. \<not> p c) s) =
    takeWhile (\<lambda>c. \<not> p c) s # words p (dropWhile (\<lambda>c. \<not> p c) s)"
  proof (rule words_run)
    show "takeWhile (\<lambda>c. \<not> p c) s \<noteq> []" using assms by (cases s) auto
    show "\<forall>c\<in>set (takeWhile (\<lambda>c. \<not> p c) s). \<not> p c" by (blast dest: set_takeWhileD)
    show "dropWhile (\<lambda>c. \<not> p c) s \<noteq> [] \<Longrightarrow> p (hd (dropWhile (\<lambda>c. \<not> p c) s))"
      using hd_dropWhile by metis
  qed
  then show ?thesis by simp
qed

lemma drop_takeWhile: "drop (length (takeWhile p s)) s = dropWhile p s"
  by (metis append_eq_conv_conj takeWhile_dropWhile_id)

text \<open>Without a limit, the non-empty parts of \<open>strcoll_split\<close> are the runs.\<close>

lemma split_loop_words:
  "limit \<le> 0 \<Longrightarrow> filter (\<lambda>w. w \<noteq> []) (split_loop seps limit first s) = words (is_sep seps) s"
proof (induction seps limit first s rule: split_loop.induct)
  case (1 seps limit first s)
  show ?case
  proof (cases "s = []")
    case True
    then show ?thesis by simp
  next
    case False
    define s1 where "s1 = (if first then s else dropWhile (is_sep seps) s)"
    define w where "w = takeWhile (\<lambda>c. \<not> is_sep seps c) s1"
    have lim: "limit - 1 \<noteq> 0" "limit - 1 \<le> 0" using "1.prems" by auto
    have unf: "split_loop seps limit first s = w # split_loop seps (limit - 1) False (drop (length w) s1)"
      using False lim by (subst split_loop.simps) (simp add: Let_def s1_def w_def)
    have IH: "filter (\<lambda>w. w \<noteq> []) (split_loop seps (limit - 1) False (drop (length w) s1))
        = words (is_sep seps) (drop (length w) s1)"
      using "1.IH" [OF False refl s1_def _ lim(2), of w] lim by (simp add: w_def)
    have ws: "words (is_sep seps) s = words (is_sep seps) s1"
      by (simp add: s1_def words_dropWhile)
    show ?thesis
    proof (cases "w = []")
      case True
      then show ?thesis using unf IH ws by simp
    next
      case w: False
      then have "s1 \<noteq> []" "\<not> is_sep seps (hd s1)" by (auto simp: w_def takeWhile_eq_Nil_iff)
      then have "words (is_sep seps) s1 = w # words (is_sep seps) (drop (length w) s1)"
        by (simp add: w_def drop_takeWhile words_step)
      then show ?thesis using unf IH ws w by simp
    qed
  qed
qed

text \<open>The parts of a split are never more than its characters plus one.\<close>

lemma words_no_sep: "w \<in> set (words p s) \<Longrightarrow> w \<noteq> [] \<and> (\<forall>c \<in> set w. \<not> p c)"
  by (induction s arbitrary: w) (fastforce split: if_splits list.splits)+

lemma words_concat_chars: "w \<in> set (words p s) \<Longrightarrow> set w \<subseteq> set s"
  by (induction s arbitrary: w) (fastforce split: if_splits list.splits)+

lemma last_dropWhile: "dropWhile p s \<noteq> [] \<Longrightarrow> last (dropWhile p s) = last s"
  by (induction s) auto

text \<open>A string that ends with a separator gives an empty last part.\<close>

lemma split_loop_trailing:
  "limit \<le> 0 \<Longrightarrow> s \<noteq> [] \<Longrightarrow> is_sep seps (last s) \<Longrightarrow> [] \<in> set (split_loop seps limit first s)"
proof (induction seps limit first s rule: split_loop.induct)
  case (1 seps limit first s)
  define s1 where "s1 = (if first then s else dropWhile (is_sep seps) s)"
  define w where "w = takeWhile (\<lambda>c. \<not> is_sep seps c) s1"
  have lim: "limit - 1 \<noteq> 0" "limit - 1 \<le> 0" using "1.prems" by auto
  have unf: "split_loop seps limit first s = w # split_loop seps (limit - 1) False (drop (length w) s1)"
    using "1.prems" lim by (subst split_loop.simps) (simp add: Let_def s1_def w_def)
  show ?case
  proof (cases "w = []")
    case True
    then show ?thesis using unf by simp
  next
    case False
    have s1: "s1 \<noteq> []" using False by (auto simp: w_def)
    then have l1: "last s1 = last s" by (cases first) (simp_all add: s1_def last_dropWhile)
    have ne: "drop (length w) s1 \<noteq> []"
    proof
      assume "drop (length w) s1 = []"
      then have "w = s1" unfolding w_def drop_takeWhile by (metis append_Nil2 takeWhile_dropWhile_id)
      then show False using "1.prems" l1 s1 last_in_set [OF s1]
        by (metis set_takeWhileD w_def)
    qed
    then have "[] \<in> set (split_loop seps (limit - 1) False (drop (length w) s1))"
      using "1.IH" [OF "1.prems"(2) refl s1_def _ lim(2), of w] lim "1.prems" l1
      by (simp add: w_def)
    then show ?thesis using unf by simp
  qed
qed

lemma strcoll_split_trailing:
  "t \<noteq> [] \<Longrightarrow> is_sep seps (last t) \<Longrightarrow> last t = d \<Longrightarrow> [] \<in> set (strcoll_split (Some t) seps 0)"
  by (simp add: strcoll_split_def split_loop_trailing)

subsection \<open>Splitting and joining on one separator\<close>

lemma join_from_strict:
  "join_from [d] False (map Some ws) = concat (map (\<lambda>w. d # w) ws)"
  by (induction ws) auto

lemma splitstrict_loop_nonempty: "splitstrict_loop seps limit s \<noteq> []"
  by (subst splitstrict_loop.simps) (simp add: Let_def)

lemma splitstrict_join:
  "strcoll_join (map Some (splitstrict_loop [d] limit s)) [d] = s"
proof (induction "[d]" limit s rule: splitstrict_loop.induct)
  case (1 limit s)
  define w where "w = takeWhile (\<lambda>c. \<not> is_sep [d] c) s"
  have dw: "drop (length w) s = dropWhile (\<lambda>c. \<not> is_sep [d] c) s"
    by (simp add: w_def drop_takeWhile)
  have unf: "splitstrict_loop [d] limit s = (if limit - 1 = 0 then [s]
      else case drop (length w) s of [] \<Rightarrow> [w] | _ # r \<Rightarrow> w # splitstrict_loop [d] (limit - 1) r)"
    unfolding w_def by (subst splitstrict_loop.simps) (auto simp only: Let_def list.sel simp_thms list.distinct if_True if_False split: list.split)
  show ?case
  proof (cases "limit - 1 = 0")
    case True
    then show ?thesis by (subst splitstrict_loop.simps) (simp add: strcoll_join_def)
  next
    case lim: False
    show ?thesis
    proof (cases "drop (length w) s")
      case Nil
      then have "w = s" using dw
        by (metis append_Nil2 takeWhile_dropWhile_id w_def)
      then show ?thesis using lim Nil
        by (subst splitstrict_loop.simps) (simp add: Let_def strcoll_join_def flip: w_def)
    next
      case (Cons c r)
      have c: "c = d" using Cons dw
        by (metis hd_dropWhile is_sep_def list.discI list.sel(1) list.set_intros(1) set_ConsD
            empty_iff empty_set)
      have IH: "strcoll_join (map Some (splitstrict_loop [d] (limit - 1) r)) [d] = r"
        using "1" [of "limit - 1" w "drop (length w) s"] lim Cons by (simp add: w_def [symmetric])
      obtain v vs where v: "splitstrict_loop [d] (limit - 1) r = v # vs"
        using splitstrict_loop_nonempty by (metis list.exhaust)
      have "splitstrict_loop [d] limit s = w # v # vs"
        using lim Cons v unf by simp
      then have "strcoll_join (map Some (splitstrict_loop [d] limit s)) [d] = w @ d # r"
        using IH v by (simp add: strcoll_join_def)
      also have "\<dots> = s" using Cons c by (metis append_take_drop_id append_eq_conv_conj dw w_def
            takeWhile_dropWhile_id)
      finally show ?thesis .
    qed
  qed
qed

end
