(* ===== verification/UniConfKey.thy ===== *)
theory UniConfKey
  imports WvStringColl "HOL-Library.Word" "HOL-Library.List_Lexorder"
begin

unbundle bit_operations_syntax

text \<open>
  The value of a UniConf key (\<open>uniconf/uniconfkey.cc\<close>, \<open>include/uniconfkey.h\<close>): the list
  of its visible segments, \<open>segments[left] .. segments[right - 1]\<close>.  A \<open>Segment\<close> is never
  null (its constructor turns a null string into the empty one), so it is a string.  The
  operations that read a key or build a new one are translated here over that value; the
  theory \<open>UniConfKeyStore\<close> models the shared vectors underneath, with their capacities.
  Segment counts are the C \<open>int\<close>s, kept as \<open>int\<close> (keys have fewer than \<open>2 ^ 31\<close>
  segments).
\<close>

type_synonym key = "string list"

definition INT_MAX :: int where
  "INT_MAX = 2147483647"

definition seg_iswild :: "string \<Rightarrow> bool" where
  "seg_iswild s \<longleftrightarrow> s = ''*'' \<or> s = ''...''"

definition key_EMPTY :: key where "key_EMPTY = []"
definition key_ANY :: key where "key_ANY = [''*'']"
definition key_RECURSIVE_ANY :: key where "key_RECURSIVE_ANY = [''...'']"

text \<open>The constructor from a string: \<open>Store::Store\<close> splits, drops the empty parts, and keeps
  a trailing slash as one empty last segment.\<close>

definition key_of_string :: "wvstring \<Rightarrow> key" where
  "key_of_string k =
     (if str_not k then []
      else let segs = filter (\<lambda>part. part \<noteq> []) (strcoll_split k ''/'' 0)
           in segs @ (if last (the k) = CHR ''/'' \<and> segs \<noteq> [] then [[]] else []))"

definition key_collapse :: "key \<Rightarrow> key" where
  "key_collapse ks = (if ks = [] \<or> ks = [[]] then [] else ks)"

definition key_isempty :: "key \<Rightarrow> bool" where
  "key_isempty ks \<longleftrightarrow> ks = []"

definition key_iswild :: "key \<Rightarrow> bool" where
  "key_iswild ks \<longleftrightarrow> (\<exists>s \<in> set ks. seg_iswild s)"

definition key_hastrailingslash :: "key \<Rightarrow> bool" where
  "key_hastrailingslash ks \<longleftrightarrow> ks \<noteq> [] \<and> last ks = []"

definition key_numsegments :: "key \<Rightarrow> int" where
  "key_numsegments ks = int (length ks)"

definition key_range :: "key \<Rightarrow> int \<Rightarrow> int \<Rightarrow> key" where
  "key_range ks i j =
     (let n = key_numsegments ks;
          j1 = (if j > n then n else j);
          i1 = (if i < 0 then 0 else i);
          j2 = (if j1 < i1 then i1 else j1)
      in key_collapse (take (nat (j2 - i1)) (drop (nat i1) ks)))"

definition key_segment :: "key \<Rightarrow> int \<Rightarrow> key" where
  "key_segment ks n = key_range ks n (n + 1)"

definition key_first :: "key \<Rightarrow> int \<Rightarrow> key" where
  "key_first ks n = key_range ks 0 n"

definition key_last :: "key \<Rightarrow> int \<Rightarrow> key" where
  "key_last ks n = key_range ks (key_numsegments ks - n) INT_MAX"

definition key_removefirst :: "key \<Rightarrow> int \<Rightarrow> key" where
  "key_removefirst ks n = key_range ks n INT_MAX"

definition key_removelast :: "key \<Rightarrow> int \<Rightarrow> key" where
  "key_removelast ks n = key_range ks 0 (key_numsegments ks - n)"

text \<open>\<open>pop\<close> returns the first segments and leaves the rest.\<close>

definition key_pop :: "key \<Rightarrow> int \<Rightarrow> key \<times> key" where
  "key_pop ks n =
     (if n = 0 then ([], ks)
      else let n1 = (if n > key_numsegments ks then key_numsegments ks else n);
               n2 = (if n1 < 0 then 0 else n1)
           in (key_collapse (take (nat n2) ks), key_collapse (drop (nat n2) ks)))"

text \<open>The two-key constructor, \<open>append\<close> and \<open>prepend\<close>.\<close>

definition nonempty_segs :: "key \<Rightarrow> key" where
  "nonempty_segs ks = filter (\<lambda>s. s \<noteq> []) ks"

definition key_concat :: "key \<Rightarrow> key \<Rightarrow> key" where
  "key_concat path key =
     (let hastrailingslash = (key_isempty key \<or> key_hastrailingslash key)
      in key_collapse (nonempty_segs path @ nonempty_segs key @ (if hastrailingslash then [[]] else [])))"

definition key_append :: "key \<Rightarrow> key \<Rightarrow> key" where
  "key_append this key =
     (let hastrailingslash = (key_isempty key \<or> key_hastrailingslash key)
      in key_collapse (this @ nonempty_segs key @ (if hastrailingslash then [[]] else [])))"

definition key_prepend :: "key \<Rightarrow> key \<Rightarrow> key" where
  "key_prepend this key = key_collapse (nonempty_segs key @ this)"

text \<open>\<open>printable\<close>: the segments joined by slashes.\<close>

fun key_printable :: "key \<Rightarrow> string" where
  "key_printable [] = []"
| "key_printable [s] = s"
| "key_printable (s # ss) = s @ CHR ''/'' # key_printable ss"

fun key_compareto :: "key \<Rightarrow> key \<Rightarrow> int" where
  "key_compareto [] [] = 0"
| "key_compareto [] (t # ts) = -1"
| "key_compareto (s # ss) [] = 1"
| "key_compareto (s # ss) (t # ts) =
     (let val = c_strcasecmp s t in if val \<noteq> 0 then val else key_compareto ss ts)"

definition key_eq :: "key \<Rightarrow> key \<Rightarrow> bool" where
  "key_eq k1 k2 \<longleftrightarrow> key_compareto k1 k2 = 0"

definition key_less :: "key \<Rightarrow> key \<Rightarrow> bool" where
  "key_less k1 k2 \<longleftrightarrow> key_compareto k1 k2 < 0"

definition key_suborsame :: "key \<Rightarrow> key \<Rightarrow> bool" where
  "key_suborsame this key =
     (let n = key_numsegments this - (if key_hastrailingslash this then 1 else 0)
      in key_eq (key_first key n) (key_first this n))"

text \<open>The three-argument form also stores the rest of \<open>key\<close> in \<open>subkey\<close> on success.\<close>

definition key_suborsame_sub :: "key \<Rightarrow> key \<Rightarrow> key option" where
  "key_suborsame_sub this key =
     (let n = key_numsegments this - (if key_hastrailingslash this then 1 else 0)
      in if key_eq (key_first key n) (key_first this n)
         then Some (key_removefirst key n) else None)"

text \<open>\<open>matches\<close>: the keys its loop over \<open>n\<close> tries for the wildcard \<open>...\<close>, ending with the
  first empty one.\<close>

function key_parts :: "key \<Rightarrow> nat \<Rightarrow> key list" where
  "key_parts ks n =
     (let part = key_removefirst ks (int n)
      in if key_isempty part then [part] else part # key_parts ks (Suc n))"
  by pat_completeness auto
termination
  by (relation "measure (\<lambda>(ks, n). length ks - n)")
     (auto simp: key_removefirst_def key_range_def key_isempty_def key_collapse_def Let_def
        key_numsegments_def split: if_splits)

declare key_parts.simps [simp del]

lemma length_key_removefirst_1 [termination_simp]:
  "ks \<noteq> [] \<Longrightarrow> length (key_removefirst ks 1) < length ks"
  by (auto simp: key_removefirst_def key_range_def key_collapse_def Let_def)

lemma key_first_nonempty [termination_simp]: "key_eq (key_first ks 1) [s] \<Longrightarrow> ks \<noteq> []"
  by (auto simp: key_first_def key_range_def key_collapse_def Let_def key_eq_def)

function key_matches :: "key \<Rightarrow> key \<Rightarrow> bool" where
  "key_matches this pattern =
     (if key_eq this pattern then True
      else let head = key_first pattern 1
           in if key_eq head key_ANY
              then (if key_isempty this then False
                    else key_matches (key_removefirst this 1) (key_removefirst pattern 1))
              else if key_eq head key_RECURSIVE_ANY
              then (let tail = key_removefirst pattern 1
                    in if key_isempty tail then True
                       else list_ex (\<lambda>part. key_matches part tail) (key_parts this 0))
              else False)"
  by pat_completeness auto
termination
  by (relation "measure (\<lambda>(this, pattern). length pattern)")
     (auto simp: key_ANY_def key_RECURSIVE_ANY_def
       intro!: length_key_removefirst_1 dest!: key_first_nonempty)

declare key_matches.simps [simp del]

subsection \<open>The hash of a key\<close>

text \<open>\<open>WvHash\<close> on a C string (\<open>utils/wvhash.cc\<close>), at the 32 bits of \<open>unsigned\<close>.\<close>

definition wvhash_step :: "32 word \<Rightarrow> char \<Rightarrow> 32 word" where
  "wvhash_step hash c =
     push_bit 4 hash XOR (of_nat (code_of c) AND 0x1F)
       XOR drop_bit 27 (hash AND push_bit 27 0x1F)"

definition wvhash_str :: "string \<Rightarrow> 32 word" where
  "wvhash_str s = foldl wvhash_step 0 s"

definition wvhash_key :: "key \<Rightarrow> 32 word" where
  "wvhash_key ks =
     (if ks = [] then 0
      else if length ks = 1 then wvhash_str (hd ks)
      else wvhash_str (hd ks) XOR wvhash_str (last ks) XOR of_nat (length ks))"

lemmas [key_simps] = key_of_string_def key_collapse_def key_isempty_def key_hastrailingslash_def
  key_numsegments_def key_range_def key_segment_def key_first_def key_last_def
  key_removefirst_def key_removelast_def nonempty_segs_def INT_MAX_def

subsection \<open>The order on keys\<close>

text \<open>The keys that occur are lists of C strings.  \<open>key_ord\<close> is what the comparison reads of a
  key: the lower-cased byte codes of its segments; on it \<open>compareto\<close> is the
  lexicographic order of the library.\<close>

definition key_cstr :: "key \<Rightarrow> bool" where
  "key_cstr ks \<longleftrightarrow> (\<forall>s \<in> set ks. c_str s)"

definition str_ord :: "string \<Rightarrow> nat list" where
  "str_ord s = map (\<lambda>c. code_of (c_tolower c)) s"

definition key_ord :: "key \<Rightarrow> nat list list" where
  "key_ord ks = map str_ord ks"

lemma c_tolower_NUL [simp]: "c_tolower c = NUL \<longleftrightarrow> c = NUL"
proof -
  have "(code_of (c_tolower c) :: nat) = 0 \<longleftrightarrow> (code_of c :: nat) = 0"
    by (simp add: code_of_tolower c_isupper_def)
  then show ?thesis by (simp add: code_of_zero)
qed

lemma str_ord_simps [simp]:
  "str_ord [] = []" "str_ord (c # s) = code_of (c_tolower c) # str_ord s"
  "str_ord s = str_ord t \<longleftrightarrow> lower s = lower t"
proof -
  have "map (\<lambda>c. code_of c :: nat) (lower s) = map (\<lambda>c. code_of c) (lower t) \<longleftrightarrow> lower s = lower t"
    by (rule inj_map_eq_map) (simp add: inj_def)
  then show "str_ord s = str_ord t \<longleftrightarrow> lower s = lower t"
    by (simp add: str_ord_def lower_def comp_def)
qed (simp_all add: str_ord_def)

lemma key_cstr_simps [simp]: "key_cstr []" "key_cstr (s # ks) \<longleftrightarrow> c_str s \<and> key_cstr ks"
  "key_cstr (ks @ ls) \<longleftrightarrow> key_cstr ks \<and> key_cstr ls"
  by (auto simp: key_cstr_def)

lemma strcasecmp_sgn:
  "c_str s \<Longrightarrow> c_str t \<Longrightarrow>
     (c_strcasecmp s t < 0 \<longleftrightarrow> str_ord s < str_ord t) \<and>
     (c_strcasecmp s t = 0 \<longleftrightarrow> str_ord s = str_ord t)"
proof (induction s t rule: c_strcasecmp.induct)
  case (2 y ys)
  then have "(code_of (c_tolower y) :: nat) \<noteq> 0" by (simp add: code_of_zero)
  then show ?case by simp
next
  case (3 x xs)
  then have "(code_of (c_tolower x) :: nat) \<noteq> 0" by (simp add: code_of_zero)
  then show ?case by simp
next
  case (4 x xs y ys)
  then show ?case by (auto simp: Let_def simp del: code_of_eq_iff str_ord_simps(3))
qed simp_all

lemma key_ord_simps [simp]: "key_ord [] = []" "key_ord (s # ks) = str_ord s # key_ord ks"
  by (simp_all add: key_ord_def)

lemma key_ord_eq: "key_ord k1 = key_ord k2 \<longleftrightarrow> map lower k1 = map lower k2"
  by (induction k1 arbitrary: k2) (auto simp: key_ord_def map_eq_Cons_conv Cons_eq_map_conv)

lemma key_compareto_sgn:
  "key_cstr k1 \<Longrightarrow> key_cstr k2 \<Longrightarrow>
     (key_compareto k1 k2 < 0 \<longleftrightarrow> key_ord k1 < key_ord k2) \<and>
     (key_compareto k1 k2 = 0 \<longleftrightarrow> key_ord k1 = key_ord k2)"
proof (induction k1 k2 rule: key_compareto.induct)
  case (4 s ss t ts)
  then show ?case using strcasecmp_sgn [of s t] by (auto simp: Let_def)
qed simp_all

lemma key_eq_iff: "key_cstr k1 \<Longrightarrow> key_cstr k2 \<Longrightarrow> key_eq k1 k2 \<longleftrightarrow> map lower k1 = map lower k2"
  by (simp add: key_eq_def key_compareto_sgn key_ord_eq)

lemma key_less_iff: "key_cstr k1 \<Longrightarrow> key_cstr k2 \<Longrightarrow> key_less k1 k2 \<longleftrightarrow> key_ord k1 < key_ord k2"
  by (simp add: key_less_def key_compareto_sgn)

lemma key_eq_refl [simp]: "key_eq k k"
proof -
  have [simp]: "c_strcasecmp s s = 0" for s by (induction s) auto
  have "key_compareto k k = 0" by (induction k) auto
  then show ?thesis by (simp add: key_eq_def)
qed

subsection \<open>Ranges of segments\<close>

lemma key_collapse_simps [simp]:
  "key_collapse [] = []" "key_collapse [s] = (if s = [] then [] else [s])"
  "key_collapse (s # t # ks) = s # t # ks"
  by (auto simp: key_collapse_def)

lemma key_removefirst_nat: "key_removefirst ks (int n) = key_collapse (drop n ks)"
  if "length ks \<le> nat INT_MAX"
  using that by (auto simp: key_removefirst_def key_range_def Let_def key_numsegments_def INT_MAX_def
      key_collapse_def)

lemma key_first_nat: "key_first ks (int n) = key_collapse (take n ks)"
  by (auto simp: key_first_def key_range_def Let_def key_numsegments_def)

subsection \<open>Printing and parsing\<close>

text \<open>A well-formed key: no segment holds a slash, only the last one may be empty (the trailing
  slash), and the one-segment key with an empty segment is the root.\<close>

definition key_wf :: "key \<Rightarrow> bool" where
  "key_wf ks \<longleftrightarrow> key_cstr ks \<and> (\<forall>s \<in> set ks. CHR ''/'' \<notin> set s)
     \<and> (\<forall>s \<in> set (butlast ks). s \<noteq> []) \<and> ks \<noteq> [[]]"

abbreviation is_slash :: "char \<Rightarrow> bool" where
  "is_slash \<equiv> is_sep ''/''"

lemma is_slash_iff: "is_slash c \<longleftrightarrow> c = CHR ''/''"
  by (simp add: is_sep_def)

lemma words_printable:
  "\<forall>s \<in> set ks. CHR ''/'' \<notin> set s \<Longrightarrow> words is_slash (key_printable ks) = filter (\<lambda>s. s \<noteq> []) ks"
proof (induction ks rule: key_printable.induct)
  case (2 s)
  then have "\<forall>c \<in> set s. \<not> is_slash c" by (auto simp: is_slash_iff)
  then show ?case using words_run [of s is_slash "[]"] by (cases "s = []") auto
next
  case (3 s t ts)
  have "words is_slash (s @ CHR ''/'' # key_printable (t # ts)) =
    (if s = [] then [] else [s]) @ words is_slash (key_printable (t # ts))"
    using 3 words_run [of s is_slash "CHR ''/'' # key_printable (t # ts)"]
    by (auto simp: is_slash_iff)
  then show ?case using 3 by simp
qed simp

lemma key_printable_eq_Nil: "key_printable ks = [] \<longleftrightarrow> ks = [] \<or> ks = [[]]"
  by (cases ks rule: key_printable.cases) auto

lemma last_printable:
  "ks \<noteq> [] \<Longrightarrow> ks \<noteq> [[]] \<Longrightarrow> \<forall>s \<in> set ks. CHR ''/'' \<notin> set s \<Longrightarrow>
     last (key_printable ks) = CHR ''/'' \<longleftrightarrow> last ks = []"
proof (induction ks rule: key_printable.induct)
  case (2 s)
  then have s: "s \<noteq> []" "CHR ''/'' \<notin> set s" by auto
  have "last s \<noteq> CHR ''/''" using s last_in_set [OF s(1)] by metis
  then show ?case using s by simp
next
  case (3 s t ts)
  show ?case
  proof (cases "t # ts = [[]]")
    case False
    then show ?thesis using 3 by (auto simp: key_printable_eq_Nil)
  qed simp
qed simp

lemma filter_nonempty_butlast:
  assumes "ks \<noteq> []" "\<forall>s \<in> set (butlast ks). s \<noteq> []"
  shows "filter (\<lambda>s. s \<noteq> []) ks @ (if last ks = [] then [[]] else []) = ks"
proof -
  have "filter (\<lambda>s. s \<noteq> []) (butlast ks @ [last ks]) @ (if last ks = [] then [[]] else [])
      = butlast ks @ [last ks]"
    using assms(2) by simp
  then show ?thesis using assms(1) by simp
qed

lemma split_parts: "filter (\<lambda>part. part \<noteq> []) (strcoll_split (Some t) ''/'' 0) = words is_slash t"
  by (simp add: strcoll_split_def split_loop_words)

lemma key_of_printable: "key_wf ks \<Longrightarrow> key_of_string (Some (key_printable ks)) = ks"
proof (cases "ks = []")
  case True
  then show ?thesis by (simp add: key_of_string_def str_not_def)
next
  case False
  assume wf: "key_wf ks"
  then have ns: "\<forall>s \<in> set ks. CHR ''/'' \<notin> set s" and ne: "ks \<noteq> [[]]"
    and bl: "\<forall>s \<in> set (butlast ks). s \<noteq> []"
    by (auto simp: key_wf_def)
  have p: "key_printable ks \<noteq> []" using False ne by (simp add: key_printable_eq_Nil)
  have nz: "filter (\<lambda>s. s \<noteq> []) ks \<noteq> []" 
  proof -
    obtain s r where ks: "ks = s # r" using False by (cases ks) auto
    then have "s \<noteq> []" using bl ne by (cases r) auto
    then show ?thesis using ks by simp
  qed
  show ?thesis using p nz filter_nonempty_butlast [OF False bl]
    by (simp add: key_of_string_def str_not_def Let_def split_parts words_printable [OF ns]
        last_printable [OF False ne ns])
qed

lemma key_of_string_wf:
  assumes "c_str t"
  shows "key_wf (key_of_string (Some t))"
proof -
  have w: "s \<noteq> [] \<and> (\<forall>c \<in> set s. c \<noteq> CHR ''/'') \<and> set s \<subseteq> set t"
    if "s \<in> set (words is_slash t)" for s
    using words_no_sep [OF that] words_concat_chars [OF that] by (auto simp: is_slash_iff)
  show ?thesis
    using assms w
    by (fastforce simp: key_of_string_def str_not_def Let_def split_parts key_wf_def key_cstr_def
        c_str_def butlast_append dest: in_set_butlastD)
qed

subsection \<open>Wildcards\<close>

text \<open>Keys and patterns without empty segments, the ones a caller builds.\<close>

definition key_plain :: "key \<Rightarrow> bool" where
  "key_plain ks \<longleftrightarrow> key_cstr ks \<and> [] \<notin> set ks \<and> int (length ks) \<le> INT_MAX"

lemma key_collapse_plain: "[] \<notin> set ks \<Longrightarrow> key_collapse ks = ks"
  by (auto simp: key_collapse_def)

lemma key_plain_ConsD: "key_plain (s # ks) \<Longrightarrow> key_plain ks \<and> c_str s \<and> s \<noteq> []"
  by (auto simp: key_plain_def)

lemma key_plain_drop: "key_plain ks \<Longrightarrow> key_plain (drop n ks)"
  by (auto simp: key_plain_def key_cstr_def dest: in_set_dropD)

lemma key_removefirst_plain: "key_plain ks \<Longrightarrow> key_removefirst ks (int n) = drop n ks"
proof -
  assume a: "key_plain ks"
  then have "[] \<notin> set (drop n ks)" by (meson in_set_dropD key_plain_def)
  then show ?thesis using a by (subst key_removefirst_nat) (auto simp: key_plain_def key_collapse_plain)
qed

lemma key_parts_plain: "key_plain ks \<Longrightarrow> n \<le> length ks \<Longrightarrow>
    key_parts ks n = map (\<lambda>m. drop m ks) [n..<Suc (length ks)]"
proof (induction "length ks - n" arbitrary: n)
  case 0
  then show ?case by (subst key_parts.simps) (simp add: Let_def key_removefirst_plain key_isempty_def)
next
  case (Suc d)
  then have "n < length ks" by simp
  then show ?case using Suc
    by (subst key_parts.simps) (simp add: Let_def key_removefirst_plain key_isempty_def upt_conv_Cons)
qed

lemma c_tolower_symbol: "\<not> c_islower d \<Longrightarrow> \<not> c_isupper d \<Longrightarrow> c_tolower c = d \<longleftrightarrow> c = d"
proof -
  assume d: "\<not> c_islower d" "\<not> c_isupper d"
  show ?thesis
  proof (cases "c_isupper c")
    case True
    then have "c_islower (c_tolower c)"
      unfolding c_islower_def code_of_tolower by (simp add: c_isupper_def)
    then show ?thesis using True d by auto
  next
    case False
    then show ?thesis by (simp add: c_tolower_def)
  qed
qed

lemma lower_star: "lower s = ''*'' \<longleftrightarrow> s = ''*''"
  by (cases s) (auto simp: c_tolower_symbol c_islower_def c_isupper_def)

lemma lower_dots: "lower s = ''...'' \<longleftrightarrow> s = ''...''"
  by (auto simp: lower_def map_eq_Cons_conv c_tolower_symbol c_islower_def c_isupper_def)

lemma lower_wild: "lower ''*'' = ''*''" "lower ''...'' = ''...''"
  by (simp_all add: c_tolower_def c_isupper_def)

text \<open>One step of \<open>matches\<close> on plain keys.\<close>

lemma key_first_Cons: "s \<noteq> [] \<Longrightarrow> key_first (s # ks) 1 = [s]"
  using key_first_nat [of "s # ks" 1] by simp

lemma key_removefirst_1: "key_plain (s # ks) \<Longrightarrow> key_removefirst (s # ks) 1 = ks"
  using key_removefirst_plain [of "s # ks" 1] by simp

lemma key_eq_wild:
  "c_str s \<Longrightarrow> key_eq [s] key_ANY \<longleftrightarrow> s = ''*''"
  "c_str s \<Longrightarrow> key_eq [s] key_RECURSIVE_ANY \<longleftrightarrow> s = ''...''"
  by (simp_all add: key_eq_iff key_ANY_def key_RECURSIVE_ANY_def lower_star lower_dots lower_wild
      del: lower_simps(2))

lemma key_matches_Nil: "key_plain k \<Longrightarrow> key_matches k [] \<longleftrightarrow> k = []"
  by (subst key_matches.simps)
     (auto simp: key_first_def key_range_def Let_def key_numsegments_def key_eq_iff key_ANY_def
        key_RECURSIVE_ANY_def key_plain_def)

lemma key_matches_Cons:
  assumes k: "key_plain k" and p: "key_plain (p # ps)"
  shows "key_matches k (p # ps) \<longleftrightarrow>
    map lower k = map lower (p # ps) \<or>
    (p = ''*'' \<and> k \<noteq> [] \<and> key_matches (tl k) ps) \<or>
    (p = ''...'' \<and> (ps = [] \<or> (\<exists>n \<le> length k. key_matches (drop n k) ps)))"
proof -
  have ps: "key_plain ps" "c_str p" "p \<noteq> []" using key_plain_ConsD [OF p] by auto
  have eq: "key_eq k (p # ps) \<longleftrightarrow> map lower k = map lower (p # ps)"
    using k p by (simp add: key_eq_iff key_plain_def)
  have tl: "key_removefirst k 1 = tl k" if "k \<noteq> []"
    using that k by (cases k) (auto simp: key_removefirst_1)
  have ex: "list_ex (\<lambda>part. key_matches part ps) (key_parts k 0) \<longleftrightarrow>
      (\<exists>n \<le> length k. key_matches (drop n k) ps)"
    by (simp only: key_parts_plain [OF k] list_ex_iff set_map set_upt image_iff)
      (auto simp: less_Suc_eq_le)
  show ?thesis
    by (subst key_matches.simps)
      (simp add: eq tl ex ps key_first_Cons key_removefirst_1 [OF p] key_eq_wild key_isempty_def Let_def
        split del: if_split cong: if_cong, auto)
qed

text \<open>
  What a run of wildcards at the start of a pattern covers: every \<open>*\<close> one segment, a
  \<open>...\<close> any number more.
\<close>

definition wild_cover :: "key \<Rightarrow> nat \<Rightarrow> bool" where
  "wild_cover ws n \<longleftrightarrow> count_list ws ''*'' \<le> n \<and> (''...'' \<in> set ws \<or> n = count_list ws ''*'')"

definition wild_prefix_match :: "key \<Rightarrow> key \<Rightarrow> bool" where
  "wild_prefix_match k pat \<longleftrightarrow>
     (\<exists>ws lit n. pat = ws @ lit \<and> (\<forall>w \<in> set ws. seg_iswild w) \<and> n \<le> length k \<and> wild_cover ws n
        \<and> map lower (drop n k) = map lower lit)"

lemma wild_prefix_same: "map lower k = map lower pat \<Longrightarrow> wild_prefix_match k pat"
  unfolding wild_prefix_match_def
  by (intro exI [of _ "[]"] exI [of _ pat] exI [of _ 0]) (simp add: wild_cover_def)

lemma wild_prefix_Cons:
  "wild_prefix_match k (p # ps) \<longleftrightarrow>
    map lower k = map lower (p # ps) \<or>
    (p = ''*'' \<and> k \<noteq> [] \<and> wild_prefix_match (tl k) ps) \<or>
    (p = ''...'' \<and> (\<exists>n \<le> length k. wild_prefix_match (drop n k) ps))" (is "?L \<longleftrightarrow> ?R")
proof
  assume ?L
  then obtain ws lit n where w: "p # ps = ws @ lit" "\<forall>w \<in> set ws. seg_iswild w" "n \<le> length k"
    "wild_cover ws n" "map lower (drop n k) = map lower lit"
    by (auto simp: wild_prefix_match_def)
  show ?R
  proof (cases ws)
    case Nil
    then show ?thesis using w by (auto simp: wild_cover_def)
  next
    case (Cons v vs)
    then have v: "v = p" "ps = vs @ lit" "seg_iswild p" using w by auto
    show ?thesis
    proof (cases "p = ''*''")
      case True
      then have n: "0 < n" using w(4) Cons v by (auto simp: wild_cover_def)
      then have "wild_cover vs (n - 1)" using w(4) Cons v True by (auto simp: wild_cover_def)
      moreover have "map lower (drop (n - 1) (tl k)) = map lower lit" 
        using w(5) n by (simp add: drop_Suc [symmetric])
      ultimately have "wild_prefix_match (tl k) ps"
        using w(2,3) Cons v n unfolding wild_prefix_match_def
        by (intro exI [of _ vs] exI [of _ lit] exI [of _ "n - 1"]) auto
      then show ?thesis using True n w(3) by auto
    next
      case False
      then have p: "p = ''...''" using v by (simp add: seg_iswild_def)
      define c where "c = count_list vs ''*''"
      have c: "c \<le> n" using w(4) Cons v p by (auto simp: wild_cover_def c_def)
      have "wild_prefix_match (drop (n - c) k) ps"
        using w c v Cons unfolding wild_prefix_match_def
        by (intro exI [of _ vs] exI [of _ lit] exI [of _ c]) (auto simp: wild_cover_def c_def)
      then show ?thesis using p w(3) by (auto intro!: exI [of _ "n - c"])
    qed
  qed
next
  assume ?R
  then consider (eq) "map lower k = map lower (p # ps)"
    | (star) "p = ''*''" "k \<noteq> []" "wild_prefix_match (tl k) ps"
    | (dots) n where "p = ''...''" "n \<le> length k" "wild_prefix_match (drop n k) ps"
    by blast
  then show ?L
  proof cases
    case eq
    then show ?thesis by (rule wild_prefix_same)
  next
    case star
    then obtain ws lit n where w: "ps = ws @ lit" "\<forall>w \<in> set ws. seg_iswild w" "n \<le> length (tl k)"
      "wild_cover ws n" "map lower (drop n (tl k)) = map lower lit"
      by (auto simp: wild_prefix_match_def)
    have n: "Suc n \<le> length k" using star(2) w(3) by (cases k) auto
    have c: "wild_cover (p # ws) (Suc n)" using w(4) star(1) by (auto simp: wild_cover_def)
    have "\<forall>w \<in> set (p # ws). seg_iswild w" using w(2) star(1) by (simp add: seg_iswild_def)
    moreover have "map lower (drop (Suc n) k) = map lower lit" using w(5) by (simp add: drop_Suc)
    ultimately show ?thesis using w(1) n c unfolding wild_prefix_match_def
      by (metis append_Cons)
  next
    case (dots m)
    then obtain ws lit n where w: "ps = ws @ lit" "\<forall>w \<in> set ws. seg_iswild w" "n \<le> length (drop m k)"
      "wild_cover ws n" "map lower (drop n (drop m k)) = map lower lit"
      by (auto simp: wild_prefix_match_def)
    have n: "n + m \<le> length k" using dots(2) w(3) by simp
    have c: "wild_cover (p # ws) (n + m)" using w(4) dots(1) by (auto simp: wild_cover_def)
    have "\<forall>w \<in> set (p # ws). seg_iswild w" using w(2) dots(1) by (simp add: seg_iswild_def)
    moreover have "map lower (drop (n + m) k) = map lower lit" using w(5) by simp
    ultimately show ?thesis using w(1) n c unfolding wild_prefix_match_def
      by (metis append_Cons)
  qed
qed

lemma wild_prefix_Nil: "wild_prefix_match k [] \<longleftrightarrow> k = []"
  by (auto simp: wild_prefix_match_def wild_cover_def)

lemma wild_prefix_all: "\<exists>n \<le> length k. wild_prefix_match (drop n k) []"
  by (auto simp: wild_prefix_Nil)

lemma key_matches_spec:
  "key_plain k \<Longrightarrow> key_plain pat \<Longrightarrow> key_matches k pat \<longleftrightarrow> wild_prefix_match k pat"
proof (induction pat arbitrary: k)
  case Nil
  then show ?case by (simp add: key_matches_Nil wild_prefix_Nil)
next
  case (Cons p ps)
  note ps = key_plain_ConsD [OF Cons.prems(2)]
  have d: "key_matches (drop n k) ps \<longleftrightarrow> wild_prefix_match (drop n k) ps" for n
    using Cons.IH [of "drop n k"] Cons.prems(1) ps by (simp add: key_plain_drop)
  show ?case
    using d [of 1] wild_prefix_all [of k]
    by (auto simp: key_matches_Cons [OF Cons.prems] wild_prefix_Cons d drop_Suc)
qed

text \<open>A pattern that starts with a literal segment matches that one key only.\<close>

lemma key_matches_literal_head:
  assumes "key_plain k" "key_plain (p # ps)" "\<not> seg_iswild p"
  shows "key_matches k (p # ps) \<longleftrightarrow> key_eq k (p # ps)"
  using assms by (auto simp: key_matches_Cons key_eq_iff key_plain_def seg_iswild_def)

subsection \<open>Sub-keys\<close>

text \<open>\<open>trunk\<close> is a key without its trailing slash.\<close>

definition key_trunk :: "key \<Rightarrow> key" where
  "key_trunk ks = (if key_hastrailingslash ks then butlast ks else ks)"

lemma key_trunk_append: "ks = key_trunk ks @ (if key_hastrailingslash ks then [[]] else [])"
  by (auto simp: key_trunk_def key_hastrailingslash_def) (metis append_butlast_last_id)

lemma key_trunk_nonempty: "key_wf ks \<Longrightarrow> [] \<notin> set (key_trunk ks)"
proof -
  assume wf: "key_wf ks"
  have "[] \<notin> set (butlast ks)" using wf by (auto simp: key_wf_def)
  moreover have "ks = butlast ks @ [last ks]" if "ks \<noteq> []" using that by simp
  ultimately show ?thesis
    by (cases "ks = []") (auto simp: key_trunk_def key_hastrailingslash_def,
        metis Un_iff append_butlast_last_id in_set_conv_decomp_last list.set_intros(1) set_append
          rotate1.simps(2) set_ConsD set_rotate1)
qed

lemma nonempty_segs_wf: "key_wf ks \<Longrightarrow> nonempty_segs ks = key_trunk ks"
proof -
  assume wf: "key_wf ks"
  have "nonempty_segs (key_trunk ks @ (if key_hastrailingslash ks then [[]] else [])) = key_trunk ks"
    using key_trunk_nonempty [OF wf] by (auto simp: nonempty_segs_def filter_id_conv)
  then show ?thesis by (simp flip: key_trunk_append)
qed

lemma length_trunk:
  "key_numsegments ks - (if key_hastrailingslash ks then 1 else 0) = int (length (key_trunk ks))"
  by (cases ks) (auto simp: key_trunk_def key_numsegments_def key_hastrailingslash_def)

text \<open>The constructor of two keys and the test for a sub-key are inverse to each other.\<close>

lemma key_suborsame_concat:
  assumes a: "key_wf a" and b: "key_wf b" and len: "int (length a + length b) < INT_MAX"
  shows "key_suborsame_sub a (key_concat a b) = Some b"
proof -
  have c: "key_concat a b = key_collapse (key_trunk a @ (if b = [] then [[]] else b))"
    using a b key_trunk_append [of b]
    by (auto simp: key_concat_def Let_def nonempty_segs_wf key_isempty_def
        key_trunk_def [of "[]"] key_hastrailingslash_def [of "[]"])
  show ?thesis
  proof (cases "key_trunk a = []")
    case True
    then have "key_concat a b = b" using b c by (auto simp: key_wf_def key_collapse_def)
    then show ?thesis using True b len
      by (simp add: key_suborsame_sub_def length_trunk Let_def key_removefirst_nat [of b 0, simplified]
          key_first_nat [of _ 0, simplified] INT_MAX_def key_wf_def key_collapse_def)
  next
    case False
    define t where "t = (if b = [] then [[]] else b)"
    have cc: "key_concat a b = key_trunk a @ t"
      using False c by (cases "key_trunk a") (auto simp: t_def key_collapse_def)
    have f: "key_first a (int (length (key_trunk a))) = key_collapse (key_trunk a)"
      by (subst key_first_nat) (metis append_eq_conv_conj key_trunk_append)
    have lt: "length (key_trunk a) \<le> length a" by (simp add: key_trunk_def)
    have r: "key_removefirst (key_trunk a @ t) (int (length (key_trunk a))) = key_collapse t"
      using len lt by (subst key_removefirst_nat) (auto simp: t_def INT_MAX_def)
    have "key_collapse t = b" using b by (auto simp: t_def key_wf_def key_collapse_def)
    then show ?thesis
      using f r by (simp add: key_suborsame_sub_def length_trunk Let_def cc key_first_nat)
  qed
qed

lemma key_suborsame_iff:
  assumes a: "key_wf a" and k: "key_wf k"
  shows "key_suborsame a k \<longleftrightarrow>
    (\<exists>xs ys. k = xs @ ys \<and> map lower xs = map lower (key_trunk a))"
proof -
  let ?n = "length (key_trunk a)"
  have na: "[] \<notin> set (key_trunk a)" using a by (rule key_trunk_nonempty)
  have ta: "take ?n a = key_trunk a" by (metis append_eq_conv_conj key_trunk_append)
  have cs: "key_cstr (key_collapse (take ?n k))" "key_cstr (key_trunk a)"
    using k a ta by (auto simp: key_wf_def key_cstr_def key_collapse_def dest: in_set_takeD)
      (metis in_set_takeD)
  have "key_suborsame a k \<longleftrightarrow> map lower (key_collapse (take ?n k)) = map lower (key_trunk a)"
    using cs by (simp add: key_suborsame_def length_trunk Let_def key_first_nat ta
        key_collapse_plain [OF na] key_eq_iff)
  also have "\<dots> \<longleftrightarrow> map lower (take ?n k) = map lower (key_trunk a)"
  proof -
    have "key_collapse (take ?n k) = take ?n k" if "map lower (take ?n k) = map lower (key_trunk a)"
    proof -
      have "[] \<notin> set (take ?n k)"
      proof
        assume "[] \<in> set (take ?n k)"
        then have "lower [] \<in> lower ` set (take ?n k)" by (rule imageI)
        then have "[] \<in> set (map lower (key_trunk a))" by (simp flip: that)
        then show False using na by (metis imageE list.set_map lower_simps(5))
      qed
      then show ?thesis by (rule key_collapse_plain)
    qed
    moreover have "take ?n k = [] \<or> key_trunk a \<noteq> []" by auto
    ultimately show ?thesis by (auto simp: key_collapse_def split: if_splits)
  qed
  also have "\<dots> \<longleftrightarrow> (\<exists>xs ys. k = xs @ ys \<and> map lower xs = map lower (key_trunk a))"
    by (metis append_eq_conv_conj append_take_drop_id length_map)
  finally show ?thesis .
qed

subsection \<open>Equal keys have equal hashes\<close>

lemma wvhash_step_lower: "wvhash_step h (c_tolower c) = wvhash_step h c"
proof -
  have m: "(0x1F :: 32 word) = mask 5" by (simp add: mask_eq_exp_minus_1)
  have "take_bit 5 (code_of (c_tolower c) :: nat) = take_bit 5 (code_of c)"
    by (simp add: code_of_tolower take_bit_eq_mod)
  then have "(of_nat (code_of (c_tolower c)) AND 0x1F :: 32 word) = of_nat (code_of c) AND 0x1F"
    unfolding m take_bit_eq_mask [symmetric] take_bit_of_nat by (rule arg_cong)
  then show ?thesis by (simp add: wvhash_step_def)
qed

lemma wvhash_str_lower: "wvhash_str (lower s) = wvhash_str s"
proof -
  have "foldl wvhash_step h (lower s) = foldl wvhash_step h s" for h
    by (induction s arbitrary: h) (auto simp: wvhash_step_lower)
  then show ?thesis by (simp add: wvhash_str_def)
qed

lemma wvhash_str_cong: "lower s = lower t \<Longrightarrow> wvhash_str s = wvhash_str t"
  by (metis wvhash_str_lower)

lemma wvhash_key_cong:
  assumes "map lower a = map lower b"
  shows "wvhash_key a = wvhash_key b"
proof -
  have len: "length a = length b" using assms by (metis length_map)
  have "lower (hd a) = lower (hd b)" "lower (last a) = lower (last b)" if "a \<noteq> []"
    using that assms len by (metis hd_map length_0_conv) (metis that assms len last_map length_0_conv)
  then show ?thesis using len
    by (auto simp: wvhash_key_def intro!: arg_cong2 [where f = "(XOR)"] dest: wvhash_str_cong)
qed

end
