(* ===== verification/UniConfKeyStore.thy ===== *)
theory UniConfKeyStore
  imports UniConfKey
begin

text \<open>
  The representation of a UniConf key: a window \<open>left .. right\<close> into a reference-counted
  \<open>Store\<close> with a \<open>SegmentVector\<close> of fixed capacity (\<open>include/uniconfkey.h\<close>,
  \<open>uniconf/uniconfkey.cc\<close>).  A write or read outside the allocated array is undefined
  behaviour in C++; here it is the value \<open>None\<close>.  The lemmas show that every operation
  implements the one of theory \<open>UniConfKey\<close> and stays inside the array, and under which
  condition on the window that is so for \<open>append\<close> and \<open>prepend\<close>.

  A store is mutated only while its reference count is one, so it is seen through a single
  key: the record of a key carries its store and the count.
\<close>

record segvec =
  sv_vec :: "string list"   \<comment> \<open>the array; its length is \<open>_size\<close>\<close>
  sv_used :: nat

record ukey =
  uk_store :: segvec
  uk_refs :: nat
  uk_left :: nat
  uk_right :: nat

subsection \<open>SegmentVector\<close>

definition sv_new :: "nat \<Rightarrow> segvec" where
  "sv_new sz = \<lparr>sv_vec = replicate sz [], sv_used = 0\<rparr>"

text \<open>The loop \<open>for (i = _used - 1; i >= 0; --i) vec[i + shift] = vec[i]\<close>.\<close>

fun sv_shift_loop :: "string list \<Rightarrow> nat \<Rightarrow> nat \<Rightarrow> string list option" where
  "sv_shift_loop vec shift 0 = Some vec"
| "sv_shift_loop vec shift (Suc i) =
     (if i + shift < length vec then sv_shift_loop (vec[i + shift := vec ! i]) shift i else None)"

definition sv_resize :: "nat \<Rightarrow> nat \<Rightarrow> segvec \<Rightarrow> segvec option" where
  "sv_resize sz shift sv =
     (if sz \<le> length (sv_vec sv)
      then (if shift > 0
            then (case sv_shift_loop (sv_vec sv) shift (sv_used sv) of
                    None \<Rightarrow> None
                  | Some vec \<Rightarrow> Some \<lparr>sv_vec = vec, sv_used = sv_used sv + shift\<rparr>)
            else Some sv)
      else let limit = min (min (sz - shift) (length (sv_vec sv))) (sv_used sv)
           in Some \<lparr>sv_vec = replicate shift [] @ take limit (sv_vec sv)
                      @ replicate (sz - shift - limit) [],
                    sv_used = sv_used sv + shift\<rparr>)"

definition sv_append :: "string \<Rightarrow> segvec \<Rightarrow> segvec option" where
  "sv_append seg sv =
     (if sv_used sv < length (sv_vec sv)
      then Some \<lparr>sv_vec = (sv_vec sv)[sv_used sv := seg], sv_used = sv_used sv + 1\<rparr>
      else None)"

definition sv_replace :: "nat \<Rightarrow> string \<Rightarrow> segvec \<Rightarrow> segvec option" where
  "sv_replace index seg sv =
     (if index < length (sv_vec sv)
      then Some \<lparr>sv_vec = (sv_vec sv)[index := seg],
                 sv_used = (if index \<ge> sv_used sv then index + 1 else sv_used sv)\<rparr>
      else None)"

fun sv_append_all :: "key \<Rightarrow> segvec \<Rightarrow> segvec option" where
  "sv_append_all [] sv = Some sv"
| "sv_append_all (s # ss) sv =
     (case sv_append s sv of None \<Rightarrow> None | Some sv' \<Rightarrow> sv_append_all ss sv')"

subsection \<open>Store and the key operations that change it\<close>

definition store_new :: "nat \<Rightarrow> wvstring \<Rightarrow> segvec option" where
  "store_new sz k =
     (if str_not k then Some (sv_new sz)
      else let parts = strcoll_split k ''/'' 0
           in case sv_resize (length parts) 0 (sv_new sz) of
                None \<Rightarrow> None
              | Some sv1 \<Rightarrow>
                  (case sv_append_all (filter (\<lambda>part. part \<noteq> []) parts) sv1 of
                     None \<Rightarrow> None
                   | Some sv2 \<Rightarrow>
                       if last (the k) = CHR ''/'' \<and> sv_used sv2 > 0 then sv_append [] sv2
                       else Some sv2))"

definition EMPTY_store :: segvec where
  "EMPTY_store = sv_new 1"

text \<open>The static empty key keeps the count of its store above one.\<close>

definition ukey_EMPTY :: ukey where
  "ukey_EMPTY = \<lparr>uk_store = EMPTY_store, uk_refs = 2, uk_left = 0, uk_right = 0\<rparr>"

definition ukey_of_string :: "wvstring \<Rightarrow> ukey option" where
  "ukey_of_string k =
     (case store_new 4 k of
        None \<Rightarrow> None
      | Some sv \<Rightarrow> Some \<lparr>uk_store = sv, uk_refs = 1, uk_left = 0, uk_right = sv_used sv\<rparr>)"

text \<open>The visible segments: what the value-level theory calls the key.\<close>

definition uk_segs :: "ukey \<Rightarrow> key" where
  "uk_segs k = take (uk_right k - uk_left k) (drop (uk_left k) (sv_vec (uk_store k)))"

definition ukey_collapse :: "ukey \<Rightarrow> ukey" where
  "ukey_collapse k =
     (if (uk_right k - uk_left k = 1 \<and> sv_vec (uk_store k) ! (uk_right k - 1) = [])
         \<or> uk_right k = uk_left k
      then ukey_EMPTY else k)"

definition ukey_unique :: "ukey \<Rightarrow> ukey option" where
  "ukey_unique k =
     (if uk_refs k = 1 then Some k
      else case sv_append_all (uk_segs k) (sv_new (uk_right k - uk_left k)) of
             None \<Rightarrow> None
           | Some sv \<Rightarrow> Some \<lparr>uk_store = sv, uk_refs = 1, uk_left = 0,
                              uk_right = uk_right k - uk_left k\<rparr>)"

fun append_loop :: "key \<Rightarrow> segvec \<Rightarrow> nat \<Rightarrow> (segvec \<times> nat) option" where
  "append_loop [] sv right = Some (sv, right)"
| "append_loop (segment # ss) sv right =
     (if segment = [] then append_loop ss sv right
      else case sv_replace right segment sv of
             None \<Rightarrow> None
           | Some sv' \<Rightarrow> append_loop ss sv' (right + 1))"

definition ukey_append :: "ukey \<Rightarrow> key \<Rightarrow> ukey option" where
  "ukey_append this key =
     (let hastrailingslash = (key_isempty key \<or> key_hastrailingslash key)
      in case ukey_unique this of
           None \<Rightarrow> None
         | Some k \<Rightarrow>
             (case sv_resize (uk_right k - uk_left k + length key + 1) 0 (uk_store k) of
                None \<Rightarrow> None
              | Some sv1 \<Rightarrow>
                  (case append_loop key sv1 (uk_right k) of
                     None \<Rightarrow> None
                   | Some (sv2, right) \<Rightarrow>
                       if hastrailingslash
                       then (case sv_replace right [] sv2 of
                               None \<Rightarrow> None
                             | Some sv3 \<Rightarrow> Some (ukey_collapse
                                 (k\<lparr>uk_store := sv3, uk_right := right + 1\<rparr>)))
                       else Some (ukey_collapse (k\<lparr>uk_store := sv2, uk_right := right\<rparr>)))))"

text \<open>In \<open>prepend\<close> the segment \<open>j\<close> of the other key goes to \<open>left + j\<close>.\<close>

fun prepend_loop :: "key \<Rightarrow> nat \<Rightarrow> segvec \<Rightarrow> nat \<Rightarrow> (segvec \<times> nat) option" where
  "prepend_loop [] pos sv right = Some (sv, right)"
| "prepend_loop (segment # ss) pos sv right =
     (if segment = [] then prepend_loop ss (pos + 1) sv right
      else case sv_replace pos segment sv of
             None \<Rightarrow> None
           | Some sv' \<Rightarrow> prepend_loop ss (pos + 1) sv' (right + 1))"

definition ukey_prepend :: "ukey \<Rightarrow> key \<Rightarrow> ukey option" where
  "ukey_prepend this key =
     (case ukey_unique this of
        None \<Rightarrow> None
      | Some k \<Rightarrow>
          let shift = length (filter (\<lambda>s. s \<noteq> []) key)
          in case sv_resize (shift + (uk_right k - uk_left k)) shift (uk_store k) of
               None \<Rightarrow> None
             | Some sv1 \<Rightarrow>
                 (case prepend_loop key (uk_left k) sv1 (uk_right k) of
                    None \<Rightarrow> None
                  | Some (sv2, right) \<Rightarrow>
                      Some (ukey_collapse (k\<lparr>uk_store := sv2, uk_right := right\<rparr>))))"

text \<open>\<open>pop\<close> gives the first segments as a key on the same store, and moves \<open>left\<close>.\<close>

definition ukey_pop :: "ukey \<Rightarrow> int \<Rightarrow> (ukey \<times> ukey) option" where
  "ukey_pop this n =
     (if n = 0 then Some (ukey_EMPTY, this)
      else case ukey_unique this of
             None \<Rightarrow> None
           | Some k \<Rightarrow>
               let sz = int (uk_right k - uk_left k);
                   n1 = (if n > sz then sz else n);
                   n2 = nat (if n1 < 0 then 0 else n1);
                   left' = uk_left k + n2;
                   this' = k\<lparr>uk_left := left', uk_refs := 2\<rparr>;
                   result = k\<lparr>uk_right := left', uk_refs := 2\<rparr>
               in Some (ukey_collapse result, ukey_collapse this'))"

text \<open>The destructor of another key on the same store.\<close>

definition ukey_release :: "ukey \<Rightarrow> ukey" where
  "ukey_release k = k\<lparr>uk_refs := uk_refs k - 1\<rparr>"

definition ukey_range :: "ukey \<Rightarrow> int \<Rightarrow> int \<Rightarrow> ukey" where
  "ukey_range k i j =
     (let n = int (uk_right k - uk_left k);
          j1 = (if j > n then n else j);
          i1 = (if i < 0 then 0 else i);
          j2 = (if j1 < i1 then i1 else j1)
      in ukey_collapse (k\<lparr>uk_refs := uk_refs k + 1, uk_left := uk_left k + nat i1,
                          uk_right := uk_left k + nat j2\<rparr>))"

subsection \<open>The vector operations stay inside the array\<close>

definition sv_wf :: "segvec \<Rightarrow> bool" where
  "sv_wf sv \<longleftrightarrow> sv_used sv \<le> length (sv_vec sv)"

definition uk_wf :: "ukey \<Rightarrow> bool" where
  "uk_wf k \<longleftrightarrow> sv_wf (uk_store k) \<and> uk_left k \<le> uk_right k \<and> uk_right k \<le> sv_used (uk_store k)"

lemma sv_shift_loop_eq:
  "n + shift \<le> length vec \<Longrightarrow>
     sv_shift_loop vec shift n = Some (take shift vec @ take n vec @ drop (n + shift) vec)"
proof (induction n arbitrary: vec)
  case 0
  then show ?case by simp
next
  case (Suc i)
  let ?v = "vec[i + shift := vec ! i]"
  have "take shift ?v = take shift vec" "take i ?v = take i vec" if "shift > 0"
    using that by simp_all
  have "take shift ?v @ take i ?v @ drop (i + shift) ?v =
        take shift vec @ take (Suc i) vec @ drop (Suc i + shift) vec" if s: "shift > 0"
  proof -
    have "drop (i + shift) ?v = vec ! i # drop (Suc i + shift) vec"
      using Suc.prems by (simp add: Cons_nth_drop_Suc [symmetric] drop_update_cancel)
    then show ?thesis using Suc.prems s by (simp add: take_Suc_conv_app_nth)
  qed
  then show ?case using Suc
    by (cases "shift = 0") (auto simp: list_update_id Cons_nth_drop_Suc take_Suc_conv_app_nth)
qed

lemma sv_append_all_eq:
  "sv_used sv + length ss \<le> length (sv_vec sv) \<Longrightarrow>
     sv_append_all ss sv = Some \<lparr>sv_vec = take (sv_used sv) (sv_vec sv) @ ss
          @ drop (sv_used sv + length ss) (sv_vec sv),
        sv_used = sv_used sv + length ss\<rparr>"
proof (induction ss arbitrary: sv)
  case (Cons s ss)
  then have "sv_used sv < length (sv_vec sv)" by simp
  then show ?case using Cons
    by (simp add: sv_append_def take_Suc_conv_app_nth upd_conv_take_nth_drop add.commute)
qed auto

lemma append_loop_eq:
  "right + length (nonempty_segs ss) \<le> length (sv_vec sv) \<Longrightarrow> right \<le> sv_used sv \<Longrightarrow> sv_wf sv \<Longrightarrow>
   \<exists>sv'. append_loop ss sv right = Some (sv', right + length (nonempty_segs ss)) \<and>
     sv_vec sv' = take right (sv_vec sv) @ nonempty_segs ss
       @ drop (right + length (nonempty_segs ss)) (sv_vec sv) \<and>
     right + length (nonempty_segs ss) \<le> sv_used sv' \<and> sv_wf sv'"
proof (induction ss arbitrary: sv right)
  case (Cons s ss)
  show ?case
  proof (cases "s = []")
    case True
    then show ?thesis using Cons by (simp add: nonempty_segs_def)
  next
    case False
    define sv1 where "sv1 = \<lparr>sv_vec = (sv_vec sv)[right := s],
                 sv_used = (if right \<ge> sv_used sv then right + 1 else sv_used sv)\<rparr>"
    have r: "right < length (sv_vec sv)" using Cons.prems False by (simp add: nonempty_segs_def)
    have rep: "sv_replace right s sv = Some sv1" using r by (simp add: sv_replace_def sv1_def)
    have "\<exists>sv'. append_loop ss sv1 (right + 1) = Some (sv', right + 1 + length (nonempty_segs ss)) \<and>
     sv_vec sv' = take (right + 1) (sv_vec sv1) @ nonempty_segs ss
       @ drop (right + 1 + length (nonempty_segs ss)) (sv_vec sv1) \<and>
     right + 1 + length (nonempty_segs ss) \<le> sv_used sv' \<and> sv_wf sv'"
      using Cons.prems False r
      by (intro Cons.IH) (auto simp: sv1_def nonempty_segs_def sv_wf_def)
    then show ?thesis using False rep r
      by (auto simp: nonempty_segs_def sv1_def take_Suc_conv_app_nth)
  qed
qed (simp add: nonempty_segs_def)


lemma prepend_loop_eq:
  "[] \<notin> set ss \<Longrightarrow> pos + length ss \<le> length (sv_vec sv) \<Longrightarrow> sv_wf sv \<Longrightarrow>
   pos \<le> sv_used sv \<Longrightarrow>
   \<exists>sv'. prepend_loop (ss @ ts) pos sv right = prepend_loop ts (pos + length ss) sv' (right + length ss) \<and>
     sv_vec sv' = take pos (sv_vec sv) @ ss @ drop (pos + length ss) (sv_vec sv) \<and>
     sv_used sv \<le> sv_used sv' \<and> sv_wf sv'"
proof (induction ss arbitrary: sv pos right)
  case Nil
  then show ?case by (intro exI [of _ sv]) simp
next
  case (Cons s ss)
  define sv1 where "sv1 = \<lparr>sv_vec = (sv_vec sv)[pos := s],
                 sv_used = (if pos \<ge> sv_used sv then pos + 1 else sv_used sv)\<rparr>"
  have r: "pos < length (sv_vec sv)" using Cons.prems by simp
  have rep: "sv_replace pos s sv = Some sv1" using r by (simp add: sv_replace_def sv1_def)
  have "\<exists>sv'. prepend_loop (ss @ ts) (pos + 1) sv1 (right + 1) =
       prepend_loop ts (pos + 1 + length ss) sv' (right + 1 + length ss) \<and>
     sv_vec sv' = take (pos + 1) (sv_vec sv1) @ ss @ drop (pos + 1 + length ss) (sv_vec sv1) \<and>
     sv_used sv1 \<le> sv_used sv' \<and> sv_wf sv'"
    using Cons.prems r by (intro Cons.IH) (auto simp: sv1_def sv_wf_def)
  then show ?case using Cons.prems rep r
    by (auto simp: sv1_def take_Suc_conv_app_nth split: if_splits)
qed

subsection \<open>The operations implement those on key values\<close>

lemma sv_new_simps [simp]: "sv_vec (sv_new n) = replicate n []" "sv_used (sv_new n) = 0"
  by (simp_all add: sv_new_def)

lemma store_new_eq:
  "\<exists>sv. store_new n k = Some sv \<and> sv_wf sv \<and> take (sv_used sv) (sv_vec sv) = key_of_string k"
proof (cases "str_not k")
  case True
  then show ?thesis by (simp add: store_new_def key_of_string_def sv_wf_def)
next
  case False
  then obtain t where k: "k = Some t" "t \<noteq> []" by (auto simp: str_not_def split: option.splits)
  define parts where "parts = strcoll_split (Some t) ''/'' 0"
  define segs where "segs = filter (\<lambda>part. part \<noteq> []) parts"
  define cap where "cap = max n (length parts)"
  have le: "length segs \<le> length parts" by (simp add: segs_def)
  have r: "sv_resize (length parts) 0 (sv_new n) = Some (sv_new cap)"
    by (auto simp: sv_resize_def sv_new_def cap_def Let_def max_def)
  have a: "sv_append_all segs (sv_new cap) = Some \<lparr>sv_vec = segs @ replicate (cap - length segs) [],
      sv_used = length segs\<rparr>"
    using le by (subst sv_append_all_eq) (auto simp: cap_def)
  have room: "length segs < length parts" if "last t = CHR ''/''" "segs \<noteq> []"
  proof -
    have "[] \<in> set parts"
      using that k strcoll_split_trailing [of t "''/''" "CHR ''/''"] by (simp add: parts_def is_sep_def)
    then show ?thesis unfolding segs_def by (simp add: length_filter_less)
  qed
  define sv2 where "sv2 = \<lparr>sv_vec = segs @ replicate (cap - length segs) [], sv_used = length segs\<rparr>"
  have new: "store_new n k = (if last t = CHR ''/'' \<and> segs \<noteq> [] then sv_append [] sv2 else Some sv2)"
    using r a k by (simp add: store_new_def Let_def str_not_def sv2_def flip: parts_def segs_def)
  have key: "key_of_string k = segs @ (if last t = CHR ''/'' \<and> segs \<noteq> [] then [[]] else [])"
    using k by (simp add: key_of_string_def Let_def str_not_def flip: parts_def segs_def)
  show ?thesis
  proof (cases "last t = CHR ''/'' \<and> segs \<noteq> []")
    case True
    then have "length segs < cap" using room by (simp add: cap_def)
    then show ?thesis using True new key
      by (simp add: sv_append_def sv_wf_def sv2_def nth_append list_update_append)
        (cases "cap - length segs", auto)
  next
    case False
    then show ?thesis using new key le
      by (auto simp: sv_wf_def cap_def sv2_def)
  qed
qed

lemma uk_segs_length: "uk_wf k \<Longrightarrow> length (uk_segs k) = uk_right k - uk_left k"
  by (auto simp: uk_segs_def uk_wf_def sv_wf_def)

lemma ukey_of_string_eq:
  "\<exists>k. ukey_of_string s = Some k \<and> uk_wf k \<and> uk_segs k = key_of_string s \<and>
     uk_left k = 0 \<and> uk_refs k = 1"
  using store_new_eq [of 4 s] by (auto simp: ukey_of_string_def uk_wf_def uk_segs_def)

lemma ukey_EMPTY_simps [simp]: "uk_segs ukey_EMPTY = []" "uk_wf ukey_EMPTY" "uk_left ukey_EMPTY = 0"
  "uk_refs ukey_EMPTY = 2"
  by (simp_all add: ukey_EMPTY_def uk_segs_def uk_wf_def sv_wf_def EMPTY_store_def)

lemma ukey_collapse_eq:
  assumes "uk_wf k"
  shows "uk_segs (ukey_collapse k) = key_collapse (uk_segs k)" "uk_wf (ukey_collapse k)"
proof -
  have b: "uk_right k \<le> length (sv_vec (uk_store k))" using assms by (simp add: uk_wf_def sv_wf_def)
  have "uk_segs k = [sv_vec (uk_store k) ! (uk_right k - 1)]" if one: "uk_right k - uk_left k = 1"
  proof -
    have "uk_right k - 1 = uk_left k" "uk_left k < length (sv_vec (uk_store k))" using one b by auto
    then show ?thesis using one by (simp add: uk_segs_def Cons_nth_drop_Suc [symmetric])
  qed
  moreover have "uk_right k = uk_left k \<longleftrightarrow> uk_segs k = []"
    using assms uk_segs_length [OF assms] by (auto simp: uk_wf_def)
  moreover have "uk_right k - uk_left k = 1" if "uk_segs k = [[]]"
    using that uk_segs_length [OF assms] by simp
  ultimately show "uk_segs (ukey_collapse k) = key_collapse (uk_segs k)"
    by (auto simp: ukey_collapse_def key_collapse_def)
  show "uk_wf (ukey_collapse k)" using assms by (simp add: ukey_collapse_def)
qed

lemma ukey_unique_eq:
  assumes "uk_wf k"
  obtains k' where "ukey_unique k = Some k'" "uk_wf k'" "uk_segs k' = uk_segs k" "uk_refs k' = 1"
    "uk_refs k \<noteq> 1 \<or> uk_left k = 0 \<Longrightarrow> uk_left k' = 0"
proof (cases "uk_refs k = 1")
  case True
  then show ?thesis using that [of k] assms by (simp add: ukey_unique_def)
next
  case False
  let ?n = "uk_right k - uk_left k"
  have l: "length (uk_segs k) = ?n" using assms by (rule uk_segs_length)
  have a: "sv_append_all (uk_segs k) (sv_new ?n) = Some \<lparr>sv_vec = uk_segs k, sv_used = ?n\<rparr>"
    using l by (subst sv_append_all_eq) auto
  show ?thesis
  proof (rule that)
    show "ukey_unique k = Some \<lparr>uk_store = \<lparr>sv_vec = uk_segs k, sv_used = ?n\<rparr>, uk_refs = 1,
        uk_left = 0, uk_right = ?n\<rparr>"
      using False a by (simp add: ukey_unique_def)
  qed (use l in \<open>auto simp: uk_wf_def sv_wf_def uk_segs_def [of "ukey.make _ _ _ _"] uk_segs_def\<close>)
qed

lemma sv_resize_grow:
  assumes "sv_wf sv"
  shows "\<exists>sv'. sv_resize n 0 sv = Some sv' \<and> sv_wf sv' \<and> n \<le> length (sv_vec sv') \<and>
    sv_used sv' = sv_used sv \<and> take (sv_used sv) (sv_vec sv') = take (sv_used sv) (sv_vec sv)"
  using assms by (auto simp: sv_resize_def Let_def sv_wf_def min_def)

lemma nonempty_segs_length: "length (nonempty_segs key) \<le> length key"
  by (simp add: nonempty_segs_def)

text \<open>\<open>append\<close> is right, and stays inside the array, when the window of a store that is not
  shared starts at its first slot.\<close>

lemma ukey_append_eq:
  assumes wf: "uk_wf k" and left: "uk_refs k \<noteq> 1 \<or> uk_left k = 0"
  shows "\<exists>k'. ukey_append k key = Some k' \<and> uk_wf k' \<and> uk_segs k' = key_append (uk_segs k) key"
proof -
  obtain u where u: "ukey_unique k = Some u" "uk_wf u" "uk_segs u = uk_segs k" "uk_left u = 0"
    using ukey_unique_eq [OF wf] left by metis
  define r where "r = uk_right u"
  define n where "n = length (nonempty_segs key)"
  have n: "n \<le> length key" by (simp add: n_def nonempty_segs_length)
  obtain sv1 where s1: "sv_resize (r + length key + 1) 0 (uk_store u) = Some sv1" "sv_wf sv1"
    "r + length key + 1 \<le> length (sv_vec sv1)" "sv_used sv1 = sv_used (uk_store u)"
    "take (sv_used sv1) (sv_vec sv1) = take (sv_used sv1) (sv_vec (uk_store u))"
    using sv_resize_grow [of "uk_store u" "r + length key + 1"] u(2) by (auto simp: uk_wf_def)
  have ru: "r \<le> sv_used sv1" using u(2) s1(4) by (simp add: uk_wf_def r_def)
  have segs: "take r (sv_vec sv1) = uk_segs k"
  proof -
    have "take r (take (sv_used sv1) (sv_vec sv1)) = take r (take (sv_used sv1) (sv_vec (uk_store u)))"
      by (simp only: s1(5))
    then show ?thesis using ru u(3,4) by (simp add: min_def uk_segs_def r_def split: if_splits)
  qed
  obtain sv2 where s2: "append_loop key sv1 r = Some (sv2, r + n)"
    "sv_vec sv2 = uk_segs k @ nonempty_segs key @ drop (r + n) (sv_vec sv1)"
    "r + n \<le> sv_used sv2" "sv_wf sv2"
    using append_loop_eq [of r key sv1] s1 ru n segs by (auto simp: n_def)
  have lenk: "length (uk_segs k) = r" using segs s1(3) by (metis length_take min_absorb2 add_leD1)
  define tr where "tr \<longleftrightarrow> key_isempty key \<or> key_hastrailingslash key"
  show ?thesis
  proof (cases tr)
    case False
    define k2 where "k2 = u\<lparr>uk_store := sv2, uk_right := r + n\<rparr>"
    have "uk_wf k2" using s2 u(4) by (simp add: k2_def uk_wf_def)
    moreover have "uk_segs k2 = take (r + n) (sv_vec sv2)"
      using u(4) by (simp add: k2_def uk_segs_def)
    then have "uk_segs k2 = uk_segs k @ nonempty_segs key"
      using s2(2) lenk by (simp add: n_def)
    moreover have "ukey_append k key = Some (ukey_collapse k2)"
      using False u s1 s2 by (simp add: ukey_append_def Let_def tr_def r_def k2_def)
    ultimately show ?thesis using False
      by (simp add: ukey_collapse_eq key_append_def Let_def tr_def)
  next
    case True
    have room: "r + n < length (sv_vec sv2)" using s1(3) s2(2) n lenk by (simp add: n_def)
    define sv3 where "sv3 = \<lparr>sv_vec = (sv_vec sv2)[r + n := []],
                 sv_used = (if r + n \<ge> sv_used sv2 then r + n + 1 else sv_used sv2)\<rparr>"
    have s3: "sv_replace (r + n) [] sv2 = Some sv3" using room by (simp add: sv_replace_def sv3_def)
    define k3 where "k3 = u\<lparr>uk_store := sv3, uk_right := r + n + 1\<rparr>"
    have "uk_wf k3" using s2 room u(4) by (auto simp: k3_def uk_wf_def sv3_def sv_wf_def)
    moreover have "uk_segs k3 = uk_segs k @ nonempty_segs key @ [[]]"
    proof -
      have "take (r + n + 1) (sv_vec sv3) = take (r + n) (sv_vec sv2) @ [[]]"
        using room by (simp add: sv3_def take_Suc_conv_app_nth)
      also have "take (r + n) (sv_vec sv2) = uk_segs k @ nonempty_segs key"
        using s2(2) lenk by (simp add: n_def)
      finally show ?thesis using u(4) by (simp add: k3_def uk_segs_def)
    qed
    moreover have "ukey_append k key = Some (ukey_collapse k3)"
      using True u s1 s2 s3 by (simp add: ukey_append_def Let_def tr_def r_def k3_def)
    ultimately show ?thesis using True
      by (simp add: ukey_collapse_eq key_append_def Let_def tr_def)
  qed
qed

lemma filter_wf_segs:
  assumes "key_wf key"
  obtains ts where "key = nonempty_segs key @ ts" "set ts \<subseteq> {[]}"
proof (rule that)
  show "key = nonempty_segs key @ (if key_hastrailingslash key then [[]] else [])"
    unfolding nonempty_segs_wf [OF assms] by (rule key_trunk_append)
qed auto

lemma prepend_loop_empty: "set ts \<subseteq> {[]} \<Longrightarrow> prepend_loop ts pos sv right = Some (sv, right)"
  by (induction ts arbitrary: pos) auto

lemma sv_resize_shift:
  assumes wf: "sv_wf sv" and n: "n = shift + right" "right = sv_used sv"
  shows "\<exists>sv'. sv_resize n shift sv = Some sv' \<and> sv_wf sv' \<and>
    sv_used sv' = sv_used sv + shift \<and> n \<le> length (sv_vec sv') \<and>
    take right (drop shift (sv_vec sv')) = take right (sv_vec sv)"
proof (cases "n \<le> length (sv_vec sv)")
  case True
  then show ?thesis using assms sv_shift_loop_eq [of right shift "sv_vec sv"]
    by (auto simp: sv_resize_def sv_wf_def min_def)
next
  case False
  then show ?thesis using assms
    by (auto simp: sv_resize_def sv_wf_def Let_def min_def)
qed

text \<open>\<open>prepend\<close>, for a window that covers all the used slots from the first one on.\<close>

lemma ukey_prepend_eq:
  assumes wf: "uk_wf k" and kw: "key_wf key"
    and win: "uk_refs k \<noteq> 1 \<or> (uk_left k = 0 \<and> uk_right k = sv_used (uk_store k))"
  shows "\<exists>k'. ukey_prepend k key = Some k' \<and> uk_wf k' \<and> uk_segs k' = key_prepend (uk_segs k) key"
proof -
  obtain u where u: "ukey_unique k = Some u" "uk_wf u" "uk_segs u = uk_segs k" "uk_left u = 0"
    and uu: "uk_right u = sv_used (uk_store u)"
  proof (cases "uk_refs k = 1")
    case True
    then show ?thesis using that [of k] wf win by (simp add: ukey_unique_def)
  next
    case False
    let ?n = "uk_right k - uk_left k"
    have l: "length (uk_segs k) = ?n" using wf by (rule uk_segs_length)
    have "sv_append_all (uk_segs k) (sv_new ?n) = Some \<lparr>sv_vec = uk_segs k, sv_used = ?n\<rparr>"
      using l by (subst sv_append_all_eq) auto
    then show ?thesis using False l
      by (intro that [of "\<lparr>uk_store = \<lparr>sv_vec = uk_segs k, sv_used = ?n\<rparr>, uk_refs = 1,
          uk_left = 0, uk_right = ?n\<rparr>"]) (auto simp: ukey_unique_def uk_wf_def sv_wf_def uk_segs_def)
  qed
  obtain ts where ts: "key = nonempty_segs key @ ts" "set ts \<subseteq> {[]}" using filter_wf_segs [OF kw] .
  define r where "r = uk_right u"
  define m where "m = length (nonempty_segs key)"
  obtain sv1 where s1: "sv_resize (m + r) m (uk_store u) = Some sv1" "sv_wf sv1"
    "sv_used sv1 = r + m" "m + r \<le> length (sv_vec sv1)"
    "take r (drop m (sv_vec sv1)) = take r (sv_vec (uk_store u))"
    using sv_resize_shift [of "uk_store u" "m + r" m r] u(2) uu by (auto simp: uk_wf_def r_def)
  have ne: "[] \<notin> set (nonempty_segs key)" by (simp add: nonempty_segs_def)
  obtain sv2 where s2: "prepend_loop key 0 sv1 r = Some (sv2, r + m)"
    "sv_vec sv2 = nonempty_segs key @ drop m (sv_vec sv1)" "sv_used sv1 \<le> sv_used sv2" "sv_wf sv2"
    using prepend_loop_eq [OF ne, of 0 sv1 ts r] s1 ts(1) prepend_loop_empty [OF ts(2)]
    by (auto simp: m_def)
  define k2 where "k2 = u\<lparr>uk_store := sv2, uk_right := r + m\<rparr>"
  have "uk_wf k2" using s2 s1(3) u(4) by (simp add: k2_def uk_wf_def)
  moreover have "uk_segs k2 = take (r + m) (sv_vec sv2)"
    using u(4) by (simp add: k2_def uk_segs_def)
  then have "uk_segs k2 = nonempty_segs key @ uk_segs k"
    using s2(2) s1(5) u(3,4) by (simp add: m_def uk_segs_def r_def)
  moreover have "ukey_prepend k key = Some (ukey_collapse k2)"
    using u s1 s2 by (simp add: ukey_prepend_def Let_def r_def k2_def m_def nonempty_segs_def)
  ultimately show ?thesis by (simp add: ukey_collapse_eq key_prepend_def)
qed

lemma ukey_pop_eq:
  assumes wf: "uk_wf k"
  shows "\<exists>r k'. ukey_pop k n = Some (r, k') \<and> uk_wf r \<and> uk_wf k' \<and>
    (uk_segs r, uk_segs k') = key_pop (uk_segs k) n"
proof (cases "n = 0")
  case True
  then show ?thesis using wf by (simp add: ukey_pop_def key_pop_def)
next
  case False
  obtain u where u: "ukey_unique k = Some u" "uk_wf u" "uk_segs u = uk_segs k"
    using ukey_unique_eq [OF wf] by metis
  define sz where "sz = uk_right u - uk_left u"
  define m where "m = nat (if (if n > int sz then int sz else n) < 0 then 0
      else (if n > int sz then int sz else n))"
  have m: "m \<le> sz" by (auto simp: m_def)
  have len: "length (uk_segs k) = sz" using uk_segs_length [OF u(2)] u(3) by (simp add: sz_def)
  define a where "a = u\<lparr>uk_right := uk_left u + m, uk_refs := 2\<rparr>"
  define b where "b = u\<lparr>uk_left := uk_left u + m, uk_refs := 2\<rparr>"
  have ab: "uk_wf a" "uk_wf b" using u(2) m by (auto simp: a_def b_def uk_wf_def sz_def)
  have sa: "uk_segs a = take m (uk_segs k)"
    using m unfolding u(3) [symmetric] by (simp add: a_def uk_segs_def min_def sz_def)
  have sb: "uk_segs b = drop m (uk_segs k)"
    using m unfolding u(3) [symmetric] by (simp add: b_def uk_segs_def sz_def drop_take add.commute)
  have "ukey_pop k n = Some (ukey_collapse a, ukey_collapse b)"
    using False u by (simp add: ukey_pop_def Let_def a_def b_def m_def sz_def)
  moreover have "key_pop (uk_segs k) n = (key_collapse (take m (uk_segs k)), key_collapse (drop m (uk_segs k)))"
    using False by (simp add: key_pop_def Let_def m_def key_numsegments_def len)
  ultimately show ?thesis using ab sa sb by (simp add: ukey_collapse_eq)
qed

lemma ukey_range_eq:
  assumes wf: "uk_wf k"
  shows "uk_segs (ukey_range k i j) = key_range (uk_segs k) i j" "uk_wf (ukey_range k i j)"
proof -
  define n where "n = int (uk_right k - uk_left k)"
  define i1 where "i1 = (if i < 0 then 0 else i)"
  define j2 where "j2 = (if (if j > n then n else j) < i1 then i1 else (if j > n then n else j))"
  define v where "v = k\<lparr>uk_refs := uk_refs k + 1, uk_left := uk_left k + nat i1, uk_right := uk_left k + nat j2\<rparr>"
  have len: "int (length (uk_segs k)) = n" using uk_segs_length [OF wf] by (simp add: n_def)
  have r: "ukey_range k i j = ukey_collapse v"
    by (simp add: ukey_range_def Let_def v_def i1_def j2_def n_def)
  have le: "0 \<le> i1" "i1 \<le> j2" by (auto simp: i1_def j2_def)
  have kr: "key_range (uk_segs k) i j = key_collapse (take (nat (j2 - i1)) (drop (nat i1) (uk_segs k)))"
    by (simp add: key_range_def Let_def key_numsegments_def len i1_def j2_def)
  show "uk_segs (ukey_range k i j) = key_range (uk_segs k) i j"
  proof (cases "i1 \<le> n")
    case True
    then have "j2 \<le> n" by (auto simp: j2_def)
    then have "uk_wf v" using wf le by (auto simp: v_def uk_wf_def n_def)
    moreover have "uk_segs v = take (nat (j2 - i1)) (drop (nat i1) (uk_segs k))"
      using le True \<open>j2 \<le> n\<close> wf
      by (auto simp: v_def uk_segs_def drop_take min_def nat_diff_distrib n_def add.commute)
    ultimately show ?thesis by (simp add: r kr ukey_collapse_eq)
  next
    case False
    then have "j2 = i1" by (auto simp: j2_def)
    then show ?thesis by (simp add: r kr ukey_collapse_def v_def)
  qed
  show "uk_wf (ukey_range k i j)"
  proof (cases "i1 \<le> n")
    case True
    then have "j2 \<le> n" by (auto simp: j2_def)
    then have "uk_wf v" using wf le by (auto simp: v_def uk_wf_def n_def)
    then show ?thesis by (simp add: r ukey_collapse_eq)
  next
    case False
    then have "j2 = i1" by (auto simp: j2_def)
    then show ?thesis by (simp add: r ukey_collapse_def v_def)
  qed
qed

text \<open>Without the condition the window of a popped key reaches past the array: \<open>append\<close> sizes the
  vector by \<open>right - left\<close> but writes from \<open>right\<close> on.\<close>

definition popped_key :: "ukey option" where
  "popped_key =
     (case ukey_of_string (Some ''a/b/c/d'') of
        None \<Rightarrow> None
      | Some k \<Rightarrow> (case ukey_pop k 3 of None \<Rightarrow> None | Some (r, k') \<Rightarrow> Some (ukey_release k')))"

lemma split_abcd: "strcoll_split (Some ''a/b/c/d'') ''/'' 0 = [''a'', ''b'', ''c'', ''d'']"
  by (simp add: strcoll_split_def split_loop.simps is_sep_def)

lemma popped_key_eq:
  "popped_key = Some \<lparr>uk_store = \<lparr>sv_vec = [''a'', ''b'', ''c'', ''d''], sv_used = 4\<rparr>,
     uk_refs = 1, uk_left = 3, uk_right = 4\<rparr>"
  by (simp add: popped_key_def ukey_of_string_def store_new_def str_not_def split_abcd sv_resize_def
      sv_new_def sv_append_def ukey_pop_def ukey_unique_def ukey_collapse_def ukey_release_def
      eval_nat_numeral)

end
