(* ===== verification/WvScatterHash.thy ===== *)
theory WvScatterHash
  imports UniConfKey "HOL-Library.Multiset"
begin

text \<open>
  The scatter hash (\<open>utils/wvscatterhash.cc\<close>, \<open>include/wvscatterhash.h\<close>): open addressing with a
  second hash.  A slot with its status byte is a \<open>slot\<close>; the number of slots is the length of
  their list.  Hashes are natural numbers below \<open>2 ^ 32\<close>, and the probe wraps around there
  before it is reduced to a slot, as the code's \<open>unsigned\<close> arithmetic does.
\<close>

datatype 'a slot = Free | Deleted | Occupied (slot_autofree: bool) (slot_data: 'a)

datatype 'a shash = SHash (sh_slots: "'a slot list") (sh_prime: nat) (sh_used: nat) (sh_num: nat)

definition prime_numbers :: "nat list" where
  "prime_numbers =
     [2, 5, 11, 17, 31, 67, 127, 251, 509, 1021, 2039, 4093, 8191, 16381, 32749, 65521,
      131071, 262139, 524287, 1048573, 2097143, 4194301, 8388593, 16777213, 33554393, 67108859,
      134217689, 268435399, 536870909, 1073741789, 2147483647, 4294967281]"

definition is_occupied :: "'a slot \<Rightarrow> bool" where
  "is_occupied s = (case s of Occupied _ _ \<Rightarrow> True | _ \<Rightarrow> False)"

definition sh_numslots :: "'a shash \<Rightarrow> nat" where
  "sh_numslots t = length (sh_slots t)"

text \<open>The index of the prime for a wanted number of slots; 32 is outside of the table.\<close>

function prime_index_loop :: "nat \<Rightarrow> nat \<Rightarrow> nat" where
  "prime_index_loop n i = (if n div 2 \<noteq> 0 then prime_index_loop (n div 2) (i + 1) else i)"
  by pat_completeness auto
termination by (relation "measure fst") auto

declare prime_index_loop.simps [simp del]

definition sh_sized :: "nat \<Rightarrow> 'a shash option" where
  "sh_sized i =
     (if i < length prime_numbers then Some (SHash (replicate (prime_numbers ! i) Free) i 0 0) else None)"

definition sh_new :: "nat \<Rightarrow> 'a shash option" where
  "sh_new numslots = sh_sized (if numslots = 0 then 0 else prime_index_loop numslots 1)"

definition sh_count :: "'a shash \<Rightarrow> nat" where
  "sh_count t = sh_num t"

definition sh_isempty :: "'a shash \<Rightarrow> bool" where
  "sh_isempty t \<longleftrightarrow> sh_num t = 0"

definition sh_slowcount :: "'a shash \<Rightarrow> nat" where
  "sh_slowcount t = length (filter is_occupied (sh_slots t))"

text \<open>What an iterator visits, in the order of the slots.\<close>

definition sh_elems :: "'a shash \<Rightarrow> 'a list" where
  "sh_elems t = map slot_data (filter is_occupied (sh_slots t))"

subsection \<open>Probing\<close>

definition second_hash :: "nat \<Rightarrow> nat \<Rightarrow> nat" where
  "second_hash hash numslots = hash mod (numslots - 1) + 1"

definition curhash :: "nat \<Rightarrow> nat \<Rightarrow> nat \<Rightarrow> nat \<Rightarrow> nat" where
  "curhash hash hash2 attempt numslots = (hash + attempt * hash2) mod 2 ^ 32 mod numslots"

definition probe :: "'a slot list \<Rightarrow> nat \<Rightarrow> nat \<Rightarrow> nat" where
  "probe slots hash attempt =
     curhash hash (second_hash hash (length slots)) attempt (length slots)"

text \<open>The two searches are the code's loops and end only if they meet a suitable slot.\<close>

partial_function (option) genfind_loop :: "('a \<Rightarrow> bool) \<Rightarrow> 'a slot list \<Rightarrow> nat \<Rightarrow> nat \<Rightarrow> nat option option" where
  "genfind_loop cmp slots hash attempt =
     (let slot = probe slots hash attempt
      in case slots ! slot of
           Occupied _ x \<Rightarrow> if cmp x then Some (Some slot) else genfind_loop cmp slots hash (attempt + 1)
         | Deleted \<Rightarrow> genfind_loop cmp slots hash (attempt + 1)
         | Free \<Rightarrow> Some None)"

partial_function (option) vacant_loop :: "'a slot list \<Rightarrow> nat \<Rightarrow> nat \<Rightarrow> nat option" where
  "vacant_loop slots hash attempt =
     (let slot = probe slots hash attempt
      in if is_occupied (slots ! slot) then vacant_loop slots hash (attempt + 1) else Some slot)"

definition genfind :: "('a \<Rightarrow> bool) \<Rightarrow> nat \<Rightarrow> 'a shash \<Rightarrow> nat option option" where
  "genfind cmp hash t = genfind_loop cmp (sh_slots t) hash 0"

definition genfind_or_null :: "('a \<Rightarrow> bool) \<Rightarrow> nat \<Rightarrow> 'a shash \<Rightarrow> 'a option option" where
  "genfind_or_null cmp hash t =
     map_option (map_option (\<lambda>slot. slot_data (sh_slots t ! slot))) (genfind cmp hash t)"

subsection \<open>Adding\<close>

text \<open>The load factors are compared in floating point with \<open>numslots * 0.45\<close> and
  \<open>numslots * 0.4\<close>; since a number of slots is never a multiple of 20, and 5 is the only multiple
  of 5, the rounding cannot change the result of the comparison.\<close>

definition need_rebuild :: "'a shash \<Rightarrow> bool" where
  "need_rebuild t \<longleftrightarrow> 45 * sh_numslots t \<le> 100 * (sh_used t + 1)"

definition need_resize :: "'a shash \<Rightarrow> bool" where
  "need_resize t \<longleftrightarrow> 40 * sh_numslots t \<le> 100 * (sh_num t + 1)"

text \<open>\<open>_add\<close> after its call of \<open>rebuild\<close>.\<close>

definition sh_place :: "('a \<Rightarrow> nat) \<Rightarrow> bool \<Rightarrow> 'a \<Rightarrow> 'a shash \<Rightarrow> 'a shash option" where
  "sh_place hash_of auto_free data t =
     map_option (\<lambda>slot. SHash ((sh_slots t)[slot := Occupied auto_free data]) (sh_prime t)
         (if sh_slots t ! slot = Deleted then sh_used t else sh_used t + 1) (sh_num t + 1))
       (vacant_loop (sh_slots t) (hash_of data) 0)"

text \<open>\<open>rebuild\<close> adds the elements again, and each of these additions may call \<open>rebuild\<close>; the
  first argument bounds the nesting.\<close>

primrec sh_readd :: "('a \<Rightarrow> bool \<Rightarrow> 'a shash \<Rightarrow> 'a shash option) \<Rightarrow> 'a slot list \<Rightarrow> 'a shash \<Rightarrow> 'a shash option" where
  "sh_readd add [] t = Some t"
| "sh_readd add (s # slots) t =
     (case s of
        Occupied auto_free data \<Rightarrow>
          (case add data auto_free t of None \<Rightarrow> None | Some t' \<Rightarrow> sh_readd add slots t')
      | _ \<Rightarrow> sh_readd add slots t)"

definition sh_rebuild :: "('a \<Rightarrow> bool \<Rightarrow> 'a shash \<Rightarrow> 'a shash option) \<Rightarrow> 'a shash \<Rightarrow> 'a shash option" where
  "sh_rebuild add t =
     (if need_rebuild t
      then (case sh_sized (if need_resize t then sh_prime t + 1 else sh_prime t) of
              None \<Rightarrow> None
            | Some t0 \<Rightarrow> sh_readd add (sh_slots t) t0)
      else Some t)"

primrec sh_add_nested :: "nat \<Rightarrow> ('a \<Rightarrow> nat) \<Rightarrow> 'a \<Rightarrow> bool \<Rightarrow> 'a shash \<Rightarrow> 'a shash option" where
  "sh_add_nested 0 hash_of data auto_free t = None"
| "sh_add_nested (Suc depth) hash_of data auto_free t =
     (case sh_rebuild (sh_add_nested depth hash_of) t of
        None \<Rightarrow> None
      | Some t1 \<Rightarrow> sh_place hash_of auto_free data t1)"

definition sh_add :: "('a \<Rightarrow> nat) \<Rightarrow> 'a \<Rightarrow> bool \<Rightarrow> 'a shash \<Rightarrow> 'a shash option" where
  "sh_add hash_of data auto_free t = sh_add_nested 2 hash_of data auto_free t"

subsection \<open>Removing\<close>

text \<open>The second component is the element that is freed.\<close>

definition sh_remove :: "('a \<Rightarrow> bool) \<Rightarrow> nat \<Rightarrow> 'a shash \<Rightarrow> ('a shash \<times> 'a option) option" where
  "sh_remove cmp hash t =
     (case genfind cmp hash t of
        None \<Rightarrow> None
      | Some None \<Rightarrow> Some (t, None)
      | Some (Some res) \<Rightarrow>
          Some (SHash ((sh_slots t)[res := Deleted]) (sh_prime t) (sh_used t) (sh_num t - 1),
            if slot_autofree (sh_slots t ! res) then Some (slot_data (sh_slots t ! res)) else None))"

definition sh_zap :: "'a shash \<Rightarrow> 'a shash \<times> 'a list" where
  "sh_zap t =
     (SHash (map (\<lambda>_. Free) (sh_slots t)) (sh_prime t) 0 0,
      map slot_data (filter (\<lambda>s. is_occupied s \<and> slot_autofree s) (sh_slots t)))"

definition sh_set_autofree :: "('a \<Rightarrow> bool) \<Rightarrow> nat \<Rightarrow> bool \<Rightarrow> 'a shash \<Rightarrow> 'a shash option" where
  "sh_set_autofree cmp hash auto_free t =
     (case genfind cmp hash t of
        None \<Rightarrow> None
      | Some None \<Rightarrow> Some t
      | Some (Some res) \<Rightarrow>
          Some (SHash ((sh_slots t)[res := Occupied auto_free (slot_data (sh_slots t ! res))])
            (sh_prime t) (sh_used t) (sh_num t)))"

definition sh_get_autofree :: "('a \<Rightarrow> bool) \<Rightarrow> nat \<Rightarrow> 'a shash \<Rightarrow> bool option" where
  "sh_get_autofree cmp hash t =
     (case genfind cmp hash t of
        Some (Some res) \<Rightarrow> Some (slot_autofree (sh_slots t ! res))
      | _ \<Rightarrow> None)"

subsection \<open>A probe sequence visits every slot\<close>

lemma multiples_reach:
  fixes h c :: nat
  assumes v: "v < m" "int v mod gcd (int c) (int m) = int h mod gcd (int c) (int m)" and m: "0 < m"
  shows "\<exists>a. (h + a * c) mod m = v"
proof -
  let ?g = "gcd (int c) (int m)"
  obtain u w where b: "u * int c + w * int m = ?g" using bezout_int by blast
  obtain j where j: "int v - int h = ?g * j" using v(2) by (metis dvd_def mod_eq_dvd_iff)
  define a where "a = nat ((j * u) mod int m)"
  have a: "int a = (j * u) mod int m" using m by (simp add: a_def)
  have "int ((h + a * c) mod m) = (int h + int a * int c) mod int m" by (simp add: zmod_int)
  also have "\<dots> = (int h + j * u * int c) mod int m" unfolding a by (metis mod_add_right_eq mod_mult_left_eq)
  also have "int h + j * u * int c = int v + (- j * w) * int m"
  proof -
    have "u * int c = ?g - w * int m" using b by linarith
    then have "j * u * int c = j * (?g - w * int m)" by (simp only: mult.assoc)
    then show ?thesis using j by (simp add: algebra_simps)
  qed
  also have "(int v + (- j * w) * int m) mod int m = int v" using v(1) by (simp only: mod_mult_self1) simp
  finally show ?thesis by (metis of_nat_eq_iff)
qed

lemma residue_reach:
  fixes g n :: nat
  assumes "coprime g n" "0 < n" "s < n" "0 < g"
  shows "\<exists>v. v < g * n \<and> v mod g = r mod g \<and> v mod n = s"
proof -
  obtain u w where b: "u * int g + w * int n = 1"
    using bezout_int [of "int g" "int n"] assms(1) by (auto simp: coprime_iff_gcd_eq_1)
  define q where "q = r mod g"
  define j where "j = nat (((int s - int q) * u) mod int n)"
  have j: "int j = ((int s - int q) * u) mod int n" "j < n" using assms(2) by (simp_all add: j_def nat_less_iff)
  define v where "v = q + g * j"
  have q: "q < g" using assms(4) by (simp add: q_def)
  have "g * Suc j \<le> g * n" using j(2) by (intro mult_le_mono2) simp
  then have lt: "v < g * n" using q by (simp add: v_def)
  have "int (v mod n) = (int q + int g * int j) mod int n" by (simp add: v_def zmod_int)
  also have "\<dots> = (int q + int g * ((int s - int q) * u)) mod int n"
    unfolding j(1) by (metis mod_add_right_eq mod_mult_right_eq)
  also have "int q + int g * ((int s - int q) * u) = int s + (- (int s - int q) * w) * int n"
  proof -
    have "u * int g = 1 - w * int n" using b by linarith
    then have "(int s - int q) * (u * int g) = (int s - int q) * (1 - w * int n)" by (simp only:)
    moreover have "int g * ((int s - int q) * u) = (int s - int q) * (u * int g)" by (simp add: ac_simps)
    ultimately have "int g * ((int s - int q) * u) = (int s - int q) * (1 - w * int n)" by (simp only:)
    moreover have "(int s - int q) * (1 - w * int n) = (int s - int q) + (- (int s - int q) * w) * int n"
      by (simp add: algebra_simps)
    ultimately show ?thesis by linarith
  qed
  also have "(int s + (- (int s - int q) * w) * int n) mod int n = int s" using assms(3) by simp
  finally have "v mod n = s" by (metis of_nat_eq_iff)
  moreover have "v mod g = r mod g" using q by (simp add: v_def q_def)
  ultimately show ?thesis using lt by blast
qed

definition slots_ok :: "nat \<Rightarrow> bool" where
  "slots_ok n \<longleftrightarrow> n = 2 \<or> (odd n \<and> 2 < n \<and> n \<le> 2 ^ 16)"

lemma second_hash_bounds: "2 \<le> n \<Longrightarrow> 0 < second_hash h n \<and> second_hash h n < n"
proof -
  assume "2 \<le> n"
  then have "h mod (n - 1) < n - 1" by simp
  then show ?thesis by (simp add: second_hash_def)
qed

lemma curhash_reaches:
  assumes n: "slots_ok n" and s: "s < n"
  shows "\<exists>a. curhash h (second_hash h n) a n = s"
proof -
  define c where "c = second_hash h n"
  have n2: "2 \<le> n" "n \<le> 2 ^ 16" using n by (auto simp: slots_ok_def)
  then have c: "0 < c" "c < n" using second_hash_bounds [OF n2(1)] by (simp_all add: c_def)
  define g where "g = gcd c (2 ^ 32)"
  have g: "0 < g" "g \<le> c" "g dvd 2 ^ 32" using c(1) by (simp_all add: g_def gcd_le1_nat)
  have "coprime g n"
  proof (cases "n = 2")
    case True
    then have "g = 1" using c g by linarith
    then show ?thesis by simp
  next
    case False
    then have "odd n" using n by (simp add: slots_ok_def)
    then have "coprime (2 ^ 32) n" by (simp only: coprime_power_left_iff coprime_left_2_iff_odd simp_thms)
    then show ?thesis using g(3) by (rule coprime_divisors [rotated 2]) simp
  qed
  then obtain v where v: "v < g * n" "v mod g = h mod g" "v mod n = s"
    using residue_reach [of g n s h] s g(1) n2 by auto
  have "g * n \<le> 2 ^ 16 * 2 ^ 16" using g c n2 by (intro mult_le_mono) simp_all
  then have "v < 2 ^ 32" using v(1) by simp
  moreover have "int v mod int g = int h mod int g" using v(2) by (metis zmod_int)
  then have "int v mod gcd (int c) (int (2 ^ 32)) = int h mod gcd (int c) (int (2 ^ 32))"
    by (simp add: g_def gcd_int_int_eq [symmetric])
  ultimately obtain a where "(h + a * c) mod 2 ^ 32 = v"
    using multiples_reach [of v "2 ^ 32" c h] by auto
  then show ?thesis using v(3) by (auto simp: curhash_def c_def)
qed

subsection \<open>The searches end\<close>

lemma vacant_loop_at:
  assumes "a \<le> k" "\<forall>b. a \<le> b \<and> b < k \<longrightarrow> is_occupied (slots ! probe slots h b)"
    "\<not> is_occupied (slots ! probe slots h k)"
  shows "vacant_loop slots h a = Some (probe slots h k)"
  using assms
proof (induction "k - a" arbitrary: a)
  case 0
  then show ?case by (subst vacant_loop.simps) (simp add: Let_def)
next
  case (Suc d)
  then have "a < k" "is_occupied (slots ! probe slots h a)" by auto
  moreover have "vacant_loop slots h (a + 1) = Some (probe slots h k)" using Suc by auto
  ultimately show ?case by (subst vacant_loop.simps) (simp add: Let_def)
qed

definition slot_hit :: "('a \<Rightarrow> bool) \<Rightarrow> 'a slot \<Rightarrow> bool" where
  "slot_hit cmp s = (case s of Occupied _ x \<Rightarrow> cmp x | _ \<Rightarrow> False)"

lemma genfind_loop_at:
  assumes "a \<le> k" "\<forall>b. a \<le> b \<and> b < k \<longrightarrow> slots ! probe slots h b \<noteq> Free \<and> \<not> slot_hit cmp (slots ! probe slots h b)"
    "slots ! probe slots h k = Free \<or> slot_hit cmp (slots ! probe slots h k)"
  shows "genfind_loop cmp slots h a = Some (if slots ! probe slots h k = Free then None else Some (probe slots h k))"
  using assms
proof (induction "k - a" arbitrary: a)
  case 0
  then show ?case
    by (subst genfind_loop.simps) (auto simp: Let_def slot_hit_def split: slot.splits)
next
  case (Suc d)
  then have "a < k" "slots ! probe slots h a \<noteq> Free" "\<not> slot_hit cmp (slots ! probe slots h a)" by auto
  moreover have "genfind_loop cmp slots h (a + 1) =
      Some (if slots ! probe slots h k = Free then None else Some (probe slots h k))"
    using Suc by auto
  ultimately show ?case
    by (subst genfind_loop.simps) (auto simp: Let_def slot_hit_def split: slot.splits)
qed

subsection \<open>The invariant\<close>

text \<open>Every element can be reached along the probes of its hash without meeting a free slot; \<open>used\<close>
  counts the slots that are not free.\<close>

definition sh_reach :: "('a \<Rightarrow> nat) \<Rightarrow> 'a slot list \<Rightarrow> bool" where
  "sh_reach hash_of slots \<longleftrightarrow>
     (\<forall>s < length slots. is_occupied (slots ! s) \<longrightarrow>
        (\<exists>a. probe slots (hash_of (slot_data (slots ! s))) a = s \<and>
           (\<forall>b < a. slots ! probe slots (hash_of (slot_data (slots ! s))) b \<noteq> Free)))"

definition sh_core :: "('a \<Rightarrow> nat) \<Rightarrow> 'a shash \<Rightarrow> bool" where
  "sh_core hash_of t \<longleftrightarrow>
     sh_prime t \<le> 15 \<and> length (sh_slots t) = prime_numbers ! sh_prime t \<and>
     sh_num t = length (filter is_occupied (sh_slots t)) \<and>
     sh_used t = length (filter (\<lambda>s. s \<noteq> Free) (sh_slots t)) \<and>
     sh_reach hash_of (sh_slots t)"

definition sh_inv :: "('a \<Rightarrow> nat) \<Rightarrow> 'a shash \<Rightarrow> bool" where
  "sh_inv hash_of t \<longleftrightarrow> sh_core hash_of t \<and> 100 * sh_used t < 45 * sh_numslots t"

lemma primes_ok: "i \<le> 15 \<Longrightarrow> slots_ok (prime_numbers ! i)"
proof -
  have "list_all slots_ok (take 16 prime_numbers)" by (simp add: prime_numbers_def slots_ok_def)
  moreover have "length (take 16 prime_numbers) = 16" by (simp add: prime_numbers_def)
  ultimately show "i \<le> 15 \<Longrightarrow> slots_ok (prime_numbers ! i)" by (auto simp: list_all_length)
qed

lemma primes_step: "i < 15 \<Longrightarrow> prime_numbers ! i + 3 \<le> prime_numbers ! Suc i"
proof -
  have "list_all (\<lambda>(p, q). p + 3 \<le> q) (zip (take 15 prime_numbers) (take 15 (tl prime_numbers)))"
    by (simp add: prime_numbers_def)
  moreover have "length prime_numbers = 32" by (simp add: prime_numbers_def)
  ultimately show "i < 15 \<Longrightarrow> prime_numbers ! i + 3 \<le> prime_numbers ! Suc i"
    by (auto simp: list_all_length nth_tl)
qed

lemma sh_core_slots: "sh_core hash_of t \<Longrightarrow> slots_ok (length (sh_slots t))"
  by (simp add: sh_core_def primes_ok)

lemma probe_less: "slots_ok (length slots) \<Longrightarrow> probe slots h a < length slots"
proof -
  assume "slots_ok (length slots)"
  then have "0 < length slots" by (auto simp: slots_ok_def)
  then show ?thesis unfolding probe_def curhash_def by (rule mod_less_divisor)
qed

lemma probe_update [simp]: "probe (slots[i := x]) h a = probe slots h a"
  by (simp add: probe_def)

lemma probe_reaches: "slots_ok (length slots) \<Longrightarrow> s < length slots \<Longrightarrow> \<exists>a. probe slots h a = s"
  by (simp add: probe_def curhash_reaches)

lemma filter_less_exists:
  "length (filter P xs) < length xs \<Longrightarrow> \<exists>i < length xs. \<not> P (xs ! i)"
  by (metis filter_True in_set_conv_nth less_irrefl)

lemma occupied_not_free: "is_occupied s \<Longrightarrow> s \<noteq> Free \<and> s \<noteq> Deleted"
  by (auto simp: is_occupied_def)

lemma num_le_used: "sh_core hash_of t \<Longrightarrow> sh_num t \<le> sh_used t"
proof -
  have "length (filter is_occupied xs) \<le> length (filter (\<lambda>s. s \<noteq> Free) xs)" for xs :: "'a slot list"
    by (induction xs) (auto dest: occupied_not_free)
  then show "sh_core hash_of t \<Longrightarrow> sh_num t \<le> sh_used t" by (simp add: sh_core_def)
qed

subsection \<open>Finding\<close>

lemma genfind_spec:
  assumes c: "sh_core hash_of t" and u: "sh_used t < sh_numslots t"
    and h: "\<forall>x \<in> set (sh_elems t). cmp x \<longrightarrow> hash_of x = h"
  shows "(\<exists>s < sh_numslots t. is_occupied (sh_slots t ! s) \<and> cmp (slot_data (sh_slots t ! s)) \<and>
      genfind cmp h t = Some (Some s)) \<or>
    (\<forall>x \<in> set (sh_elems t). \<not> cmp x) \<and> genfind cmp h t = Some None"
proof -
  let ?slots = "sh_slots t"
  let ?at = "\<lambda>b. ?slots ! probe ?slots h b"
  have ok: "slots_ok (length ?slots)" using c by (rule sh_core_slots)
  have "\<exists>i < length ?slots. \<not> ?slots ! i \<noteq> Free"
    using u c by (intro filter_less_exists) (simp add: sh_numslots_def sh_core_def)
  then obtain i where i: "i < length ?slots" "?slots ! i = Free" by auto
  obtain k0 where "probe ?slots h k0 = i" using probe_reaches [OF ok i(1)] by blast
  then have "?at k0 = Free" using i(2) by simp
  define k where "k = (LEAST k. ?at k = Free \<or> slot_hit cmp (?at k))"
  have k: "?at k = Free \<or> slot_hit cmp (?at k)"
    unfolding k_def by (rule LeastI [of _ k0]) (use \<open>?at k0 = Free\<close> in simp)
  have before: "\<not> (?at b = Free \<or> slot_hit cmp (?at b))" if "b < k" for b
    using that unfolding k_def by (rule not_less_Least)
  have g: "genfind cmp h t = Some (if ?at k = Free then None else Some (probe ?slots h k))"
    unfolding genfind_def using before k by (intro genfind_loop_at) auto
  show ?thesis
  proof (cases "?at k = Free")
    case False
    then have "is_occupied (?at k)" "cmp (slot_data (?at k))"
      using k by (auto simp: slot_hit_def is_occupied_def split: slot.splits)
    then show ?thesis using g False probe_less [OF ok] by (auto simp: sh_numslots_def)
  next
    case True
    have "\<not> cmp x" if x: "x \<in> set (sh_elems t)" for x
    proof
      assume cx: "cmp x"
      obtain s where s: "s < length ?slots" "is_occupied (?slots ! s)" "x = slot_data (?slots ! s)"
        using x by (auto simp: sh_elems_def in_set_conv_nth [of _ "sh_slots t"])
      have "hash_of x = h" using h x cx by blast
      then obtain a where a: "probe ?slots h a = s" "\<forall>b < a. ?at b \<noteq> Free"
        using c s unfolding sh_core_def sh_reach_def by blast
      have "slot_hit cmp (?at a)" using a(1) s cx by (auto simp: slot_hit_def is_occupied_def split: slot.splits)
      then have "k \<le> a" unfolding k_def by (intro Least_le) simp
      moreover have "k \<noteq> a" using True a(1) s(2) by (auto dest: occupied_not_free)
      ultimately show False using a(2) True by auto
    qed
    then show ?thesis using g True by simp
  qed
qed


subsection \<open>Placing, rebuilding and adding\<close>

lemma mset_elems: "mset (sh_elems t) = image_mset slot_data (filter_mset is_occupied (mset (sh_slots t)))"
  by (simp add: sh_elems_def)

lemma filter_length_update:
  "i < length xs \<Longrightarrow> length (filter P (xs[i := x])) + (if P (xs ! i) then 1 else 0) =
     length (filter P xs) + (if P x then 1 else 0)"
proof -
  assume "i < length xs"
  then obtain a y b where "xs = a @ y # b" "i = length a"
    by (metis id_take_nth_drop length_take min.absorb2 less_imp_le)
  then show ?thesis by simp
qed

lemma filter_mset_update:
  "i < length xs \<Longrightarrow> filter_mset P (mset (xs[i := x])) + (if P (xs ! i) then {#xs ! i#} else {#}) =
     filter_mset P (mset xs) + (if P x then {#x#} else {#})"
proof -
  assume "i < length xs"
  then obtain a y b where "xs = a @ y # b" "i = length a"
    by (metis id_take_nth_drop length_take min.absorb2 less_imp_le)
  then show ?thesis by simp
qed

lemma sh_reach_update:
  assumes "sh_reach hash_of slots" "s < length slots" "v \<noteq> Free"
    and "is_occupied v \<Longrightarrow> \<exists>a. probe slots (hash_of (slot_data v)) a = s \<and>
      (\<forall>b < a. slots ! probe slots (hash_of (slot_data v)) b \<noteq> Free)"
  shows "sh_reach hash_of (slots[s := v])"
  unfolding sh_reach_def
proof (intro allI impI)
  fix i assume i: "i < length (slots[s := v])" "is_occupied (slots[s := v] ! i)"
  let ?h = "hash_of (slot_data (slots[s := v] ! i))"
  obtain a where a: "probe slots ?h a = i" "\<forall>b < a. slots ! probe slots ?h b \<noteq> Free"
    using assms i by (cases "i = s") (auto simp: sh_reach_def)
  have "slots[s := v] ! probe slots ?h b \<noteq> Free" if "b < a" for b
    using a(2) that assms(2,3) by (cases "probe slots ?h b = s") auto
  then show "\<exists>a. probe (slots[s := v]) ?h a = i \<and> (\<forall>b < a. slots[s := v] ! probe (slots[s := v]) ?h b \<noteq> Free)"
    using a(1) by auto
qed

lemma sh_place_spec:
  assumes c: "sh_core hash_of t" and u: "sh_used t < sh_numslots t"
  shows "\<exists>t'. sh_place hash_of f x t = Some t' \<and> sh_core hash_of t' \<and> sh_prime t' = sh_prime t \<and>
    sh_numslots t' = sh_numslots t \<and> sh_num t' = sh_num t + 1 \<and> sh_used t' \<le> sh_used t + 1 \<and>
    mset (sh_elems t') = add_mset x (mset (sh_elems t))"
proof -
  let ?slots = "sh_slots t"
  let ?at = "\<lambda>b. ?slots ! probe ?slots (hash_of x) b"
  have ok: "slots_ok (length ?slots)" using c by (rule sh_core_slots)
  have "length (filter is_occupied ?slots) < length ?slots"
    using num_le_used [OF c] u c by (simp add: sh_core_def sh_numslots_def)
  then obtain i where i: "i < length ?slots" "\<not> is_occupied (?slots ! i)" using filter_less_exists by blast
  obtain k0 where "probe ?slots (hash_of x) k0 = i" using probe_reaches [OF ok i(1)] by blast
  then have k0: "\<not> is_occupied (?at k0)" using i(2) by simp
  define k where "k = (LEAST k. \<not> is_occupied (?at k))"
  have k: "\<not> is_occupied (?at k)" unfolding k_def by (rule LeastI) (rule k0)
  have before: "is_occupied (?at b)" if "b < k" for b using that not_less_Least k_def by blast
  define s where "s = probe ?slots (hash_of x) k"
  have s: "s < length ?slots" "\<not> is_occupied (?slots ! s)" using probe_less [OF ok] k by (simp_all add: s_def)
  define t' where "t' = SHash (?slots[s := Occupied f x]) (sh_prime t)
    (if ?slots ! s = Deleted then sh_used t else sh_used t + 1) (sh_num t + 1)"
  have "vacant_loop ?slots (hash_of x) 0 = Some s" 
    using vacant_loop_at [of 0 k ?slots "hash_of x"] before k by (simp add: s_def)
  then have p: "sh_place hash_of f x t = Some t'" by (simp add: sh_place_def t'_def)
  have occ: "is_occupied (Occupied f x)" "slot_data (Occupied f x) = x" by (simp_all add: is_occupied_def)
  have n: "length (filter is_occupied (?slots[s := Occupied f x])) = length (filter is_occupied ?slots) + 1"
    using filter_length_update [OF s(1), of is_occupied "Occupied f x"] s(2) occ by simp
  have m: "length (filter (\<lambda>s. s \<noteq> Free) (?slots[s := Occupied f x])) =
      length (filter (\<lambda>s. s \<noteq> Free) ?slots) + (if ?slots ! s = Deleted then 0 else 1)"
    using filter_length_update [OF s(1), of "\<lambda>s. s \<noteq> Free" "Occupied f x"] s(2)
    by (cases "?slots ! s") (simp_all add: is_occupied_def)
  have r: "sh_reach hash_of (?slots[s := Occupied f x])"
    using c s(1) before occupied_not_free
    by (intro sh_reach_update) (auto simp: sh_core_def s_def)
  have "sh_core hash_of t'" using c n m r by (simp add: sh_core_def t'_def)
  moreover have "mset (sh_elems t') = add_mset x (mset (sh_elems t))"
    using filter_mset_update [OF s(1), of is_occupied "Occupied f x"] s(2) occ
    by (simp add: mset_elems t'_def del: mset_update)
  ultimately show ?thesis using p by (simp add: t'_def sh_numslots_def)
qed

lemma sh_add_nested_place:
  "\<not> need_rebuild t \<Longrightarrow> sh_add_nested (Suc d) hash_of x f t = sh_place hash_of f x t"
  by (simp add: sh_rebuild_def)

lemma sh_readd_spec:
  assumes "sh_core hash_of t" "100 * (sh_used t + length (filter is_occupied ss)) < 45 * sh_numslots t"
  shows "\<exists>t'. sh_readd (sh_add_nested (Suc d) hash_of) ss t = Some t' \<and> sh_core hash_of t' \<and>
    sh_prime t' = sh_prime t \<and> sh_numslots t' = sh_numslots t \<and>
    sh_num t' = sh_num t + length (filter is_occupied ss) \<and>
    sh_used t' \<le> sh_used t + length (filter is_occupied ss) \<and>
    mset (sh_elems t') = mset (sh_elems t) + image_mset slot_data (filter_mset is_occupied (mset ss))"
  using assms
proof (induction ss arbitrary: t)
  case (Cons s ss)
  show ?case
  proof (cases s)
    case (Occupied f x)
    then have o: "is_occupied s" "slot_data s = x" by (simp_all add: is_occupied_def)
    then have n: "\<not> need_rebuild t" using Cons.prems(2) by (simp add: need_rebuild_def)
    have "sh_used t < sh_numslots t" using Cons.prems(2) o by simp
    then obtain t1 where p: "sh_place hash_of f x t = Some t1" and t1: "sh_core hash_of t1"
      "sh_prime t1 = sh_prime t" "sh_numslots t1 = sh_numslots t" "sh_num t1 = sh_num t + 1"
      "sh_used t1 \<le> sh_used t + 1" "mset (sh_elems t1) = add_mset x (mset (sh_elems t))"
      using sh_place_spec [OF Cons.prems(1)] by blast
    have "100 * (sh_used t1 + length (filter is_occupied ss)) < 45 * sh_numslots t1"
      using Cons.prems(2) o t1 by simp
    from Cons.IH [OF t1(1) this] obtain t2 where t2:
      "sh_readd (sh_add_nested (Suc d) hash_of) ss t1 = Some t2" "sh_core hash_of t2"
      "sh_prime t2 = sh_prime t1" "sh_numslots t2 = sh_numslots t1"
      "sh_num t2 = sh_num t1 + length (filter is_occupied ss)"
      "sh_used t2 \<le> sh_used t1 + length (filter is_occupied ss)"
      "mset (sh_elems t2) = mset (sh_elems t1) + image_mset slot_data (filter_mset is_occupied (mset ss))"
      by blast
    have "sh_readd (sh_add_nested (Suc d) hash_of) (s # ss) t = Some t2"
      using Occupied p t2(1) sh_add_nested_place [OF n, of d hash_of x f] by (simp del: sh_add_nested.simps)
    then show ?thesis using t1 t2 o
      by (intro exI [of _ t2]) (simp del: sh_add_nested.simps sh_readd.simps)
  qed (use Cons in \<open>simp_all add: is_occupied_def\<close>)
qed simp

lemma sh_core_sized: "i \<le> 15 \<Longrightarrow> \<exists>t. sh_sized i = Some t \<and> sh_core hash_of t \<and> sh_prime t = i \<and>
  sh_numslots t = prime_numbers ! i \<and> sh_num t = 0 \<and> sh_used t = 0 \<and> sh_elems t = []"
  by (auto simp: sh_sized_def sh_core_def sh_numslots_def sh_reach_def sh_elems_def is_occupied_def prime_numbers_def
      filter_empty_conv)

text \<open>Adding an element never nests more than one rebuild and ends, up to 26000 elements.\<close>

lemma sh_add_spec:
  assumes t: "sh_inv hash_of t" and num: "sh_num t < 26000"
  shows "\<exists>t'. sh_add hash_of x f t = Some t' \<and> sh_inv hash_of t' \<and> sh_num t' = sh_num t + 1 \<and>
    mset (sh_elems t') = add_mset x (mset (sh_elems t))"
proof -
  have c: "sh_core hash_of t" and u: "100 * sh_used t < 45 * sh_numslots t"
    using t by (simp_all add: sh_inv_def)
  have add: "sh_add hash_of x f t =
      (case sh_rebuild (sh_add_nested (Suc 0) hash_of) t of None \<Rightarrow> None | Some t1 \<Rightarrow> sh_place hash_of f x t1)"
    by (simp add: sh_add_def numeral_2_eq_2 del: sh_add_nested.simps(1))
  have "\<exists>t1. sh_rebuild (sh_add_nested (Suc 0) hash_of) t = Some t1 \<and> sh_core hash_of t1 \<and>
      100 * (sh_used t1 + 1) < 45 * sh_numslots t1 \<and> sh_num t1 = sh_num t \<and>
      mset (sh_elems t1) = mset (sh_elems t)"
  proof (cases "need_rebuild t")
    case False
    then show ?thesis using c by (simp add: sh_rebuild_def need_rebuild_def)
  next
    case rebuild: True
    define i where "i = (if need_resize t then sh_prime t + 1 else sh_prime t)"
    have p: "sh_prime t \<le> 15" "sh_numslots t = prime_numbers ! sh_prime t"
      using c by (simp_all add: sh_core_def sh_numslots_def)
    have "sh_prime t \<noteq> 15" if "need_resize t"
    proof
      assume "sh_prime t = 15"
      then have "sh_numslots t = 65521" using p by (simp add: prime_numbers_def)
      then show False using that num by (simp add: need_resize_def)
    qed
    then have i: "i \<le> 15" using p by (auto simp: i_def)
    have room: "100 * (sh_num t + 1) < 45 * prime_numbers ! i \<and> 100 * sh_num t < 45 * prime_numbers ! i"
    proof (cases "need_resize t")
      case True
      then have "prime_numbers ! sh_prime t + 3 \<le> prime_numbers ! i"
        using primes_step [of "sh_prime t"] p \<open>need_resize t \<Longrightarrow> sh_prime t \<noteq> 15\<close> by (simp add: i_def)
      then show ?thesis using u p num_le_used [OF c] by simp
    next
      case False
      then show ?thesis using p by (simp add: need_resize_def i_def)
    qed
    obtain t0 where t0: "sh_sized i = Some t0" "sh_core hash_of t0" "sh_numslots t0 = prime_numbers ! i"
      "sh_num t0 = 0" "sh_used t0 = 0" "sh_elems t0 = []"
      using sh_core_sized [OF i, of hash_of] by blast
    have n: "length (filter is_occupied (sh_slots t)) = sh_num t" using c by (simp add: sh_core_def)
    have "100 * (sh_used t0 + length (filter is_occupied (sh_slots t))) < 45 * sh_numslots t0"
      using room t0 n by simp
    from sh_readd_spec [OF t0(2) this, of 0] obtain t1 where t1:
      "sh_readd (sh_add_nested (Suc 0) hash_of) (sh_slots t) t0 = Some t1" "sh_core hash_of t1"
      "sh_numslots t1 = sh_numslots t0" "sh_num t1 = sh_num t" "sh_used t1 \<le> sh_num t"
      "mset (sh_elems t1) = mset (sh_elems t)"
      using t0 n by (auto simp: mset_elems)
    then have "sh_rebuild (sh_add_nested (Suc 0) hash_of) t = Some t1"
      using rebuild t0(1) by (simp add: sh_rebuild_def i_def del: sh_add_nested.simps)
    moreover have "100 * (sh_used t1 + 1) < 45 * sh_numslots t1" using room t1 t0 by simp
    ultimately show ?thesis using t1 by blast
  qed
  then obtain t1 where r: "sh_rebuild (sh_add_nested (Suc 0) hash_of) t = Some t1" and t1: "sh_core hash_of t1"
    "100 * (sh_used t1 + 1) < 45 * sh_numslots t1" "sh_num t1 = sh_num t" "mset (sh_elems t1) = mset (sh_elems t)"
    by blast
  have "sh_used t1 < sh_numslots t1" using t1(2) by simp
  from sh_place_spec [OF t1(1) this, of f x] obtain t' where t': "sh_place hash_of f x t1 = Some t'"
    "sh_core hash_of t'" "sh_numslots t' = sh_numslots t1" "sh_num t' = sh_num t1 + 1"
    "sh_used t' \<le> sh_used t1 + 1" "mset (sh_elems t') = add_mset x (mset (sh_elems t1))" by blast
  then have "sh_inv hash_of t'" using t1(2) by (simp add: sh_inv_def)
  then show ?thesis using add r t' t1 by auto
qed

subsection \<open>Removing\<close>

lemma sh_delete_spec:
  assumes t: "sh_inv hash_of t" and s: "s < sh_numslots t" "is_occupied (sh_slots t ! s)"
  shows "sh_inv hash_of (SHash ((sh_slots t)[s := Deleted]) (sh_prime t) (sh_used t) (sh_num t - 1)) \<and>
    mset (sh_elems t) = add_mset (slot_data (sh_slots t ! s))
      (mset (sh_elems (SHash ((sh_slots t)[s := Deleted]) (sh_prime t) (sh_used t) (sh_num t - 1))))"
proof -
  let ?t = "SHash ((sh_slots t)[s := Deleted]) (sh_prime t) (sh_used t) (sh_num t - 1)"
  have c: "sh_core hash_of t" using t by (simp add: sh_inv_def)
  have s': "s < length (sh_slots t)" using s(1) by (simp add: sh_numslots_def)
  have d: "\<not> is_occupied Deleted" by (simp add: is_occupied_def)
  have "length (filter is_occupied ((sh_slots t)[s := Deleted])) + 1 = length (filter is_occupied (sh_slots t))"
    using filter_length_update [OF s', of is_occupied Deleted] s(2) d by simp
  moreover have "length (filter (\<lambda>s. s \<noteq> Free) ((sh_slots t)[s := Deleted])) = length (filter (\<lambda>s. s \<noteq> Free) (sh_slots t))"
    using filter_length_update [OF s', of "\<lambda>s. s \<noteq> Free" Deleted] s(2) by (simp add: occupied_not_free)
  moreover have "sh_reach hash_of ((sh_slots t)[s := Deleted])"
    using d by (intro sh_reach_update) (use c s' in \<open>auto simp: sh_core_def\<close>)
  ultimately have "sh_inv hash_of ?t" using c t by (simp add: sh_inv_def sh_core_def sh_numslots_def)
  moreover have "filter_mset is_occupied (mset (sh_slots t)) =
      add_mset (sh_slots t ! s) (filter_mset is_occupied (mset ((sh_slots t)[s := Deleted])))"
    using filter_mset_update [OF s', of is_occupied Deleted] s(2) d by (simp del: mset_update)
  then have "mset (sh_elems t) = add_mset (slot_data (sh_slots t ! s)) (mset (sh_elems ?t))"
    by (simp add: mset_elems del: mset_update)
  ultimately show ?thesis by blast
qed

lemma sh_inv_room: "sh_inv hash_of t \<Longrightarrow> sh_used t < sh_numslots t"
  by (simp add: sh_inv_def)

lemma sh_remove_spec:
  assumes t: "sh_inv hash_of t" and h: "\<forall>x \<in> set (sh_elems t). cmp x \<longrightarrow> hash_of x = h"
  shows "\<exists>t' fr. sh_remove cmp h t = Some (t', fr) \<and> sh_inv hash_of t' \<and>
    ((\<forall>x \<in> set (sh_elems t). \<not> cmp x) \<and> t' = t \<or>
     (\<exists>x. cmp x \<and> mset (sh_elems t) = add_mset x (mset (sh_elems t'))))"
proof -
  have c: "sh_core hash_of t" using t by (simp add: sh_inv_def)
  from genfind_spec [OF c sh_inv_room [OF t] h] show ?thesis
  proof (elim disjE exE conjE)
    fix s assume s: "s < sh_numslots t" "is_occupied (sh_slots t ! s)" "cmp (slot_data (sh_slots t ! s))"
      "genfind cmp h t = Some (Some s)"
    then show ?thesis using sh_delete_spec [OF t s(1,2)] by (auto simp: sh_remove_def)
  next
    assume "\<forall>x \<in> set (sh_elems t). \<not> cmp x" "genfind cmp h t = Some None"
    then show ?thesis using t by (auto simp: sh_remove_def)
  qed
qed

lemma sh_new_spec: "\<exists>t. sh_new 0 = Some t \<and> sh_inv hash_of t \<and> sh_elems t = []"
proof -
  have "prime_numbers ! 0 = 2" by (simp add: prime_numbers_def)
  then show ?thesis using sh_core_sized [of 0 hash_of] by (auto simp: sh_new_def sh_inv_def)
qed

subsection \<open>A dictionary\<close>

text \<open>The interface of a table: an element has a key, keys are compared up to \<open>norm\<close>, and the hash
  respects the comparison.\<close>

definition dict_inv :: "('a \<Rightarrow> 'k) \<Rightarrow> ('k \<Rightarrow> nat) \<Rightarrow> ('k \<Rightarrow> bool) \<Rightarrow> ('k \<Rightarrow> 'n) \<Rightarrow> 'a shash \<Rightarrow> bool" where
  "dict_inv get_key hash valid norm t \<longleftrightarrow>
     sh_inv (\<lambda>x. hash (get_key x)) t \<and> (\<forall>x \<in> set (sh_elems t). valid (get_key x)) \<and>
     distinct (map (\<lambda>x. norm (get_key x)) (sh_elems t))"

locale hash_dict =
  fixes get_key :: "'a \<Rightarrow> 'k" and hash :: "'k \<Rightarrow> nat" and eq :: "'k \<Rightarrow> 'k \<Rightarrow> bool"
    and valid :: "'k \<Rightarrow> bool" and norm :: "'k \<Rightarrow> 'n"
  assumes eq: "valid j \<Longrightarrow> valid k \<Longrightarrow> eq j k \<longleftrightarrow> norm j = norm k"
    and hash: "valid j \<Longrightarrow> valid k \<Longrightarrow> norm j = norm k \<Longrightarrow> hash j = hash k"
begin

abbreviation inv :: "'a shash \<Rightarrow> bool" where
  "inv t \<equiv> dict_inv get_key hash valid norm t"

lemma hash_hits:
  assumes "inv t" "valid k"
  shows "\<forall>x \<in> set (sh_elems t). eq k (get_key x) \<longrightarrow> hash (get_key x) = hash k"
  using assms eq hash unfolding dict_inv_def by metis

lemma dict_unique:
  assumes "inv t" "x \<in> set (sh_elems t)" "y \<in> set (sh_elems t)" "norm (get_key x) = norm (get_key y)"
  shows "x = y"
  using assms unfolding dict_inv_def by (metis (no_types, lifting) distinct_map inj_onD)

lemma dict_find:
  assumes t: "inv t" and k: "valid k"
  shows "(\<exists>s < sh_numslots t. is_occupied (sh_slots t ! s) \<and>
      norm (get_key (slot_data (sh_slots t ! s))) = norm k \<and>
      genfind (\<lambda>x. eq k (get_key x)) (hash k) t = Some (Some s)) \<or>
    (\<forall>x \<in> set (sh_elems t). norm (get_key x) \<noteq> norm k) \<and>
      genfind (\<lambda>x. eq k (get_key x)) (hash k) t = Some None"
proof -
  have i: "sh_inv (\<lambda>x. hash (get_key x)) t" and v: "\<forall>x \<in> set (sh_elems t). valid (get_key x)"
    using t by (simp_all add: dict_inv_def)
  then have c: "sh_core (\<lambda>x. hash (get_key x)) t" by (simp add: sh_inv_def)
  have e: "x \<in> set (sh_elems t) \<Longrightarrow> eq k (get_key x) \<longleftrightarrow> norm k = norm (get_key x)" for x
    using eq [OF k] v by blast
  have m: "s < sh_numslots t \<Longrightarrow> is_occupied (sh_slots t ! s) \<Longrightarrow> slot_data (sh_slots t ! s) \<in> set (sh_elems t)" for s
    by (auto simp: sh_elems_def sh_numslots_def)
  from genfind_spec [OF c sh_inv_room [OF i] hash_hits [OF t k]] show ?thesis
  proof (elim disjE exE conjE)
    fix s assume s: "s < sh_numslots t" "is_occupied (sh_slots t ! s)" "eq k (get_key (slot_data (sh_slots t ! s)))"
      "genfind (\<lambda>x. eq k (get_key x)) (hash k) t = Some (Some s)"
    then have "norm (get_key (slot_data (sh_slots t ! s))) = norm k" using e [OF m [OF s(1,2)]] by simp
    then show ?thesis using s by blast
  next
    assume "\<forall>x \<in> set (sh_elems t). \<not> eq k (get_key x)" "genfind (\<lambda>x. eq k (get_key x)) (hash k) t = Some None"
    then show ?thesis using e by auto
  qed
qed

lemma dict_lookup:
  assumes "inv t" "valid k"
  shows "genfind_or_null (\<lambda>x. eq k (get_key x)) (hash k) t =
    Some (find (\<lambda>x. norm (get_key x) = norm k) (sh_elems t))"
  using dict_find [OF assms]
proof (elim disjE exE conjE)
  fix s assume s: "s < sh_numslots t" "is_occupied (sh_slots t ! s)"
    "norm (get_key (slot_data (sh_slots t ! s))) = norm k"
    "genfind (\<lambda>x. eq k (get_key x)) (hash k) t = Some (Some s)"
  have m: "slot_data (sh_slots t ! s) \<in> set (sh_elems t)" using s(1,2) by (auto simp: sh_elems_def sh_numslots_def)
  obtain y where y: "find (\<lambda>x. norm (get_key x) = norm k) (sh_elems t) = Some y"
    using m s(3) by (cases "find (\<lambda>x. norm (get_key x) = norm k) (sh_elems t)") (auto simp: find_None_iff)
  then have "y \<in> set (sh_elems t)" "norm (get_key y) = norm k"
    by (auto simp: find_Some_iff)
  then have "y = slot_data (sh_slots t ! s)" using dict_unique [OF assms(1) _ m] s(3) by simp
  then show ?thesis using s(4) y by (simp add: genfind_or_null_def)
next
  assume "\<forall>x \<in> set (sh_elems t). norm (get_key x) \<noteq> norm k" "genfind (\<lambda>x. eq k (get_key x)) (hash k) t = Some None"
  then show ?thesis by (simp add: genfind_or_null_def find_None_iff [THEN iffD2])
qed

lemma dict_add:
  assumes t: "inv t" "sh_num t < 26000" and x: "valid (get_key x)"
    and new: "\<forall>y \<in> set (sh_elems t). norm (get_key y) \<noteq> norm (get_key x)"
  shows "\<exists>t'. sh_add (\<lambda>x. hash (get_key x)) x f t = Some t' \<and> inv t' \<and> sh_num t' = sh_num t + 1 \<and>
    mset (sh_elems t') = add_mset x (mset (sh_elems t))"
proof -
  have "sh_inv (\<lambda>x. hash (get_key x)) t" using t by (simp add: dict_inv_def)
  from sh_add_spec [OF this t(2), of x f] obtain t' where t': "sh_add (\<lambda>x. hash (get_key x)) x f t = Some t'"
    "sh_inv (\<lambda>x. hash (get_key x)) t'" "sh_num t' = sh_num t + 1"
    "mset (sh_elems t') = add_mset x (mset (sh_elems t))" by blast
  have "set (sh_elems t') = insert x (set (sh_elems t))"
    using t'(4) by (metis set_mset_add_mset_insert set_mset_mset)
  moreover have "mset (map (\<lambda>x. norm (get_key x)) (sh_elems t')) =
      mset (map (\<lambda>x. norm (get_key x)) (x # sh_elems t))" using t'(4) by simp
  then have "distinct (map (\<lambda>x. norm (get_key x)) (sh_elems t')) \<longleftrightarrow>
      distinct (map (\<lambda>x. norm (get_key x)) (x # sh_elems t))" by (rule mset_eq_imp_distinct_iff)
  moreover have "norm (get_key x) \<notin> (\<lambda>x. norm (get_key x)) ` set (sh_elems t)" using new by auto
  ultimately have "inv t'" using t t' x by (simp add: dict_inv_def)
  then show ?thesis using t' by blast
qed

lemma dict_remove:
  assumes t: "inv t" and x: "x \<in> set (sh_elems t)"
  shows "\<exists>t' fr. sh_remove (\<lambda>y. eq (get_key x) (get_key y)) (hash (get_key x)) t = Some (t', fr) \<and> inv t' \<and>
    mset (sh_elems t) = add_mset x (mset (sh_elems t'))"
proof -
  have v: "valid (get_key x)" and i: "sh_inv (\<lambda>x. hash (get_key x)) t" using t x by (simp_all add: dict_inv_def)
  have e: "y \<in> set (sh_elems t) \<Longrightarrow> eq (get_key x) (get_key y) \<longleftrightarrow> norm (get_key x) = norm (get_key y)" for y
    using eq [OF v] t by (simp add: dict_inv_def)
  obtain t' fr where r: "sh_remove (\<lambda>y. eq (get_key x) (get_key y)) (hash (get_key x)) t = Some (t', fr)"
    and i': "sh_inv (\<lambda>x. hash (get_key x)) t'"
    and m: "(\<forall>y \<in> set (sh_elems t). \<not> eq (get_key x) (get_key y)) \<and> t' = t \<or>
     (\<exists>y. eq (get_key x) (get_key y) \<and> mset (sh_elems t) = add_mset y (mset (sh_elems t')))"
    using sh_remove_spec [OF i hash_hits [OF t v]] by blast
  obtain y where y: "eq (get_key x) (get_key y)" "mset (sh_elems t) = add_mset y (mset (sh_elems t'))"
    using m e [OF x] x by auto
  have ins: "set (sh_elems t) = insert y (set (sh_elems t'))"
    using y(2) by (metis set_mset_add_mset_insert set_mset_mset)
  then have "y = x" using e [of y] y(1) dict_unique [OF t x, of y] by simp
  moreover have "distinct (map (\<lambda>x. norm (get_key x)) (y # sh_elems t'))"
    using t y(2) mset_eq_imp_distinct_iff [of "map (\<lambda>x. norm (get_key x)) (sh_elems t)"
        "map (\<lambda>x. norm (get_key x)) (y # sh_elems t')"]
    by (simp add: dict_inv_def)
  then have "inv t'" using t i' ins by (simp add: dict_inv_def)
  ultimately show ?thesis using r y(2) by blast
qed

end

subsection \<open>Changing an element in place\<close>

text \<open>A table holds pointers, so a change of the object behind a slot leaves the table alone.  Here the
  slot holds the object, and the change puts the new one in.\<close>

definition sh_poke :: "nat \<Rightarrow> 'a \<Rightarrow> 'a shash \<Rightarrow> 'a shash" where
  "sh_poke s x t =
     SHash ((sh_slots t)[s := Occupied (slot_autofree (sh_slots t ! s)) x]) (sh_prime t) (sh_used t) (sh_num t)"

lemma sh_poke_inv:
  assumes t: "sh_inv hash_of t" and s: "s < sh_numslots t" "is_occupied (sh_slots t ! s)"
    and h: "hash_of x = hash_of (slot_data (sh_slots t ! s))"
  shows "sh_inv hash_of (sh_poke s x t) \<and>
    add_mset (slot_data (sh_slots t ! s)) (mset (sh_elems (sh_poke s x t))) = add_mset x (mset (sh_elems t))"
proof -
  let ?v = "Occupied (slot_autofree (sh_slots t ! s)) x"
  have c: "sh_core hash_of t" using t by (simp add: sh_inv_def)
  have s': "s < length (sh_slots t)" using s(1) by (simp add: sh_numslots_def)
  have o: "is_occupied ?v" "slot_data ?v = x" by (simp_all add: is_occupied_def)
  have "length (filter is_occupied ((sh_slots t)[s := ?v])) = length (filter is_occupied (sh_slots t))"
    using filter_length_update [OF s', of is_occupied ?v] s(2) o by simp
  moreover have "length (filter (\<lambda>s. s \<noteq> Free) ((sh_slots t)[s := ?v])) = length (filter (\<lambda>s. s \<noteq> Free) (sh_slots t))"
    using filter_length_update [OF s', of "\<lambda>s. s \<noteq> Free" ?v] s(2) by (simp add: occupied_not_free)
  moreover have "sh_reach hash_of ((sh_slots t)[s := ?v])"
    using c s' s(2) h o by (intro sh_reach_update) (auto simp: sh_core_def sh_reach_def)
  ultimately have "sh_inv hash_of (sh_poke s x t)"
    using c t by (simp add: sh_inv_def sh_core_def sh_numslots_def sh_poke_def)
  moreover have f: "add_mset (sh_slots t ! s) (filter_mset is_occupied (mset ((sh_slots t)[s := ?v]))) =
      add_mset ?v (filter_mset is_occupied (mset (sh_slots t)))"
    using filter_mset_update [OF s', of is_occupied ?v] s(2) o by (simp del: mset_update)
  have "image_mset slot_data (add_mset (sh_slots t ! s) (filter_mset is_occupied (mset ((sh_slots t)[s := ?v])))) =
      image_mset slot_data (add_mset ?v (filter_mset is_occupied (mset (sh_slots t))))"
    by (simp only: f)
  then have "add_mset (slot_data (sh_slots t ! s)) (mset (sh_elems (sh_poke s x t))) = add_mset x (mset (sh_elems t))"
    by (simp add: mset_elems sh_poke_def del: mset_update)
  ultimately show ?thesis by blast
qed

context hash_dict
begin

lemma dict_poke:
  assumes t: "inv t" and s: "s < sh_numslots t" "is_occupied (sh_slots t ! s)"
    and x: "valid (get_key x)" "norm (get_key x) = norm (get_key (slot_data (sh_slots t ! s)))"
  shows "inv (sh_poke s x t) \<and>
    add_mset (slot_data (sh_slots t ! s)) (mset (sh_elems (sh_poke s x t))) = add_mset x (mset (sh_elems t))"
proof -
  let ?y = "slot_data (sh_slots t ! s)"
  have y: "?y \<in> set (sh_elems t)" using s by (auto simp: sh_elems_def sh_numslots_def)
  have i: "sh_inv (\<lambda>x. hash (get_key x)) t" "valid (get_key ?y)" using t y by (simp_all add: dict_inv_def)
  have "hash (get_key x) = hash (get_key ?y)" using hash [OF x(1) i(2) x(2)] .
  from sh_poke_inv [OF i(1) s, of x] this have p: "sh_inv (\<lambda>x. hash (get_key x)) (sh_poke s x t)"
    "add_mset ?y (mset (sh_elems (sh_poke s x t))) = add_mset x (mset (sh_elems t))" by blast+
  have "insert ?y (set (sh_elems (sh_poke s x t))) = insert x (set (sh_elems t))"
    using p(2) by (metis set_mset_add_mset_insert set_mset_mset)
  then have "\<forall>z \<in> set (sh_elems (sh_poke s x t)). valid (get_key z)" using t x(1) by (auto simp: dict_inv_def)
  moreover have "image_mset (\<lambda>x. norm (get_key x)) (add_mset ?y (mset (sh_elems (sh_poke s x t)))) =
      image_mset (\<lambda>x. norm (get_key x)) (add_mset x (mset (sh_elems t)))" by (simp only: p(2))
  then have "mset (map (\<lambda>x. norm (get_key x)) (sh_elems (sh_poke s x t))) =
      mset (map (\<lambda>x. norm (get_key x)) (sh_elems t))" using x(2) by simp
  then have "distinct (map (\<lambda>x. norm (get_key x)) (sh_elems (sh_poke s x t)))"
    using t mset_eq_imp_distinct_iff by (fastforce simp: dict_inv_def)
  ultimately show ?thesis using p by (simp add: dict_inv_def)
qed

end

end
