(* ===== verification/WvString.thy ===== *)
theory WvString
  imports Prelude "HOL-Library.Word"
begin

text \<open>
  \<open>WvFastString\<close> and \<open>WvString\<close> (\<open>utils/wvstring.cc\<close>, \<open>include/wvstring.h\<close>): the constructors
  from integers (\<open>wv_uitoar\<close>, \<open>wv_itoar\<close>, \<open>wv_strrev\<close>), comparison, prefix and suffix tests,
  and the formatter \<open>do_format\<close> with its two passes, the first of which counts the bytes
  the second writes.  A string is its value; sharing of string buffers is not modelled.
\<close>

unbundle bit_operations_syntax

subsection \<open>Integers to strings\<close>

text \<open>The digits of \<open>i\<close>, least significant first, as \<open>wv_uitoar\<close> writes them.  The
  template is also used at signed types, where a value that is not positive ends the loop.\<close>

function uitoar_loop :: "int \<Rightarrow> string" where
  "uitoar_loop i =
     (if i > 0 then char_of (48 + nat (i mod 10)) # uitoar_loop (i div 10) else [])"
  by pat_completeness auto
termination by (relation "measure nat") auto

declare uitoar_loop.simps [simp del]

definition wv_uitoar :: "int \<Rightarrow> string" where
  "wv_uitoar i = (if i = 0 then ''0'' else uitoar_loop i)"

text \<open>The value is negated at its own width, where the least value is its own negation.\<close>

definition wv_itoar :: "'a::len word \<Rightarrow> string" where
  "wv_itoar i =
     (if sint i < 0 then wv_uitoar (sint (- i)) @ ''-'' else wv_uitoar (sint i))"

text \<open>The reversal in place by three exclusive-ors; \<open>e\<close> is \<open>end\<close> after its first
  decrement, which is below \<open>begin\<close> for the empty string.\<close>

definition xor_char :: "char \<Rightarrow> char \<Rightarrow> char" where
  "xor_char a b = char_of ((code_of a :: nat) XOR code_of b)"

function strrev_loop :: "string \<Rightarrow> nat \<Rightarrow> int \<Rightarrow> string" where
  "strrev_loop xs b e =
     (if int b < e
      then let x1 = xs[b := xor_char (xs ! b) (xs ! nat e)];
               x2 = x1[nat e := xor_char (x1 ! nat e) (x1 ! b)];
               x3 = x2[b := xor_char (x2 ! b) (x2 ! nat e)]
           in strrev_loop x3 (b + 1) (e - 1)
      else xs)"
  by pat_completeness auto
termination by (relation "measure (\<lambda>(xs, b, e). nat (e - int b))") auto

declare strrev_loop.simps [simp del]

definition wv_strrev :: "string \<Rightarrow> string" where
  "wv_strrev xs = strrev_loop xs 0 (int (length xs) - 1)"

definition string_of_signed :: "'a::len word \<Rightarrow> string" where
  "string_of_signed i = wv_strrev (wv_itoar i)"

definition string_of_unsigned :: "'a::len word \<Rightarrow> string" where
  "string_of_unsigned i = wv_strrev (wv_uitoar (uint i))"

subsection \<open>Comparison, prefixes and suffixes\<close>

definition str_eq :: "wvstring \<Rightarrow> wvstring \<Rightarrow> bool" where
  "str_eq s t =
     (case (s, t) of
        (None, None) \<Rightarrow> True
      | (Some a, Some b) \<Rightarrow> c_strcmp a b = 0
      | _ \<Rightarrow> False)"

definition str_ne :: "wvstring \<Rightarrow> wvstring \<Rightarrow> bool" where
  "str_ne s t =
     (case (s, t) of
        (None, None) \<Rightarrow> False
      | (Some a, Some b) \<Rightarrow> c_strcmp a b \<noteq> 0
      | _ \<Rightarrow> True)"

definition str_lt :: "wvstring \<Rightarrow> wvstring \<Rightarrow> bool" where
  "str_lt s t =
     (case (s, t) of
        (None, None) \<Rightarrow> False
      | (None, Some _) \<Rightarrow> True
      | (Some _, None) \<Rightarrow> False
      | (Some a, Some b) \<Rightarrow> c_strcmp a b < 0)"

definition str_offset :: "wvstring \<Rightarrow> nat \<Rightarrow> wvstring" where
  "str_offset s i = map_option (drop (if i < str_len s then i else str_len s)) s"

definition str_endswith :: "wvstring \<Rightarrow> wvstring \<Rightarrow> bool" where
  "str_endswith s ending =
     (let mylen = str_len s; elen = str_len ending
      in case (s, ending) of
           (Some a, Some b) \<Rightarrow> mylen \<ge> elen \<and> c_strncmp (drop (mylen - elen) a) b elen = 0
         | _ \<Rightarrow> False)"

definition str_startswith :: "wvstring \<Rightarrow> wvstring \<Rightarrow> bool" where
  "str_startswith s starting =
     (case (s, starting) of
        (Some a, Some b) \<Rightarrow> c_strncmp a b (str_len starting) = 0
      | _ \<Rightarrow> False)"

definition str_num :: "wvstring \<Rightarrow> int" where
  "str_num s = (case s of None \<Rightarrow> 0 | Some t \<Rightarrow> c_atoi t)"

subsection \<open>The formatter\<close>

record fmt_spec =
  f_zeropad :: bool
  f_justify :: int
  f_maxlen :: int
  f_argnum :: int

text \<open>\<open>pparse\<close> on a string that starts at a percent sign; \<open>maxlen\<close> and \<open>argnum\<close> keep
  their old values when the string ends early.\<close>

definition pparse :: "string \<Rightarrow> int \<Rightarrow> int \<Rightarrow> string \<times> fmt_spec" where
  "pparse s maxlen0 argnum0 =
     (let c0 = tl s;
          zeropad = (c0 \<noteq> [] \<and> hd c0 = CHR ''0'');
          justify = c_atoi c0;
          c1 = dropWhile (\<lambda>c. c \<noteq> CHR ''.'' \<and> c \<noteq> CHR ''%'' \<and> c \<noteq> CHR ''$'' \<and> \<not> c_isalpha c) c0
      in if c1 = []
         then ([], \<lparr>f_zeropad = zeropad, f_justify = justify, f_maxlen = maxlen0, f_argnum = argnum0\<rparr>)
         else
           let maxlen = (if hd c1 = CHR ''.'' then c_atoi (tl c1) else 0);
               c2 = dropWhile (\<lambda>c. c \<noteq> CHR ''%'' \<and> c \<noteq> CHR ''$'' \<and> \<not> c_isalpha c) c1
           in if c2 = []
              then ([], \<lparr>f_zeropad = zeropad, f_justify = justify, f_maxlen = maxlen, f_argnum = argnum0\<rparr>)
              else
                let argnum = (if hd c2 = CHR ''$'' then c_atoi (tl c2) else 0);
                    c3 = dropWhile (\<lambda>c. c \<noteq> CHR ''%'' \<and> \<not> c_isalpha c) c2
                in (c3, \<lparr>f_zeropad = zeropad, f_justify = justify, f_maxlen = maxlen,
                         f_argnum = argnum\<rparr>))"

text \<open>The argument an expression names: \<open>argv[argnum - 1]\<close>, or the next one.  Reading
  past the array is \<open>None\<close>.\<close>

definition fmt_arg :: "wvstring list \<Rightarrow> nat \<Rightarrow> int \<Rightarrow> wvstring option" where
  "fmt_arg argv argptr argnum =
     (let i = (if argnum > 0 then nat (argnum - 1) else argptr)
      in if i < length argv then Some (argv ! i) else None)"

definition next_arg :: "nat \<Rightarrow> int \<Rightarrow> nat" where
  "next_arg argptr argnum = (if argnum \<le> 0 then argptr + 1 else argptr)"

definition arg_text :: "wvstring \<Rightarrow> string" where
  "arg_text a = (case a of None \<Rightarrow> ''(nil)'' | Some t \<Rightarrow> t)"

text \<open>The counting pass.  \<open>None\<close> is a failed assertion or an argument out of range.\<close>

definition count_arg :: "fmt_spec \<Rightarrow> string \<Rightarrow> int" where
  "count_arg f arg =
     (let ladd = max \<bar>f_justify f\<bar> (int (length arg))
      in if f_maxlen f \<noteq> 0 \<and> f_maxlen f < ladd then f_maxlen f else ladd)"

lemma pparse_fst: "length (fst (pparse s m a)) \<le> length (tl s)"
proof -
  define c1 where "c1 = dropWhile (\<lambda>c. c \<noteq> CHR ''.'' \<and> c \<noteq> CHR ''%'' \<and> c \<noteq> CHR ''$'' \<and> \<not> c_isalpha c) (tl s)"
  define c2 where "c2 = dropWhile (\<lambda>c. c \<noteq> CHR ''%'' \<and> c \<noteq> CHR ''$'' \<and> \<not> c_isalpha c) c1"
  define c3 where "c3 = dropWhile (\<lambda>c. c \<noteq> CHR ''%'' \<and> \<not> c_isalpha c) c2"
  have "fst (pparse s m a) = (if c1 = [] then [] else if c2 = [] then [] else c3)"
    unfolding pparse_def Let_def
    by (simp only: c1_def [symmetric] c2_def [symmetric] c3_def [symmetric] if_distrib [of fst] fst_conv)
  moreover have "length c1 \<le> length (tl s)" "length c2 \<le> length c1" "length c3 \<le> length c2"
    unfolding c1_def c2_def c3_def by (rule length_dropWhile_le)+
  ultimately show ?thesis by (simp del: length_tl)
qed

lemma pparse_tl:
  assumes "(rest, f) = pparse s m a" "rest \<noteq> []" "s \<noteq> []"
  shows "length (tl rest) < length s"
proof -
  have "length rest \<le> length (tl s)" using pparse_fst [of s m a] assms(1) by (metis fst_conv)
  moreover have "length (tl rest) < length rest" "length (tl s) < length s" using assms by simp_all
  ultimately show ?thesis by linarith
qed

function fmt_count :: "wvstring list \<Rightarrow> string \<Rightarrow> nat \<Rightarrow> int \<Rightarrow> int \<Rightarrow> int option" where
  "fmt_count argv iptr argptr maxlen tot =
     (if iptr = [] then Some tot
      else if hd iptr \<noteq> CHR ''%'' then fmt_count argv (tl iptr) argptr maxlen (tot + 1)
      else let (rest, f) = pparse iptr maxlen 0
           in if rest = [] then None
              else if hd rest = CHR ''%'' then fmt_count argv (tl rest) argptr (f_maxlen f) (tot + 1)
              else if hd rest = CHR ''s''
              then (case fmt_arg argv argptr (f_argnum f) of
                      None \<Rightarrow> None
                    | Some a \<Rightarrow> fmt_count argv (tl rest) (next_arg argptr (f_argnum f)) (f_maxlen f)
                                  (tot + count_arg f (arg_text a)))
              else if hd rest = CHR ''c''
              then fmt_count argv (tl rest) (next_arg argptr (f_argnum f)) (f_maxlen f) (tot + 1)
              else None)"
  by pat_completeness auto

termination
  by (relation "measure (\<lambda>(argv, iptr, argptr, maxlen, tot). length iptr)")
     (simp_all add: pparse_tl del: length_tl, simp)

declare fmt_count.simps [simp del]

text \<open>The rendering of one \<open>%s\<close>.  A negative \<open>maxlen\<close> reaches \<open>strncpy\<close> as a huge
  size, which is \<open>None\<close>.\<close>

definition render_arg :: "fmt_spec \<Rightarrow> string \<Rightarrow> string option" where
  "render_arg f arg =
     (let aplen = (if f_maxlen f \<noteq> 0 \<and> f_maxlen f < int (length arg)
                   then f_maxlen f else int (length arg));
          pad = (if f_zeropad f then CHR ''0'' else CHR '' '')
      in if aplen < 0 then None
         else Some
           ((if f_justify f > aplen then replicate (nat (f_justify f - aplen)) pad else [])
            @ take (nat aplen) arg
            @ (if f_justify f < 0 \<and> - f_justify f > aplen
               then replicate (nat (- f_justify f - aplen)) pad else [])))"

definition render_char :: "wvstring \<Rightarrow> char" where
  "render_char a =
     (let arg = (if str_not a then '' '' else the a) in char_of (nat (c_atoi arg mod 256)))"

function fmt_render :: "wvstring list \<Rightarrow> string \<Rightarrow> nat \<Rightarrow> int \<Rightarrow> string option" where
  "fmt_render argv iptr argptr maxlen =
     (if iptr = [] then Some []
      else if hd iptr \<noteq> CHR ''%''
      then map_option ((#) (hd iptr)) (fmt_render argv (tl iptr) argptr maxlen)
      else let (rest, f) = pparse iptr maxlen 0
           in if rest = [] then None
              else if hd rest = CHR ''%''
              then map_option ((#) (CHR ''%'')) (fmt_render argv (tl rest) argptr (f_maxlen f))
              else (case fmt_arg argv argptr (f_argnum f) of
                      None \<Rightarrow> None
                    | Some a \<Rightarrow>
                        if hd rest = CHR ''s''
                        then (case render_arg f (arg_text a) of
                                None \<Rightarrow> None
                              | Some t \<Rightarrow> map_option ((@) t)
                                  (fmt_render argv (tl rest) (next_arg argptr (f_argnum f)) (f_maxlen f)))
                        else if hd rest = CHR ''c''
                        then map_option ((#) (render_char a))
                               (fmt_render argv (tl rest) (next_arg argptr (f_argnum f)) (f_maxlen f))
                        else None))"
  by pat_completeness auto
termination
  by (relation "measure (\<lambda>(argv, iptr, argptr, maxlen). length iptr)")
     (simp_all add: pparse_tl del: length_tl, simp)

declare fmt_render.simps [simp del]

text \<open>The room \<open>setsize\<close> gives to a string of \<open>tot\<close> bytes: \<open>alloc\<close> rounds the size of
  the header and the data up with \<open>| 3\<close>, and the header is a multiple of four.\<close>

definition data_capacity :: "nat \<Rightarrow> nat" where
  "data_capacity tot = (tot + 1) OR 3"

text \<open>The whole: \<open>None\<close> also when the rendered bytes and the final NUL do not fit.\<close>

definition do_format :: "string \<Rightarrow> wvstring list \<Rightarrow> string option" where
  "do_format format argv =
     (case fmt_count argv format 0 0 0 of
        None \<Rightarrow> None
      | Some tot \<Rightarrow>
          (case fmt_render argv format 0 0 of
             None \<Rightarrow> None
           | Some out \<Rightarrow>
               if length out + 1 \<le> data_capacity (nat tot) then Some out else None))"

text \<open>\<open>WvString::append\<close>: two strings are joined by the format \<open>%s%s\<close>.\<close>

definition str_append :: "wvstring \<Rightarrow> wvstring \<Rightarrow> wvstring option" where
  "str_append t s =
     (case s of
        None \<Rightarrow> Some t
      | Some s' \<Rightarrow>
          (case t of
             None \<Rightarrow> Some s
           | Some t' \<Rightarrow> map_option Some (do_format ''%s%s'' [t, s])))"

subsection \<open>The reversal in place\<close>

lemma xor_char_cancel [simp]:
  "xor_char b (xor_char a b) = a" "xor_char (xor_char a b) a = b"
proof -
  have x: "code_of (xor_char a b) = take_bit 8 ((code_of a :: nat) XOR code_of b)" for a b
    by (simp add: xor_char_def of_char_of take_bit_eq_mod)
  have t: "take_bit 8 (code_of a :: nat) = code_of a" for a
    by (simp add: take_bit_nat_eq_self)
  have "code_of (xor_char b (xor_char a b)) = (code_of a :: nat)"
    "code_of (xor_char (xor_char a b) a) = (code_of b :: nat)"
    by (simp_all add: x take_bit_xor t xor.commute [of "code_of b"] xor.assoc)
       (simp add: xor.assoc [symmetric])
  then show "xor_char b (xor_char a b) = a" "xor_char (xor_char a b) a = b" by simp_all
qed

lemma strrev_loop_nth:
  "e < int (length xs) \<Longrightarrow> length (strrev_loop xs b e) = length xs \<and>
    (\<forall>i < length xs. strrev_loop xs b e ! i =
       (if b \<le> i \<and> int i \<le> e then xs ! nat (int b + e - int i) else xs ! i))"
proof (induction xs b e rule: strrev_loop.induct)
  case (1 xs b e)
  show ?case
  proof (cases "int b < e")
    case False
    then show ?thesis by (auto simp: strrev_loop.simps [of xs b e] intro!: arg_cong [of _ _ "nth xs"])
  next
    case True
    define x3 where "x3 = xs[b := xs ! nat e, nat e := xs ! b]"
    have b: "b < length xs" "nat e < length xs" "b \<noteq> nat e" using True 1(2) by auto
    then have x3_swap: "x3 = xs[b := xor_char (xs ! b) (xs ! nat e),
        nat e := xor_char (xs ! nat e) (xor_char (xs ! b) (xs ! nat e)),
        b := xor_char (xor_char (xs ! b) (xs ! nat e)) (xs ! b)]"
      by (simp add: x3_def list_update_swap)
    have step: "strrev_loop xs b e = strrev_loop x3 (b + 1) (e - 1)"
      using True b by (subst strrev_loop.simps) (simp add: Let_def x3_swap)
    have ih: "length (strrev_loop x3 (b + 1) (e - 1)) = length x3 \<and>
        (\<forall>i < length x3. strrev_loop x3 (b + 1) (e - 1) ! i =
           (if b + 1 \<le> i \<and> int i \<le> e - 1 then x3 ! nat (int (b + 1) + (e - 1) - int i) else x3 ! i))"
      using 1(1) [OF True refl refl refl] b 1(2) by (simp add: x3_swap)
    have "strrev_loop xs b e ! i =
        (if b \<le> i \<and> int i \<le> e then xs ! nat (int b + e - int i) else xs ! i)" if "i < length xs" for i
    proof -
      consider "i = b" | "i = nat e" | "b < i" "int i < e" | "i < b" | "e < int i" by linarith
      then show ?thesis
        using that True b ih unfolding step by cases (auto simp: x3_def nth_list_update nat_eq_iff)
    qed
    then show ?thesis using ih by (simp add: step x3_def)
  qed
qed

lemma wv_strrev_rev: "wv_strrev xs = rev xs"
proof -
  have "int (length xs) - 1 < int (length xs)" by simp
  note n = strrev_loop_nth [OF this, of 0]
  have "nat (int (length xs) - 1 - int i) = length xs - Suc i" for i by linarith
  then show ?thesis using n unfolding wv_strrev_def by (intro nth_equalityI) (auto simp: rev_nth)
qed

subsection \<open>Decimal digits\<close>

lemma digit_char:
  assumes "0 \<le> d" "d < (10::int)"
  shows "code_of (char_of (48 + nat d)) = 48 + nat d" "c_isdigit (char_of (48 + nat d))"
proof -
  show "code_of (char_of (48 + nat d)) = 48 + nat d" using assms by simp
  then show "c_isdigit (char_of (48 + nat d))" using assms by (simp add: c_isdigit_def)
qed

lemma uitoar_loop_value: "0 \<le> i \<Longrightarrow> digits_value (rev (uitoar_loop i)) = i"
proof (induction i rule: uitoar_loop.induct)
  case (1 i)
  then show ?case by (subst uitoar_loop.simps) (auto simp: digit_char)
qed

lemma uitoar_loop_digits: "\<forall>c \<in> set (uitoar_loop i). c_isdigit c"
proof (induction i rule: uitoar_loop.induct)
  case (1 i)
  then show ?case by (subst uitoar_loop.simps) (auto simp: digit_char)
qed

lemma uitoar_loop_length: "i < 10 ^ k \<Longrightarrow> length (uitoar_loop i) \<le> k"
proof (induction k arbitrary: i)
  case 0
  then show ?case by (simp add: uitoar_loop.simps)
next
  case (Suc k)
  then have "i div 10 < 10 ^ k" by simp
  then show ?case using Suc.IH by (subst uitoar_loop.simps) simp
qed

lemma wv_uitoar_value: "0 \<le> i \<Longrightarrow> digits_value (rev (wv_uitoar i)) = i"
  using uitoar_loop_value [of i] by (auto simp: wv_uitoar_def digits_value_def)

lemma wv_uitoar_digits: "\<forall>c \<in> set (wv_uitoar i). c_isdigit c"
  by (simp add: wv_uitoar_def uitoar_loop_digits) (simp add: c_isdigit_def)

lemma wv_uitoar_Nil: "0 \<le> i \<Longrightarrow> wv_uitoar i \<noteq> []"
  by (auto simp: wv_uitoar_def uitoar_loop.simps)

lemma atoi_digits:
  assumes "\<forall>c \<in> set s. c_isdigit c" "s \<noteq> []"
  shows "c_atoi s = digits_value s" "c_atoi (CHR ''-'' # s) = - digits_value s"
proof -
  obtain c r where s: "s = c # r" using assms(2) by (cases s) auto
  have t: "takeWhile c_isdigit s = s" "takeWhile c_isdigit (c # r) = c # r"
    using assms(1) s by (auto simp: takeWhile_eq_all_conv)
  have "\<not> c_isspace c" "c \<noteq> CHR ''-''" "c \<noteq> CHR ''+''"
    using assms(1) by (auto simp: s c_isspace_def c_isdigit_def)
  then show "c_atoi s = digits_value s" using t by (simp add: c_atoi_def s)
  show "c_atoi (CHR ''-'' # s) = - digits_value s" using t(1)
    by (simp add: c_atoi_def c_isspace_def del: takeWhile_eq_all_conv)
qed

lemma sint_negate: "sint (- i) = signed_take_bit (LENGTH('a) - 1) (- sint (i :: 'a::len word))"
  by (rule sint_word_minus)

lemma atoi_string_of_signed:
  assumes "- (2 ^ (LENGTH('a) - 1)) < sint (i :: 'a::len word)"
  shows "c_atoi (string_of_signed i) = sint i"
proof (cases "sint i < 0")
  case True
  have "sint (- i) = - sint i"
    unfolding sint_negate using assms True by (intro signed_take_bit_int_eq_self) auto
  then show ?thesis using True wv_uitoar_value [of "- sint i"] wv_uitoar_digits [of "- sint i"]
      wv_uitoar_Nil [of "- sint i"]
    by (simp add: string_of_signed_def wv_itoar_def wv_strrev_rev atoi_digits)
next
  case False
  then show ?thesis using wv_uitoar_value [of "sint i"] wv_uitoar_digits [of "sint i"]
      wv_uitoar_Nil [of "sint i"]
    by (simp add: string_of_signed_def wv_itoar_def wv_strrev_rev atoi_digits)
qed

lemma atoi_string_of_unsigned: "c_atoi (string_of_unsigned i) = uint i"
  using wv_uitoar_value [of "uint i"] wv_uitoar_digits [of "uint i"] wv_uitoar_Nil [of "uint i"]
  by (simp add: string_of_unsigned_def wv_strrev_rev atoi_digits)

lemma string_of_min: "sint i = - (2 ^ (LENGTH('a) - 1)) \<Longrightarrow> string_of_signed (i :: 'a::len word) = ''-''"
proof -
  assume m: "sint i = - (2 ^ (LENGTH('a) - 1))"
  have "sint (- i) = - (2 ^ (LENGTH('a) - 1))"
    unfolding sint_negate m by (simp add: signed_take_bit_eq_if_negative bit_exp_iff)
      (simp add: minus_exp_eq_not_mask)
  then show ?thesis using m
    by (simp add: string_of_signed_def wv_itoar_def wv_strrev_rev wv_uitoar_def uitoar_loop.simps)
qed

text \<open>Every 64-bit value and its NUL fit the 32 bytes the constructors allocate.\<close>

lemma wv_itoar_length:
  assumes "LENGTH('a) \<le> 64"
  shows "length (wv_itoar (i :: 'a::len word)) \<le> 21"
proof -
  have "\<bar>sint j\<bar> \<le> 2 ^ (LENGTH('a) - 1)" for j :: "'a word"
    using sint_ge [of j] sint_lt [of j] by linarith
  moreover have "(2::int) ^ (LENGTH('a) - 1) \<le> 2 ^ 63" using assms by (intro power_increasing) auto
  moreover have "(2::int) ^ 63 < 10 ^ 20" by simp
  ultimately have "sint j < 10 ^ 20" for j :: "'a word" by (smt (verit))
  then have l: "length (wv_uitoar (sint j)) \<le> 20" for j :: "'a word"
    using uitoar_loop_length [of "sint j" 20] by (auto simp: wv_uitoar_def)
  show ?thesis using l [of i] l [of "- i"] by (simp add: wv_itoar_def)
qed

subsection \<open>The two passes of the formatter\<close>

text \<open>A format fits its arguments: every expression ends in \<open>%\<close>, \<open>s\<close> or \<open>c\<close>, every argument
  it names exists, and no precision is below the width of its own expression.\<close>

definition spec_fits :: "fmt_spec \<Rightarrow> bool" where
  "spec_fits f \<longleftrightarrow> f_maxlen f = 0 \<or> \<bar>f_justify f\<bar> \<le> f_maxlen f"

function fmt_fits :: "wvstring list \<Rightarrow> string \<Rightarrow> nat \<Rightarrow> int \<Rightarrow> bool" where
  "fmt_fits argv iptr argptr maxlen =
     (if iptr = [] then True
      else if hd iptr \<noteq> CHR ''%'' then fmt_fits argv (tl iptr) argptr maxlen
      else let (rest, f) = pparse iptr maxlen 0
           in if rest = [] then False
              else if hd rest = CHR ''%'' then fmt_fits argv (tl rest) argptr (f_maxlen f)
              else fmt_arg argv argptr (f_argnum f) \<noteq> None \<and>
                   (hd rest = CHR ''c'' \<or> hd rest = CHR ''s'' \<and> spec_fits f) \<and>
                   fmt_fits argv (tl rest) (next_arg argptr (f_argnum f)) (f_maxlen f))"
  by pat_completeness auto
termination
  by (relation "measure (\<lambda>(argv, iptr, argptr, maxlen). length iptr)")
     (simp_all add: pparse_tl del: length_tl, simp)

declare fmt_fits.simps [simp del]

lemma render_arg_counted:
  assumes "spec_fits f"
  shows "\<exists>t. render_arg f arg = Some t \<and> int (length t) = count_arg f arg"
  using assms by (auto simp: spec_fits_def render_arg_def count_arg_def Let_def)

lemma fmt_passes_agree:
  "fmt_fits argv iptr argptr maxlen \<Longrightarrow>
     \<exists>out. fmt_render argv iptr argptr maxlen = Some out \<and>
       fmt_count argv iptr argptr maxlen tot = Some (tot + int (length out))"
proof (induction argv iptr argptr maxlen arbitrary: tot rule: fmt_fits.induct)
  case (1 argv iptr argptr maxlen)
  consider (empty) "iptr = []" | (plain) "iptr \<noteq> []" "hd iptr \<noteq> CHR ''%''"
    | (expr) "iptr \<noteq> []" "hd iptr = CHR ''%''" by blast
  then show ?case
  proof cases
    case empty
    then show ?thesis by (simp add: fmt_render.simps fmt_count.simps)
  next
    case plain
    then have "fmt_fits argv (tl iptr) argptr maxlen"
      using 1(4) by (simp add: fmt_fits.simps [of argv iptr])
    from 1(1) [OF plain this, of "tot + 1"] show ?thesis using plain
      by (auto simp: fmt_render.simps [of argv iptr] fmt_count.simps [of argv iptr])
  next
    case expr
    obtain rest f where p: "pparse iptr maxlen 0 = (rest, f)" by (cases "pparse iptr maxlen 0") auto
    have fits: "rest \<noteq> []" "hd rest = CHR ''%'' \<Longrightarrow> fmt_fits argv (tl rest) argptr (f_maxlen f)"
      "hd rest \<noteq> CHR ''%'' \<Longrightarrow> fmt_arg argv argptr (f_argnum f) \<noteq> None \<and>
         (hd rest = CHR ''c'' \<or> hd rest = CHR ''s'' \<and> spec_fits f) \<and>
         fmt_fits argv (tl rest) (next_arg argptr (f_argnum f)) (f_maxlen f)"
      using 1(4) expr p by (simp_all add: fmt_fits.simps [of argv iptr] split: if_splits)
    show ?thesis
    proof (cases "hd rest = CHR ''%''")
      case True
      from 1(2) [OF expr(1) _ p [symmetric] refl fits(1) True fits(2) [OF True], of "tot + 1"]
      show ?thesis using expr p True fits(1)
        by (auto simp: fmt_render.simps [of argv iptr] fmt_count.simps [of argv iptr])
    next
      case False
      then obtain a where a: "fmt_arg argv argptr (f_argnum f) = Some a" using fits(3) by blast
      obtain t where t: "hd rest = CHR ''s'' \<Longrightarrow>
          render_arg f (arg_text a) = Some t \<and> int (length t) = count_arg f (arg_text a)"
        using render_arg_counted [of f "arg_text a"] fits(3) [OF False] by auto
      define d where "d = (if hd rest = CHR ''s'' then count_arg f (arg_text a) else 1)"
      have "\<exists>out. fmt_render argv (tl rest) (next_arg argptr (f_argnum f)) (f_maxlen f) = Some out \<and>
          fmt_count argv (tl rest) (next_arg argptr (f_argnum f)) (f_maxlen f) (tot + d) =
            Some (tot + d + int (length out))"
        using 1(3) [OF expr(1) _ p [symmetric] refl fits(1) False] expr fits(3) [OF False] by simp
      then show ?thesis using expr p False fits a t
        by (auto simp: fmt_render.simps [of argv iptr] fmt_count.simps [of argv iptr] d_def)
    qed
  qed
qed

lemma data_capacity_ge: "tot + 1 \<le> data_capacity tot"
  by (simp add: data_capacity_def flip: of_nat_le_iff [where 'a = int])
     (simp add: or_greater_eq of_nat_or_eq)

lemma do_format_fits:
  assumes "fmt_fits argv format 0 0"
  shows "\<exists>out. fmt_render argv format 0 0 = Some out \<and> do_format format argv = Some out"
proof -
  obtain out where "fmt_render argv format 0 0 = Some out" "fmt_count argv format 0 0 0 = Some (int (length out))"
    using fmt_passes_agree [OF assms, of 0] by auto
  then show ?thesis using data_capacity_ge [of "length out"] by (simp add: do_format_def)
qed

lemma str_append_concat: "str_append (Some t) (Some s) = Some (Some (t @ s))"
proof -
  have p: "pparse ''%s%s'' m 0 = (''s%s'', \<lparr>f_zeropad = False, f_justify = 0, f_maxlen = 0, f_argnum = 0\<rparr>)"
    "pparse ''%s'' m 0 = (''s'', \<lparr>f_zeropad = False, f_justify = 0, f_maxlen = 0, f_argnum = 0\<rparr>)" for m
    by (simp_all add: pparse_def c_isalpha_def c_isupper_def c_islower_def c_atoi_def c_isspace_def
        c_isdigit_def)
  note s = fmt_fits.simps fmt_render.simps p fmt_arg_def next_arg_def spec_fits_def render_arg_def
    arg_text_def Let_def
  have "fmt_fits [Some t, Some s] ''%s%s'' 0 0" by (simp add: s)
  moreover have "fmt_render [Some t, Some s] ''%s%s'' 0 0 = Some (t @ s)" by (simp add: s)
  ultimately show ?thesis using do_format_fits [of "[Some t, Some s]" "''%s%s''"]
    by (auto simp: str_append_def)
qed

subsection \<open>Order, prefixes and suffixes\<close>

lemma str_startswith_prefix:
  assumes "c_str a" "c_str b"
  shows "str_startswith (Some a) (Some b) \<longleftrightarrow> prefix b a"
proof -
  have "str_startswith (Some a) (Some b) \<longleftrightarrow> take (length b) a = b"
    using assms by (simp add: str_startswith_def c_strncmp_def str_len_def c_strcmp_zero)
  also have "\<dots> \<longleftrightarrow> prefix b a" by (metis take_is_prefix prefix_def append_eq_conv_conj)
  finally show ?thesis .
qed

lemma str_endswith_suffix:
  assumes "c_str a" "c_str b"
  shows "str_endswith (Some a) (Some b) \<longleftrightarrow> suffix b a"
proof -
  have "str_endswith (Some a) (Some b) \<longleftrightarrow> length b \<le> length a \<and> drop (length a - length b) a = b"
    using assms by (auto simp: str_endswith_def c_strncmp_def str_len_def c_strcmp_zero Let_def)
  also have "\<dots> \<longleftrightarrow> suffix b a" by (auto simp: suffix_def) (metis append_take_drop_id)
  finally show ?thesis .
qed

end
