(* ===== verification/UniConfTree.thy ===== *)
theory UniConfTree
  imports WvScatterHash WvString
begin

text \<open>
  The tree of keys and values (\<open>uniconf/unihashtree.cc\<close>, \<open>include/unihashtree.h\<close>,
  \<open>include/uniconftree.h\<close>).  A node has its key, what the subclass adds (a value, in a tree of values)
  and, if it has children, a scatter hash of them.  Parent pointers are implicit: an operation on a node below the root is a recursion
  along the path, which puts the changed child back into its slot.
\<close>

datatype 'v utree = VNode (vt_key: key) (vt_value: 'v) (vt_children: "'v utree shash option")

type_synonym vtree = "wvstring utree"

definition vt_hash :: "key \<Rightarrow> nat" where
  "vt_hash k = unat (wvhash_key k)"

definition vt_haschildren :: "'v utree \<Rightarrow> bool" where
  "vt_haschildren node = (case vt_children node of None \<Rightarrow> False | Some t \<Rightarrow> \<not> sh_isempty t)"

text \<open>The children in the order of an iterator; an iterator over no table at all visits nothing.\<close>

definition vt_childlist :: "'v utree \<Rightarrow> 'v utree list" where
  "vt_childlist node = (case vt_children node of None \<Rightarrow> [] | Some t \<Rightarrow> sh_elems t)"

subsection \<open>Finding\<close>

definition vt_findchild :: "key \<Rightarrow> 'v utree \<Rightarrow> 'v utree option option" where
  "vt_findchild key node =
     (if key_isempty key then Some (Some node)
      else case vt_children node of
             None \<Rightarrow> Some None
           | Some t \<Rightarrow> genfind_or_null (\<lambda>c. key_eq key (vt_key c)) (vt_hash key) t)"

text \<open>The keys an iterator over the segments of a key yields.\<close>

definition key_iter :: "key \<Rightarrow> key list" where
  "key_iter key = map (\<lambda>n. key_segment key (int n)) [0..<length key]"

primrec vt_find_path :: "key list \<Rightarrow> 'v utree \<Rightarrow> 'v utree option option" where
  "vt_find_path [] node = Some (Some node)"
| "vt_find_path (k # ks) node =
     (case vt_findchild k node of
        None \<Rightarrow> None
      | Some None \<Rightarrow> Some None
      | Some (Some child) \<Rightarrow> vt_find_path ks child)"

definition vt_find :: "key \<Rightarrow> 'v utree \<Rightarrow> 'v utree option option" where
  "vt_find key node = vt_find_path (key_iter key) node"

text \<open>\<open>fullkey\<close>: the keys from the root's child down to the node are prepended, the lowest first.\<close>

definition vt_fullkey :: "key list \<Rightarrow> key" where
  "vt_fullkey ks = foldl (\<lambda>result k. key_prepend result k) key_EMPTY (rev ks)"

subsection \<open>Linking and unlinking\<close>

definition vt_link :: "'v utree \<Rightarrow> 'v utree \<Rightarrow> 'v utree option" where
  "vt_link child node =
     (case (case vt_children node of None \<Rightarrow> sh_new 0 | Some t \<Rightarrow> Some t) of
        None \<Rightarrow> None
      | Some t \<Rightarrow> map_option (\<lambda>t'. VNode (vt_key node) (vt_value node) (Some t'))
          (sh_add (\<lambda>c. vt_hash (vt_key c)) child False t))"

definition vt_unlink :: "'v utree \<Rightarrow> 'v utree \<Rightarrow> 'v utree option" where
  "vt_unlink child node =
     (case vt_children node of
        None \<Rightarrow> Some node
      | Some t \<Rightarrow> map_option (\<lambda>(t', freed). VNode (vt_key node) (vt_value node)
            (if sh_count t' = 0 then None else Some t'))
          (sh_remove (\<lambda>c. key_eq (vt_key child) (vt_key c)) (vt_hash (vt_key child)) t))"

subsection \<open>Visiting\<close>

text \<open>The paths of the nodes of a subtree in the order of the visit, each as the list of the keys
  of the nodes below the start.\<close>

lemma sh_elems_slot: "x \<in> set (sh_elems t) \<Longrightarrow> \<exists>f. Occupied f x \<in> set (sh_slots t)"
proof -
  assume "x \<in> set (sh_elems t)"
  then obtain s where "s \<in> set (sh_slots t)" "is_occupied s" "x = slot_data s" by (auto simp: sh_elems_def)
  moreover have "s = Occupied (slot_autofree s) x"
    using \<open>is_occupied s\<close> \<open>x = slot_data s\<close> by (cases s) (simp_all add: is_occupied_def)
  ultimately show ?thesis by metis
qed

lemma sh_elems_size:
  assumes "x \<in> set (sh_elems t)"
  shows "g x < size_shash g t"
proof -
  obtain f where o: "Occupied f x \<in> set (sh_slots t)" using sh_elems_slot [OF assms] by blast
  obtain slots p u n where t: "t = SHash slots p u n" by (cases t)
  have "g x \<le> size_list (size_slot g) slots"
    using o t by (intro size_list_estimation' [of "Occupied f x"]) auto
  then show ?thesis by (simp add: t)
qed

lemma vt_child_size [termination_simp]:
  "c \<in> set (vt_childlist node) \<Longrightarrow> size c < size node"
  using sh_elems_size [of c _ size]
  by (cases node) (force simp: vt_childlist_def less_Suc_eq split: option.splits)

fun vt_postorder :: "'v utree \<Rightarrow> key list list" where
  "vt_postorder node =
     concat (map (\<lambda>c. map (\<lambda>p. vt_key c # p) (vt_postorder c)) (vt_childlist node)) @ [[]]"

fun vt_preorder :: "'v utree \<Rightarrow> key list list" where
  "vt_preorder node =
     [] # concat (map (\<lambda>c. map (\<lambda>p. vt_key c # p) (vt_preorder c)) (vt_childlist node))"

declare vt_postorder.simps [simp del] vt_preorder.simps [simp del]


subsection \<open>Changing a node below the root\<close>

text \<open>The slot of a child, and the change of the child in a slot.\<close>

definition vt_findslot :: "key \<Rightarrow> 'v utree \<Rightarrow> nat option option" where
  "vt_findslot key node =
     (case vt_children node of
        None \<Rightarrow> Some None
      | Some t \<Rightarrow> genfind (\<lambda>c. key_eq key (vt_key c)) (vt_hash key) t)"

definition vt_slot :: "nat \<Rightarrow> 'v utree \<Rightarrow> 'v utree" where
  "vt_slot s node = slot_data (sh_slots (the (vt_children node)) ! s)"

definition vt_poke :: "nat \<Rightarrow> 'v utree \<Rightarrow> 'v utree \<Rightarrow> 'v utree" where
  "vt_poke s child node =
     VNode (vt_key node) (vt_value node) (map_option (sh_poke s child) (vt_children node))"

text \<open>The value at the end of a path of keys is set, nodes that are missing on the way are made with
  empty values.  The second component are the notifications, each with the keys of the nodes from the
  start of the path down.\<close>

primrec vt_set :: "key list \<Rightarrow> wvstring \<Rightarrow> vtree \<Rightarrow> (vtree \<times> (key list \<times> wvstring) list) option" where
  "vt_set [] v node =
     Some (if str_ne v (vt_value node) then (VNode (vt_key node) v (vt_children node), [([], v)]) else (node, []))"
| "vt_set (k # ks) v node =
     (if key_isempty k then vt_set ks v node
      else case vt_findslot k node of
             None \<Rightarrow> None
           | Some (Some s) \<Rightarrow>
               map_option (\<lambda>(child, ds).
                   (vt_poke s child node, map (\<lambda>(p, w). (vt_key (vt_slot s node) # p, w)) ds))
                 (vt_set ks v (vt_slot s node))
           | Some None \<Rightarrow>
               let new = VNode k (if ks = [] then v else Some []) None
               in case vt_set ks v new of
                    None \<Rightarrow> None
                  | Some (child, ds) \<Rightarrow>
                      map_option (\<lambda>node'.
                          (node', ([k], vt_value new) # map (\<lambda>(p, w). (k # p, w)) ds))
                        (vt_link child node))"

text \<open>The node at the end of a path is deleted with all below it; the second component are the paths of
  the deleted nodes in the order of their notifications.  Nothing is left if the path is empty.\<close>

primrec vt_remove :: "key list \<Rightarrow> vtree \<Rightarrow> (vtree option \<times> key list list) option" where
  "vt_remove [] node = Some (None, vt_postorder node)"
| "vt_remove (k # ks) node =
     (if key_isempty k then vt_remove ks node
      else case vt_findslot k node of
             None \<Rightarrow> None
           | Some None \<Rightarrow> Some (Some node, [])
           | Some (Some s) \<Rightarrow>
               (case vt_remove ks (vt_slot s node) of
                  None \<Rightarrow> None
                | Some (Some child, ps) \<Rightarrow>
                    Some (Some (vt_poke s child node), map (\<lambda>p. vt_key (vt_slot s node) # p) ps)
                | Some (None, ps) \<Rightarrow>
                    map_option (\<lambda>node'. (Some node', map (\<lambda>p. vt_key (vt_slot s node) # p) ps))
                      (vt_unlink (vt_slot s node) node)))"

subsection \<open>Dictionaries of nodes\<close>

abbreviation vt_dict :: "'v utree shash \<Rightarrow> bool" where
  "vt_dict \<equiv> dict_inv vt_key vt_hash key_cstr (map lower)"

interpretation vt_c: hash_dict vt_key vt_hash key_eq key_cstr "map lower"
proof (unfold_locales, goal_cases)
  case (1 j k)
  then show ?case by (rule key_eq_iff)
next
  case (2 j k)
  then show ?case unfolding vt_hash_def by (intro arg_cong [of _ _ unat] wvhash_key_cong)
qed

text \<open>A tree is well-formed if its tables are, if they are not empty and have at most \<open>n\<close> entries, and if
  the key of every node below the root is a single segment.\<close>

definition seg_ok :: "string \<Rightarrow> bool" where
  "seg_ok s \<longleftrightarrow> s \<noteq> [] \<and> c_str s"

definition val_ok :: "wvstring \<Rightarrow> bool" where
  "val_ok v \<longleftrightarrow> (case v of None \<Rightarrow> False | Some x \<Rightarrow> c_str x)"

function ut_ok :: "('v \<Rightarrow> bool) \<Rightarrow> nat \<Rightarrow> 'v utree \<Rightarrow> bool" where
  "ut_ok vok n node \<longleftrightarrow>
     vok (vt_value node) \<and>
     (case vt_children node of
        None \<Rightarrow> True
      | Some t \<Rightarrow> vt_dict t \<and> 0 < sh_num t \<and> sh_num t \<le> n) \<and>
     (\<forall>c \<in> set (vt_childlist node). (\<exists>s. vt_key c = [s] \<and> seg_ok s) \<and> ut_ok vok n c)"
  by pat_completeness auto
termination by (relation "measure (\<lambda>(vok, n, node). size node)") (auto intro: vt_child_size)

abbreviation vt_ok :: "nat \<Rightarrow> vtree \<Rightarrow> bool" where
  "vt_ok \<equiv> ut_ok val_ok"

declare ut_ok.simps [simp del]


subsection \<open>The contents of a tree\<close>

text \<open>A tree as a map from paths of lower-case segments to what is read off its nodes.\<close>

primrec ut_map :: "('v \<Rightarrow> 'a option) \<Rightarrow> string list \<Rightarrow> 'v utree \<Rightarrow> 'a option" where
  "ut_map pr [] node = pr (vt_value node)"
| "ut_map pr (s # q) node =
     (case find (\<lambda>c. map lower (vt_key c) = [s]) (vt_childlist node) of
        None \<Rightarrow> None
      | Some c \<Rightarrow> ut_map pr q c)"

abbreviation vt_map :: "string list \<Rightarrow> vtree \<Rightarrow> wvstring" where
  "vt_map \<equiv> ut_map (\<lambda>v. v)"

text \<open>What a listener that keeps such a map does with a notification.\<close>

definition path_lower :: "key list \<Rightarrow> string list" where
  "path_lower ks = map lower (concat (map nonempty_segs ks))"

definition note_apply :: "(string list \<Rightarrow> wvstring) \<Rightarrow> key list \<times> wvstring \<Rightarrow> (string list \<Rightarrow> wvstring)" where
  "note_apply M d = M(path_lower (fst d) := snd d)"

lemma lower_empty [simp]: "lower s = [] \<longleftrightarrow> s = []"
  by (simp add: lower_def)

lemma path_lower_simps [simp]: "path_lower [] = []" "path_lower ([] # ks) = path_lower ks"
  by (simp_all add: path_lower_def nonempty_segs_def)

lemma path_lower_Cons: "map lower k = [x] \<Longrightarrow> x \<noteq> [] \<Longrightarrow> path_lower (k # p) = x # path_lower p"
  by (auto simp: path_lower_def nonempty_segs_def map_eq_Cons_conv)

lemma seg_ok_lower: "seg_ok s \<Longrightarrow> lower s \<noteq> []"
  by (simp add: seg_ok_def)

lemma note_apply_pair: "note_apply M (p, w) = M(path_lower p := w)"
  by (simp add: note_apply_def)

lemma find_distinct:
  "distinct (map f xs) \<Longrightarrow> z \<in> set xs \<Longrightarrow> f z = k \<Longrightarrow> find (\<lambda>x. f x = k) xs = Some z"
  by (induction xs) (auto simp: image_iff)

lemma find_distinct_mset:
  assumes "distinct (map f xs)" "mset xs = mset ys"
  shows "find (\<lambda>x. f x = k) xs = find (\<lambda>x. f x = k) ys"
proof -
  have d: "distinct (map f ys)" using assms by (metis mset_eq_imp_distinct_iff mset_map)
  have s: "set xs = set ys" using assms(2) by (metis set_mset_mset)
  show ?thesis
  proof (cases "\<exists>x \<in> set xs. f x = k")
    case True
    then obtain x where "x \<in> set xs" "f x = k" by blast
    then show ?thesis using find_distinct [OF assms(1)] find_distinct [OF d] s by simp
  next
    case False
    then have "find (\<lambda>x. f x = k) xs = None" "find (\<lambda>x. f x = k) ys = None" using s by (auto simp: find_None_iff)
    then show ?thesis by simp
  qed
qed

lemma vt_childlist_simps [simp]:
  "vt_childlist (VNode k v None) = []" "vt_childlist (VNode k v (Some t)) = sh_elems t"
  by (simp_all add: vt_childlist_def)

lemma vt_okD:
  assumes "ut_ok vok n node"
  shows "vok (vt_value node)" "vt_children node = Some t \<Longrightarrow> vt_dict t \<and> 0 < sh_num t \<and> sh_num t \<le> n"
    "c \<in> set (vt_childlist node) \<Longrightarrow> (\<exists>s. vt_key c = [s] \<and> seg_ok s) \<and> ut_ok vok n c"
  using assms by (subst (asm) ut_ok.simps, force)+

lemma vt_ok_mono: "ut_ok vok n node \<Longrightarrow> n \<le> m \<Longrightarrow> ut_ok vok m node"
proof (induction vok n node rule: ut_ok.induct)
  case (1 vok n node)
  have "ut_ok vok m c" if "c \<in> set (vt_childlist node)" for c
    using that vt_okD(3) [OF 1(2) that] 1(1) [OF that] 1(3) by blast
  then show ?case using vt_okD [OF 1(2)] 1(3)
    by (subst ut_ok.simps) (fastforce split: option.split)
qed

lemma seg_ok_key: "seg_ok s \<Longrightarrow> key_cstr [s] \<and> \<not> key_isempty [s]"
  by (simp add: seg_ok_def key_isempty_def)

text \<open>Finding the slot of a child.\<close>

lemma vt_findslot_spec:
  assumes n: "ut_ok vok n node" and s: "seg_ok s"
  shows "(\<exists>i t. vt_children node = Some t \<and> vt_findslot [s] node = Some (Some i) \<and> i < sh_numslots t \<and>
      is_occupied (sh_slots t ! i) \<and> vt_slot i node \<in> set (sh_elems t) \<and>
      map lower (vt_key (vt_slot i node)) = [lower s]) \<or>
    vt_findslot [s] node = Some None \<and> (\<forall>c \<in> set (vt_childlist node). map lower (vt_key c) \<noteq> [lower s])"
proof (cases "vt_children node")
  case None
  then show ?thesis by (simp add: vt_findslot_def vt_childlist_def)
next
  case (Some t)
  have t: "vt_dict t" using vt_okD(2) [OF n Some] by simp
  have k: "key_cstr [s]" using seg_ok_key [OF s] by simp
  from vt_c.dict_find [OF t k] show ?thesis
    using Some by (auto simp: vt_findslot_def vt_slot_def vt_childlist_def sh_elems_def sh_numslots_def)
qed

text \<open>What a change of the table of children does to the map.\<close>

lemma vt_map_mset:
  assumes "vt_children node = Some t" "vt_dict t" "mset (sh_elems t) = mset cs"
  shows "ut_map pr (s # q) node =
    (case find (\<lambda>c. map lower (vt_key c) = [s]) cs of None \<Rightarrow> None | Some c \<Rightarrow> ut_map pr q c)"
proof -
  have "distinct (map (\<lambda>c. map lower (vt_key c)) (sh_elems t))" using assms(2) by (simp add: dict_inv_def)
  from find_distinct_mset [OF this assms(3)] show ?thesis using assms(1) by (simp add: vt_childlist_def)
qed

lemma vt_children_poke:
  assumes n: "vt_children node = Some t" "vt_dict t"
    and i: "i < sh_numslots t" "is_occupied (sh_slots t ! i)" and c: "vt_key c' = vt_key (vt_slot i node)"
  shows "\<exists>t' rs. vt_children (vt_poke i c' node) = Some t' \<and> vt_dict t' \<and> sh_num t' = sh_num t \<and>
    mset (sh_elems t) = mset (vt_slot i node # rs) \<and> mset (sh_elems t') = mset (c' # rs)"
proof -
  let ?c = "vt_slot i node"
  have s: "?c = slot_data (sh_slots t ! i)" using n by (simp add: vt_slot_def)
  have m: "?c \<in> set (sh_elems t)" using i unfolding s by (auto simp: sh_elems_def sh_numslots_def)
  then have v: "key_cstr (vt_key c')" using n(2) c by (simp add: dict_inv_def)
  have p: "vt_dict (sh_poke i c' t)" "add_mset ?c (mset (sh_elems (sh_poke i c' t))) = add_mset c' (mset (sh_elems t))"
    using vt_c.dict_poke [OF n(2) i v] c s by auto
  have r: "mset (sh_elems t) = add_mset ?c (mset (remove1 ?c (sh_elems t)))" using m by simp
  then have "add_mset ?c (mset (sh_elems (sh_poke i c' t))) = add_mset ?c (add_mset c' (mset (remove1 ?c (sh_elems t))))"
    using p(2) by (metis add_mset_commute)
  then have "mset (sh_elems (sh_poke i c' t)) = add_mset c' (mset (remove1 ?c (sh_elems t)))"
    by (metis add_mset_add_mset_same_iff)
  moreover have "vt_children (vt_poke i c' node) = Some (sh_poke i c' t)" using n(1) by (simp add: vt_poke_def)
  moreover have "sh_num (sh_poke i c' t) = sh_num t" by (simp add: sh_poke_def)
  ultimately show ?thesis using r p(1) unfolding mset.simps by blast
qed

lemma vt_poke_simps [simp]: "vt_key (vt_poke i c node) = vt_key node" "vt_value (vt_poke i c node) = vt_value node"
  by (simp_all add: vt_poke_def)

lemma vt_childlist_Some: "vt_children node = Some t \<Longrightarrow> vt_childlist node = sh_elems t"
  by (simp add: vt_childlist_def)

lemma vt_poke_spec:
  assumes n: "ut_ok vok n node" and t: "vt_children node = Some t"
    and i: "i < sh_numslots t" "is_occupied (sh_slots t ! i)"
    and c: "vt_key c' = vt_key (vt_slot i node)" "ut_ok vok m c'" "n \<le> m"
  shows "ut_ok vok m (vt_poke i c' node) \<and>
    (\<forall>s q. ut_map pr (s # q) (vt_poke i c' node) =
      (if map lower (vt_key (vt_slot i node)) = [s] then ut_map pr q c' else ut_map pr (s # q) node)) \<and>
    (\<forall>s q. map lower (vt_key (vt_slot i node)) = [s] \<longrightarrow> ut_map pr (s # q) node = ut_map pr q (vt_slot i node))"
proof -
  have d: "vt_dict t" "0 < sh_num t" "sh_num t \<le> n" using vt_okD(2) [OF n t] by simp_all
  obtain t' rs where t': "vt_children (vt_poke i c' node) = Some t'" "vt_dict t'" "sh_num t' = sh_num t"
    "mset (sh_elems t) = mset (vt_slot i node # rs)" "mset (sh_elems t') = mset (c' # rs)"
    using vt_children_poke [OF t d(1) i c(1)] by blast
  have sets: "set (sh_elems t) = insert (vt_slot i node) (set rs)" "set (sh_elems t') = insert c' (set rs)"
    using t'(4,5) by (metis list.simps(15) set_mset_mset)+
  have "ut_ok vok m x \<and> (\<exists>s. vt_key x = [s] \<and> seg_ok s)" if x: "x \<in> set (vt_childlist (vt_poke i c' node))" for x
  proof (cases "x = c'")
    case True
    have "vt_slot i node \<in> set (vt_childlist node)" using sets(1) t by (simp add: vt_childlist_Some)
    from vt_okD(3) [OF n this] show ?thesis using True c by simp
  next
    case False
    then have "x \<in> set (vt_childlist node)" using x sets t t'(1) by (simp add: vt_childlist_Some)
    from vt_okD(3) [OF n this] show ?thesis using vt_ok_mono c(3) by blast
  qed
  then have "ut_ok vok m (vt_poke i c' node)"
    using vt_okD(1) [OF n] t' d c(3) by (subst ut_ok.simps) simp
  moreover note vt_map_mset [OF t'(1,2,5), where pr = pr] vt_map_mset [OF t d(1) t'(4), where pr = pr]
  ultimately show ?thesis using c(1) by simp
qed

lemma vt_link_spec:
  fixes node :: "'v utree"
  assumes n: "ut_ok vok n node" "n < 26000" and c: "vt_key c = [s]" "seg_ok s" "ut_ok vok (Suc n) c"
    and new: "\<forall>x \<in> set (vt_childlist node). map lower (vt_key x) \<noteq> [lower s]"
  shows "\<exists>node'. vt_link c node = Some node' \<and> ut_ok vok (Suc n) node' \<and> vt_key node' = vt_key node \<and>
    vt_value node' = vt_value node \<and>
    (\<forall>r q. ut_map pr (r # q) node' = (if r = lower s then ut_map pr q c else ut_map pr (r # q) node)) \<and>
    (\<forall>q. ut_map pr (lower s # q) node = None)"
proof -
  obtain t where t: "(case vt_children node of None \<Rightarrow> sh_new 0 | Some t \<Rightarrow> Some t) = Some t"
    "vt_dict t" "sh_num t \<le> n" "sh_elems t = vt_childlist node"
  proof (cases "vt_children node")
    case None
    obtain t :: "'v utree shash" where "sh_new 0 = Some t" "sh_inv (\<lambda>x. vt_hash (vt_key x)) t" "sh_elems t = []"
      using sh_new_spec by blast
    moreover from this have "sh_num t = 0" by (auto simp: sh_inv_def sh_core_def sh_elems_def)
    ultimately show ?thesis using that [of t] None by (simp add: dict_inv_def vt_childlist_def)
  next
    case (Some t)
    then show ?thesis using that [of t] vt_okD(2) [OF n(1) Some] by (simp add: vt_childlist_def)
  qed
  have k: "key_cstr (vt_key c)" using seg_ok_key [OF c(2)] c(1) by simp
  have "\<forall>y \<in> set (sh_elems t). map lower (vt_key y) \<noteq> map lower (vt_key c)" using new t(4) c(1) by simp
  from vt_c.dict_add [OF t(2) _ k this] t(3) n(2) obtain t' where t':
    "sh_add (\<lambda>c. vt_hash (vt_key c)) c False t = Some t'" "vt_dict t'" "sh_num t' = sh_num t + 1"
    "mset (sh_elems t') = mset (c # vt_childlist node)" using t(4) by auto
  define node' where "node' = VNode (vt_key node) (vt_value node) (Some t')"
  have "set (sh_elems t') = insert c (set (vt_childlist node))" using t'(4) by (metis list.simps(15) set_mset_mset)
  then have "ut_ok vok (Suc n) x \<and> (\<exists>s. vt_key x = [s] \<and> seg_ok s)" if "x \<in> set (vt_childlist node')" for x
    using that c vt_okD(3) [OF n(1)] vt_ok_mono [of vok n x "Suc n"] by (auto simp: node'_def)
  then have "ut_ok vok (Suc n) node'"
    using vt_okD(1) [OF n(1)] t' t(3) by (subst ut_ok.simps) (simp add: node'_def)
  moreover have "vt_link c node = Some node'" using t(1) t'(1) by (simp add: vt_link_def node'_def)
  moreover have "ut_map pr (r # q) node' = (if r = lower s then ut_map pr q c else ut_map pr (r # q) node)" for r q
    using vt_map_mset [of node' t', OF _ t'(2,4), where pr = pr] c(1) by (simp add: node'_def)
  moreover have "ut_map pr (lower s # q) node = None" for q
    using new by (simp add: find_None_iff [THEN iffD2])
  ultimately show ?thesis by (auto simp: node'_def)
qed

lemma vt_unlink_spec:
  assumes n: "ut_ok vok n node" and c: "c \<in> set (vt_childlist node)" "vt_key c = [s0]"
  shows "\<exists>node'. vt_unlink c node = Some node' \<and> ut_ok vok n node' \<and> vt_key node' = vt_key node \<and>
    vt_value node' = vt_value node \<and>
    (\<forall>r q. ut_map pr (r # q) node' = (if r = lower s0 then None else ut_map pr (r # q) node)) \<and>
    (\<forall>q. ut_map pr (lower s0 # q) node = ut_map pr q c)"
proof -
  obtain t where t: "vt_children node = Some t" "c \<in> set (sh_elems t)"
    using c(1) by (cases "vt_children node") (auto simp: vt_childlist_def)
  have d: "vt_dict t" "sh_num t \<le> n" using vt_okD(2) [OF n t(1)] by simp_all
  obtain t' fr where r: "sh_remove (\<lambda>x. key_eq (vt_key c) (vt_key x)) (vt_hash (vt_key c)) t = Some (t', fr)"
    and t': "vt_dict t'" "mset (sh_elems t) = mset (c # sh_elems t')"
    using vt_c.dict_remove [OF d(1) t(2)] by auto
  have num: "sh_num u = length (sh_elems u)" if "vt_dict u" for u
    using that by (simp add: dict_inv_def sh_inv_def sh_core_def sh_elems_def)
  have sets: "set (sh_elems t) = insert c (set (sh_elems t'))" using t'(2) by (metis list.simps(15) set_mset_mset)
  have "sh_num t = Suc (sh_num t')" using num d(1) t' by (metis length_Cons mset_eq_length)
  define node' where "node' = VNode (vt_key node) (vt_value node) (if sh_num t' = 0 then None else Some t')"
  have l: "vt_childlist node' = sh_elems t'" using num [OF t'(1)] by (auto simp: node'_def)
  then have "ut_ok vok n x \<and> (\<exists>s. vt_key x = [s] \<and> seg_ok s)" if "x \<in> set (vt_childlist node')" for x
    using that sets t(1) vt_okD(3) [OF n] by (auto simp: vt_childlist_Some)
  then have "ut_ok vok n node'"
    using vt_okD(1) [OF n] t' d(2) \<open>sh_num t = Suc (sh_num t')\<close> by (subst ut_ok.simps) (auto simp: node'_def)
  moreover have "vt_unlink c node = Some node'" using t(1) r by (simp add: vt_unlink_def node'_def sh_count_def)
  moreover have dist: "map lower (vt_key c) \<notin> (\<lambda>x. map lower (vt_key x)) ` set (sh_elems t')"
  proof -
    have "mset (map (\<lambda>x. map lower (vt_key x)) (sh_elems t)) = mset (map (\<lambda>x. map lower (vt_key x)) (c # sh_elems t'))"
      using t'(2) by simp
    then have "distinct (map (\<lambda>x. map lower (vt_key x)) (c # sh_elems t'))"
      using d(1) mset_eq_imp_distinct_iff unfolding dict_inv_def by blast
    then show ?thesis by simp
  qed
  have m: "ut_map pr (r # q) node = (if r = lower s0 then ut_map pr q c else ut_map pr (r # q) node')" for r q
    using vt_map_mset [OF t(1) d(1) t'(2), where pr = pr] c(2) by (simp add: l)
  moreover have "ut_map pr (lower s0 # q) node' = None" for q
  proof -
    have "find (\<lambda>x. map lower (vt_key x) = [lower s0]) (sh_elems t') = None"
      using dist c(2) by (force simp: find_None_iff)
    then show ?thesis by (simp add: l)
  qed
  ultimately show ?thesis by (auto simp: node'_def)
qed

subsection \<open>Setting a value\<close>

definition seg_key :: "key \<Rightarrow> bool" where
  "seg_key k \<longleftrightarrow> k = [] \<or> (\<exists>s. k = [s] \<and> seg_ok s)"

text \<open>The contents after a value is set at a path.\<close>

definition set_spec :: "string list \<Rightarrow> wvstring \<Rightarrow> (string list \<Rightarrow> wvstring) \<Rightarrow> string list \<Rightarrow> wvstring" where
  "set_spec p v M q = (if q = p then v else if strict_prefix q p \<and> M q = None then Some [] else M q)"

lemma note_apply_shift:
  assumes "map lower k = [x]" "x \<noteq> []"
  shows "foldl note_apply M (map (\<lambda>(p, w). (k # p, w)) ds) =
    (\<lambda>q. case q of [] \<Rightarrow> M [] | r # q' \<Rightarrow> if r = x then foldl note_apply (\<lambda>q. M (x # q)) ds q' else M q)"
proof (induction ds arbitrary: M)
  case Nil
  show ?case by (auto simp: fun_eq_iff split: list.split)
next
  case (Cons d ds)
  obtain p w where d: "d = (p, w)" by (cases d)
  let ?M = "M(x # path_lower p := w)"
  have "path_lower (k # p) = x # path_lower p" using assms by (rule path_lower_Cons)
  moreover have "(\<lambda>q. ?M (x # q)) = note_apply (\<lambda>q. M (x # q)) d" by (auto simp: note_apply_def d fun_eq_iff)
  moreover have "note_apply M (k # p, w) = ?M" using calculation(1) by (simp add: note_apply_def)
  ultimately show ?case by (simp add: Cons.IH d) (auto simp: fun_eq_iff d split: list.split)
qed

lemma vt_ok_leaf: "val_ok v \<Longrightarrow> vt_ok n (VNode k v None)"
  by (subst ut_ok.simps) simp

lemma vt_map_leaf: "vt_map q (VNode k v None) = (if q = [] then v else None)"
  by (cases q) simp_all

lemma val_ok_Some: "val_ok v \<Longrightarrow> v \<noteq> None"
  by (auto simp: val_ok_def split: option.splits)

lemma str_ne_val: "val_ok v \<Longrightarrow> val_ok w \<Longrightarrow> str_ne v w \<longleftrightarrow> v \<noteq> w"
  by (auto simp: val_ok_def str_ne_def c_strcmp_zero split: option.splits)

lemma set_spec_step:
  fixes M M' :: "string list \<Rightarrow> wvstring"
  assumes p: "p = s # p'" and M: "M [] \<noteq> None" "M' [] = M []"
    and M': "\<And>r q. M' (r # q) = (if r = s then N q else M (r # q))"
    and N: "N = set_spec p' v (\<lambda>q. M (s # q))"
  shows "M' = set_spec p v M"
proof
  show "M' q = set_spec p v M q" for q
    using M p by (cases q) (auto simp: set_spec_def M' N)
qed

lemma vt_set_spec:
  assumes "vt_ok n node" "n < 26000" "val_ok v" "\<forall>k \<in> set ks. seg_key k"
  shows "\<exists>node' ds. vt_set ks v node = Some (node', ds) \<and> vt_ok (Suc n) node' \<and> vt_key node' = vt_key node \<and>
    (\<lambda>q. vt_map q node') = set_spec (path_lower ks) v (\<lambda>q. vt_map q node) \<and>
    foldl note_apply (\<lambda>q. vt_map q node) ds = (\<lambda>q. vt_map q node')"
  using assms
proof (induction ks arbitrary: node)
  case Nil
  have m: "vt_map (r # q) (VNode k w (vt_children node)) = vt_map (r # q) node" for r q k w
    by (simp add: vt_childlist_def)
  have "(\<lambda>q. vt_map q (VNode (vt_key node) v (vt_children node))) = (\<lambda>q. vt_map q node)([] := v)"
  proof
    show "vt_map q (VNode (vt_key node) v (vt_children node)) = ((\<lambda>q. vt_map q node)([] := v)) q" for q
      by (cases q) (simp_all only: m, simp_all)
  qed
  moreover have "vt_ok (Suc n) (VNode (vt_key node) v (vt_children node))"
  proof -
    have "vt_ok (Suc n) node" using vt_ok_mono [OF Nil.prems(1), of "Suc n"] by simp
    then show ?thesis using Nil.prems(3) by (subst ut_ok.simps, subst (asm) ut_ok.simps) (simp add: vt_childlist_def)
  qed
  moreover have "set_spec [] v (\<lambda>q. vt_map q node) = (\<lambda>q. vt_map q node)([] := v)"
    by (auto simp: set_spec_def fun_eq_iff)
  moreover have "vt_ok (Suc n) node" using vt_ok_mono [OF Nil.prems(1), of "Suc n"] by simp
  moreover have "str_ne v (vt_value node) \<longleftrightarrow> v \<noteq> vt_value node"
    using str_ne_val Nil.prems(3) vt_okD(1) [OF Nil.prems(1)] by blast
  moreover have "(\<lambda>q. vt_map q node)([] := vt_value node) = (\<lambda>q. vt_map q node)" by (auto simp: fun_eq_iff)
  ultimately show ?case by (cases "v = vt_value node") (simp_all add: note_apply_pair fun_upd_def)
next
  case (Cons k ks)
  have ks: "\<forall>k \<in> set ks. seg_key k" using Cons.prems(4) by simp
  show ?case
  proof (cases "k = []")
    case True
    then show ?thesis using Cons.IH [OF Cons.prems(1,2,3) ks] by (simp add: key_isempty_def)
  next
    case False
    then obtain s where k: "k = [s]" "seg_ok s" using Cons.prems(4) by (auto simp: seg_key_def)
    have e: "\<not> key_isempty k" "path_lower (k # ks) = lower s # path_lower ks"
      using k seg_ok_lower by (simp_all add: key_isempty_def path_lower_Cons)
    from vt_findslot_spec [OF Cons.prems(1) k(2)] show ?thesis
    proof (elim disjE exE conjE)
      fix i t
      assume t: "vt_children node = Some t" and f: "vt_findslot [s] node = Some (Some i)" and
        i: "i < sh_numslots t" "is_occupied (sh_slots t ! i)" and m: "vt_slot i node \<in> set (sh_elems t)" and
        l: "map lower (vt_key (vt_slot i node)) = [lower s]"
      let ?c = "vt_slot i node"
      have "vt_ok n ?c" using vt_okD(3) [OF Cons.prems(1)] m t by (simp add: vt_childlist_Some)
      from Cons.IH [OF this Cons.prems(2,3) ks] obtain c' ds where c': "vt_set ks v ?c = Some (c', ds)"
        "vt_ok (Suc n) c'" "vt_key c' = vt_key ?c"
        "(\<lambda>q. vt_map q c') = set_spec (path_lower ks) v (\<lambda>q. vt_map q ?c)"
        "foldl note_apply (\<lambda>q. vt_map q ?c) ds = (\<lambda>q. vt_map q c')" by blast
      have p: "vt_ok (Suc n) (vt_poke i c' node)"
        "\<And>r q. vt_map (r # q) (vt_poke i c' node) = (if r = lower s then vt_map q c' else vt_map (r # q) node)"
        "\<And>q. vt_map (lower s # q) node = vt_map q ?c"
        using vt_poke_spec [where pr = "\<lambda>v. v", OF Cons.prems(1) t i c'(3,2)] l by auto
      have r: "vt_set (k # ks) v node =
          Some (vt_poke i c' node, map (\<lambda>(p, w). (vt_key ?c # p, w)) ds)"
        using e f k c'(1) by simp
      have a: "(\<lambda>q. vt_map q (vt_poke i c' node)) = set_spec (path_lower (k # ks)) v (\<lambda>q. vt_map q node)"
        by (rule set_spec_step [OF e(2), where N = "\<lambda>q. vt_map q c'"])
          (use p(2,3) c'(4) val_ok_Some [OF vt_okD(1) [OF Cons.prems(1)]] in \<open>simp_all del: ut_map.simps(2)\<close>)
      have b: "foldl note_apply (\<lambda>q. vt_map q node) (map (\<lambda>(p, w). (vt_key ?c # p, w)) ds) =
          (\<lambda>q. vt_map q (vt_poke i c' node))"
        unfolding note_apply_shift [OF l seg_ok_lower [OF k(2)]] p(3) c'(5)
        by (auto simp: fun_eq_iff p(2) split: list.split simp del: ut_map.simps(2))
      show ?thesis using r a b p(1) by (intro exI conjI) (assumption | simp)+
    next
      assume f: "vt_findslot [s] node = Some None" and
        new: "\<forall>c \<in> set (vt_childlist node). map lower (vt_key c) \<noteq> [lower s]"
      define w where "w = (if ks = [] then v else Some [])"
      let ?c = "VNode k w None"
      have w: "val_ok w" using Cons.prems(3) by (simp add: w_def val_ok_def)
      from Cons.IH [OF vt_ok_leaf [OF w] Cons.prems(2,3) ks, of k] obtain c' ds where c': "vt_set ks v ?c = Some (c', ds)"
        "vt_ok (Suc n) c'" "vt_key c' = k"
        "(\<lambda>q. vt_map q c') = set_spec (path_lower ks) v (\<lambda>q. vt_map q ?c)"
        "foldl note_apply (\<lambda>q. vt_map q ?c) ds = (\<lambda>q. vt_map q c')" by auto
      obtain node' where p: "vt_link c' node = Some node'" "vt_ok (Suc n) node'" "vt_key node' = vt_key node"
        "vt_value node' = vt_value node"
        "\<And>r q. vt_map (r # q) node' = (if r = lower s then vt_map q c' else vt_map (r # q) node)"
        "\<And>q. vt_map (lower s # q) node = None"
        using vt_link_spec [where pr = "\<lambda>v. v", OF Cons.prems(1,2) _ k(2) c'(2) new] c'(3) k(1) by blast
      let ?ds = "([k], w) # map (\<lambda>(p, w). (k # p, w)) ds"
      have r: "vt_set (k # ks) v node = Some (node', ?ds)"
        using e f k c'(1) p(1) by (simp add: w_def)
      have "set_spec (path_lower ks) v (\<lambda>q. vt_map q ?c) = set_spec (path_lower ks) v (\<lambda>q. None)"
        by (cases "path_lower ks = []") (auto simp: fun_eq_iff set_spec_def vt_map_leaf w_def strict_prefix_def)
      then have c4: "(\<lambda>q. vt_map q c') = set_spec (path_lower ks) v (\<lambda>q. None)" using c'(4) by simp
      have a: "(\<lambda>q. vt_map q node') = set_spec (path_lower (k # ks)) v (\<lambda>q. vt_map q node)"
        by (rule set_spec_step [OF e(2), where N = "\<lambda>q. vt_map q c'"])
          (use p(4-6) c4 val_ok_Some [OF vt_okD(1) [OF Cons.prems(1)]] in \<open>simp_all del: ut_map.simps(2)\<close>)
      have l: "map lower k = [lower s]" using k by simp
      let ?M = "note_apply (\<lambda>q. vt_map q node) ([k], w)"
      have M: "(\<lambda>q. ?M (lower s # q)) = (\<lambda>q. vt_map q ?c)" "\<And>r q. r \<noteq> lower s \<Longrightarrow> ?M (r # q) = vt_map (r # q) node"
        "?M [] = vt_map [] node"
        using p(6) path_lower_Cons [OF l seg_ok_lower [OF k(2)], of "[]"] by (auto simp: note_apply_def vt_map_leaf fun_eq_iff simp del: ut_map.simps(2))
      have b: "foldl note_apply (\<lambda>q. vt_map q node) ?ds = (\<lambda>q. vt_map q node')"
        unfolding foldl_Cons note_apply_shift [OF l seg_ok_lower [OF k(2)]] M c'(5) using M(2,3) p(4)
        by (auto simp: fun_eq_iff p(5) split: list.split simp del: ut_map.simps(2))
      show ?thesis using r a b p(2,3) by (intro exI conjI) (assumption | simp)+
    qed
  qed
qed

subsection \<open>Removing a subtree\<close>

lemma note_apply_deletes:
  "foldl note_apply M (map (\<lambda>p. (p, None)) ps) = (\<lambda>q. if q \<in> path_lower ` set ps then None else M q)"
proof (induction ps arbitrary: M)
  case (Cons p ps)
  then show ?case by (auto simp: note_apply_def fun_eq_iff)
qed simp

lemma vt_postorder_paths:
  assumes "vt_ok n node"
  shows "path_lower ` set (vt_postorder node) = {q. vt_map q node \<noteq> None}"
  using assms
proof (induction node rule: vt_postorder.induct)
  case (1 node)
  have ok: "(\<exists>s. vt_key c = [s] \<and> seg_ok s) \<and> vt_ok n c" if "c \<in> set (vt_childlist node)" for c
    using vt_okD(3) [OF 1(2) that] .
  have f: "find (\<lambda>x. map lower (vt_key x) = [s]) (vt_childlist node) = Some c" if
    c: "c \<in> set (vt_childlist node)" "map lower (vt_key c) = [s]" for c s
  proof (cases "vt_children node")
    case None
    then show ?thesis using c by (simp add: vt_childlist_def)
  next
    case (Some t)
    have "distinct (map (\<lambda>x. map lower (vt_key x)) (sh_elems t))"
      using vt_okD(2) [OF 1(2) Some] by (simp add: dict_inv_def)
    then show ?thesis using find_distinct c Some by (simp add: vt_childlist_Some)
  qed
  have p: "path_lower (vt_key c # p) = s # path_lower p" if "c \<in> set (vt_childlist node)" "map lower (vt_key c) = [s]" for c s p
    using that(2) ok [OF that(1)] seg_ok_lower by (intro path_lower_Cons) auto
  have step: "s # q \<in> path_lower ` set (vt_postorder node) \<longleftrightarrow>
      (\<exists>c \<in> set (vt_childlist node). map lower (vt_key c) = [s] \<and> q \<in> path_lower ` set (vt_postorder c))" for s q
  proof
    assume "s # q \<in> path_lower ` set (vt_postorder node)"
    then obtain c p where c: "c \<in> set (vt_childlist node)" "p \<in> set (vt_postorder c)" "s # q = path_lower (vt_key c # p)"
      by (subst (asm) vt_postorder.simps) auto
    moreover obtain s' where "map lower (vt_key c) = [s']" using ok [OF c(1)] by auto
    ultimately have "map lower (vt_key c) = [s]" "q = path_lower p" using p by auto
    then show "\<exists>c \<in> set (vt_childlist node). map lower (vt_key c) = [s] \<and> q \<in> path_lower ` set (vt_postorder c)"
      using c(1,2) by (metis imageI)
  next
    assume "\<exists>c \<in> set (vt_childlist node). map lower (vt_key c) = [s] \<and> q \<in> path_lower ` set (vt_postorder c)"
    then obtain c p' where c: "c \<in> set (vt_childlist node)" "map lower (vt_key c) = [s]" "p' \<in> set (vt_postorder c)"
      "q = path_lower p'" by (elim bexE conjE imageE)
    have "vt_key c # p' \<in> set (vt_postorder node)" using c by (subst vt_postorder.simps) auto
    then show "s # q \<in> path_lower ` set (vt_postorder node)" using p [OF c(1,2), of p'] c(4) by (metis imageI)
  qed
  have "q \<in> path_lower ` set (vt_postorder node) \<longleftrightarrow> vt_map q node \<noteq> None" for q
  proof (cases q)
    case Nil
    have "[] \<in> set (vt_postorder node)" by (subst vt_postorder.simps) simp
    then have "[] \<in> path_lower ` set (vt_postorder node)" by (force simp: image_iff)
    then show ?thesis using Nil val_ok_Some [OF vt_okD(1) [OF 1(2)]] by simp
  next
    case (Cons s q')
    show ?thesis
    proof (cases "\<exists>c \<in> set (vt_childlist node). map lower (vt_key c) = [s]")
      case True
      then obtain c where c: "c \<in> set (vt_childlist node)" "map lower (vt_key c) = [s]" by (elim bexE)
      have u: "c' = c" if "c' \<in> set (vt_childlist node)" "map lower (vt_key c') = [s]" for c'
        using f [OF that] f [OF c] by simp
      have "q \<in> path_lower ` set (vt_postorder node) \<longleftrightarrow> q' \<in> path_lower ` set (vt_postorder c)"
        unfolding Cons step
      proof
        assume "\<exists>c \<in> set (vt_childlist node). map lower (vt_key c) = [s] \<and> q' \<in> path_lower ` set (vt_postorder c)"
        then show "q' \<in> path_lower ` set (vt_postorder c)" by (elim bexE conjE) (drule (1) u, simp only:)
      qed (intro bexI [of _ c] conjI c)
      also have "\<dots> \<longleftrightarrow> vt_map q' c \<noteq> None"
        unfolding 1(1) [OF c(1) conjunct2 [OF ok [OF c(1)]]] by (rule mem_Collect_eq)
      also have "vt_map q' c = vt_map q node" by (simp add: Cons f [OF c])
      finally show ?thesis .
    next
      case False
      then have "find (\<lambda>x. map lower (vt_key x) = [s]) (vt_childlist node) = None" by (auto simp: find_None_iff)
      then show ?thesis using Cons step [of s q'] False by simp
    qed
  qed
  then show ?case by auto
qed

text \<open>The contents after all below a path is removed.\<close>

definition remove_spec :: "string list \<Rightarrow> (string list \<Rightarrow> wvstring) \<Rightarrow> string list \<Rightarrow> wvstring" where
  "remove_spec p M q = (if prefix p q then None else M q)"

lemma vt_remove_spec:
  assumes "vt_ok n node" "\<forall>k \<in> set ks. seg_key k"
  shows "\<exists>r ps. vt_remove ks node = Some (r, ps) \<and> (r = None \<longleftrightarrow> path_lower ks = []) \<and>
    (\<forall>node'. r = Some node' \<longrightarrow> vt_ok n node' \<and> vt_key node' = vt_key node \<and>
      (\<lambda>q. vt_map q node') = remove_spec (path_lower ks) (\<lambda>q. vt_map q node)) \<and>
    foldl note_apply (\<lambda>q. vt_map q node) (map (\<lambda>p. (p, None)) ps) =
      remove_spec (path_lower ks) (\<lambda>q. vt_map q node)"
  using assms
proof (induction ks arbitrary: node)
  case Nil
  have "foldl note_apply (\<lambda>q. vt_map q node) (map (\<lambda>p. (p, None)) (vt_postorder node)) = (\<lambda>q. None)"
    unfolding note_apply_deletes vt_postorder_paths [OF Nil.prems(1)] by auto
  then show ?case by (simp add: remove_spec_def)
next
  case (Cons k ks)
  have ks: "\<forall>k \<in> set ks. seg_key k" using Cons.prems(2) by simp
  show ?case
  proof (cases "k = []")
    case True
    then show ?thesis using Cons.IH [OF Cons.prems(1) ks] by (simp add: key_isempty_def)
  next
    case False
    then obtain s where k: "k = [s]" "seg_ok s" using Cons.prems(2) by (auto simp: seg_key_def)
    have e: "\<not> key_isempty k" "path_lower (k # ks) = lower s # path_lower ks"
      using k seg_ok_lower by (simp_all add: key_isempty_def path_lower_Cons)
    have m0: "vt_map [] node \<noteq> None" using val_ok_Some [OF vt_okD(1) [OF Cons.prems(1)]] by simp
    from vt_findslot_spec [OF Cons.prems(1) k(2)] show ?thesis
    proof (elim disjE exE conjE)
      fix i t
      assume t: "vt_children node = Some t" and f: "vt_findslot [s] node = Some (Some i)" and
        i: "i < sh_numslots t" "is_occupied (sh_slots t ! i)" and m: "vt_slot i node \<in> set (sh_elems t)" and
        l: "map lower (vt_key (vt_slot i node)) = [lower s]"
      let ?c = "vt_slot i node"
      have c: "?c \<in> set (vt_childlist node)" using m t by (simp add: vt_childlist_Some)
      then have "vt_ok n ?c" using vt_okD(3) [OF Cons.prems(1)] by simp
      from Cons.IH [OF this ks] obtain r ps where r: "vt_remove ks ?c = Some (r, ps)"
        "r = None \<longleftrightarrow> path_lower ks = []"
        "\<And>c'. r = Some c' \<Longrightarrow> vt_ok n c' \<and> vt_key c' = vt_key ?c \<and>
          (\<lambda>q. vt_map q c') = remove_spec (path_lower ks) (\<lambda>q. vt_map q ?c)"
        "foldl note_apply (\<lambda>q. vt_map q ?c) (map (\<lambda>p. (p, None)) ps) =
          remove_spec (path_lower ks) (\<lambda>q. vt_map q ?c)" by blast
      have sub: "\<exists>node'. vt_remove (k # ks) node = Some (Some node', map (\<lambda>p. vt_key ?c # p) ps) \<and>
        vt_ok n node' \<and> vt_key node' = vt_key node \<and> vt_map [] node' = vt_map [] node \<and>
        (\<forall>r q. vt_map (r # q) node' = (if r = lower s then remove_spec (path_lower ks) (\<lambda>q. vt_map q ?c) q
          else vt_map (r # q) node)) \<and> (\<forall>q. vt_map (lower s # q) node = vt_map q ?c)"
      proof (cases r)
        case None
        obtain s0 where s0: "vt_key ?c = [s0]" using vt_okD(3) [OF Cons.prems(1) c] by blast
        then have "lower s0 = lower s" using l by simp
        with vt_unlink_spec [where pr = "\<lambda>v. v", OF Cons.prems(1) c s0] show ?thesis
          using e f k r(1,2) None by (auto simp: remove_spec_def)
      next
        case (Some c')
        have c': "vt_ok n c'" "vt_key c' = vt_key ?c" "(\<lambda>q. vt_map q c') = remove_spec (path_lower ks) (\<lambda>q. vt_map q ?c)"
          using r(3) [OF Some] by simp_all
        from c'(3) have "remove_spec (path_lower ks) (\<lambda>q. vt_map q ?c) q = vt_map q c'" for q by metis
        then show ?thesis using vt_poke_spec [where pr = "\<lambda>v. v", OF Cons.prems(1) t i c'(2,1)] l e f k r(1) Some by simp
      qed
      then obtain node' where n': "vt_remove (k # ks) node = Some (Some node', map (\<lambda>p. vt_key ?c # p) ps)"
        "vt_ok n node'" "vt_key node' = vt_key node" "vt_map [] node' = vt_map [] node"
        "\<And>r q. vt_map (r # q) node' = (if r = lower s then remove_spec (path_lower ks) (\<lambda>q. vt_map q ?c) q
          else vt_map (r # q) node)" "\<And>q. vt_map (lower s # q) node = vt_map q ?c" by blast
      have a: "(\<lambda>q. vt_map q node') = remove_spec (path_lower (k # ks)) (\<lambda>q. vt_map q node)"
      proof
        show "vt_map q node' = remove_spec (path_lower (k # ks)) (\<lambda>q. vt_map q node) q" for q
          using n'(4-6) e(2) by (cases q) (auto simp: remove_spec_def simp del: ut_map.simps)
      qed
      have "map (\<lambda>p. (p, None :: wvstring)) (map (\<lambda>p. vt_key ?c # p) ps) =
          map (\<lambda>(p, w). (vt_key ?c # p, w)) (map (\<lambda>p. (p, None)) ps)" by simp
      moreover have "foldl note_apply (\<lambda>q. vt_map q node)
          (map (\<lambda>(p, w). (vt_key ?c # p, w)) (map (\<lambda>p. (p, None)) ps)) = (\<lambda>q. vt_map q node')"
        unfolding note_apply_shift [OF l seg_ok_lower [OF k(2)]] n'(6) r(4) by (auto simp: fun_eq_iff n'(4,5) split: list.split simp del: ut_map.simps)
      ultimately have "foldl note_apply (\<lambda>q. vt_map q node) (map (\<lambda>p. (p, None)) (map (\<lambda>p. vt_key ?c # p) ps)) =
          (\<lambda>q. vt_map q node')" by (simp only:)
      then show ?thesis using n'(1-3) a e(2) by (metis list.discI option.discI option.inject)
    next
      assume f: "vt_findslot [s] node = Some None" and
        new: "\<forall>c \<in> set (vt_childlist node). map lower (vt_key c) \<noteq> [lower s]"
      have none: "vt_map (lower s # q) node = None" for q using new by (simp add: find_None_iff [THEN iffD2])
      then have "remove_spec (path_lower (k # ks)) (\<lambda>q. vt_map q node) = (\<lambda>q. vt_map q node)"
        using e(2) by (auto simp: fun_eq_iff remove_spec_def prefix_def simp del: ut_map.simps)
      then show ?thesis using e f k Cons.prems(1) by simp
    qed
  qed
qed


subsection \<open>Whole keys\<close>

text \<open>The path of a key, and the keys that are paths of nodes.\<close>

definition key_path :: "key \<Rightarrow> string list" where
  "key_path k = map lower (nonempty_segs k)"

lemma key_collapse_nonempty: "[] \<notin> set ks \<Longrightarrow> key_collapse ks = ks"
  by (auto simp: key_collapse_def)

lemma vt_fullkey_eq: "vt_fullkey ks = concat (map nonempty_segs ks)"
proof -
  have "foldl (\<lambda>result k. key_prepend result k) r (rev ks) = concat (map nonempty_segs ks) @ r" if "[] \<notin> set r" for r
    using that
  proof (induction ks arbitrary: r rule: rev_induct)
    case (snoc k ks)
    have "key_prepend r k = nonempty_segs k @ r"
      unfolding key_prepend_def using snoc.prems by (intro key_collapse_nonempty) (simp add: nonempty_segs_def)
    moreover have "[] \<notin> set (nonempty_segs k @ r)" using snoc.prems by (simp add: nonempty_segs_def)
    ultimately show ?case using snoc.IH [of "nonempty_segs k @ r"] by simp
  qed simp
  from this [of key_EMPTY] show ?thesis by (simp add: vt_fullkey_def key_EMPTY_def)
qed

lemma map_lower_fullkey: "map lower (vt_fullkey ks) = path_lower ks"
  by (simp add: vt_fullkey_eq path_lower_def)

lemma key_segment_nth: "n < length k \<Longrightarrow> key_segment k (int n) = (if k ! n = [] then [] else [k ! n])"
  by (simp add: key_simps Let_def take_Suc_conv_app_nth nat_add_distrib take_Suc hd_drop_conv_nth)

lemma key_iter_eq: "key_iter k = map (\<lambda>s. if s = [] then [] else [s]) k"
  by (rule nth_equalityI) (simp_all add: key_iter_def key_segment_nth)

lemma path_lower_key_iter: "path_lower (key_iter k) = key_path k"
  by (induction k) (simp_all add: key_iter_eq path_lower_def key_path_def nonempty_segs_def)

lemma seg_key_iter: "key_cstr k \<Longrightarrow> x \<in> set (key_iter k) \<Longrightarrow> seg_key x"
  by (auto simp: key_iter_eq seg_key_def seg_ok_def key_cstr_def)

subsection \<open>Looking a node up\<close>

lemma vt_findchild_slot:
  "vt_findchild k node = (if key_isempty k then Some (Some node) else map_option (map_option (\<lambda>s. vt_slot s node)) (vt_findslot k node))"
  by (simp add: vt_findchild_def vt_findslot_def vt_slot_def genfind_or_null_def split: option.split)

lemma vt_find_path_spec:
  assumes "ut_ok vok n node" "\<forall>k \<in> set ks. seg_key k"
  shows "\<exists>r. vt_find_path ks node = Some r \<and>
    (case r of
       None \<Rightarrow> \<forall>q. ut_map pr (path_lower ks @ q) node = None
     | Some c \<Rightarrow> ut_ok vok n c \<and> (\<forall>q. ut_map pr (path_lower ks @ q) node = ut_map pr q c))"
  using assms
proof (induction ks arbitrary: node)
  case (Cons k ks)
  have ks: "\<forall>k \<in> set ks. seg_key k" using Cons.prems(2) by simp
  show ?case
  proof (cases "k = []")
    case True
    then have "vt_find_path (k # ks) node = vt_find_path ks node" "path_lower (k # ks) = path_lower ks"
      by (simp_all add: vt_findchild_def key_isempty_def)
    then show ?thesis using Cons.IH [OF Cons.prems(1) ks] by (simp only:)
  next
    case False
    then obtain s where k: "k = [s]" "seg_ok s" using Cons.prems(2) by (auto simp: seg_key_def)
    have e: "\<not> key_isempty k" "path_lower (k # ks) = lower s # path_lower ks"
      using k seg_ok_lower by (simp_all add: key_isempty_def path_lower_Cons)
    from vt_findslot_spec [OF Cons.prems(1) k(2)] show ?thesis
    proof (elim disjE exE conjE)
      fix i t
      assume t: "vt_children node = Some t" and f: "vt_findslot [s] node = Some (Some i)" and
        m: "vt_slot i node \<in> set (sh_elems t)" and l: "map lower (vt_key (vt_slot i node)) = [lower s]"
      let ?c = "vt_slot i node"
      have "ut_ok vok n ?c" using vt_okD(3) [OF Cons.prems(1)] m t by (simp add: vt_childlist_Some)
      moreover have "ut_map pr (lower s # q) node = ut_map pr q ?c" for q
      proof -
        have "distinct (map (\<lambda>x. map lower (vt_key x)) (sh_elems t))"
          using vt_okD(2) [OF Cons.prems(1) t] by (simp add: dict_inv_def)
        from find_distinct [OF this m l] show ?thesis using t by (simp add: vt_childlist_Some)
      qed
      moreover have "vt_find_path (k # ks) node = vt_find_path ks ?c"
        using e f k by (simp add: vt_findchild_slot)
      ultimately show ?thesis using Cons.IH [of ?c] ks e(2) by (simp del: ut_map.simps cong: option.case_cong)
    next
      assume f: "vt_findslot [s] node = Some None" and
        new: "\<forall>c \<in> set (vt_childlist node). map lower (vt_key c) \<noteq> [lower s]"
      have "ut_map pr (lower s # q) node = None" for q using new by (simp add: find_None_iff [THEN iffD2])
      moreover have "vt_find_path (k # ks) node = Some None" using e f k by (simp add: vt_findchild_slot)
      ultimately show ?thesis using e(2) by (simp del: ut_map.simps)
    qed
  qed
qed simp

lemma vt_find_spec:
  assumes "ut_ok vok n node" "key_cstr k"
  shows "\<exists>r. vt_find k node = Some r \<and>
    (case r of
       None \<Rightarrow> \<forall>q. ut_map pr (key_path k @ q) node = None
     | Some c \<Rightarrow> ut_ok vok n c \<and> (\<forall>q. ut_map pr (key_path k @ q) node = ut_map pr q c))"
proof -
  have "\<forall>x \<in> set (key_iter k). seg_key x" using seg_key_iter [OF assms(2)] by blast
  from vt_find_path_spec [OF assms(1) this] show ?thesis unfolding vt_find_def path_lower_key_iter .
qed

text \<open>A node has children exactly if the map has a value one step below.\<close>

lemma vt_haschildren_spec:
  assumes "vt_ok n node"
  shows "vt_haschildren node \<longleftrightarrow> (\<exists>s. vt_map [s] node \<noteq> None)"
proof (cases "vt_children node")
  case None
  then show ?thesis by (simp add: vt_haschildren_def vt_childlist_def)
next
  case (Some t)
  have d: "vt_dict t" "0 < sh_num t" using vt_okD(2) [OF assms Some] by simp_all
  then have "sh_elems t \<noteq> []" by (auto simp: dict_inv_def sh_inv_def sh_core_def sh_elems_def)
  then obtain c where c: "c \<in> set (sh_elems t)" by (meson last_in_set)
  then obtain s where s: "vt_key c = [s]" using vt_okD(3) [OF assms] Some by (auto simp: vt_childlist_Some)
  have ok: "vt_ok n c" using vt_okD(3) [OF assms] Some c by (auto simp: vt_childlist_Some)
  have "distinct (map (\<lambda>x. map lower (vt_key x)) (sh_elems t))" using d(1) by (simp add: dict_inv_def)
  from find_distinct [OF this c, of "[lower s]"] have "vt_map [lower s] node = vt_value c"
    using Some s by (simp add: vt_childlist_Some)
  then have "vt_map [lower s] node \<noteq> None" using val_ok_Some [OF vt_okD(1) [OF ok]] by simp
  moreover have "vt_haschildren node" using d(2) Some by (simp add: vt_haschildren_def sh_isempty_def)
  ultimately show ?thesis by blast
qed


subsection \<open>What the notifications carry\<close>

definition path_ok :: "key list \<Rightarrow> bool" where
  "path_ok p \<longleftrightarrow> (\<forall>k \<in> set p. seg_key k)"

lemma path_ok_simps [simp]: "path_ok []" "path_ok (k # p) \<longleftrightarrow> seg_key k \<and> path_ok p"
  by (simp_all add: path_ok_def)

lemma path_ok_fullkey: "path_ok p \<Longrightarrow> key_cstr (vt_fullkey p) \<and> [] \<notin> set (vt_fullkey p)"
  by (induction p) (auto simp: vt_fullkey_eq nonempty_segs_def seg_key_def seg_ok_def key_cstr_def)

lemma vt_ok_child: "ut_ok vok n node \<Longrightarrow> c \<in> set (vt_childlist node) \<Longrightarrow> seg_key (vt_key c) \<and> ut_ok vok n c"
  using vt_okD(3) by (auto simp: seg_key_def)

lemma vt_findslot_child:
  assumes "ut_ok vok n node" "seg_key k" "\<not> key_isempty k" "vt_findslot k node = Some (Some i)"
  shows "seg_key (vt_key (vt_slot i node)) \<and> ut_ok vok n (vt_slot i node)"
proof -
  obtain s where s: "k = [s]" "seg_ok s" using assms(2,3) by (auto simp: seg_key_def key_isempty_def)
  from vt_findslot_spec [OF assms(1) s(2)] assms(4) s(1) have "vt_slot i node \<in> set (vt_childlist node)"
    by (auto simp: vt_childlist_Some)
  then show ?thesis using vt_ok_child [OF assms(1)] by blast
qed

lemma length_path_lower_Cons: "seg_key k \<Longrightarrow> length (path_lower (k # p)) \<le> Suc (length (path_lower p))"
  by (auto simp: seg_key_def path_lower_def nonempty_segs_def)

lemma vt_set_notes:
  assumes "vt_ok n node" "path_ok ks" "val_ok v" "vt_set ks v node = Some (node', ds)" "(p, w) \<in> set ds"
  shows "path_ok p \<and> val_ok w \<and> length (path_lower p) \<le> length ks"
  using assms
proof (induction ks arbitrary: node node' ds p)
  case Nil
  then show ?case by (auto split: if_splits)
next
  case (Cons k ks)
  have ks: "path_ok ks" "seg_key k" using Cons.prems(2) by simp_all
  show ?case
  proof (cases "key_isempty k")
    case True
    then show ?thesis using Cons.IH [OF Cons.prems(1) ks(1) Cons.prems(3)] Cons.prems(4,5) by fastforce
  next
    case False
    show ?thesis
    proof (cases "vt_findslot k node")
      case None
      then show ?thesis using Cons.prems(4) False by simp
    next
      case (Some f)
      show ?thesis
      proof (cases f)
        case None
        let ?new = "VNode k (if ks = [] then v else Some []) None"
        have new: "vt_ok n ?new" "val_ok (vt_value ?new)" using Cons.prems(3) by (simp_all add: vt_ok_leaf val_ok_def)
        obtain c es where c: "vt_set ks v ?new = Some (c, es)"
          "(p, w) = ([k], vt_value ?new) \<or> (p, w) \<in> set (map (\<lambda>(p, w). (k # p, w)) es)"
          using Cons.prems(4,5) False Some None by (auto simp: Let_def split: option.splits prod.splits)
        have "length (path_lower [k]) \<le> 1" using length_path_lower_Cons [OF ks(2), of "[]"] by simp
        then have "path_ok [k] \<and> val_ok (vt_value ?new) \<and> length (path_lower [k]) \<le> length (k # ks)"
          using ks(2) new(2) by simp
        moreover have "path_ok (k # p') \<and> val_ok w \<and> length (path_lower (k # p')) \<le> length (k # ks)"
          if "(p', w) \<in> set es" for p'
          using Cons.IH [OF new(1) ks(1) Cons.prems(3) c(1) that] ks(2) length_path_lower_Cons [OF ks(2), of p'] by simp
        ultimately show ?thesis using c(2) by auto
      next
        case (Some i)
        let ?c = "vt_slot i node"
        have ok: "seg_key (vt_key ?c)" "vt_ok n ?c"
          using vt_findslot_child [OF Cons.prems(1) ks(2) False] \<open>vt_findslot k node = Some f\<close> Some by simp_all
        obtain c es where c: "vt_set ks v ?c = Some (c, es)" "(p, w) \<in> set (map (\<lambda>(p, w). (vt_key ?c # p, w)) es)"
          using Cons.prems(4,5) False Some \<open>vt_findslot k node = Some f\<close> by auto
        then obtain p' where p': "(p', w) \<in> set es" "p = vt_key ?c # p'" by auto
        show ?thesis
          using Cons.IH [OF ok(2) ks(1) Cons.prems(3) c(1) p'(1)] ok(1) length_path_lower_Cons [OF ok(1), of p'] p'(2)
          by simp
      qed
    qed
  qed
qed

lemma vt_map_child:
  assumes "ut_ok vok n node" "c \<in> set (vt_childlist node)" "map lower (vt_key c) = [s]"
  shows "ut_map pr (s # q) node = ut_map pr q c"
proof -
  obtain t where t: "vt_children node = Some t"
    using assms(2) by (cases "vt_children node") (auto simp: vt_childlist_def)
  have "distinct (map (\<lambda>x. map lower (vt_key x)) (vt_childlist node))"
    using vt_okD(2) [OF assms(1) t] t by (simp add: dict_inv_def vt_childlist_Some)
  from find_distinct [OF this assms(2,3)] show ?thesis by simp
qed

lemma vt_postorder_ok: "ut_ok vok n node \<Longrightarrow> p \<in> set (vt_postorder node) \<Longrightarrow> path_ok p"
proof (induction node arbitrary: p rule: vt_postorder.induct)
  case (1 node)
  consider "p = []" | c p' where "c \<in> set (vt_childlist node)" "p' \<in> set (vt_postorder c)" "p = vt_key c # p'"
    using 1(3) by (subst (asm) vt_postorder.simps) auto
  then show ?case
  proof cases
    case 2
    then show ?thesis using 1(1) [of c p'] vt_ok_child [OF 1(2), of c] by simp
  qed simp
qed

lemma vt_remove_notes:
  assumes "vt_ok n node" "path_ok ks" "vt_remove ks node = Some (r, ps)" "p \<in> set ps"
  shows "path_ok p \<and> vt_map (path_lower p) node \<noteq> None"
  using assms
proof (induction ks arbitrary: node r ps p)
  case Nil
  then have "p \<in> set (vt_postorder node)" by simp
  then have "path_lower p \<in> {q. vt_map q node \<noteq> None}" using vt_postorder_paths [OF Nil.prems(1)] by blast
  then show ?case using vt_postorder_ok [OF Nil.prems(1) \<open>p \<in> set (vt_postorder node)\<close>] by simp
next
  case (Cons k ks)
  have ks: "path_ok ks" "seg_key k" using Cons.prems(2) by simp_all
  show ?case
  proof (cases "key_isempty k")
    case True
    then show ?thesis using Cons.IH [OF Cons.prems(1) ks(1)] Cons.prems(3,4) by simp
  next
    case False
    then obtain i where i: "vt_findslot k node = Some (Some i)"
      using Cons.prems(3,4) by (auto split: option.splits)
    let ?c = "vt_slot i node"
    have ok: "seg_key (vt_key ?c)" "vt_ok n ?c" using vt_findslot_child [OF Cons.prems(1) ks(2) False i] by simp_all
    obtain s where s: "k = [s]" "seg_ok s" using ks(2) False by (auto simp: seg_key_def key_isempty_def)
    have l: "map lower (vt_key ?c) = [lower s]" and m: "?c \<in> set (vt_childlist node)"
      using vt_findslot_spec [OF Cons.prems(1) s(2)] i s(1) by (auto simp: vt_childlist_Some)
    have sub: "vt_map (path_lower (vt_key ?c # q)) node = vt_map (path_lower q) ?c" for q
      unfolding path_lower_Cons [OF l seg_ok_lower [OF s(2)]] by (rule vt_map_child [where pr = "\<lambda>v. v", OF Cons.prems(1) m l])
    obtain r' qs where c: "vt_remove ks ?c = Some (r', qs)" "p \<in> set (map (\<lambda>p. vt_key ?c # p) qs)"
      using Cons.prems(3,4) False i by (auto split: option.splits)
    then show ?thesis using Cons.IH [OF ok(2) ks(1) c(1)] ok(1) sub by auto
  qed
qed


subsection \<open>The order of the notifications\<close>

text \<open>A node is announced after its parent, and its removal after those of the nodes below it, so that the
  changes can also be replayed by operations on a tree.\<close>

definition note_fits :: "(string list \<Rightarrow> wvstring) \<Rightarrow> string list \<Rightarrow> wvstring \<Rightarrow> bool" where
  "note_fits M p w \<longleftrightarrow>
     (if w = None then \<forall>q. strict_prefix p q \<longrightarrow> M q = None else \<forall>q. strict_prefix q p \<longrightarrow> M q \<noteq> None)"

primrec notes_fit :: "(string list \<Rightarrow> wvstring) \<Rightarrow> (key list \<times> wvstring) list \<Rightarrow> bool" where
  "notes_fit M [] = True"
| "notes_fit M (d # ds) = (note_fits M (path_lower (fst d)) (snd d) \<and> notes_fit (note_apply M d) ds)"

lemma note_fits_replay:
  "w \<noteq> None \<Longrightarrow> note_fits M p w \<Longrightarrow> set_spec p w M = M(p := w)"
  "note_fits M p None \<Longrightarrow> remove_spec p M = M(p := None)"
proof -
  assume w: "w \<noteq> None" "note_fits M p w"
  then have "strict_prefix q p \<Longrightarrow> M q \<noteq> None" for q by (simp add: note_fits_def)
  then have "(if strict_prefix q p \<and> M q = None then Some [] else M q) = M q" for q
    by (cases "strict_prefix q p") simp_all
  then show "set_spec p w M = M(p := w)" unfolding set_spec_def by (simp only: fun_upd_def)
next
  assume w: "note_fits M p None"
  have "M q = None" if "prefix p q" "q \<noteq> p" for q
    using w that by (simp add: note_fits_def prefix_order.less_le)
  then show "remove_spec p M = M(p := None)" by (auto simp: remove_spec_def fun_eq_iff)
qed

lemma notes_fit_append: "notes_fit M (ds @ es) \<longleftrightarrow> notes_fit M ds \<and> notes_fit (foldl note_apply M ds) es"
  by (induction ds arbitrary: M) auto

lemma notes_fit_shift:
  assumes k: "map lower k = [x]" "x \<noteq> []" and M: "M [] \<noteq> None"
  shows "notes_fit M (map (\<lambda>(p, w). (k # p, w)) ds) \<longleftrightarrow> notes_fit (\<lambda>q. M (x # q)) ds"
  using M
proof (induction ds arbitrary: M)
  case (Cons d ds)
  obtain p w where d: "d = (p, w)" by (cases d)
  have p: "path_lower (k # p) = x # path_lower p" using k by (rule path_lower_Cons)
  have "note_fits M (x # path_lower p) w \<longleftrightarrow> note_fits (\<lambda>q. M (x # q)) (path_lower p) w"
  proof (cases "w = None")
    case True
    have "strict_prefix (x # r) q \<longleftrightarrow> (\<exists>q'. q = x # q' \<and> strict_prefix r q')" for r q
      by (auto simp: strict_prefix_def prefix_def)
    then show ?thesis using True by (auto simp: note_fits_def)
  next
    case False
    have "strict_prefix q (x # r) \<longleftrightarrow> q = [] \<or> (\<exists>q'. q = x # q' \<and> strict_prefix q' r)" for r q
      by (cases q) (auto simp: strict_prefix_def)
    then show ?thesis using False Cons.prems by (auto simp: note_fits_def)
  qed
  moreover have "note_apply M (k # p, w) [] \<noteq> None" using Cons.prems by (simp add: note_apply_def p)
  moreover have "(\<lambda>q. note_apply M (k # p, w) (x # q)) = note_apply (\<lambda>q. M (x # q)) (p, w)"
    by (auto simp: note_apply_def p fun_eq_iff)
  ultimately show ?case using Cons.IH [of "note_apply M (k # p, w)"] by (simp add: d p)
qed simp

lemma vt_set_fits:
  assumes "vt_ok n node" "n < 26000" "path_ok ks" "val_ok v" "vt_set ks v node = Some (node', ds)"
  shows "notes_fit (\<lambda>q. vt_map q node) ds"
  using assms
proof (induction ks arbitrary: node node' ds)
  case Nil
  have "val_ok v \<Longrightarrow> v \<noteq> None" by (rule val_ok_Some)
  then show ?case using Nil by (auto simp: note_fits_def strict_prefix_def split: if_splits)
next
  case (Cons k ks)
  have ks: "path_ok ks" "seg_key k" using Cons.prems(3) by simp_all
  have m0: "vt_map [] node \<noteq> None" using val_ok_Some [OF vt_okD(1) [OF Cons.prems(1)]] by simp
  show ?case
  proof (cases "key_isempty k")
    case True
    then show ?thesis using Cons.IH [OF Cons.prems(1,2) ks(1) Cons.prems(4)] Cons.prems(5) by simp
  next
    case False
    then obtain s where s: "k = [s]" "seg_ok s" using ks(2) by (auto simp: seg_key_def key_isempty_def)
    from vt_findslot_spec [OF Cons.prems(1) s(2)] show ?thesis
    proof (elim disjE exE conjE)
      fix i t
      assume t: "vt_children node = Some t" and f: "vt_findslot [s] node = Some (Some i)" and
        m: "vt_slot i node \<in> set (sh_elems t)" and l: "map lower (vt_key (vt_slot i node)) = [lower s]"
      let ?c = "vt_slot i node"
      have c: "?c \<in> set (vt_childlist node)" using m t by (simp add: vt_childlist_Some)
      obtain c' es where c': "vt_set ks v ?c = Some (c', es)" "ds = map (\<lambda>(p, w). (vt_key ?c # p, w)) es"
        using Cons.prems(5) False f s(1) by auto
      have "notes_fit (\<lambda>q. vt_map q ?c) es"
        using Cons.IH [OF _ Cons.prems(2) ks(1) Cons.prems(4) c'(1)] vt_ok_child [OF Cons.prems(1) c] by blast
      then show ?thesis
        unfolding c'(2) notes_fit_shift [OF l seg_ok_lower [OF s(2)], where M = "\<lambda>q. vt_map q node", OF m0]
        by (simp only: vt_map_child [where pr = "\<lambda>v. v", OF Cons.prems(1) c l])
    next
      assume f: "vt_findslot [s] node = Some None" and
        new: "\<forall>c \<in> set (vt_childlist node). map lower (vt_key c) \<noteq> [lower s]"
      let ?w = "if ks = [] then v else Some []"
      let ?new = "VNode k ?w None"
      have w: "val_ok ?w" using Cons.prems(4) by (simp add: val_ok_def)
      obtain c' es where c': "vt_set ks v ?new = Some (c', es)" "ds = ([k], ?w) # map (\<lambda>(p, w). (k # p, w)) es"
        using Cons.prems(5) False f s(1) by (auto simp: Let_def split: option.splits prod.splits)
      have l: "map lower k = [lower s]" using s by simp
      have none: "vt_map (lower s # q) node = None" for q using new by (simp add: find_None_iff [THEN iffD2])
      let ?M = "note_apply (\<lambda>q. vt_map q node) ([k], ?w)"
      have p: "path_lower [k] = [lower s]" using path_lower_Cons [OF l seg_ok_lower [OF s(2)], of "[]"] by simp
      have M: "(\<lambda>q. ?M (lower s # q)) = (\<lambda>q. vt_map q ?new)" "?M [] = vt_map [] node"
        using none by (auto simp: note_apply_def p vt_map_leaf fun_eq_iff simp del: ut_map.simps(2))
      have "notes_fit (\<lambda>q. vt_map q ?new) es"
        by (rule Cons.IH [OF vt_ok_leaf [OF w] Cons.prems(2) ks(1) Cons.prems(4) c'(1)])
      then have "notes_fit ?M (map (\<lambda>(p, w). (k # p, w)) es)"
        using notes_fit_shift [OF l seg_ok_lower [OF s(2)], where M = ?M] m0 by (simp only: M) simp
      moreover have "note_fits (\<lambda>q. vt_map q node) (path_lower [k]) ?w"
      proof -
        have "q = []" if "strict_prefix q [lower s]" for q
          using that by (cases q) (auto simp: strict_prefix_def)
        then have "\<forall>q. strict_prefix q [lower s] \<longrightarrow> vt_map q node \<noteq> None" using m0 by metis
        then show ?thesis using val_ok_Some [OF w] unfolding note_fits_def p by (simp only: if_False)
      qed
      ultimately show ?thesis by (simp add: c'(2))
    qed
  qed
qed


lemma vt_postorder_fits:
  assumes "vt_ok n node"
  shows "notes_fit (\<lambda>q. vt_map q node) (map (\<lambda>p. (p, None)) (vt_postorder node))"
  using assms
proof (induction node rule: vt_postorder.induct)
  case (1 node)
  let ?part = "\<lambda>cs. concat (map (\<lambda>c. map (\<lambda>p. vt_key c # p) (vt_postorder c)) cs)"
  let ?ds = "\<lambda>ps. map (\<lambda>p. (p, None :: wvstring)) ps"
  have ok: "vt_ok n c" "\<exists>s. vt_key c = [s] \<and> seg_ok s" if "c \<in> set (vt_childlist node)" for c
    using vt_okD(3) [OF 1(2) that] by simp_all
  have dist: "distinct (map (\<lambda>c. map lower (vt_key c)) (vt_childlist node))"
    using vt_okD(2) [OF 1(2)] by (cases "vt_children node") (auto simp: vt_childlist_def dict_inv_def)
  have parts: "notes_fit M (?ds (?part cs))"
    if "set cs \<subseteq> set (vt_childlist node)" "distinct (map (\<lambda>c. map lower (vt_key c)) cs)" "M [] \<noteq> None"
      "\<forall>c \<in> set cs. \<forall>x. map lower (vt_key c) = [x] \<longrightarrow> (\<lambda>q. M (x # q)) = (\<lambda>q. vt_map q c)" for cs M
    using that
  proof (induction cs arbitrary: M)
    case (Cons c cs)
    obtain s where s: "vt_key c = [s]" "seg_ok s" using ok(2) Cons.prems(1) by auto
    have l: "map lower (vt_key c) = [lower s]" using s by simp
    have e: "?ds (map (\<lambda>p. vt_key c # p) ps) = map (\<lambda>(p, w). (vt_key c # p, w)) (?ds ps)" for ps by simp
    have Mc: "(\<lambda>q. M (lower s # q)) = (\<lambda>q. vt_map q c)" using Cons.prems(4) l by simp
    have first: "notes_fit M (?ds (map (\<lambda>p. vt_key c # p) (vt_postorder c)))"
      unfolding e notes_fit_shift [OF l seg_ok_lower [OF s(2)], where M = M, OF Cons.prems(3)] Mc
      using Cons.prems(1) by (intro 1(1) ok) simp_all
    let ?M = "foldl note_apply M (?ds (map (\<lambda>p. vt_key c # p) (vt_postorder c)))"
    have M: "?M [] = M []" "\<And>x q. x \<noteq> lower s \<Longrightarrow> ?M (x # q) = M (x # q)"
      unfolding e note_apply_shift [OF l seg_ok_lower [OF s(2)]] by simp_all
    have "\<forall>d \<in> set cs. \<forall>x. map lower (vt_key d) = [x] \<longrightarrow> (\<lambda>q. ?M (x # q)) = (\<lambda>q. vt_map q d)"
    proof (intro ballI allI impI)
      fix d x assume d: "d \<in> set cs" "map lower (vt_key d) = [x]"
      then have "x \<noteq> lower s" using Cons.prems(2) l by (auto simp: image_iff)
      then have "(\<lambda>q. ?M (x # q)) = (\<lambda>q. M (x # q))" using M(2) by presburger
      then show "(\<lambda>q. ?M (x # q)) = (\<lambda>q. vt_map q d)" using Cons.prems(4) d by simp
    qed
    moreover have "?M [] \<noteq> None" using M(1) Cons.prems(3) by simp
    ultimately have "notes_fit ?M (?ds (?part cs))" using Cons.prems by (intro Cons.IH) simp_all
    then show ?case using first unfolding list.map concat.simps map_append notes_fit_append by blast
  qed simp
  have m0: "vt_map [] node \<noteq> None" using val_ok_Some [OF vt_okD(1) [OF 1(2)]] by simp
  have "notes_fit (\<lambda>q. vt_map q node) (?ds (?part (vt_childlist node)))"
    using vt_map_child [where pr = "\<lambda>v. v", OF 1(2)] m0 dist by (intro parts) (simp_all del: ut_map.simps)
  moreover have "note_fits (foldl note_apply (\<lambda>q. vt_map q node) (?ds (?part (vt_childlist node)))) [] None"
  proof -
    have "q \<in> path_lower ` set (?part (vt_childlist node))" if "vt_map q node \<noteq> None" "q \<noteq> []" for q
    proof -
      have "q \<in> path_lower ` set (vt_postorder node)" using vt_postorder_paths [OF 1(2)] that(1) by blast
      then show ?thesis using that(2) by (subst (asm) vt_postorder.simps) auto
    qed
    then have "q \<notin> path_lower ` set (?part (vt_childlist node)) \<Longrightarrow> q \<noteq> [] \<Longrightarrow> vt_map q node = None" for q by blast
    then show ?thesis unfolding note_apply_deletes note_fits_def by (simp add: strict_prefix_def)
  qed
  ultimately show ?case by (subst vt_postorder.simps) (simp add: notes_fit_append)
qed

lemma vt_remove_fits:
  assumes "vt_ok n node" "path_ok ks" "vt_remove ks node = Some (r, ps)"
  shows "notes_fit (\<lambda>q. vt_map q node) (map (\<lambda>p. (p, None)) ps)"
  using assms
proof (induction ks arbitrary: node r ps)
  case Nil
  then show ?case using vt_postorder_fits by auto
next
  case (Cons k ks)
  have ks: "path_ok ks" "seg_key k" using Cons.prems(2) by simp_all
  have m0: "vt_map [] node \<noteq> None" using val_ok_Some [OF vt_okD(1) [OF Cons.prems(1)]] by simp
  show ?case
  proof (cases "key_isempty k")
    case True
    then show ?thesis using Cons.IH [OF Cons.prems(1) ks(1)] Cons.prems(3) by simp
  next
    case False
    then obtain s where s: "k = [s]" "seg_ok s" using ks(2) by (auto simp: seg_key_def key_isempty_def)
    show ?thesis
    proof (cases "vt_findslot k node = Some None \<or> vt_findslot k node = None")
      case True
      then show ?thesis using Cons.prems(3) False by auto
    next
      case found: False
      then obtain i where i: "vt_findslot k node = Some (Some i)" by auto
      let ?c = "vt_slot i node"
      have c: "map lower (vt_key ?c) = [lower s]" "?c \<in> set (vt_childlist node)"
        using vt_findslot_spec [OF Cons.prems(1) s(2)] i s(1) by (auto simp: vt_childlist_Some)
      obtain r' qs where r: "vt_remove ks ?c = Some (r', qs)" "ps = map (\<lambda>p. vt_key ?c # p) qs"
        using Cons.prems(3) False i by (auto split: option.splits)
      have e: "map (\<lambda>p. (p, None :: wvstring)) ps = map (\<lambda>(p, w). (vt_key ?c # p, w)) (map (\<lambda>p. (p, None)) qs)"
        by (simp add: r(2))
      have "notes_fit (\<lambda>q. vt_map q ?c) (map (\<lambda>p. (p, None)) qs)"
        using Cons.IH [OF _ ks(1) r(1)] vt_ok_child [OF Cons.prems(1) c(2)] by blast
      then show ?thesis
        unfolding e notes_fit_shift [OF c(1) seg_ok_lower [OF s(2)], where M = "\<lambda>q. vt_map q node", OF m0]
        by (simp only: vt_map_child [where pr = "\<lambda>v. v", OF Cons.prems(1) c(2,1)])
    qed
  qed
qed

end
