(* ===== verification/UniConfGen.thy ===== *)
theory UniConfGen
  imports UniConfTree "HOL-Library.Monad_Syntax"
begin

text \<open>
  The base class of the generators (\<open>uniconf/uniconfgen.cc\<close>, \<open>include/wvcallbacklist.h\<close>) and the
  iterator over a list (\<open>uniconf/unilistiter.cc\<close>).  A derived class is an extension of the record.
  A callback is known by its cookie; the calls of the callbacks are appended to \<open>gen_sent\<close>.  A
  failed assertion is \<open>None\<close>.
\<close>

type_synonym notice = "key \<times> wvstring"

record gen =
  gen_cblist :: "nat list"
  gen_hold :: int
  gen_deltas :: "notice list"
  gen_sent :: "(nat \<times> notice) list"

definition gen_new :: gen where
  "gen_new = \<lparr>gen_cblist = [], gen_hold = 0, gen_deltas = [], gen_sent = []\<rparr>"

subsection \<open>Callbacks\<close>

definition cb_add :: "nat \<Rightarrow> nat list \<Rightarrow> nat list option" where
  "cb_add cookie cbs = (if cookie \<in> set cbs then None else Some (insort cookie cbs))"

definition cb_del :: "nat \<Rightarrow> nat list \<Rightarrow> nat list option" where
  "cb_del cookie cbs = (if cookie \<in> set cbs then Some (remove1 cookie cbs) else None)"

definition add_callback :: "nat \<Rightarrow> 'a gen_scheme \<Rightarrow> 'a gen_scheme option" where
  "add_callback cookie g = map_option (\<lambda>cbs. g\<lparr>gen_cblist := cbs\<rparr>) (cb_add cookie (gen_cblist g))"

definition del_callback :: "nat \<Rightarrow> 'a gen_scheme \<Rightarrow> 'a gen_scheme option" where
  "del_callback cookie g = map_option (\<lambda>cbs. g\<lparr>gen_cblist := cbs\<rparr>) (cb_del cookie (gen_cblist g))"

subsection \<open>Notifications\<close>

definition dispatch_delta :: "key \<Rightarrow> wvstring \<Rightarrow> 'a gen_scheme \<Rightarrow> 'a gen_scheme" where
  "dispatch_delta key value g = g\<lparr>gen_sent := gen_sent g @ map (\<lambda>cookie. (cookie, key, value)) (gen_cblist g)\<rparr>"

text \<open>\<open>flush_delta\<close> unlinks the first notification of the list and dispatches it, until the list is empty.\<close>

primrec flush_loop :: "notice list \<Rightarrow> 'a gen_scheme \<Rightarrow> 'a gen_scheme" where
  "flush_loop [] g = g"
| "flush_loop (d # ds) g = flush_loop ds (dispatch_delta (fst d) (snd d) (g\<lparr>gen_deltas := ds\<rparr>))"

definition flush_delta :: "'a gen_scheme \<Rightarrow> 'a gen_scheme" where
  "flush_delta g = flush_loop (gen_deltas g) g"

definition clear_delta :: "'a gen_scheme \<Rightarrow> 'a gen_scheme" where
  "clear_delta g = g\<lparr>gen_deltas := []\<rparr>"

definition hold_delta :: "'a gen_scheme \<Rightarrow> 'a gen_scheme" where
  "hold_delta g = g\<lparr>gen_hold := gen_hold g + 1\<rparr>"

definition unhold_delta :: "'a gen_scheme \<Rightarrow> 'a gen_scheme option" where
  "unhold_delta g =
     (if gen_hold g > 0
      then (let g' = (if gen_hold g = 1 then flush_delta g else g) in Some (g'\<lparr>gen_hold := gen_hold g' - 1\<rparr>))
      else None)"

definition delta :: "key \<Rightarrow> wvstring \<Rightarrow> 'a gen_scheme \<Rightarrow> 'a gen_scheme option" where
  "delta key value g =
     (if gen_hold g = 0 then Some (dispatch_delta key value g)
      else (let g' = hold_delta g in unhold_delta (g'\<lparr>gen_deltas := gen_deltas g' @ [(key, value)]\<rparr>)))"

text \<open>Several notifications after each other.\<close>

primrec delta_list :: "notice list \<Rightarrow> 'a gen_scheme \<Rightarrow> 'a gen_scheme option" where
  "delta_list [] g = Some g"
| "delta_list (d # ds) g = do { g' \<leftarrow> delta (fst d) (snd d) g; delta_list ds g' }"

subsection \<open>Default methods\<close>

primrec setv_naive :: "(key \<Rightarrow> wvstring \<Rightarrow> 's \<Rightarrow> 's option) \<Rightarrow> notice list \<Rightarrow> 's \<Rightarrow> 's option" where
  "setv_naive set_one [] s = Some s"
| "setv_naive set_one (p # pairs) s = do { s' \<leftarrow> set_one (fst p) (snd p) s; setv_naive set_one pairs s' }"

definition gen_exists :: "(key \<Rightarrow> 's \<Rightarrow> wvstring option) \<Rightarrow> key \<Rightarrow> 's \<Rightarrow> bool option" where
  "gen_exists get_one key s = map_option (\<lambda>v. v \<noteq> None) (get_one key s)"

subsection \<open>The iterator over a list of keys and values\<close>

text \<open>The two cursors count the steps since the rewind; a cursor is off its list when it has passed the
  end.\<close>

record listiter =
  li_keys :: "key list"
  li_values :: "string list"
  li_ki :: nat
  li_vi :: nat

definition li_new :: listiter where
  "li_new = \<lparr>li_keys = [], li_values = [], li_ki = 0, li_vi = 0\<rparr>"

definition li_add :: "key \<Rightarrow> wvstring \<Rightarrow> listiter \<Rightarrow> listiter" where
  "li_add k v it =
     (let it1 = it\<lparr>li_keys := li_keys it @ [k]\<rparr>
      in case v of None \<Rightarrow> it1 | Some s \<Rightarrow> it1\<lparr>li_values := li_values it1 @ [s]\<rparr>)"

definition li_autofill :: "notice list \<Rightarrow> listiter \<Rightarrow> listiter" where
  "li_autofill source it = foldl (\<lambda>it (k, v). li_add k v it) it source"

definition li_rewind :: "listiter \<Rightarrow> listiter" where
  "li_rewind it = it\<lparr>li_ki := 0, li_vi := 0\<rparr>"

definition li_next :: "listiter \<Rightarrow> bool \<times> listiter" where
  "li_next it =
     (let it1 = (if li_vi it \<le> length (li_values it) then it\<lparr>li_vi := li_vi it + 1\<rparr> else it);
          it2 = it1\<lparr>li_ki := li_ki it1 + 1\<rparr>
      in (li_ki it2 \<le> length (li_keys it2), it2))"

definition li_key :: "listiter \<Rightarrow> key" where
  "li_key it = li_keys it ! (li_ki it - 1)"

definition li_value :: "(key \<Rightarrow> 's \<Rightarrow> wvstring option) \<Rightarrow> 's \<Rightarrow> listiter \<Rightarrow> wvstring option" where
  "li_value get_one s it =
     (if li_vi it \<le> length (li_values it) then Some (Some (li_values it ! (li_vi it - 1)))
      else get_one (li_key it) s)"

text \<open>What a loop over the iterator yields; a step beyond the number of keys is never needed.\<close>

primrec li_collect :: "nat \<Rightarrow> (key \<Rightarrow> 's \<Rightarrow> wvstring option) \<Rightarrow> 's \<Rightarrow> listiter \<Rightarrow> notice list option" where
  "li_collect 0 get_one s it = Some []"
| "li_collect (Suc n) get_one s it =
     (let (more, it') = li_next it
      in if more
         then do {
           v \<leftarrow> li_value get_one s it';
           rest \<leftarrow> li_collect n get_one s it';
           Some ((li_key it', v) # rest) }
         else Some [])"

definition li_all :: "(key \<Rightarrow> 's \<Rightarrow> wvstring option) \<Rightarrow> 's \<Rightarrow> listiter \<Rightarrow> notice list option" where
  "li_all get_one s it = li_collect (Suc (length (li_keys it))) get_one s (li_rewind it)"

subsection \<open>What holding and releasing does\<close>

lemma dispatch_delta_simps [simp]:
  "gen_hold (dispatch_delta k v g) = gen_hold g" "gen_cblist (dispatch_delta k v g) = gen_cblist g"
  "gen_deltas (dispatch_delta k v g) = gen_deltas g" "gen.more (dispatch_delta k v g) = gen.more g"
  by (simp_all add: dispatch_delta_def)

definition sent_list :: "nat list \<Rightarrow> notice list \<Rightarrow> (nat \<times> notice) list" where
  "sent_list cbs ds = concat (map (\<lambda>d. map (\<lambda>cookie. (cookie, d)) cbs) ds)"

lemma sent_list_append: "sent_list cbs (ds @ es) = sent_list cbs ds @ sent_list cbs es"
  by (simp add: sent_list_def)

lemma sent_list_Cons: "sent_list cbs (d # ds) = map (\<lambda>cookie. (cookie, d)) cbs @ sent_list cbs ds"
  by (simp add: sent_list_def)

lemma sent_list_Nil [simp]: "sent_list cbs [] = []"
  by (simp add: sent_list_def)

lemma flush_loop_eq:
  "flush_loop ds g = g\<lparr>gen_deltas := (if ds = [] then gen_deltas g else []),
     gen_sent := gen_sent g @ sent_list (gen_cblist g) ds\<rparr>"
  by (induction ds arbitrary: g) (simp_all add: dispatch_delta_def sent_list_Cons)

lemma flush_delta_eq:
  "flush_delta g = g\<lparr>gen_deltas := [], gen_sent := gen_sent g @ sent_list (gen_cblist g) (gen_deltas g)\<rparr>"
  by (simp add: flush_delta_def flush_loop_eq)

text \<open>While notifications are held, they are queued in their order.\<close>

lemma delta_held: "0 < gen_hold g \<Longrightarrow> delta k v g = Some (g\<lparr>gen_deltas := gen_deltas g @ [(k, v)]\<rparr>)"
  by (simp add: delta_def unhold_delta_def hold_delta_def Let_def)

lemma delta_list_held: "0 < gen_hold g \<Longrightarrow> delta_list ds g = Some (g\<lparr>gen_deltas := gen_deltas g @ ds\<rparr>)"
  by (induction ds arbitrary: g) (simp_all add: delta_held)

text \<open>A balanced section sends what it queued when it ends, unless it is nested in another.\<close>

definition gen_emit :: "notice list \<Rightarrow> 'a gen_scheme \<Rightarrow> 'a gen_scheme" where
  "gen_emit ds g =
     (if gen_hold g = 0 then g\<lparr>gen_sent := gen_sent g @ sent_list (gen_cblist g) (gen_deltas g @ ds), gen_deltas := []\<rparr>
      else g\<lparr>gen_deltas := gen_deltas g @ ds\<rparr>)"

lemma unhold_section:
  assumes "0 \<le> gen_hold g"
  shows "unhold_delta (g\<lparr>gen_hold := gen_hold g + 1, gen_deltas := gen_deltas g @ ds\<rparr>) = Some (gen_emit ds g)"
  using assms by (auto simp: unhold_delta_def flush_delta_eq gen_emit_def Let_def)

subsection \<open>Iterating over a list\<close>

lemma li_autofill_eq:
  "li_autofill source it = it\<lparr>li_keys := li_keys it @ map fst source,
     li_values := li_values it @ map the (filter (\<lambda>v. v \<noteq> None) (map snd source))\<rparr>"
proof (induction source arbitrary: it)
  case (Cons p source)
  obtain k v where p: "p = (k, v)" by (cases p)
  show ?case using Cons.IH by (cases v) (simp_all add: li_autofill_def li_add_def p)
qed (simp add: li_autofill_def)

lemma li_collect_drop:
  assumes "length keys \<le> n + i" "i \<le> length keys" "length values = length keys"
  shows "li_collect (Suc n) get_one s \<lparr>li_keys = keys, li_values = values, li_ki = i, li_vi = i\<rparr> =
    Some (drop i (zip keys (map Some values)))"
  using assms
proof (induction n arbitrary: i)
  case 0
  then show ?case by (simp add: li_next_def Let_def)
next
  case (Suc n)
  show ?case
  proof (cases "i = length keys")
    case True
    then show ?thesis using Suc.prems by (simp add: li_next_def Let_def)
  next
    case False
    then have i: "i < length keys" using Suc.prems by simp
    then have "drop i (zip keys (map Some values)) = (keys ! i, Some (values ! i)) # drop (Suc i) (zip keys (map Some values))"
      using Suc.prems by (simp add: Cons_nth_drop_Suc [symmetric])
    moreover have "li_collect (Suc n) get_one s \<lparr>li_keys = keys, li_values = values, li_ki = Suc i, li_vi = Suc i\<rparr> =
        Some (drop (Suc i) (zip keys (map Some values)))"
      using Suc.IH [of "Suc i"] i Suc.prems by simp
    ultimately show ?thesis using i Suc.prems
      by (subst li_collect.simps) (simp add: li_next_def li_value_def li_key_def Let_def del: li_collect.simps)
  qed
qed

text \<open>If no value is null, the loop yields the pairs that were added.\<close>

lemma li_all_autofill:
  assumes "\<forall>(k, v) \<in> set source. v \<noteq> None"
  shows "li_all get_one s (li_autofill source li_new) = Some source"
proof -
  have n: "filter (\<lambda>v. v \<noteq> None) (map snd source) = map snd source"
    using assms by (auto simp: filter_id_conv)
  have "map Some (map the (map snd source)) = map snd source"
    unfolding map_map by (intro map_cong) (use assms in auto)
  then have "zip (map fst source) (map Some (map the (map snd source))) = source" by (simp only: zip_map_fst_snd)
  moreover have "li_autofill source li_new = \<lparr>li_keys = map fst source, li_values = map the (map snd source), li_ki = 0, li_vi = 0\<rparr>"
    unfolding li_autofill_eq n by (simp add: li_new_def)
  ultimately show ?thesis
    using li_collect_drop [of "map fst source" "length source" 0 "map the (map snd source)" get_one s]
    by (simp add: li_all_def li_rewind_def)
qed


subsection \<open>The interface of a generator\<close>

text \<open>The virtual methods of \<open>IUniConfGen\<close> that the generators call on each other.  An iterator is what a
  loop over it yields, or \<open>None\<close> for the null pointer.  The last fields are the callback list, the
  calls that it made and the consumption of these by their receiver.\<close>

record 's igen =
  ig_get :: "key \<Rightarrow> 's \<Rightarrow> wvstring option"
  ig_set :: "key \<Rightarrow> wvstring \<Rightarrow> 's \<Rightarrow> 's option"
  ig_setv :: "notice list \<Rightarrow> 's \<Rightarrow> 's option"
  ig_exists :: "key \<Rightarrow> 's \<Rightarrow> bool option"
  ig_haschildren :: "key \<Rightarrow> 's \<Rightarrow> bool option"
  ig_iterator :: "key \<Rightarrow> 's \<Rightarrow> notice list option option"
  ig_commit :: "'s \<Rightarrow> 's option"
  ig_refresh :: "'s \<Rightarrow> (bool \<times> 's) option"
  ig_isok :: "'s \<Rightarrow> bool"
  ig_add_callback :: "nat \<Rightarrow> 's \<Rightarrow> 's option"
  ig_del_callback :: "nat \<Rightarrow> 's \<Rightarrow> 's option"
  ig_callbacks :: "'s \<Rightarrow> nat list"
  ig_sent :: "'s \<Rightarrow> (nat \<times> notice) list"
  ig_forget :: "nat \<Rightarrow> 's \<Rightarrow> 's"

definition sent_to :: "nat \<Rightarrow> (nat \<times> notice) list \<Rightarrow> notice list" where
  "sent_to cookie sent = map snd (filter (\<lambda>s. fst s = cookie) sent)"

definition gen_forget :: "nat \<Rightarrow> 'a gen_scheme \<Rightarrow> 'a gen_scheme" where
  "gen_forget cookie g = g\<lparr>gen_sent := filter (\<lambda>s. fst s \<noteq> cookie) (gen_sent g)\<rparr>"

text \<open>What the methods promise in terms of the contents as a map from paths to values, and the
  notifications in terms of a listener that keeps such a map.\<close>

definition get_spec :: "key \<Rightarrow> (string list \<Rightarrow> wvstring) \<Rightarrow> wvstring" where
  "get_spec k M = (if key_hastrailingslash k then None else M (key_path k))"

definition update_spec :: "key \<Rightarrow> wvstring \<Rightarrow> (string list \<Rightarrow> wvstring) \<Rightarrow> string list \<Rightarrow> wvstring" where
  "update_spec k v M =
     (case v of
        None \<Rightarrow> remove_spec (key_path k) M
      | Some _ \<Rightarrow> if key_hastrailingslash k then M else set_spec (key_path k) v M)"

definition key_note :: "(string list \<Rightarrow> wvstring) \<Rightarrow> notice \<Rightarrow> (string list \<Rightarrow> wvstring)" where
  "key_note M d = M(map lower (fst d) := snd d)"

definition notice_ok :: "int \<Rightarrow> notice \<Rightarrow> bool" where
  "notice_ok m d \<longleftrightarrow> key_cstr (fst d) \<and> [] \<notin> set (fst d) \<and> int (length (fst d)) \<le> m \<and>
     (snd d = None \<or> val_ok (snd d))"

lemma sent_to_list: "distinct cbs \<Longrightarrow> sent_to cookie (sent_list cbs ds) = (if cookie \<in> set cbs then ds else [])"
proof (induction ds)
  case (Cons d ds)
  have "filter (\<lambda>s. fst s = cookie) (map (\<lambda>cookie. (cookie, d)) cbs) = (if cookie \<in> set cbs then [(cookie, d)] else [])"
    using Cons.prems by (induction cbs) (auto simp: filter_empty_conv)
  then show ?case using Cons by (simp add: sent_list_Cons sent_to_def)
qed (simp add: sent_to_def)

lemma sent_to_append: "sent_to c (s @ t) = sent_to c s @ sent_to c t"
  by (simp add: sent_to_def)

text \<open>The notifications come in an order in which they can be replayed with \<open>set\<close>.\<close>

primrec replay_ok :: "(string list \<Rightarrow> wvstring) \<Rightarrow> notice list \<Rightarrow> bool" where
  "replay_ok M [] = True"
| "replay_ok M (d # ds) = (update_spec (fst d) (snd d) M = key_note M d \<and> replay_ok (key_note M d) ds)"

lemma replay_ok_foldl:
  "replay_ok M ds \<Longrightarrow> foldl (\<lambda>M d. update_spec (fst d) (snd d) M) M ds = foldl key_note M ds"
  by (induction ds arbitrary: M) simp_all

definition haschildren_spec :: "key \<Rightarrow> (string list \<Rightarrow> wvstring) \<Rightarrow> bool" where
  "haschildren_spec k M \<longleftrightarrow> (\<exists>s. M (key_path k @ [s]) \<noteq> None)"

text \<open>The loop over an iterator meets each child once, with its value.\<close>

definition iter_spec :: "key \<Rightarrow> (string list \<Rightarrow> wvstring) \<Rightarrow> notice list option \<Rightarrow> bool" where
  "iter_spec k M r \<longleftrightarrow>
     (case r of
        None \<Rightarrow> \<not> haschildren_spec k M
      | Some l \<Rightarrow> distinct (map (\<lambda>d. map lower (fst d)) l) \<and>
          (\<forall>(j, v) \<in> set l. \<exists>s. j = [s] \<and> seg_ok s \<and> val_ok v) \<and>
          (\<forall>s. M (key_path k @ [s]) = map_of (map (\<lambda>(j, v). (map lower j, the v)) l) [s]))"

definition key_ok :: "int \<Rightarrow> key \<Rightarrow> bool" where
  "key_ok m k \<longleftrightarrow> key_cstr k \<and> [] \<notin> set (butlast k) \<and> k \<noteq> [[]] \<and> int (length k) \<le> m"

text \<open>The bound of the invariant is the one of the hash tables: they have at most so many entries.  The
  segments of a key are counted by an \<open>int\<close>, so keys have a greatest length.\<close>

locale uni_gen =
  fixes ops :: "'s igen" and klen :: int and valid :: "nat \<Rightarrow> 's \<Rightarrow> bool" and contents :: "'s \<Rightarrow> string list \<Rightarrow> wvstring"
  assumes get_law: "valid n s \<Longrightarrow> key_ok klen k \<Longrightarrow> ig_get ops k s = Some (get_spec k (contents s))"
    and set_law: "valid n s \<Longrightarrow> n < 26000 \<Longrightarrow> key_ok klen k \<Longrightarrow> v = None \<or> val_ok v \<Longrightarrow>
      \<exists>s' ds. ig_set ops k v s = Some s' \<and> valid (Suc n) s' \<and> contents s' = update_spec k v (contents s) \<and>
        ig_callbacks ops s' = ig_callbacks ops s \<and>
        ig_sent ops s' = ig_sent ops s @ sent_list (ig_callbacks ops s) ds \<and>
        foldl key_note (contents s) ds = contents s' \<and> replay_ok (contents s) ds \<and>
        (\<forall>d \<in> set ds. notice_ok klen d)"
    and exists_law: "valid n s \<Longrightarrow> key_ok klen k \<Longrightarrow> ig_exists ops k s = Some (get_spec k (contents s) \<noteq> None)"
    and haschildren_law: "valid n s \<Longrightarrow> key_ok klen k \<Longrightarrow>
      ig_haschildren ops k s = Some (haschildren_spec k (contents s))"
    and iterator_law: "valid n s \<Longrightarrow> key_ok klen k \<Longrightarrow>
      \<exists>r. ig_iterator ops k s = Some r \<and> iter_spec k (contents s) r"
    and add_callback_law: "valid n s \<Longrightarrow> c \<notin> set (ig_callbacks ops s) \<Longrightarrow>
      \<exists>s'. ig_add_callback ops c s = Some s' \<and> valid n s' \<and> contents s' = contents s \<and>
        ig_callbacks ops s' = insort c (ig_callbacks ops s) \<and> ig_sent ops s' = ig_sent ops s"
    and callbacks_law: "valid n s \<Longrightarrow> distinct (ig_callbacks ops s)"
    and forget_law: "valid n s \<Longrightarrow> valid n (ig_forget ops c s) \<and> contents (ig_forget ops c s) = contents s \<and>
      ig_callbacks ops (ig_forget ops c s) = ig_callbacks ops s \<and>
      ig_sent ops (ig_forget ops c s) = filter (\<lambda>d. fst d \<noteq> c) (ig_sent ops s)"
begin

text \<open>What was set is what is read, unless a trailing slash says otherwise.\<close>

lemma get_after_set:
  assumes "valid n s" "n < 26000" "key_ok klen k" "key_ok klen j" "val_ok v" "\<not> key_hastrailingslash k"
  shows "\<exists>s'. ig_set ops k v s = Some s' \<and> valid (Suc n) s' \<and> ig_get ops k s' = Some v \<and>
    (\<not> prefix (key_path j) (key_path k) \<longrightarrow> ig_get ops j s' = ig_get ops j s)"
proof -
  obtain s' where s': "ig_set ops k v s = Some s'" "valid (Suc n) s'" "contents s' = update_spec k v (contents s)"
    using set_law [OF assms(1-3)] assms(5) by blast
  have v: "v \<noteq> None" using val_ok_Some [OF assms(5)] .
  then have u: "update_spec k v (contents s) = set_spec (key_path k) v (contents s)"
    using assms(6) by (auto simp: update_spec_def)
  have "ig_get ops k s' = Some v"
    using get_law [OF s'(2) assms(3)] assms(6) s'(3) u by (simp add: get_spec_def set_spec_def)
  moreover have "ig_get ops j s' = ig_get ops j s" if "\<not> prefix (key_path j) (key_path k)"
    using get_law [OF s'(2) assms(4)] get_law [OF assms(1,4)] that s'(3) u
    by (auto simp: get_spec_def set_spec_def)
  ultimately show ?thesis using s'(1,2) by blast
qed

text \<open>Setting to null removes the key and everything below, and nothing else.\<close>

lemma get_after_remove:
  assumes "valid n s" "n < 26000" "key_ok klen k" "key_ok klen j"
  shows "\<exists>s'. ig_set ops k None s = Some s' \<and> valid (Suc n) s' \<and>
    ig_get ops j s' = (if prefix (key_path k) (key_path j) then Some None else ig_get ops j s)"
proof -
  obtain s' where s': "ig_set ops k None s = Some s'" "valid (Suc n) s'" "contents s' = update_spec k None (contents s)"
    using set_law [OF assms(1-3), of None] by blast
  then show ?thesis
    using get_law [OF s'(2) assms(4)] get_law [OF assms(1,4)]
    by (auto simp: get_spec_def update_spec_def remove_spec_def)
qed

text \<open>The notifications that a registered callback gets from one change.\<close>

lemma set_listener:
  assumes "valid n s" "n < 26000" "key_ok klen k" "v = None \<or> val_ok v" "c \<in> set (ig_callbacks ops s)"
  shows "\<exists>s' ds. ig_set ops k v s = Some s' \<and> valid (Suc n) s' \<and> contents s' = update_spec k v (contents s) \<and>
    sent_to c (ig_sent ops s') = sent_to c (ig_sent ops s) @ ds \<and>
    foldl key_note (contents s) ds = contents s' \<and> replay_ok (contents s) ds"
proof -
  obtain s' ds where s': "ig_set ops k v s = Some s'" "valid (Suc n) s'" "contents s' = update_spec k v (contents s)"
    "ig_sent ops s' = ig_sent ops s @ sent_list (ig_callbacks ops s) ds"
    "foldl key_note (contents s) ds = contents s'" "replay_ok (contents s) ds"
    using set_law [OF assms(1-4)] by blast
  moreover have "sent_to c (sent_list (ig_callbacks ops s) ds) = ds"
    using callbacks_law [OF assms(1)] assms(5) by (simp add: sent_to_list)
  ultimately show ?thesis by (auto simp: sent_to_append)
qed

text \<open>A series of changes keeps a registered listener in step.\<close>

lemma setv_listener:
  assumes "valid n s" "n + length pairs \<le> 26000" "\<forall>(k, v) \<in> set pairs. key_ok klen k \<and> (v = None \<or> val_ok v)"
    "c \<in> set (ig_callbacks ops s)"
  shows "\<exists>s' ds. setv_naive (ig_set ops) pairs s = Some s' \<and> valid (n + length pairs) s' \<and>
    contents s' = foldl (\<lambda>M (k, v). update_spec k v M) (contents s) pairs \<and>
    ig_callbacks ops s' = ig_callbacks ops s \<and>
    sent_to c (ig_sent ops s') = sent_to c (ig_sent ops s) @ ds \<and>
    foldl key_note (contents s) ds = contents s'"
  using assms
proof (induction pairs arbitrary: n s)
  case Nil
  then show ?case by (intro exI [of _ s] exI [of _ "[]"]) simp
next
  case (Cons p pairs)
  obtain k v where p: "p = (k, v)" by (cases p)
  obtain s1 ds1 where s1: "ig_set ops k v s = Some s1" "valid (Suc n) s1" "contents s1 = update_spec k v (contents s)"
    "ig_callbacks ops s1 = ig_callbacks ops s"
    "ig_sent ops s1 = ig_sent ops s @ sent_list (ig_callbacks ops s) ds1"
    "foldl key_note (contents s) ds1 = contents s1"
    using set_law [of n s k v] Cons.prems by (auto simp: p)
  obtain s' ds where s': "setv_naive (ig_set ops) pairs s1 = Some s'" "valid (Suc n + length pairs) s'"
    "contents s' = foldl (\<lambda>M (k, v). update_spec k v M) (contents s1) pairs"
    "ig_callbacks ops s' = ig_callbacks ops s1"
    "sent_to c (ig_sent ops s') = sent_to c (ig_sent ops s1) @ ds" "foldl key_note (contents s1) ds = contents s'"
    using Cons.IH [OF s1(2)] Cons.prems s1(4) by auto
  have "sent_to c (ig_sent ops s1) = sent_to c (ig_sent ops s) @ ds1"
    using s1(5) Cons.prems(4) callbacks_law [OF Cons.prems(1)] by (simp add: sent_to_append sent_to_list)
  then show ?case using s1 s' by (intro exI [of _ s'] exI [of _ "ds1 @ ds"]) (simp add: p)
qed

end

end
