(* ===== verification/UniTempGen.thy ===== *)
theory UniTempGen
  imports UniConfGen
begin

text \<open>
  The generator that keeps its keys in memory (\<open>uniconf/unitempgen.cc\<close>).  The string cache returns a
  string with the contents of the one given, so it is left out.
\<close>

record tempgen = gen +
  tg_root :: "vtree option"
  tg_dirty :: bool

definition tg_new :: tempgen where
  "tg_new = gen.extend gen_new \<lparr>tg_root = None, tg_dirty = False\<rparr>"

definition tg_get :: "key \<Rightarrow> 'a tempgen_scheme \<Rightarrow> wvstring option" where
  "tg_get key g =
     (case tg_root g of
        None \<Rightarrow> Some None
      | Some root \<Rightarrow>
          if \<not> key_isempty key \<and> key_isempty (key_last key 1) then Some None
          else map_option (\<lambda>node. case node of None \<Rightarrow> None | Some n \<Rightarrow> vt_value n) (vt_find key root))"

text \<open>The key without a trailing slash, and if there was one.\<close>

definition tg_trailing :: "key \<Rightarrow> key \<times> bool" where
  "tg_trailing key0 =
     (if \<not> key_isempty key0
      then (let (key, tail) = key_pop key0 (key_numsegments key0 - 1)
            in if key_isempty tail then (key, True) else (key0, False))
      else (key0, False))"

text \<open>The removal of a subtree: the notifications are those of the visit in post-order.\<close>

definition tg_remove :: "key \<Rightarrow> 'a tempgen_scheme \<Rightarrow> 'a tempgen_scheme option" where
  "tg_remove key g =
     (case tg_root g of
        None \<Rightarrow> Some g
      | Some root \<Rightarrow> do {
          node \<leftarrow> vt_find key root;
          (case node of
             None \<Rightarrow> Some g
           | Some _ \<Rightarrow> do {
               (root', ps) \<leftarrow> vt_remove (key_iter key) root;
               g1 \<leftarrow> delta_list (map (\<lambda>p. (vt_fullkey p, None)) ps) (hold_delta g);
               unhold_delta (g1\<lparr>tg_root := root', tg_dirty := True\<rparr>) }) })"

text \<open>The loop over the segments: a missing root is made first.\<close>

definition tg_store :: "key \<Rightarrow> wvstring \<Rightarrow> 'a tempgen_scheme \<Rightarrow> 'a tempgen_scheme option" where
  "tg_store key value g =
     (let (root, ds0) =
        (case tg_root g of
           Some root \<Rightarrow> (root, [])
         | None \<Rightarrow> (let w = (if key_iter key \<noteq> [] then Some [] else value)
                    in (VNode key_EMPTY w None, [([], w)])))
      in do {
        (root', ds) \<leftarrow> vt_set (key_iter key) value root;
        delta_list (map (\<lambda>(p, w). (vt_fullkey p, w)) (ds0 @ ds))
          (g\<lparr>tg_root := Some root', tg_dirty := (tg_dirty g \<or> ds0 @ ds \<noteq> [])\<rparr>) })"

definition tg_set :: "key \<Rightarrow> wvstring \<Rightarrow> 'a tempgen_scheme \<Rightarrow> 'a tempgen_scheme option" where
  "tg_set key0 value g =
     (let g1 = hold_delta g;
          (key, trailing_slash) = tg_trailing key0
      in do {
        g2 \<leftarrow> (if value = None then tg_remove key g1
               else if \<not> trailing_slash then tg_store key value g1
               else Some g1);
        unhold_delta g2 })"

definition tg_setv :: "notice list \<Rightarrow> 'a tempgen_scheme \<Rightarrow> 'a tempgen_scheme option" where
  "tg_setv pairs g = setv_naive tg_set pairs g"

definition tg_exists :: "key \<Rightarrow> 'a tempgen_scheme \<Rightarrow> bool option" where
  "tg_exists key g = gen_exists tg_get key g"

definition tg_haschildren :: "key \<Rightarrow> 'a tempgen_scheme \<Rightarrow> bool option" where
  "tg_haschildren key g =
     (case tg_root g of
        None \<Rightarrow> Some False
      | Some root \<Rightarrow> map_option (\<lambda>node. case node of None \<Rightarrow> False | Some n \<Rightarrow> vt_haschildren n) (vt_find key root))"

definition tg_iterator :: "key \<Rightarrow> 'a tempgen_scheme \<Rightarrow> listiter option option" where
  "tg_iterator key g =
     (case tg_root g of
        None \<Rightarrow> Some None
      | Some root \<Rightarrow>
          map_option (map_option (\<lambda>node. foldl (\<lambda>it i. li_add (vt_key i) (vt_value i) it) li_new (vt_childlist node)))
            (vt_find key root))"

definition tg_commit :: "'a tempgen_scheme \<Rightarrow> 'a tempgen_scheme option" where
  "tg_commit g = Some g"

definition tg_refresh :: "'a tempgen_scheme \<Rightarrow> (bool \<times> 'a tempgen_scheme) option" where
  "tg_refresh g = Some (True, g)"

definition tg_iterate :: "key \<Rightarrow> 'a tempgen_scheme \<Rightarrow> notice list option option" where
  "tg_iterate key g = do {
     it \<leftarrow> tg_iterator key g;
     (case it of None \<Rightarrow> Some None | Some i \<Rightarrow> map_option Some (li_all tg_get g i)) }"

definition tg_ops :: "'a tempgen_scheme igen" where
  "tg_ops = \<lparr>ig_get = tg_get, ig_set = tg_set, ig_setv = tg_setv, ig_exists = tg_exists,
     ig_haschildren = tg_haschildren, ig_iterator = tg_iterate, ig_commit = tg_commit, ig_refresh = tg_refresh,
     ig_isok = (\<lambda>_. True), ig_add_callback = add_callback, ig_del_callback = del_callback, ig_callbacks = gen_cblist, ig_sent = gen_sent, ig_forget = gen_forget\<rparr>"

subsection \<open>The contents\<close>

definition tg_contents :: "'a tempgen_scheme \<Rightarrow> string list \<Rightarrow> wvstring" where
  "tg_contents g = (case tg_root g of None \<Rightarrow> (\<lambda>_. None) | Some root \<Rightarrow> (\<lambda>q. vt_map q root))"

definition tg_valid :: "nat \<Rightarrow> 'a tempgen_scheme \<Rightarrow> bool" where
  "tg_valid n g \<longleftrightarrow>
     (\<forall>root. tg_root g = Some root \<longrightarrow> vt_ok n root) \<and>
     (\<forall>q. tg_contents g q \<noteq> None \<longrightarrow> int (length q) \<le> INT_MAX) \<and>
     gen_hold g = 0 \<and> gen_deltas g = [] \<and> distinct (gen_cblist g)"

lemma key_last_isempty: "k \<noteq> [] \<Longrightarrow> int (length k) \<le> INT_MAX \<Longrightarrow> key_isempty (key_last k 1) \<longleftrightarrow> key_hastrailingslash k"
  by (cases k rule: rev_cases)
    (simp_all add: key_last_def key_range_def Let_def key_numsegments_def key_isempty_def key_collapse_def
       key_hastrailingslash_def)

lemma key_path_collapse [simp]: "key_path (key_collapse k) = key_path k"
  by (auto simp: key_path_def key_collapse_def nonempty_segs_def)

lemma key_path_append: "key_path (a @ b) = key_path a @ key_path b"
  by (simp add: key_path_def nonempty_segs_def)

lemma tg_trailing_spec:
  assumes "tg_trailing k = (k', b)" "k \<noteq> [[]]"
  shows "b \<longleftrightarrow> key_hastrailingslash k" "key_path k' = key_path k" "key_cstr k \<Longrightarrow> key_cstr k'"
proof -
  have "(b \<longleftrightarrow> key_hastrailingslash k) \<and> key_path k' = key_path k \<and> (key_cstr k \<longrightarrow> key_cstr k')"
  proof (cases k rule: rev_cases)
    case Nil
    then show ?thesis using assms by (auto simp: tg_trailing_def key_isempty_def key_hastrailingslash_def)
  next
    case (snoc xs x)
    have p: "key_pop k (key_numsegments k - 1) = (key_collapse xs, key_collapse [x])"
      if "xs \<noteq> []" using that snoc by (simp add: key_pop_def key_numsegments_def)
    show ?thesis
    proof (cases "xs = []")
      case True
      then show ?thesis using assms snoc
        by (auto simp: tg_trailing_def key_isempty_def key_hastrailingslash_def key_pop_def key_numsegments_def
              key_path_def nonempty_segs_def split: if_splits)
    next
      case False
      then show ?thesis using assms snoc p
        by (auto simp: tg_trailing_def key_isempty_def key_hastrailingslash_def key_path_append key_collapse_def
              key_path_def nonempty_segs_def key_cstr_def split: if_splits)
    qed
  qed
  then show "b \<longleftrightarrow> key_hastrailingslash k" "key_path k' = key_path k" "key_cstr k \<Longrightarrow> key_cstr k'" by simp_all
qed

lemma tg_trailing_length: "tg_trailing k = (k', b) \<Longrightarrow> length k' \<le> length k"
  by (cases k rule: rev_cases)
    (auto simp: tg_trailing_def key_pop_def key_numsegments_def key_collapse_def key_isempty_def Let_def split: if_splits)

lemma tg_get_spec:
  assumes "tg_valid n g" "key_ok INT_MAX k"
  shows "tg_get k g = Some (get_spec k (tg_contents g))"
proof (cases "tg_root g")
  case None
  then show ?thesis by (simp add: tg_get_def get_spec_def tg_contents_def)
next
  case (Some root)
  have ok: "vt_ok n root" using assms(1) Some by (simp add: tg_valid_def)
  have k: "key_cstr k" "int (length k) \<le> INT_MAX" using assms(2) by (simp_all add: key_ok_def)
  have t: "\<not> key_isempty k \<and> key_isempty (key_last k 1) \<longleftrightarrow> key_hastrailingslash k"
    using key_last_isempty [OF _ k(2)] by (cases "k = []") (auto simp: key_isempty_def key_hastrailingslash_def)
  obtain r where r: "vt_find k root = Some r"
    "case r of None \<Rightarrow> \<forall>q. vt_map (key_path k @ q) root = None
     | Some c \<Rightarrow> vt_ok n c \<and> (\<forall>q. vt_map (key_path k @ q) root = vt_map q c)"
    using vt_find_spec [where pr = "\<lambda>v. v", OF ok k(1)] by blast
  have "(case r of None \<Rightarrow> None | Some c \<Rightarrow> vt_value c) = vt_map (key_path k) root"
    using r(2) by (cases r) (auto dest: spec [of _ "[]"])
  then show ?thesis using Some r(1) t by (simp add: tg_get_def get_spec_def tg_contents_def)
qed

lemma key_notes: "foldl key_note M (map (\<lambda>(p, w). (vt_fullkey p, w)) ds) = foldl note_apply M ds"
  by (induction ds arbitrary: M) (auto simp: key_note_def note_apply_def map_lower_fullkey)

lemma nonempty_segs_id: "[] \<notin> set k \<Longrightarrow> nonempty_segs k = k"
  by (induction k) (auto simp: nonempty_segs_def)

lemma key_path_fullkey: "key_path (vt_fullkey p) = path_lower p" "\<not> key_hastrailingslash (vt_fullkey p)"
proof -
  have n: "[] \<notin> set (vt_fullkey p)" by (simp add: vt_fullkey_eq nonempty_segs_def)
  then show "key_path (vt_fullkey p) = path_lower p"
    by (simp add: key_path_def map_lower_fullkey [symmetric] nonempty_segs_id)
  show "\<not> key_hastrailingslash (vt_fullkey p)" using n unfolding key_hastrailingslash_def by (metis last_in_set)
qed

lemma notes_fit_replay: "notes_fit M ds \<Longrightarrow> replay_ok M (map (\<lambda>(p, w). (vt_fullkey p, w)) ds)"
proof (induction ds arbitrary: M)
  case (Cons d ds)
  obtain p w where d: "d = (p, w)" by (cases d)
  have "update_spec (vt_fullkey p) w M = key_note M (vt_fullkey p, w)"
    using Cons.prems note_fits_replay(1) [of w M "path_lower p"] note_fits_replay(2) [of M "path_lower p"]
    by (auto simp: d update_spec_def key_path_fullkey key_note_def map_lower_fullkey split: option.split)
  moreover have "key_note M (vt_fullkey p, w) = note_apply M d"
    by (simp add: key_note_def note_apply_def map_lower_fullkey d)
  ultimately show ?case using Cons by (simp add: d)
qed simp

text \<open>The two parts of \<open>set\<close> while the notifications are held.\<close>

lemma tg_remove_spec:
  assumes "tg_valid n g" "key_cstr k"
  shows "\<exists>root ds b. tg_remove k (hold_delta g) =
      Some (g\<lparr>gen_hold := 1, gen_deltas := ds, tg_root := root, tg_dirty := b\<rparr>) \<and>
    (\<forall>r. root = Some r \<longrightarrow> vt_ok n r) \<and>
    tg_contents (g\<lparr>tg_root := root\<rparr>) = remove_spec (key_path k) (tg_contents g) \<and>
    foldl key_note (tg_contents g) ds = tg_contents (g\<lparr>tg_root := root\<rparr>) \<and> replay_ok (tg_contents g) ds \<and>
    (\<forall>d \<in> set ds. notice_ok INT_MAX d)"
proof -
  have h: "gen_hold g = 0" "gen_deltas g = []" using assms(1) by (simp_all add: tg_valid_def)
  have same: ?thesis if "tg_remove k (hold_delta g) = Some (hold_delta g)"
    "remove_spec (key_path k) (tg_contents g) = tg_contents g"
    using that assms(1) h
    by (intro exI [of _ "tg_root g"] exI [of _ "[]"] exI [of _ "tg_dirty g"])
      (auto simp: hold_delta_def tg_valid_def)
  show ?thesis
  proof (cases "tg_root g")
    case None
    then show ?thesis by (intro same) (simp_all add: tg_remove_def tg_contents_def remove_spec_def fun_eq_iff hold_delta_def)
  next
    case (Some root)
    have ok: "vt_ok n root" using assms(1) Some by (simp add: tg_valid_def)
    obtain r where r: "vt_find k root = Some r"
      "case r of None \<Rightarrow> \<forall>q. vt_map (key_path k @ q) root = None
       | Some c \<Rightarrow> vt_ok n c \<and> (\<forall>q. vt_map (key_path k @ q) root = vt_map q c)"
      using vt_find_spec [where pr = "\<lambda>v. v", OF ok assms(2)] by blast
    show ?thesis
    proof (cases r)
      case None
      then show ?thesis using r Some
        by (intro same) (auto simp: tg_remove_def tg_contents_def remove_spec_def fun_eq_iff hold_delta_def prefix_def)
    next
      case (Some c)
      have ks: "\<forall>x \<in> set (key_iter k). seg_key x" "path_ok (key_iter k)"
        using seg_key_iter [OF assms(2)] by (auto simp: path_ok_def)
      obtain root' ps where v: "vt_remove (key_iter k) root = Some (root', ps)"
        "root' = None \<longleftrightarrow> key_path k = []"
        "\<And>node'. root' = Some node' \<Longrightarrow> vt_ok n node' \<and>
          (\<lambda>q. vt_map q node') = remove_spec (key_path k) (\<lambda>q. vt_map q root)"
        "foldl note_apply (\<lambda>q. vt_map q root) (map (\<lambda>p. (p, None)) ps) = remove_spec (key_path k) (\<lambda>q. vt_map q root)"
        using vt_remove_spec [OF ok ks(1)] unfolding path_lower_key_iter by blast
      let ?ds = "map (\<lambda>p. (vt_fullkey p, None)) ps"
      have c: "tg_contents (g\<lparr>tg_root := root'\<rparr>) = remove_spec (key_path k) (tg_contents g)"
      proof (cases root')
        case None
        then show ?thesis using v(2) by (simp add: tg_contents_def remove_spec_def fun_eq_iff)
      next
        case (Some r')
        then show ?thesis using v(3) \<open>tg_root g = Some root\<close> by (simp add: tg_contents_def)
      qed
      have "map (\<lambda>p. (vt_fullkey p, None :: wvstring)) ps = map (\<lambda>(p, w). (vt_fullkey p, w)) (map (\<lambda>p. (p, None)) ps)" by simp
      then have "foldl key_note (tg_contents g) ?ds = remove_spec (key_path k) (tg_contents g)"
        using v(4) \<open>tg_root g = Some root\<close> by (simp only: key_notes) (simp add: tg_contents_def)
      moreover have "replay_ok (tg_contents g) ?ds"
        using notes_fit_replay [OF vt_remove_fits [OF ok ks(2) v(1)]] \<open>tg_root g = Some root\<close>
        by (simp add: tg_contents_def comp_def)
      moreover have "\<forall>d \<in> set ?ds. notice_ok INT_MAX d"
      proof -
        have "notice_ok INT_MAX (vt_fullkey p, None)" if "p \<in> set ps" for p
        proof -
          from vt_remove_notes [OF ok ks(2) v(1) that] \<open>tg_root g = Some root\<close>
          have "path_ok p" "tg_contents g (path_lower p) \<noteq> None" by (simp_all add: tg_contents_def)
          then have "int (length (path_lower p)) \<le> INT_MAX" using assms(1) by (simp add: tg_valid_def)
          then have "int (length (vt_fullkey p)) \<le> INT_MAX" by (simp add: map_lower_fullkey [symmetric])
          then show ?thesis using path_ok_fullkey [OF \<open>path_ok p\<close>] by (simp add: notice_ok_def)
        qed
        then show ?thesis by auto
      qed
      moreover have "tg_remove k (hold_delta g) =
          Some (g\<lparr>gen_hold := 1, gen_deltas := ?ds, tg_root := root', tg_dirty := True\<rparr>)"
        using \<open>tg_root g = Some root\<close> r(1) Some v(1) h
        by (simp add: tg_remove_def hold_delta_def delta_list_held unhold_delta_def)
      ultimately show ?thesis using c v(3) by (intro exI conjI) (assumption | auto)+
    qed
  qed
qed

lemma tg_store_spec:
  assumes "tg_valid n g" "n < 26000" "key_cstr k" "val_ok v" "int (length k) \<le> INT_MAX"
  shows "\<exists>root ds b. tg_store k v (hold_delta g) =
      Some (g\<lparr>gen_hold := 1, gen_deltas := ds, tg_root := Some root, tg_dirty := b\<rparr>) \<and>
    vt_ok (Suc n) root \<and>
    (\<lambda>q. vt_map q root) = set_spec (key_path k) v (tg_contents g) \<and>
    foldl key_note (tg_contents g) ds = (\<lambda>q. vt_map q root) \<and> replay_ok (tg_contents g) ds \<and>
    (\<forall>d \<in> set ds. notice_ok INT_MAX d)"
proof -
  have h: "gen_hold g = 0" "gen_deltas g = []" using assms(1) by (simp_all add: tg_valid_def)
  have ks: "\<forall>x \<in> set (key_iter k). seg_key x" "path_ok (key_iter k)"
    using seg_key_iter [OF assms(3)] by (auto simp: path_ok_def)
  define w where "w = (if key_iter k \<noteq> [] then Some [] else v)"
  define root where "root = (case tg_root g of Some r \<Rightarrow> r | None \<Rightarrow> VNode key_EMPTY w None)"
  define ds0 where "ds0 = (case tg_root g of Some r \<Rightarrow> [] | None \<Rightarrow> [([] :: key list, w)])"
  have w: "val_ok w" using assms(4) by (simp add: w_def val_ok_def)
  have ok: "vt_ok n root"
    using assms(1) w by (auto simp: root_def tg_valid_def vt_ok_leaf split: option.split)
  have c0: "foldl note_apply (tg_contents g) ds0 = (\<lambda>q. vt_map q root)"
    by (auto simp: ds0_def root_def tg_contents_def note_apply_def vt_map_leaf fun_eq_iff split: option.split)
  obtain root' ds where v: "vt_set (key_iter k) v root = Some (root', ds)" "vt_ok (Suc n) root'"
    "(\<lambda>q. vt_map q root') = set_spec (key_path k) v (\<lambda>q. vt_map q root)"
    "foldl note_apply (\<lambda>q. vt_map q root) ds = (\<lambda>q. vt_map q root')"
    using vt_set_spec [OF ok assms(2,4) ks(1)] unfolding path_lower_key_iter by blast
  have "set_spec (key_path k) v (\<lambda>q. vt_map q root) = set_spec (key_path k) v (tg_contents g)"
  proof (cases "tg_root g")
    case None
    have "key_iter k = [] \<Longrightarrow> key_path k = []" by (simp add: path_lower_key_iter [symmetric])
    then show ?thesis
      using None by (cases "key_path k = []")
        (auto simp: root_def tg_contents_def set_spec_def fun_eq_iff vt_map_leaf w_def strict_prefix_def)
  qed (simp add: root_def tg_contents_def)
  then have m: "(\<lambda>q. vt_map q root') = set_spec (key_path k) v (tg_contents g)" using v(3) by simp
  let ?ds = "map (\<lambda>(p, w). (vt_fullkey p, w)) (ds0 @ ds)"
  have "foldl key_note (tg_contents g) ?ds = (\<lambda>q. vt_map q root')"
    unfolding key_notes by (simp add: c0 v(4))
  moreover have "replay_ok (tg_contents g) ?ds"
  proof (rule notes_fit_replay)
    have "notes_fit (tg_contents g) ds0"
      using val_ok_Some [OF w] by (auto simp: ds0_def note_fits_def strict_prefix_def split: option.split)
    then show "notes_fit (tg_contents g) (ds0 @ ds)"
      unfolding notes_fit_append c0 using vt_set_fits [OF ok assms(2) ks(2) assms(4) v(1)] by blast
  qed
  moreover have "\<forall>d \<in> set ?ds. notice_ok INT_MAX d"
  proof -
    have "notice_ok INT_MAX (vt_fullkey p, u)" if "(p, u) \<in> set ds" for p u
    proof -
      have "path_ok p" "val_ok u" "length (path_lower p) \<le> length (key_iter k)"
        using vt_set_notes [OF ok ks(2) assms(4) v(1) that] by simp_all
      moreover have "length (vt_fullkey p) = length (path_lower p)" by (simp add: map_lower_fullkey [symmetric])
      ultimately show ?thesis using path_ok_fullkey assms(5) by (simp add: notice_ok_def key_iter_eq)
    qed
    moreover have "notice_ok INT_MAX (vt_fullkey [], w)"
      using w by (simp add: notice_ok_def vt_fullkey_eq INT_MAX_def)
    ultimately show ?thesis by (auto simp: ds0_def split: option.splits)
  qed
  moreover have "tg_store k v (hold_delta g) = Some (g\<lparr>gen_hold := 1, gen_deltas := ?ds, tg_root := Some root',
      tg_dirty := (tg_dirty g \<or> ds0 @ ds \<noteq> [])\<rparr>)"
    using v(1) h
    by (cases "tg_root g")
      (simp_all add: tg_store_def hold_delta_def delta_list_held w_def Let_def root_def ds0_def del: vt_set.simps map_append)
  ultimately show ?thesis using v(2) m by blast
qed


subsection \<open>\<open>set\<close> and the contract\<close>

lemma tg_set_spec:
  assumes "tg_valid n g" "n < 26000" "key_ok INT_MAX k" "v = None \<or> val_ok v"
  shows "\<exists>g' ds. tg_set k v g = Some g' \<and> tg_valid (Suc n) g' \<and>
    tg_contents g' = update_spec k v (tg_contents g) \<and> gen_cblist g' = gen_cblist g \<and>
    tempgen.more g' = tempgen.more g \<and>
    gen_sent g' = gen_sent g @ sent_list (gen_cblist g) ds \<and>
    foldl key_note (tg_contents g) ds = tg_contents g' \<and> replay_ok (tg_contents g) ds \<and>
    (\<forall>d \<in> set ds. notice_ok INT_MAX d)"
proof -
  obtain k' b where t: "tg_trailing k = (k', b)" by fastforce
  have len: "int (length k') \<le> INT_MAX" using tg_trailing_length [OF t] assms(3) by (simp add: key_ok_def)
  have k: "key_cstr k" "k \<noteq> [[]]" using assms(3) by (simp_all add: key_ok_def)
  have t': "b \<longleftrightarrow> key_hastrailingslash k" "key_path k' = key_path k" "key_cstr k'"
    using tg_trailing_spec [OF t k(2)] k(1) by simp_all
  have h: "gen_hold g = 0" "gen_deltas g = []" "distinct (gen_cblist g)"
    using assms(1) by (simp_all add: tg_valid_def)
  have fin: ?thesis if
    e: "(if v = None then tg_remove k' (hold_delta g) else if \<not> b then tg_store k' v (hold_delta g) else Some (hold_delta g)) =
      Some (g\<lparr>gen_hold := 1, gen_deltas := ds, tg_root := root, tg_dirty := d\<rparr>)"
    and ok: "\<forall>r. root = Some r \<longrightarrow> vt_ok (Suc n) r"
    and c: "tg_contents (g\<lparr>tg_root := root\<rparr>) = update_spec k v (tg_contents g)"
    and m: "foldl key_note (tg_contents g) ds = tg_contents (g\<lparr>tg_root := root\<rparr>)"
    and rp: "replay_ok (tg_contents g) ds"
    and o: "\<forall>d \<in> set ds. notice_ok INT_MAX d" for root ds d
  proof -
    let ?g = "g\<lparr>gen_deltas := [], gen_sent := gen_sent g @ sent_list (gen_cblist g) ds, tg_root := root, tg_dirty := d\<rparr>"
    have "tg_set k v g = Some ?g"
      using e h by (simp add: tg_set_def t unhold_delta_def flush_delta_eq)
    moreover have "tg_contents ?g = tg_contents (g\<lparr>tg_root := root\<rparr>)" by (simp add: tg_contents_def)
    moreover have "tg_valid (Suc n) ?g"
    proof -
      have "int (length q) \<le> INT_MAX" if q: "tg_contents ?g q \<noteq> None" for q
      proof (cases "tg_contents g q = None")
        case True
        have "tg_contents ?g q = update_spec k v (tg_contents g) q" using c by (simp add: tg_contents_def)
        then have "prefix q (key_path k)" using q True
          by (auto simp: update_spec_def remove_spec_def set_spec_def split: option.splits if_splits)
        then have "length q \<le> length (key_path k)" by (rule prefix_length_le)
        also have "\<dots> \<le> length k" by (simp add: key_path_def nonempty_segs_def)
        finally show ?thesis using assms(3) by (simp add: key_ok_def)
      next
        case False
        then show ?thesis using assms(1) by (simp add: tg_valid_def)
      qed
      then show ?thesis using ok h by (simp add: tg_valid_def)
    qed
    ultimately show ?thesis using c m o rp by (intro exI [of _ ?g] exI [of _ ds]) simp
  qed
  consider "v = None" | "v \<noteq> None" "\<not> b" | "v \<noteq> None" b by blast
  then show ?thesis
  proof cases
    case 1
    obtain root ds d where r: "tg_remove k' (hold_delta g) =
        Some (g\<lparr>gen_hold := 1, gen_deltas := ds, tg_root := root, tg_dirty := d\<rparr>)"
      "\<forall>r. root = Some r \<longrightarrow> vt_ok n r"
      "tg_contents (g\<lparr>tg_root := root\<rparr>) = remove_spec (key_path k') (tg_contents g)"
      "foldl key_note (tg_contents g) ds = tg_contents (g\<lparr>tg_root := root\<rparr>)" "replay_ok (tg_contents g) ds"
      "\<forall>d \<in> set ds. notice_ok INT_MAX d"
      using tg_remove_spec [OF assms(1) t'(3)] by blast
    then show ?thesis using 1 t'(2) vt_ok_mono [of val_ok n _ "Suc n"]
      by (intro fin [where ds = ds and root = root and d = d]) (auto simp: update_spec_def)
  next
    case 2
    obtain root ds d where r: "tg_store k' v (hold_delta g) =
        Some (g\<lparr>gen_hold := 1, gen_deltas := ds, tg_root := Some root, tg_dirty := d\<rparr>)"
      "vt_ok (Suc n) root" "(\<lambda>q. vt_map q root) = set_spec (key_path k') v (tg_contents g)"
      "foldl key_note (tg_contents g) ds = (\<lambda>q. vt_map q root)" "replay_ok (tg_contents g) ds"
      "\<forall>d \<in> set ds. notice_ok INT_MAX d"
      using tg_store_spec [OF assms(1,2) t'(3) _ len] 2 assms(4) by blast
    have c: "tg_contents (g\<lparr>tg_root := Some root\<rparr>) = (\<lambda>q. vt_map q root)" by (simp add: tg_contents_def)
    show ?thesis using r 2 t'(1,2)
      by (intro fin [where ds = ds and root = "Some root" and d = d]) (auto simp: update_spec_def c)
  next
    case 3
    then show ?thesis using h assms(1) t'(1) vt_ok_mono [of val_ok n _ "Suc n"]
      by (intro fin [where ds = "[]" and root = "tg_root g" and d = "tg_dirty g"]) (auto simp: hold_delta_def update_spec_def tg_valid_def)
  qed
qed

lemma tg_valid_new: "tg_valid n tg_new" "tg_contents tg_new = (\<lambda>_. None)"
  by (simp_all add: tg_valid_def tg_new_def gen_new_def gen.defs tg_contents_def)

text \<open>\<open>haschildren\<close> and the iterator, in terms of the contents.\<close>

lemma tg_haschildren_spec:
  assumes "tg_valid n g" "key_cstr k"
  shows "tg_haschildren k g = Some (\<exists>s. tg_contents g (key_path k @ [s]) \<noteq> None)"
proof (cases "tg_root g")
  case None
  then show ?thesis by (simp add: tg_haschildren_def tg_contents_def)
next
  case (Some root)
  have ok: "vt_ok n root" using assms(1) Some by (simp add: tg_valid_def)
  obtain r where r: "vt_find k root = Some r"
    "case r of None \<Rightarrow> \<forall>q. vt_map (key_path k @ q) root = None
     | Some c \<Rightarrow> vt_ok n c \<and> (\<forall>q. vt_map (key_path k @ q) root = vt_map q c)"
    using vt_find_spec [where pr = "\<lambda>v. v", OF ok assms(2)] by blast
  then show ?thesis using Some vt_haschildren_spec
    by (cases r) (auto simp: tg_haschildren_def tg_contents_def simp del: ut_map.simps)
qed

lemma li_foldl_autofill:
  "foldl (\<lambda>it i. li_add (vt_key i) (vt_value i) it) it cs = li_autofill (map (\<lambda>i. (vt_key i, vt_value i)) cs) it"
  by (induction cs arbitrary: it) (simp_all add: li_autofill_def)

text \<open>The iterator visits each child once, with its key and its value.\<close>

lemma tg_iterate_spec:
  assumes "tg_valid n g" "key_cstr k"
  shows "\<exists>r. tg_iterate k g = Some r \<and> iter_spec k (tg_contents g) r"
proof (cases "tg_root g")
  case None
  then show ?thesis by (simp add: tg_iterate_def tg_iterator_def tg_contents_def iter_spec_def haschildren_spec_def)
next
  case (Some root)
  have ok: "vt_ok n root" using assms(1) Some by (simp add: tg_valid_def)
  obtain r where r: "vt_find k root = Some r"
    "case r of None \<Rightarrow> \<forall>q. vt_map (key_path k @ q) root = None
     | Some c \<Rightarrow> vt_ok n c \<and> (\<forall>q. vt_map (key_path k @ q) root = vt_map q c)"
    using vt_find_spec [where pr = "\<lambda>v. v", OF ok assms(2)] by blast
  show ?thesis
  proof (cases r)
    case None
    then show ?thesis using r Some by (auto simp: tg_iterate_def tg_iterator_def tg_contents_def iter_spec_def haschildren_spec_def)
  next
    case (Some c)
    have c: "vt_ok n c" "\<And>q. tg_contents g (key_path k @ q) = vt_map q c"
      using r(2) Some \<open>tg_root g = Some root\<close> by (simp_all add: tg_contents_def)
    let ?l = "map (\<lambda>i. (vt_key i, vt_value i)) (vt_childlist c)"
    have seg: "\<exists>s. vt_key i = [s] \<and> seg_ok s" "val_ok (vt_value i)" if "i \<in> set (vt_childlist c)" for i
      using vt_okD(3) [OF c(1) that] vt_okD(1) by blast+
    then have "\<forall>(k, v) \<in> set ?l. v \<noteq> None" using val_ok_Some by fastforce
    then have "tg_iterate k g = Some (Some ?l)"
      using r(1) Some \<open>tg_root g = Some root\<close>
      by (simp add: tg_iterate_def tg_iterator_def li_foldl_autofill li_all_autofill)
    moreover have d: "distinct (map (\<lambda>i. map lower (vt_key i)) (vt_childlist c))"
      using vt_okD(2) [OF c(1)] by (cases "vt_children c") (auto simp: vt_childlist_def dict_inv_def)
    have "map_of (map (\<lambda>i. (map lower (vt_key i), the (vt_value i))) cs) [s] =
        (case find (\<lambda>c. map lower (vt_key c) = [s]) cs of None \<Rightarrow> None | Some c \<Rightarrow> vt_value c)"
      if "\<forall>i \<in> set cs. val_ok (vt_value i)" for cs s
      using that by (induction cs) (auto dest: val_ok_Some)
    then have "vt_map [s] c = map_of (map (\<lambda>i. (map lower (vt_key i), the (vt_value i))) (vt_childlist c)) [s]" for s
      using seg(2) by (simp cong: option.case_cong)
    ultimately show ?thesis using c(2) seg by (intro exI [of _ "Some ?l"]) (auto simp: comp_def d iter_spec_def)
  qed
qed

interpretation tg_c: uni_gen tg_ops INT_MAX tg_valid tg_contents
proof (unfold_locales, goal_cases)
  case (1 n s k)
  then show ?case by (simp add: tg_ops_def tg_get_spec)
next
  case (2 n s k v)
  from tg_set_spec [OF 2] show ?case by (simp add: tg_ops_def) blast
next
  case (3 n s k)
  then show ?case by (simp add: tg_ops_def tg_exists_def gen_exists_def tg_get_spec)
next
  case (4 n s k)
  then show ?case by (simp add: tg_ops_def tg_haschildren_spec key_ok_def haschildren_spec_def)
next
  case (5 n s k)
  then show ?case by (simp add: tg_ops_def tg_iterate_spec key_ok_def)
next
  case (6 n s c)
  then show ?case
    by (simp add: tg_ops_def add_callback_def cb_add_def tg_valid_def tg_contents_def distinct_insort)
next
  case (7 n s)
  then show ?case by (simp add: tg_ops_def tg_valid_def)
next
  case (8 n s c)
  then show ?case by (simp add: tg_ops_def tg_valid_def gen_forget_def tg_contents_def)
qed

end
