(* ===== verification/UniFilterGen.thy ===== *)
theory UniFilterGen
  imports UniTempGen
begin

text \<open>
  The generators that pass their methods on to an inner generator (\<open>uniconf/unifiltergen.cc\<close>,
  \<open>uniconf/unisubtreegen.cc\<close>, \<open>include/unireadonlygen.h\<close>) and the one that is always empty
  (\<open>include/uninullgen.h\<close>).  The inner generator is given by its methods; \<open>this\<close> is the cookie of
  the callback.  The inner generator sends while one of its methods runs; the calls are taken up when the
  method returns, which the callback cannot tell since it touches the outer generator only.
\<close>

record 'i filtergen = gen +
  fg_inner :: "'i option"

subsection \<open>\<open>UniFilterGen\<close>\<close>

definition fg_gencallback :: "(key \<Rightarrow> key option) \<Rightarrow> key \<Rightarrow> wvstring \<Rightarrow> 'i filtergen \<Rightarrow> 'i filtergen option" where
  "fg_gencallback reversekeymap key value g =
     (case fg_inner g of
        None \<Rightarrow> Some g
      | Some _ \<Rightarrow>
          (case reversekeymap key of None \<Rightarrow> Some g | Some unmapped_key \<Rightarrow> delta unmapped_key value g))"

primrec fg_callbacks :: "(key \<Rightarrow> key option) \<Rightarrow> notice list \<Rightarrow> 'i filtergen \<Rightarrow> 'i filtergen option" where
  "fg_callbacks reversekeymap [] g = Some g"
| "fg_callbacks reversekeymap (d # ds) g = do {
     g' \<leftarrow> fg_gencallback reversekeymap (fst d) (snd d) g;
     fg_callbacks reversekeymap ds g' }"

text \<open>The inner generator after a method of it was run, with the calls of the callback that it made.\<close>

definition fg_after :: "'i igen \<Rightarrow> (key \<Rightarrow> key option) \<Rightarrow> nat \<Rightarrow> 'i \<Rightarrow> 'i filtergen \<Rightarrow> 'i filtergen option" where
  "fg_after inner reversekeymap this i g =
     fg_callbacks reversekeymap (sent_to this (ig_sent inner i)) (g\<lparr>fg_inner := Some (ig_forget inner this i)\<rparr>)"

definition fg_setinner :: "'i igen \<Rightarrow> nat \<Rightarrow> 'i option \<Rightarrow> 'i filtergen \<Rightarrow> ('i option \<times> 'i filtergen) option" where
  "fg_setinner inner this new g = do {
     old \<leftarrow> (case fg_inner g of None \<Rightarrow> Some None | Some i \<Rightarrow> map_option Some (ig_del_callback inner this i));
     new' \<leftarrow> (case new of None \<Rightarrow> Some None | Some i \<Rightarrow> map_option Some (ig_add_callback inner this i));
     Some (old, g\<lparr>fg_inner := new'\<rparr>) }"

definition fg_new :: "'i igen \<Rightarrow> nat \<Rightarrow> 'i option \<Rightarrow> 'i filtergen option" where
  "fg_new inner this new = map_option snd (fg_setinner inner this new (gen.extend gen_new \<lparr>fg_inner = None\<rparr>))"

definition keymap_default :: "key \<Rightarrow> key option" where
  "keymap_default key = Some key"

definition fg_commit :: "'i igen \<Rightarrow> (key \<Rightarrow> key option) \<Rightarrow> nat \<Rightarrow> 'i filtergen \<Rightarrow> 'i filtergen option" where
  "fg_commit inner reversekeymap this g =
     (case fg_inner g of
        None \<Rightarrow> Some g
      | Some i \<Rightarrow> do { i' \<leftarrow> ig_commit inner i; fg_after inner reversekeymap this i' g })"

definition fg_refresh :: "'i igen \<Rightarrow> (key \<Rightarrow> key option) \<Rightarrow> nat \<Rightarrow> 'i filtergen \<Rightarrow> (bool \<times> 'i filtergen) option" where
  "fg_refresh inner reversekeymap this g =
     (case fg_inner g of
        None \<Rightarrow> Some (False, g)
      | Some i \<Rightarrow> do {
          (ok, i') \<leftarrow> ig_refresh inner i;
          g' \<leftarrow> fg_after inner reversekeymap this i' g;
          Some (ok, g') })"

definition fg_get :: "'i igen \<Rightarrow> (key \<Rightarrow> key option) \<Rightarrow> key \<Rightarrow> 'i filtergen \<Rightarrow> wvstring option" where
  "fg_get inner keymap key g =
     (case (fg_inner g, keymap key) of
        (Some i, Some mapped_key) \<Rightarrow> ig_get inner mapped_key i
      | _ \<Rightarrow> Some None)"

definition fg_set :: "'i igen \<Rightarrow> (key \<Rightarrow> key option) \<Rightarrow> (key \<Rightarrow> key option) \<Rightarrow> nat \<Rightarrow> key \<Rightarrow> wvstring \<Rightarrow>
    'i filtergen \<Rightarrow> 'i filtergen option" where
  "fg_set inner keymap reversekeymap this key value g =
     (case (fg_inner g, keymap key) of
        (Some i, Some mapped_key) \<Rightarrow> do {
          i' \<leftarrow> ig_set inner mapped_key value i;
          fg_after inner reversekeymap this i' g }
      | _ \<Rightarrow> Some g)"

text \<open>\<open>setv\<close> hands the pairs on as they are.\<close>

definition fg_setv :: "'i igen \<Rightarrow> (key \<Rightarrow> key option) \<Rightarrow> nat \<Rightarrow> notice list \<Rightarrow> 'i filtergen \<Rightarrow> 'i filtergen option" where
  "fg_setv inner reversekeymap this pairs g =
     (case fg_inner g of
        None \<Rightarrow> Some g
      | Some i \<Rightarrow> do { i' \<leftarrow> ig_setv inner pairs i; fg_after inner reversekeymap this i' g })"

definition fg_exists :: "'i igen \<Rightarrow> (key \<Rightarrow> key option) \<Rightarrow> key \<Rightarrow> 'i filtergen \<Rightarrow> bool option" where
  "fg_exists inner keymap key g =
     (case (fg_inner g, keymap key) of
        (Some i, Some mapped_key) \<Rightarrow> ig_exists inner mapped_key i
      | _ \<Rightarrow> Some False)"

definition fg_haschildren :: "'i igen \<Rightarrow> (key \<Rightarrow> key option) \<Rightarrow> key \<Rightarrow> 'i filtergen \<Rightarrow> bool option" where
  "fg_haschildren inner keymap key g =
     (case (fg_inner g, keymap key) of
        (Some i, Some mapped_key) \<Rightarrow> ig_haschildren inner mapped_key i
      | _ \<Rightarrow> Some False)"

definition fg_isok :: "'i igen \<Rightarrow> 'i filtergen \<Rightarrow> bool" where
  "fg_isok inner g = (case fg_inner g of None \<Rightarrow> False | Some i \<Rightarrow> ig_isok inner i)"

definition fg_iterator :: "'i igen \<Rightarrow> (key \<Rightarrow> key option) \<Rightarrow> key \<Rightarrow> 'i filtergen \<Rightarrow> notice list option option" where
  "fg_iterator inner keymap key g =
     (case (fg_inner g, keymap key) of
        (Some i, Some mapped_key) \<Rightarrow> ig_iterator inner mapped_key i
      | _ \<Rightarrow> Some None)"

definition fg_ops :: "'i igen \<Rightarrow> (key \<Rightarrow> key option) \<Rightarrow> (key \<Rightarrow> key option) \<Rightarrow> nat \<Rightarrow> 'i filtergen igen" where
  "fg_ops inner keymap reversekeymap this =
     \<lparr>ig_get = fg_get inner keymap, ig_set = fg_set inner keymap reversekeymap this,
      ig_setv = fg_setv inner reversekeymap this, ig_exists = fg_exists inner keymap,
      ig_haschildren = fg_haschildren inner keymap, ig_iterator = fg_iterator inner keymap,
      ig_commit = fg_commit inner reversekeymap this, ig_refresh = fg_refresh inner reversekeymap this,
      ig_isok = fg_isok inner, ig_add_callback = add_callback, ig_del_callback = del_callback,
      ig_callbacks = gen_cblist, ig_sent = gen_sent, ig_forget = gen_forget\<rparr>"

subsection \<open>\<open>UniSubtreeGen\<close>\<close>

definition st_keymap :: "key \<Rightarrow> key \<Rightarrow> key option" where
  "st_keymap subkey unmapped_key =
     Some (if key_isempty unmapped_key then subkey else key_concat subkey unmapped_key)"

definition st_reversekeymap :: "key \<Rightarrow> key \<Rightarrow> key option" where
  "st_reversekeymap subkey mapped_key = key_suborsame_sub subkey mapped_key"

definition st_ops :: "'i igen \<Rightarrow> key \<Rightarrow> nat \<Rightarrow> 'i filtergen igen" where
  "st_ops inner subkey this = fg_ops inner (st_keymap subkey) (st_reversekeymap subkey) this"

subsection \<open>\<open>UniReadOnlyGen\<close> and \<open>UniBachelorGen\<close>\<close>

definition ro_set :: "key \<Rightarrow> wvstring \<Rightarrow> 'i filtergen \<Rightarrow> 'i filtergen option" where
  "ro_set key value g = Some g"

definition ro_ops :: "'i igen \<Rightarrow> nat \<Rightarrow> 'i filtergen igen" where
  "ro_ops inner this = (fg_ops inner keymap_default keymap_default this)\<lparr>ig_set := ro_set\<rparr>"

definition bg_commit :: "'i filtergen \<Rightarrow> 'i filtergen option" where
  "bg_commit g = Some g"

definition bg_refresh :: "'i filtergen \<Rightarrow> (bool \<times> 'i filtergen) option" where
  "bg_refresh g = Some (False, g)"

definition bg_ops :: "'i igen \<Rightarrow> nat \<Rightarrow> 'i filtergen igen" where
  "bg_ops inner this = (fg_ops inner keymap_default keymap_default this)\<lparr>ig_commit := bg_commit, ig_refresh := bg_refresh\<rparr>"

subsection \<open>\<open>UniNullGen\<close>\<close>

definition null_ops :: "gen igen" where
  "null_ops = \<lparr>ig_get = (\<lambda>_ _. Some None), ig_set = (\<lambda>_ _ g. Some g), ig_setv = (\<lambda>_ g. Some g),
     ig_exists = gen_exists (\<lambda>_ _. Some None), ig_haschildren = (\<lambda>_ _. Some False), ig_iterator = (\<lambda>_ _. Some (Some [])),
     ig_commit = Some, ig_refresh = (\<lambda>g. Some (True, g)), ig_isok = (\<lambda>_. True),
     ig_add_callback = add_callback, ig_del_callback = del_callback, ig_callbacks = gen_cblist,
     ig_sent = gen_sent, ig_forget = gen_forget\<rparr>"

subsection \<open>A subtree keeps the contract\<close>

text \<open>The keys that a sub-key is prepended to and the keys below it.\<close>

lemma plain_no_slash: "[] \<notin> set k \<Longrightarrow> \<not> key_hastrailingslash k"
  unfolding key_hastrailingslash_def by (metis last_in_set)

lemma key_suborsame_plain:
  assumes a: "key_plain a" and k: "key_plain k"
  shows "key_suborsame_sub a k =
    (if take (length a) (map lower k) = map lower a then Some (drop (length a) k) else None)"
proof -
  have na: "[] \<notin> set a" "[] \<notin> set k" "key_cstr a" "key_cstr k" using a k by (simp_all add: key_plain_def)
  have t: "\<not> key_hastrailingslash a" using na(1) by (rule plain_no_slash)
  have "[] \<notin> set (take (length a) k)" "key_cstr (take (length a) k)" "[] \<notin> set (drop (length a) k)"
    using na by (auto simp: key_cstr_def dest: in_set_takeD in_set_dropD)
  moreover have "length k \<le> nat INT_MAX" using k by (simp add: key_plain_def INT_MAX_def)
  ultimately show ?thesis using na t
    by (simp add: key_suborsame_sub_def Let_def key_numsegments_def key_first_nat key_removefirst_nat
        key_collapse_plain key_eq_iff take_map)
qed

lemma st_keymap_path:
  assumes "key_plain subkey" "key_ok m k"
  shows "\<exists>j. st_keymap subkey k = Some j \<and> key_path j = map lower subkey @ key_path k \<and>
    (key_hastrailingslash j \<longleftrightarrow> key_hastrailingslash k) \<and> key_ok (int (length subkey) + m) j"
proof -
  have s: "[] \<notin> set subkey" "key_cstr subkey" using assms(1) by (simp_all add: key_plain_def)
  have n: "nonempty_segs subkey = subkey" "\<not> key_hastrailingslash subkey"
    using s(1) by (auto simp: nonempty_segs_def filter_id_conv plain_no_slash)
  have k: "key_cstr k" "[] \<notin> set (butlast k)" "k \<noteq> [[]]" "int (length k) \<le> m"
    using assms(2) by (simp_all add: key_ok_def)
  show ?thesis
  proof (cases k rule: rev_cases)
    case Nil
    then show ?thesis using s n k
      by (auto simp: st_keymap_def key_isempty_def key_path_def key_ok_def nonempty_segs_def
          key_hastrailingslash_def dest: in_set_butlastD)
  next
    case (snoc xs x)
    have xs: "[] \<notin> set xs" "nonempty_segs xs = xs" "key_cstr xs" "c_str x" "x = [] \<Longrightarrow> xs \<noteq> []"
      using k snoc by (auto simp: nonempty_segs_def filter_id_conv key_cstr_def)
    have e: "nonempty_segs k @ (if key_hastrailingslash k then [[]] else []) = xs @ [x]"
      using xs snoc by (auto simp: nonempty_segs_def key_hastrailingslash_def)
    have "key_collapse (subkey @ xs @ [x]) = subkey @ xs @ [x]"
      using xs(5) by (auto simp: key_collapse_def append_eq_Cons_conv)
    then have "st_keymap subkey k = Some (subkey @ xs @ [x])"
      using snoc n(1) e by (simp add: st_keymap_def key_isempty_def key_concat_def Let_def)
    moreover have "key_ok (int (length subkey) + m) (subkey @ xs @ [x])"
      using s xs k(4) snoc by (auto simp: key_ok_def butlast_append key_cstr_def append_eq_Cons_conv)
    ultimately show ?thesis using snoc n(1)
      by (auto simp: key_path_append key_hastrailingslash_def) (simp add: key_path_def)
  qed
qed


subsection \<open>Notifications of the inner generator\<close>

definition map_notices :: "(key \<Rightarrow> key option) \<Rightarrow> notice list \<Rightarrow> notice list" where
  "map_notices reversekeymap ds =
     List.map_filter (\<lambda>(k, v). map_option (\<lambda>j. (j, v)) (reversekeymap k)) ds"

lemma map_notices_simps [simp]:
  "map_notices f [] = []"
  "map_notices f ((k, v) # ds) = (case f k of None \<Rightarrow> map_notices f ds | Some j \<Rightarrow> (j, v) # map_notices f ds)"
  by (simp_all add: map_notices_def List.map_filter_simps split: option.split)

lemma delta_list_free:
  "gen_hold g = 0 \<Longrightarrow> delta_list ds g = Some (g\<lparr>gen_sent := gen_sent g @ sent_list (gen_cblist g) ds\<rparr>)"
  by (induction ds arbitrary: g) (simp_all add: delta_def dispatch_delta_def sent_list_Cons)

lemma delta_inner [simp]: "gen_hold g = 0 \<Longrightarrow> delta k v g = Some g' \<Longrightarrow> fg_inner g' = fg_inner g"
  by (auto simp: delta_def dispatch_delta_def)

lemma fg_callbacks_eq:
  assumes "gen_hold g = 0" "fg_inner g = Some i"
  shows "fg_callbacks f ds g = Some (g\<lparr>gen_sent := gen_sent g @ sent_list (gen_cblist g) (map_notices f ds)\<rparr>)"
  using assms
proof (induction ds arbitrary: g)
  case (Cons d ds)
  obtain k v where d: "d = (k, v)" by (cases d)
  show ?case
  proof (cases "f k")
    case None
    then show ?thesis using Cons by (simp add: d fg_gencallback_def)
  next
    case (Some j)
    have "delta j v g = Some (g\<lparr>gen_sent := gen_sent g @ sent_list (gen_cblist g) [(j, v)]\<rparr>)"
      using delta_list_free [OF Cons.prems(1), of "[(j, v)]"] by (cases "delta j v g") simp_all
    then show ?thesis
      using Cons.IH [of "g\<lparr>gen_sent := gen_sent g @ sent_list (gen_cblist g) [(j, v)]\<rparr>"] Cons.prems Some
      by (simp add: d fg_gencallback_def sent_list_def)
  qed
qed simp

text \<open>What a listener below a sub-key makes of the notifications.\<close>

lemma st_notices:
  assumes "key_plain subkey" "\<forall>d \<in> set ds. notice_ok INT_MAX d"
  shows "foldl key_note (\<lambda>q. M (map lower subkey @ q)) (map_notices (st_reversekeymap subkey) ds) =
    (\<lambda>q. foldl key_note M ds (map lower subkey @ q))"
  using assms(2)
proof (induction ds arbitrary: M)
  case (Cons d ds)
  obtain k v where d: "d = (k, v)" by (cases d)
  have k: "key_plain k" using Cons.prems by (simp add: d notice_ok_def key_plain_def)
  have step: "(case st_reversekeymap subkey k of None \<Rightarrow> (\<lambda>q. M (map lower subkey @ q))
      | Some j \<Rightarrow> key_note (\<lambda>q. M (map lower subkey @ q)) (j, v)) = (\<lambda>q. key_note M d (map lower subkey @ q))"
  proof (cases "take (length subkey) (map lower k) = map lower subkey")
    case True
    then have "map lower k = map lower subkey @ map lower (drop (length subkey) k)"
      by (metis append_take_drop_id drop_map)
    then show ?thesis using True
      by (auto simp: st_reversekeymap_def key_suborsame_plain [OF assms(1) k] key_note_def d fun_eq_iff)
  next
    case False
    then have "map lower subkey @ q \<noteq> map lower k" for q by (metis append_eq_conv_conj length_map)
    then show ?thesis using False
      by (simp add: st_reversekeymap_def key_suborsame_plain [OF assms(1) k] key_note_def d fun_eq_iff)
  qed
  show ?case using Cons.IH [of "key_note M d"] Cons.prems step
    by (simp add: d split: option.splits)
qed simp

lemma map_notices_ok:
  assumes "key_plain subkey" "\<forall>d \<in> set ds. notice_ok (int (length subkey) + m) d" "int (length subkey) + m \<le> INT_MAX"
  shows "\<forall>d \<in> set (map_notices (st_reversekeymap subkey) ds). notice_ok m d"
  using assms(2)
proof (induction ds)
  case (Cons d ds)
  obtain k v where d: "d = (k, v)" by (cases d)
  have k: "key_plain k" using Cons.prems assms(3) by (simp add: d notice_ok_def key_plain_def)
  have "notice_ok m (drop (length subkey) k, v)" if "take (length subkey) (map lower k) = map lower subkey"
  proof -
    have "length subkey \<le> length k" using that by (metis length_map length_take min.cobounded1)
    then show ?thesis using Cons.prems
      by (auto simp: d notice_ok_def key_cstr_def dest: in_set_dropD)
  qed
  then show ?case using Cons
    by (auto simp: d st_reversekeymap_def key_suborsame_plain [OF assms(1) k] split: if_splits)
qed simp

lemma sub_spec:
  assumes "key_path j = P @ key_path k" "key_hastrailingslash j \<longleftrightarrow> key_hastrailingslash k"
  shows "get_spec j M = get_spec k (\<lambda>q. M (P @ q))"
    "(\<lambda>q. update_spec j v M (P @ q)) = update_spec k v (\<lambda>q. M (P @ q))"
    "haschildren_spec j M = haschildren_spec k (\<lambda>q. M (P @ q))"
    "iter_spec j M r = iter_spec k (\<lambda>q. M (P @ q)) r"
  using assms
  by (auto simp: get_spec_def update_spec_def remove_spec_def set_spec_def haschildren_spec_def iter_spec_def
      strict_prefix_def fun_eq_iff split: option.split)


lemma plain_path: "key_plain k \<Longrightarrow> key_path k = map lower k \<and> \<not> key_hastrailingslash k"
  by (simp add: key_path_def nonempty_segs_id key_plain_def plain_no_slash)

lemma st_replay:
  assumes "key_plain subkey" "\<forall>d \<in> set ds. notice_ok INT_MAX d" "replay_ok M ds"
  shows "replay_ok (\<lambda>q. M (map lower subkey @ q)) (map_notices (st_reversekeymap subkey) ds)"
  using assms(2,3)
proof (induction ds arbitrary: M)
  case (Cons d ds)
  obtain k v where d: "d = (k, v)" by (cases d)
  have k: "key_plain k" using Cons.prems by (simp add: d notice_ok_def key_plain_def)
  have ih: "replay_ok (\<lambda>q. key_note M d (map lower subkey @ q)) (map_notices (st_reversekeymap subkey) ds)"
    using Cons.IH [of "key_note M d"] Cons.prems by simp
  have one: "foldl key_note (\<lambda>q. M (map lower subkey @ q)) (map_notices (st_reversekeymap subkey) [d]) =
      (\<lambda>q. key_note M d (map lower subkey @ q))"
    using st_notices [OF assms(1), of "[d]" M] Cons.prems(1) by simp
  show ?case
  proof (cases "st_reversekeymap subkey k")
    case None
    then show ?thesis using ih one by (simp add: d)
  next
    case (Some j)
    have l: "take (length subkey) (map lower k) = map lower subkey" and j: "j = drop (length subkey) k"
      using Some by (simp_all add: st_reversekeymap_def key_suborsame_plain [OF assms(1) k] split: if_splits)
    have jp: "key_plain j" using k by (auto simp: j key_plain_def key_cstr_def dest: in_set_dropD)
    have "map lower k = map lower subkey @ map lower j" using l by (metis append_take_drop_id drop_map j)
    then have p: "key_path k = map lower subkey @ key_path j" "key_hastrailingslash k \<longleftrightarrow> key_hastrailingslash j"
      using plain_path [OF k] plain_path [OF jp] by simp_all
    have "update_spec j v (\<lambda>q. M (map lower subkey @ q)) = (\<lambda>q. key_note M d (map lower subkey @ q))"
      unfolding sub_spec(2) [OF p, of v M, symmetric] using Cons.prems(2) by (simp add: d)
    then show ?thesis using Some ih one by (simp add: d)
  qed
qed simp

subsection \<open>The contract of a subtree\<close>

definition fg_valid :: "'i igen \<Rightarrow> (nat \<Rightarrow> 'i \<Rightarrow> bool) \<Rightarrow> nat \<Rightarrow> nat \<Rightarrow> 'i filtergen \<Rightarrow> bool" where
  "fg_valid inner inner_valid this n g \<longleftrightarrow>
     gen_hold g = 0 \<and> gen_deltas g = [] \<and> distinct (gen_cblist g) \<and>
     (\<exists>i. fg_inner g = Some i \<and> inner_valid n i \<and> this \<in> set (ig_callbacks inner i) \<and>
        sent_to this (ig_sent inner i) = [])"

definition fg_contents :: "('i \<Rightarrow> string list \<Rightarrow> wvstring) \<Rightarrow> key \<Rightarrow> 'i filtergen \<Rightarrow> string list \<Rightarrow> wvstring" where
  "fg_contents inner_contents subkey g =
     (case fg_inner g of None \<Rightarrow> (\<lambda>_. None) | Some i \<Rightarrow> (\<lambda>q. inner_contents i (map lower subkey @ q)))"

locale subtree_gen = uni_gen ops "int (length subkey) + klen" valid contents
  for ops :: "'s igen" and klen :: int and valid :: "nat \<Rightarrow> 's \<Rightarrow> bool" and contents and subkey :: key +
  fixes this :: nat
  assumes subkey: "key_plain subkey" and klen: "0 \<le> klen" "int (length subkey) + klen \<le> INT_MAX"
begin

lemma st_valid_after:
  assumes g: "fg_valid ops valid this n g" "fg_inner g = Some i"
    and i': "valid m i'" "ig_callbacks ops i' = ig_callbacks ops i"
      "ig_sent ops i' = ig_sent ops i @ sent_list (ig_callbacks ops i) ds"
      "foldl key_note (contents i) ds = contents i'" "replay_ok (contents i) ds"
      "\<forall>d \<in> set ds. notice_ok (int (length subkey) + klen) d"
  shows "\<exists>g' es. fg_after ops (st_reversekeymap subkey) this i' g = Some g' \<and> fg_valid ops valid this m g' \<and>
    fg_contents contents subkey g' = (\<lambda>q. contents i' (map lower subkey @ q)) \<and>
    gen_cblist g' = gen_cblist g \<and> gen_sent g' = gen_sent g @ sent_list (gen_cblist g) es \<and>
    foldl key_note (fg_contents contents subkey g) es = fg_contents contents subkey g' \<and>
    replay_ok (fg_contents contents subkey g) es \<and> (\<forall>d \<in> set es. notice_ok klen d)"
proof -
  have v: "valid n i" "this \<in> set (ig_callbacks ops i)" "sent_to this (ig_sent ops i) = []"
    "gen_hold g = 0" "gen_deltas g = []" "distinct (gen_cblist g)"
    using g by (auto simp: fg_valid_def)
  have s: "sent_to this (ig_sent ops i') = ds"
    using i'(3) v(2,3) callbacks_law [OF v(1)] by (simp add: sent_to_append sent_to_list)
  let ?i = "ig_forget ops this i'"
  have f: "valid m ?i" "contents ?i = contents i'" "ig_callbacks ops ?i = ig_callbacks ops i"
    "ig_sent ops ?i = filter (\<lambda>d. fst d \<noteq> this) (ig_sent ops i')"
    using forget_law [OF i'(1), of this] i'(2) by simp_all
  let ?es = "map_notices (st_reversekeymap subkey) ds"
  let ?g = "g\<lparr>fg_inner := Some ?i, gen_sent := gen_sent g @ sent_list (gen_cblist g) ?es\<rparr>"
  have "fg_after ops (st_reversekeymap subkey) this i' g = Some ?g"
    using fg_callbacks_eq [of "g\<lparr>fg_inner := Some ?i\<rparr>" ?i] v(4) by (simp add: fg_after_def s)
  moreover have "fg_valid ops valid this m ?g"
    using v f by (simp add: fg_valid_def sent_to_def filter_empty_conv)
  moreover have c: "fg_contents contents subkey ?g = (\<lambda>q. contents i' (map lower subkey @ q))"
    by (simp add: fg_contents_def f(2))
  moreover have "\<forall>d \<in> set ds. notice_ok INT_MAX d" using i'(6) klen by (auto simp: notice_ok_def)
  then have "foldl key_note (fg_contents contents subkey g) ?es = fg_contents contents subkey ?g"
    unfolding c using st_notices [OF subkey, of ds "contents i"] i'(4) g(2) by (simp add: fg_contents_def)
  moreover have "\<forall>d \<in> set ds. notice_ok INT_MAX d" using i'(6) klen by (auto simp: notice_ok_def)
  then have "replay_ok (fg_contents contents subkey g) ?es"
    using st_replay [OF subkey _ i'(5)] g(2) by (simp add: fg_contents_def)
  moreover have "\<forall>d \<in> set ?es. notice_ok klen d"
    using map_notices_ok [OF subkey, of ds klen] i'(6) klen(2) by simp
  ultimately show ?thesis by (intro exI [of _ ?g] exI [of _ ?es]) simp
qed

end

sublocale subtree_gen \<subseteq> st: uni_gen "st_ops ops subkey this" klen "fg_valid ops valid this" "fg_contents contents subkey"
proof (unfold_locales, goal_cases)
  case (1 n g k)
  then obtain i where i: "fg_inner g = Some i" "valid n i" by (auto simp: fg_valid_def)
  obtain j where j: "st_keymap subkey k = Some j" "key_path j = map lower subkey @ key_path k"
    "key_hastrailingslash j \<longleftrightarrow> key_hastrailingslash k" "key_ok (int (length subkey) + klen) j"
    using st_keymap_path [OF subkey 1(2)] by blast
  show ?case using get_law [OF i(2) j(4)] i j(1) sub_spec(1) [OF j(2,3)]
    by (simp add: st_ops_def fg_ops_def fg_get_def fg_contents_def)
next
  case (2 n g k v)
  then obtain i where i: "fg_inner g = Some i" "valid n i" by (auto simp: fg_valid_def)
  obtain j where j: "st_keymap subkey k = Some j" "key_path j = map lower subkey @ key_path k"
    "key_hastrailingslash j \<longleftrightarrow> key_hastrailingslash k" "key_ok (int (length subkey) + klen) j"
    using st_keymap_path [OF subkey 2(3)] by blast
  obtain i' ds where i': "ig_set ops j v i = Some i'" "valid (Suc n) i'" "contents i' = update_spec j v (contents i)"
    "ig_callbacks ops i' = ig_callbacks ops i" "ig_sent ops i' = ig_sent ops i @ sent_list (ig_callbacks ops i) ds"
    "foldl key_note (contents i) ds = contents i'" "replay_ok (contents i) ds"
    "\<forall>d \<in> set ds. notice_ok (int (length subkey) + klen) d"
    using set_law [OF i(2) 2(2) j(4) 2(4)] by blast
  obtain g' es where "fg_after ops (st_reversekeymap subkey) this i' g = Some g'" "fg_valid ops valid this (Suc n) g'"
    "fg_contents contents subkey g' = (\<lambda>q. contents i' (map lower subkey @ q))" "gen_cblist g' = gen_cblist g"
    "gen_sent g' = gen_sent g @ sent_list (gen_cblist g) es"
    "foldl key_note (fg_contents contents subkey g) es = fg_contents contents subkey g'"
    "replay_ok (fg_contents contents subkey g) es" "\<forall>d \<in> set es. notice_ok klen d"
    using st_valid_after [OF 2(1) i(1) i'(2,4-8)] by blast
  moreover have "(\<lambda>q. contents i' (map lower subkey @ q)) = update_spec k v (fg_contents contents subkey g)"
    using sub_spec(2) [OF j(2,3), of v "contents i"] i(1) by (simp add: i'(3) fg_contents_def)
  ultimately show ?case using i(1) j(1) i'(1) by (simp add: st_ops_def fg_ops_def fg_set_def) blast
next
  case (3 n g k)
  then obtain i where i: "fg_inner g = Some i" "valid n i" by (auto simp: fg_valid_def)
  obtain j where j: "st_keymap subkey k = Some j" "key_path j = map lower subkey @ key_path k"
    "key_hastrailingslash j \<longleftrightarrow> key_hastrailingslash k" "key_ok (int (length subkey) + klen) j"
    using st_keymap_path [OF subkey 3(2)] by blast
  show ?case using exists_law [OF i(2) j(4)] i j(1) sub_spec(1) [OF j(2,3)]
    by (simp add: st_ops_def fg_ops_def fg_exists_def fg_contents_def)
next
  case (4 n g k)
  then obtain i where i: "fg_inner g = Some i" "valid n i" by (auto simp: fg_valid_def)
  obtain j where j: "st_keymap subkey k = Some j" "key_path j = map lower subkey @ key_path k"
    "key_hastrailingslash j \<longleftrightarrow> key_hastrailingslash k" "key_ok (int (length subkey) + klen) j"
    using st_keymap_path [OF subkey 4(2)] by blast
  show ?case using haschildren_law [OF i(2) j(4)] i j(1) sub_spec(3) [OF j(2,3)]
    by (simp add: st_ops_def fg_ops_def fg_haschildren_def fg_contents_def)
next
  case (5 n g k)
  then obtain i where i: "fg_inner g = Some i" "valid n i" by (auto simp: fg_valid_def)
  obtain j where j: "st_keymap subkey k = Some j" "key_path j = map lower subkey @ key_path k"
    "key_hastrailingslash j \<longleftrightarrow> key_hastrailingslash k" "key_ok (int (length subkey) + klen) j"
    using st_keymap_path [OF subkey 5(2)] by blast
  show ?case using iterator_law [OF i(2) j(4)] i j(1) sub_spec(4) [OF j(2,3)]
    by (simp add: st_ops_def fg_ops_def fg_iterator_def fg_contents_def)
next
  case (6 n g c)
  then show ?case
    by (auto simp: st_ops_def fg_ops_def add_callback_def cb_add_def fg_valid_def fg_contents_def distinct_insort)
next
  case (7 n g)
  then show ?case by (simp add: st_ops_def fg_ops_def fg_valid_def)
next
  case (8 n g c)
  then show ?case by (simp add: st_ops_def fg_ops_def fg_valid_def gen_forget_def fg_contents_def)
qed


context subtree_gen
begin

lemma st_uni_gen: "uni_gen (st_ops ops subkey this) klen (fg_valid ops valid this) (fg_contents contents subkey)"
  by (rule st.uni_gen_axioms)

end

text \<open>A subtree of a generator in memory, and a subtree of it.\<close>

lemma tg_subtree:
  assumes "key_plain subkey"
  shows "subtree_gen tg_ops (INT_MAX - int (length subkey)) tg_valid tg_contents subkey"
proof -
  have "uni_gen tg_ops (int (length subkey) + (INT_MAX - int (length subkey))) tg_valid tg_contents"
    using tg_c.uni_gen_axioms by simp
  then show ?thesis using assms by (intro subtree_gen.intro subtree_gen_axioms.intro) (simp_all add: key_plain_def)
qed

interpretation tg_sub_c: subtree_gen tg_ops "INT_MAX - 1" tg_valid tg_contents "[''cfg'']" 1
proof -
  have "key_plain [''cfg'']" by (simp add: key_plain_def INT_MAX_def)
  from tg_subtree [OF this] show "subtree_gen tg_ops (INT_MAX - 1) tg_valid tg_contents [''cfg'']" by simp
qed

lemma tg_subtree_gen:
  assumes "key_plain subkey"
  shows "uni_gen (st_ops tg_ops subkey this) (INT_MAX - int (length subkey))
    (fg_valid tg_ops tg_valid this) (fg_contents tg_contents subkey)"
  using tg_subtree [OF assms] by (rule subtree_gen.st_uni_gen)

text \<open>Making a filter registers its callback.\<close>

lemma fg_new_spec:
  assumes "uni_gen ops klen valid contents" "valid n i" "this \<notin> set (ig_callbacks ops i)" "sent_to this (ig_sent ops i) = []"
  shows "\<exists>g. fg_new ops this (Some i) = Some g \<and> fg_valid ops valid this n g \<and>
    fg_contents contents subkey g = (\<lambda>q. contents i (map lower subkey @ q)) \<and> gen_cblist g = [] \<and> gen_sent g = []"
proof -
  obtain i' where "ig_add_callback ops this i = Some i'" "valid n i'" "contents i' = contents i"
    "ig_callbacks ops i' = insort this (ig_callbacks ops i)" "ig_sent ops i' = ig_sent ops i"
    using uni_gen.add_callback_law [OF assms(1-3)] by blast
  then show ?thesis using assms(4)
    by (simp add: fg_new_def fg_setinner_def gen_new_def gen.defs fg_valid_def fg_contents_def set_insort_key)
qed

subsection \<open>\<open>setv\<close> does not go through \<open>set\<close>\<close>

text \<open>A filter hands the pairs on unmapped, and a read-only generator does not override this.\<close>

lemma fg_setv_inner:
  assumes "fg_valid tg_ops tg_valid this n g" "fg_inner g = Some i" "n + length pairs \<le> 26000"
    "\<forall>(k, v) \<in> set pairs. key_ok INT_MAX k \<and> (v = None \<or> val_ok v)"
  shows "\<exists>g' i'. fg_setv tg_ops f this pairs g = Some g' \<and> fg_inner g' = Some i' \<and>
    tg_contents i' = foldl (\<lambda>M (k, v). update_spec k v M) (tg_contents i) pairs"
proof -
  have i: "tg_valid n i" "this \<in> set (ig_callbacks tg_ops i)" "gen_hold g = 0"
    using assms(1,2) by (auto simp: fg_valid_def)
  obtain i' where i': "setv_naive tg_set pairs i = Some i'"
    "tg_contents i' = foldl (\<lambda>M (k, v). update_spec k v M) (tg_contents i) pairs"
    using tg_c.setv_listener [OF i(1) assms(3,4) i(2)] by (auto simp: tg_ops_def)
  have "fg_setv tg_ops f this pairs g = fg_after tg_ops f this i' g"
    using assms(2) i'(1) by (simp add: fg_setv_def tg_ops_def tg_setv_def)
  also have "\<dots> = Some (g\<lparr>fg_inner := Some (ig_forget tg_ops this i'),
      gen_sent := gen_sent g @ sent_list (gen_cblist g) (map_notices f (sent_to this (ig_sent tg_ops i')))\<rparr>)"
    unfolding fg_after_def using i(3) by (subst fg_callbacks_eq) simp_all
  finally show ?thesis using i'(2) by (simp add: tg_ops_def gen_forget_def tg_contents_def)
qed

end
