(* ===== verification/WvTclString.thy ===== *)
theory WvTclString
  imports Prelude
begin

text \<open>
  Tcl-style strings and lists (\<open>utils/wvtclstring.cc\<close>) and the character masks they use
  (\<open>utils/wvstringmask.cc\<close>).  The C functions run twice, first with a null destination to
  compute the size of the result, then to write it; both passes are translated.  Undefined
  behaviour (a read or write outside an array) is the value \<open>None\<close> or \<open>Undefined\<close>.
\<close>

subsection \<open>WvStringMask\<close>

record strmask =
  sm_set :: "char \<Rightarrow> bool"
  sm_first :: char

definition mask_zap :: strmask where
  "mask_zap = \<lparr>sm_set = (\<lambda>_. False), sm_first = NUL\<rparr>"

definition mask_get :: "strmask \<Rightarrow> char \<Rightarrow> bool" where
  "mask_get m c = sm_set m c"

definition mask_first :: "strmask \<Rightarrow> char" where
  "mask_first m = sm_first m"

text \<open>\<open>set\<close> indexes the 256 flags with \<open>unsigned(c)\<close> for a signed \<open>char\<close>: a byte above 127
  becomes an index near \<open>2 ^ 32\<close>, outside the array.\<close>

definition mask_index_ok :: "char \<Rightarrow> bool" where
  "mask_index_ok c \<longleftrightarrow> (code_of c :: nat) < 128"

definition mask_set_char :: "strmask \<Rightarrow> char \<Rightarrow> bool \<Rightarrow> strmask option" where
  "mask_set_char m c value =
     (let m1 = (if sm_first m = NUL then m\<lparr>sm_first := c\<rparr> else m)
      in if mask_index_ok c then Some (m1\<lparr>sm_set := (sm_set m1)(c := value)\<rparr>) else None)"

fun mask_set_chars :: "strmask \<Rightarrow> string \<Rightarrow> bool \<Rightarrow> strmask option" where
  "mask_set_chars m [] value = Some m"
| "mask_set_chars m (c # cs) value =
     (if mask_index_ok c then mask_set_chars (m\<lparr>sm_set := (sm_set m)(c := value)\<rparr>) cs value
      else None)"

definition mask_set_str :: "strmask \<Rightarrow> wvstring \<Rightarrow> bool \<Rightarrow> strmask option" where
  "mask_set_str m s value =
     (case s of
        None \<Rightarrow> Some m
      | Some t \<Rightarrow>
          let m1 = (if sm_first m = NUL then m\<lparr>sm_first := (if t = [] then NUL else hd t)\<rparr> else m)
          in mask_set_chars m1 t value)"

definition mask_of_str :: "wvstring \<Rightarrow> strmask option" where
  "mask_of_str s = mask_set_str mask_zap s True"

definition mask_of_char :: "char \<Rightarrow> strmask option" where
  "mask_of_char c = mask_set_char mask_zap c True"

definition WVTCL_NASTY_SPACES_STR :: string where
  "WVTCL_NASTY_SPACES_STR = [CHR '' '', CHR 0x09, CHR 0x0A, CHR 0x0D]"

definition WVTCL_NASTY_NEWLINES_STR :: string where
  "WVTCL_NASTY_NEWLINES_STR = [CHR 0x0A, CHR 0x0D]"

definition WVTCL_SPLITCHARS_STR :: string where
  "WVTCL_SPLITCHARS_STR = [CHR '' '', CHR 0x09, CHR 0x0A, CHR 0x0D]"

definition WVTCL_NASTY_SPACES :: strmask where
  "WVTCL_NASTY_SPACES = the (mask_of_str (Some WVTCL_NASTY_SPACES_STR))"

definition WVTCL_NASTY_NEWLINES :: strmask where
  "WVTCL_NASTY_NEWLINES = the (mask_of_str (Some WVTCL_NASTY_NEWLINES_STR))"

definition WVTCL_SPLITCHARS :: strmask where
  "WVTCL_SPLITCHARS = the (mask_of_str (Some WVTCL_SPLITCHARS_STR))"

lemma mask_set_chars_eq:
  "\<forall>c \<in> set cs. mask_index_ok c \<Longrightarrow>
     mask_set_chars m cs v = Some (m\<lparr>sm_set := (\<lambda>c. if c \<in> set cs then v else sm_set m c)\<rparr>)"
proof (induction cs arbitrary: m)
  case (Cons c cs)
  have "(\<lambda>d. if d \<in> set cs then v else ((sm_set m)(c := v)) d) =
      (\<lambda>d. if d \<in> set (c # cs) then v else sm_set m d)"
    by auto
  moreover have "mask_set_chars m (c # cs) v =
      Some (m\<lparr>sm_set := (\<lambda>d. if d \<in> set cs then v else ((sm_set m)(c := v)) d)\<rparr>)"
    using Cons by simp
  ultimately show ?case by (simp only:)
qed simp

lemma mask_of_str_get:
  "\<forall>c \<in> set t. mask_index_ok c \<Longrightarrow>
     \<exists>m. mask_of_str (Some t) = Some m \<and> (\<forall>c. mask_get m c \<longleftrightarrow> c \<in> set t) \<and>
       mask_first m = (if t = [] then NUL else hd t)"
  by (auto simp: mask_of_str_def mask_set_str_def Let_def mask_zap_def mask_set_chars_eq mask_get_def
      mask_first_def)

lemma mask_of_str_undefined:
  "mask_of_str (Some t) = None \<longleftrightarrow> (\<exists>c \<in> set t. \<not> mask_index_ok c)"
proof -
  have "mask_set_chars m t v = None \<longleftrightarrow> (\<exists>c \<in> set t. \<not> mask_index_ok c)" for m v
    by (induction t arbitrary: m) auto
  then show ?thesis by (auto simp: mask_of_str_def mask_set_str_def Let_def)
qed

subsection \<open>Escaping\<close>

definition always_nasty :: "char \<Rightarrow> bool" where
  "always_nasty c \<longleftrightarrow> c = CHR ''{'' \<or> c = CHR ''}'' \<or> c = CHR 0x5C \<or> c = CHR 0x22"

definition is_nasty :: "strmask \<Rightarrow> char \<Rightarrow> bool" where
  "is_nasty nasties c \<longleftrightarrow> always_nasty c \<or> mask_get nasties c"

text \<open>The first pass over the characters: it decides between the three forms and counts.\<close>

record escape_scan =
  es_len :: nat
  es_unprintables :: nat
  es_bracecount :: int
  es_backslashify :: bool
  es_inescape :: bool

definition escape_scan_init :: escape_scan where
  "escape_scan_init = \<lparr>es_len = 0, es_unprintables = 0, es_bracecount = 0,
     es_backslashify = False, es_inescape = False\<rparr>"

definition escape_scan_step :: "strmask \<Rightarrow> escape_scan \<Rightarrow> char \<Rightarrow> escape_scan" where
  "escape_scan_step nasties st c =
     (let bc = (if \<not> es_inescape st \<and> c = CHR ''{'' then es_bracecount st + 1
                else if \<not> es_inescape st \<and> c = CHR ''}'' then es_bracecount st - 1
                else es_bracecount st)
      in \<lparr>es_len = es_len st + 1,
          es_unprintables = es_unprintables st + (if is_nasty nasties c then 1 else 0),
          es_bracecount = bc,
          es_backslashify = (es_backslashify st \<or> bc < 0),
          es_inescape = (if c = CHR 0x5C then \<not> es_inescape st else False)\<rparr>)"

definition escape_scan_all :: "strmask \<Rightarrow> string \<Rightarrow> escape_scan" where
  "escape_scan_all nasties s = foldl (escape_scan_step nasties) escape_scan_init s"

definition needs_backslash :: "strmask \<Rightarrow> string \<Rightarrow> bool" where
  "needs_backslash nasties s =
     (let st = escape_scan_all nasties s
      in es_backslashify st \<or> es_bracecount st \<noteq> 0 \<or> es_inescape st)"

definition escape_verbatim :: "strmask \<Rightarrow> string \<Rightarrow> bool" where
  "escape_verbatim nasties s \<longleftrightarrow>
     s \<noteq> [] \<and> \<not> needs_backslash nasties s \<and> es_unprintables (escape_scan_all nasties s) = 0"

text \<open>The size the null-destination pass returns.\<close>

definition tcl_escape_size :: "strmask \<Rightarrow> wvstring \<Rightarrow> nat" where
  "tcl_escape_size nasties s =
     (case s of
        None \<Rightarrow> 0
      | Some t \<Rightarrow>
          if t = [] then 2
          else let st = escape_scan_all nasties t
               in if \<not> needs_backslash nasties t \<and> es_unprintables st = 0 then es_len st
                  else if needs_backslash nasties t then es_len st + es_unprintables st
                  else es_len st + 2)"

text \<open>The bytes the second pass writes.\<close>

fun backslashify_chars :: "strmask \<Rightarrow> string \<Rightarrow> string" where
  "backslashify_chars nasties [] = []"
| "backslashify_chars nasties (c # s) =
     (if is_nasty nasties c then [CHR 0x5C, c] else [c]) @ backslashify_chars nasties s"

definition tcl_escape_write :: "strmask \<Rightarrow> wvstring \<Rightarrow> string" where
  "tcl_escape_write nasties s =
     (case s of
        None \<Rightarrow> []
      | Some t \<Rightarrow>
          if t = [] then ''{}''
          else if \<not> needs_backslash nasties t \<and> es_unprintables (escape_scan_all nasties t) = 0
          then t
          else if needs_backslash nasties t then backslashify_chars nasties t
          else CHR ''{'' # t @ ''}'')"

definition wvtcl_escape :: "wvstring \<Rightarrow> strmask \<Rightarrow> wvstring" where
  "wvtcl_escape s nasties =
     (if (case s of None \<Rightarrow> False | Some t \<Rightarrow> escape_verbatim nasties t) then s
      else Some (tcl_escape_write nasties s))"

subsection \<open>Unescaping\<close>

fun unbackslash :: "bool \<Rightarrow> string \<Rightarrow> string" where
  "unbackslash inescape [] = []"
| "unbackslash inescape (c # s) =
     (if c = CHR 0x5C
      then (if inescape then c # unbackslash False s else unbackslash True s)
      else c # unbackslash False s)"

text \<open>\<open>None\<close>: for the one-character string of a double quote, \<open>++start; --end\<close> crosses the
  pointers over and the loop runs out of the string.\<close>

definition tcl_unescape_core :: "string \<Rightarrow> string option" where
  "tcl_unescape_core s =
     (if s = [] then Some []
      else if hd s = CHR ''{'' \<and> last s = CHR ''}'' then Some (butlast (tl s))
      else if hd s = CHR 0x22 \<and> last s = CHR 0x22
      then (if length s = 1 then None else Some (unbackslash False (butlast (tl s))))
      else Some (unbackslash False s))"

definition wvtcl_unescape :: "wvstring \<Rightarrow> wvstring option" where
  "wvtcl_unescape s =
     (case s of None \<Rightarrow> Some None | Some t \<Rightarrow> map_option Some (tcl_unescape_core t))"

subsection \<open>Encoding a list\<close>

fun encode_join :: "strmask \<Rightarrow> char \<Rightarrow> wvstring list \<Rightarrow> string" where
  "encode_join nasties sep [] = []"
| "encode_join nasties sep [s] = tcl_escape_write nasties s"
| "encode_join nasties sep (s # ss) = tcl_escape_write nasties s @ sep # encode_join nasties sep ss"

definition wvtcl_encode :: "wvstring list \<Rightarrow> strmask \<Rightarrow> strmask \<Rightarrow> string" where
  "wvtcl_encode l nasties splitchars = encode_join nasties (mask_first splitchars) l"

text \<open>The size \<open>wvtcl_encode\<close> computes before it writes, without the terminating byte.\<close>

definition encode_size :: "strmask \<Rightarrow> wvstring list \<Rightarrow> nat" where
  "encode_size nasties l = sum_list (map (tcl_escape_size nasties) l) + (length l - 1)"

subsection \<open>Getting a word\<close>

text \<open>The scan of \<open>wvtcl_getword\<close> from \<open>eptr\<close> on: the position where it stops, and the
  flags there.  \<open>inquote\<close> is set before the loop and never cleared.\<close>

primrec getword_loop :: "strmask \<Rightarrow> bool \<Rightarrow> string \<Rightarrow> nat \<Rightarrow> bool \<Rightarrow> int \<Rightarrow> bool
    \<Rightarrow> nat \<times> bool \<times> int \<times> bool" where
  "getword_loop splitchars inquote [] pos inescape bracecount incont =
     (pos, inescape, bracecount, incont)"
| "getword_loop splitchars inquote (ch # rest) pos inescape bracecount incont =
     (if inescape
      then getword_loop splitchars inquote rest (pos + 1) False bracecount (ch = CHR 0x0A)
      else if ch = CHR 0x5C
      then getword_loop splitchars inquote rest (pos + 1) True bracecount False
      else if bracecount = 0 \<and> inquote \<and> ch = CHR 0x22
      then (pos + 1, False, bracecount, False)
      else if bracecount = 0 \<and> \<not> inquote \<and> mask_get splitchars ch
      then (pos, False, bracecount, False)
      else getword_loop splitchars inquote rest (pos + 1) False
             (if \<not> inquote \<and> ch = CHR ''{'' then bracecount + 1
              else if \<not> inquote \<and> bracecount > 0 \<and> ch = CHR ''}'' then bracecount - 1
              else bracecount) False)"

text \<open>The raw word and the offset of its end, or nothing.\<close>

definition getword_core :: "strmask \<Rightarrow> string \<Rightarrow> (string \<times> nat) option" where
  "getword_core splitchars s =
     (let skipped = takeWhile (mask_get splitchars) s;
          sptr = dropWhile (mask_get splitchars) s
      in if sptr = [] then None
         else let inquote = (hd sptr = CHR 0x22);
                  start = (if inquote then 1 else 0);
                  (len, inescape, bracecount, incont) =
                    getword_loop splitchars inquote (drop start sptr) start False 0 False
              in if bracecount \<noteq> 0 \<or> len = 0 \<or> inquote \<or> inescape \<or> incont then None
                 else Some (take len sptr, length skipped + len))"

datatype getword_result = NoWord | Word string nat | Undefined

definition tcl_getword :: "strmask \<Rightarrow> bool \<Rightarrow> string \<Rightarrow> getword_result" where
  "tcl_getword splitchars do_unescape s =
     (case getword_core splitchars s of
        None \<Rightarrow> NoWord
      | Some (w, e) \<Rightarrow>
          if do_unescape
          then (case tcl_unescape_core w of None \<Rightarrow> Undefined | Some u \<Rightarrow> Word u e)
          else Word w e)"

text \<open>\<open>wvtcl_getword\<close> on a buffer: the word and the bytes that stay in the buffer.\<close>

definition wvtcl_getword :: "string \<Rightarrow> strmask \<Rightarrow> bool \<Rightarrow> (wvstring \<times> string) option" where
  "wvtcl_getword buf splitchars do_unescape =
     (case tcl_getword splitchars do_unescape buf of
        NoWord \<Rightarrow> Some (None, buf)
      | Word w e \<Rightarrow> Some (Some w, drop e buf)
      | Undefined \<Rightarrow> None)"

lemma getword_core_pos:
  assumes "getword_core splitchars s = Some (w, e)"
  shows "0 < e" "s \<noteq> []"
  using assms by (auto simp: getword_core_def Let_def split: if_splits prod.splits)

text \<open>\<open>wvtcl_decode\<close>: words are taken until there is none.\<close>

function decode_loop :: "strmask \<Rightarrow> bool \<Rightarrow> string \<Rightarrow> string list option" where
  "decode_loop splitchars do_unescape s =
     (case tcl_getword splitchars do_unescape s of
        NoWord \<Rightarrow> Some []
      | Undefined \<Rightarrow> None
      | Word w e \<Rightarrow> map_option ((#) w) (decode_loop splitchars do_unescape (drop e s)))"
  by pat_completeness auto
termination
proof (relation "measure (\<lambda>(m, d, s). length s)", goal_cases)
  case (2 splitchars do_unescape s w e)
  then obtain v where "getword_core splitchars s = Some (v, e)"
    by (auto simp: tcl_getword_def split: option.splits if_splits)
  then have "0 < e" "s \<noteq> []" by (rule getword_core_pos)+
  then show ?case by simp
qed simp

declare decode_loop.simps [simp del]

definition wvtcl_decode :: "wvstring \<Rightarrow> strmask \<Rightarrow> bool \<Rightarrow> string list option" where
  "wvtcl_decode s splitchars do_unescape =
     decode_loop splitchars do_unescape (case s of None \<Rightarrow> [] | Some t \<Rightarrow> t)"

subsection \<open>The size pass agrees with the write pass\<close>

lemma foldl_scan_counts:
  "es_len (foldl (escape_scan_step n) st s) = es_len st + length s"
  "es_unprintables (foldl (escape_scan_step n) st s) =
     es_unprintables st + length (filter (is_nasty n) s)"
  by (induction s arbitrary: st) (auto simp: escape_scan_step_def Let_def)

lemma scan_counts:
  "es_len (escape_scan_all n s) = length s"
  "es_unprintables (escape_scan_all n s) = length (filter (is_nasty n) s)"
  by (simp_all add: escape_scan_all_def foldl_scan_counts escape_scan_init_def)

lemma length_backslashify: "length (backslashify_chars n s) = length s + length (filter (is_nasty n) s)"
  by (induction s) auto

lemma escape_size_write: "length (tcl_escape_write n s) = tcl_escape_size n s"
  by (auto simp: tcl_escape_write_def tcl_escape_size_def Let_def scan_counts length_backslashify
      split: option.splits)

lemma encode_size_write: "length (wvtcl_encode l n m) = encode_size n l"
  by (induction n "mask_first m" l rule: encode_join.induct)
     (auto simp: wvtcl_encode_def encode_size_def escape_size_write)

subsection \<open>Unescaping inverts escaping\<close>

lemma is_nasty_special:
  "\<not> is_nasty n c \<Longrightarrow> c \<noteq> CHR 0x5C \<and> c \<noteq> CHR 0x22 \<and> c \<noteq> CHR ''{'' \<and> c \<noteq> CHR ''}''"
  by (auto simp: is_nasty_def always_nasty_def)

lemma unbackslash_plain: "\<forall>c \<in> set s. c \<noteq> CHR 0x5C \<Longrightarrow> unbackslash False s = s"
  by (induction s) auto

lemma unbackslash_backslashify: "unbackslash False (backslashify_chars n s) = s"
  by (induction s) (auto dest: is_nasty_special)

lemma backslashify_hd:
  "s \<noteq> [] \<Longrightarrow> hd (backslashify_chars n s) = CHR 0x5C \<or> \<not> is_nasty n (hd (backslashify_chars n s))"
  by (cases s) auto

lemma backslashify_Nil [simp]: "backslashify_chars n s = [] \<longleftrightarrow> s = []"
  by (cases s) auto

lemma unescape_write: "tcl_unescape_core (tcl_escape_write n (Some t)) = Some t"
proof -
  consider (empty) "t = []"
    | (verbatim) "t \<noteq> []" "\<not> needs_backslash n t" "filter (is_nasty n) t = []"
    | (slash) "t \<noteq> []" "needs_backslash n t"
    | (brace) "t \<noteq> []" "\<not> needs_backslash n t" "filter (is_nasty n) t \<noteq> []"
    by blast
  then show ?thesis
  proof cases
    case empty
    then show ?thesis by (simp add: tcl_escape_write_def tcl_unescape_core_def)
  next
    case verbatim
    then have "\<forall>c \<in> set t. \<not> is_nasty n c" by (simp add: filter_empty_conv)
    then have c: "\<forall>c \<in> set t. c \<noteq> CHR 0x5C \<and> c \<noteq> CHR 0x22 \<and> c \<noteq> CHR ''{''"
      using is_nasty_special by blast
    then have "hd t \<noteq> CHR ''{''" "hd t \<noteq> CHR 0x22" using verbatim(1) by (metis hd_in_set)+
    then show ?thesis using verbatim c
      by (simp add: tcl_escape_write_def tcl_unescape_core_def scan_counts unbackslash_plain)
  next
    case slash
    then have "hd (backslashify_chars n t) \<noteq> CHR ''{''" "hd (backslashify_chars n t) \<noteq> CHR 0x22"
      using backslashify_hd [of t n] is_nasty_special by fastforce+
    then show ?thesis using slash
      by (simp add: tcl_escape_write_def tcl_unescape_core_def unbackslash_backslashify)
  next
    case brace
    then have "tcl_escape_write n (Some t) = CHR ''{'' # t @ ''}''"
      by (simp add: tcl_escape_write_def scan_counts)
    then show ?thesis by (simp add: tcl_unescape_core_def)
  qed
qed

lemma unescape_escape: "wvtcl_unescape (wvtcl_escape (Some t) n) = Some (Some t)"
proof -
  have "wvtcl_escape (Some t) n = Some (tcl_escape_write n (Some t))"
    by (auto simp: wvtcl_escape_def escape_verbatim_def tcl_escape_write_def)
  then show ?thesis by (simp add: wvtcl_unescape_def unescape_write)
qed

subsection \<open>Scanning an escaped word\<close>

text \<open>The masks a list is encoded and decoded with: every separator is a nasty character and
  none is one of the four special characters.\<close>

definition tcl_masks_ok :: "strmask \<Rightarrow> strmask \<Rightarrow> bool" where
  "tcl_masks_ok nasties splitchars \<longleftrightarrow>
     (\<forall>c. mask_get splitchars c \<longrightarrow> mask_get nasties c \<and> \<not> always_nasty c) \<and>
     mask_get splitchars (mask_first splitchars)"

lemma getword_loop_stop:
  "r = [] \<or> mask_get m (hd r) \<and> \<not> always_nasty (hd r) \<Longrightarrow> (r = [] \<longrightarrow> \<not> inc) \<Longrightarrow>
     getword_loop m False r pos False 0 inc = (pos, False, 0, False)"
  by (cases r) (auto simp: always_nasty_def)

lemma getword_loop_plain:
  "\<forall>c \<in> set s. \<not> is_nasty n c \<and> \<not> mask_get m c \<Longrightarrow> \<not> inc \<Longrightarrow>
     getword_loop m False (s @ r) pos False 0 inc = getword_loop m False r (pos + length s) False 0 False"
  by (induction s arbitrary: pos inc) (auto dest!: is_nasty_special)

lemma scan_backslashify_mono:
  "es_backslashify st \<Longrightarrow> es_backslashify (foldl (escape_scan_step n) st s)"
  by (induction s arbitrary: st) (auto simp: escape_scan_step_def Let_def)

lemma getword_loop_braced:
  assumes "\<not> es_backslashify (foldl (escape_scan_step n) st s)" "es_bracecount st \<ge> 0"
  shows "\<exists>inc'. getword_loop m False (s @ r) pos (es_inescape st) (1 + es_bracecount st) inc =
     getword_loop m False r (pos + length s) (es_inescape (foldl (escape_scan_step n) st s))
       (1 + es_bracecount (foldl (escape_scan_step n) st s)) inc'"
  using assms
proof (induction s arbitrary: st pos inc)
  case Nil
  then show ?case by auto
next
  case (Cons c s)
  define st' where "st' = escape_scan_step n st c"
  have nb: "\<not> es_backslashify (foldl (escape_scan_step n) st' s)" using Cons.prems by (simp add: st'_def)
  then have "\<not> es_backslashify st'" using scan_backslashify_mono by blast
  then have bc: "es_bracecount st' \<ge> 0" by (simp add: st'_def escape_scan_step_def Let_def)
  define i where "i = (es_inescape st \<and> c = CHR 0x0A)"
  have "getword_loop m False ((c # s) @ r) pos (es_inescape st) (1 + es_bracecount st) inc =
      getword_loop m False (s @ r) (pos + 1) (es_inescape st') (1 + es_bracecount st') i"
    using Cons.prems(2) unfolding i_def by (auto simp: st'_def escape_scan_step_def Let_def)
  moreover obtain j where "getword_loop m False (s @ r) (pos + 1) (es_inescape st')
      (1 + es_bracecount st') i = getword_loop m False r (pos + 1 + length s)
       (es_inescape (foldl (escape_scan_step n) st' s))
       (1 + es_bracecount (foldl (escape_scan_step n) st' s)) j"
    using Cons.IH [OF nb bc] by blast
  ultimately show ?case by (auto simp: st'_def)
qed

lemma getword_loop_slashed:
  assumes "\<forall>c. mask_get m c \<longrightarrow> is_nasty n c"
  shows "getword_loop m False (backslashify_chars n s @ r) pos False 0 inc =
    getword_loop m False r (pos + length (backslashify_chars n s)) False 0
      (if s = [] then inc else last s = CHR 0x0A \<and> is_nasty n (CHR 0x0A))"
proof (induction s arbitrary: pos inc)
  case (Cons c s)
  show ?case
  proof (cases "is_nasty n c")
    case True
    then show ?thesis by (cases "c = CHR 0x0A") (simp_all add: Cons.IH)
  next
    case False
    then have "\<not> mask_get m c" using assms by blast
    then show ?thesis using False is_nasty_special [OF False]
      by (cases "c = CHR 0x0A") (simp_all add: Cons.IH)
  qed
qed simp

text \<open>The one exception to the scan: a last word in backslash form that ends with a newline.\<close>

definition open_continuation :: "strmask \<Rightarrow> string \<Rightarrow> bool" where
  "open_continuation nasties t \<longleftrightarrow>
     t \<noteq> [] \<and> needs_backslash nasties t \<and> last t = CHR 0x0A \<and> is_nasty nasties (CHR 0x0A)"

lemma write_first:
  assumes "tcl_masks_ok n m"
  shows "tcl_escape_write n (Some t) \<noteq> []"
    "\<not> mask_get m (hd (tcl_escape_write n (Some t)))"
    "hd (tcl_escape_write n (Some t)) \<noteq> CHR 0x22"
proof -
  have m: "mask_get m c \<Longrightarrow> is_nasty n c \<and> \<not> always_nasty c" for c
    using assms by (auto simp: tcl_masks_ok_def is_nasty_def)
  consider (empty) "t = []"
    | (verbatim) "t \<noteq> []" "\<not> needs_backslash n t" "filter (is_nasty n) t = []"
    | (slash) "t \<noteq> []" "needs_backslash n t"
    | (brace) "t \<noteq> []" "\<not> needs_backslash n t" "filter (is_nasty n) t \<noteq> []"
    by blast
  then have "tcl_escape_write n (Some t) \<noteq> [] \<and>
      (hd (tcl_escape_write n (Some t)) = CHR ''{'' \<or> hd (tcl_escape_write n (Some t)) = CHR 0x5C \<or>
       \<not> is_nasty n (hd (tcl_escape_write n (Some t))))"
  proof cases
    case verbatim
    then have "\<not> is_nasty n (hd t)" by (simp add: filter_empty_conv)
    then show ?thesis using verbatim by (simp add: tcl_escape_write_def scan_counts)
  qed (use backslashify_hd [of t n] in
        \<open>auto simp: tcl_escape_write_def scan_counts filter_empty_conv\<close>)
  then show "tcl_escape_write n (Some t) \<noteq> []"
    "\<not> mask_get m (hd (tcl_escape_write n (Some t)))"
    "hd (tcl_escape_write n (Some t)) \<noteq> CHR 0x22"
    using m is_nasty_special by (fastforce simp: always_nasty_def)+
qed

lemma getword_loop_write:
  assumes ok: "tcl_masks_ok n m" and r: "r = [] \<or> mask_get m (hd r)"
    and cont: "r = [] \<Longrightarrow> \<not> open_continuation n t"
  shows "getword_loop m False (tcl_escape_write n (Some t) @ r) 0 False 0 False =
    (length (tcl_escape_write n (Some t)), False, 0, False)"
proof -
  have m: "\<forall>c. mask_get m c \<longrightarrow> is_nasty n c" and nm: "\<And>c. mask_get m c \<Longrightarrow> \<not> always_nasty c"
    using ok by (auto simp: tcl_masks_ok_def is_nasty_def)
  have r': "r = [] \<or> mask_get m (hd r) \<and> \<not> always_nasty (hd r)" using r nm by blast
  note stop = getword_loop_stop [OF r']
  consider (empty) "t = []"
    | (verbatim) "t \<noteq> []" "\<not> needs_backslash n t" "filter (is_nasty n) t = []"
    | (slash) "t \<noteq> []" "needs_backslash n t"
    | (brace) "t \<noteq> []" "\<not> needs_backslash n t" "filter (is_nasty n) t \<noteq> []"
    by blast
  then show ?thesis
  proof cases
    case empty
    have "\<not> mask_get m (CHR ''{'')" using nm by (auto simp: always_nasty_def)
    then show ?thesis using empty stop by (simp add: tcl_escape_write_def)
  next
    case verbatim
    then have "\<forall>c \<in> set t. \<not> is_nasty n c \<and> \<not> mask_get m c" using m by (auto simp: filter_empty_conv)
    then have "getword_loop m False (t @ r) 0 False 0 False = (length t, False, 0, False)"
      using getword_loop_plain [of t n m False r 0] stop by simp
    then show ?thesis using verbatim by (simp add: tcl_escape_write_def scan_counts)
  next
    case slash
    then show ?thesis using stop cont
      by (simp add: tcl_escape_write_def getword_loop_slashed [OF m] open_continuation_def)
  next
    case brace
    have nb: "\<not> es_backslashify (escape_scan_all n t)" "es_bracecount (escape_scan_all n t) = 0"
      "\<not> es_inescape (escape_scan_all n t)"
      using brace by (auto simp: needs_backslash_def Let_def)
    have "\<not> mask_get m (CHR ''{'')" using nm by (auto simp: always_nasty_def)
    moreover obtain i where "getword_loop m False (t @ CHR ''}'' # r) 1 False 1 False =
        getword_loop m False (CHR ''}'' # r) (1 + length t) False 1 i"
      using getword_loop_braced [of n escape_scan_init t m "CHR ''}'' # r" 1 False] nb
      by (auto simp: escape_scan_all_def escape_scan_init_def)
    moreover have "tcl_escape_write n (Some t) = CHR ''{'' # t @ ''}''"
      using brace by (simp add: tcl_escape_write_def scan_counts)
    ultimately show ?thesis using stop by simp
  qed
qed

lemma getword_write:
  assumes ok: "tcl_masks_ok n m" and r: "r = [] \<or> mask_get m (hd r)"
    and cont: "r = [] \<Longrightarrow> \<not> open_continuation n t" and u: "\<forall>c \<in> set u. mask_get m c"
  shows "tcl_getword m True (u @ tcl_escape_write n (Some t) @ r) =
    Word t (length u + length (tcl_escape_write n (Some t)))"
proof -
  let ?w = "tcl_escape_write n (Some t)"
  note f = write_first [OF ok, of t]
  have "takeWhile (mask_get m) (u @ ?w @ r) = u" "dropWhile (mask_get m) (u @ ?w @ r) = ?w @ r"
    using u f by (auto simp: takeWhile_append dropWhile_append takeWhile_eq_Nil_iff dropWhile_eq_self_iff)
  then have "getword_core m (u @ ?w @ r) = Some (?w, length u + length ?w)"
    using f getword_loop_write [OF ok r cont] by (simp add: getword_core_def Let_def)
  then show ?thesis by (simp add: tcl_getword_def unescape_write)
qed

subsection \<open>Decoding inverts encoding\<close>

lemma decode_encode_from:
  assumes ok: "tcl_masks_ok n m"
  shows "(l \<noteq> [] \<longrightarrow> \<not> open_continuation n (last l)) \<Longrightarrow> \<forall>c \<in> set u. mask_get m c \<Longrightarrow>
    decode_loop m True (u @ encode_join n (mask_first m) (map Some l)) = Some l"
proof (induction l arbitrary: u)
  case Nil
  then have "getword_core m u = None" by (simp add: getword_core_def Let_def dropWhile_eq_Nil_conv)
  then show ?case by (subst decode_loop.simps) (simp add: tcl_getword_def)
next
  case (Cons t l)
  let ?w = "tcl_escape_write n (Some t)"
  define r where "r = (if l = [] then [] else mask_first m # encode_join n (mask_first m) (map Some l))"
  have enc: "encode_join n (mask_first m) (map Some (t # l)) = ?w @ r"
    by (cases l) (auto simp: r_def)
  have r1: "r = [] \<or> mask_get m (hd r)" using ok by (auto simp: r_def tcl_masks_ok_def)
  have r2: "\<not> open_continuation n t" if "r = []"
    using that Cons.prems by (auto simp: r_def split: if_splits)
  have g: "tcl_getword m True (u @ ?w @ r) = Word t (length u + length ?w)"
    using getword_write [OF ok r1 r2 Cons.prems(2)] .
  have "decode_loop m True r = Some l"
  proof (cases "l = []")
    case True
    then show ?thesis using Cons.IH [of "[]"] by (simp add: r_def)
  next
    case False
    then show ?thesis using Cons.IH [of "[mask_first m]"] Cons.prems ok
      by (simp add: r_def tcl_masks_ok_def)
  qed
  then show ?case unfolding enc by (subst decode_loop.simps) (simp add: g)
qed

subsection \<open>The default masks\<close>

lemma mask_get_the:
  assumes "\<forall>c \<in> set t. mask_index_ok c"
  shows "mask_get (the (mask_of_str (Some t))) c \<longleftrightarrow> c \<in> set t"
    "mask_first (the (mask_of_str (Some t))) = (if t = [] then NUL else hd t)"
proof -
  obtain m where "mask_of_str (Some t) = Some m" "\<forall>c. mask_get m c \<longleftrightarrow> c \<in> set t"
    "mask_first m = (if t = [] then NUL else hd t)"
    using mask_of_str_get [OF assms] by blast
  then show "mask_get (the (mask_of_str (Some t))) c \<longleftrightarrow> c \<in> set t"
    "mask_first (the (mask_of_str (Some t))) = (if t = [] then NUL else hd t)"
    by (simp_all only: option.sel)
qed

lemma mask_index_ok_ascii: "list_all (\<lambda>c. (code_of c :: nat) < 128) t \<Longrightarrow> \<forall>c \<in> set t. mask_index_ok c"
  by (auto simp: mask_index_ok_def list_all_iff)

lemma default_strings_ok:
  "\<forall>c \<in> set WVTCL_NASTY_SPACES_STR. mask_index_ok c"
  "\<forall>c \<in> set WVTCL_NASTY_NEWLINES_STR. mask_index_ok c"
  "\<forall>c \<in> set WVTCL_SPLITCHARS_STR. mask_index_ok c"
  unfolding WVTCL_NASTY_SPACES_STR_def WVTCL_NASTY_NEWLINES_STR_def WVTCL_SPLITCHARS_STR_def
  by (rule mask_index_ok_ascii, code_simp)+

lemma default_masks_get:
  "mask_get WVTCL_NASTY_SPACES c \<longleftrightarrow> c \<in> set WVTCL_NASTY_SPACES_STR"
  "mask_get WVTCL_NASTY_NEWLINES c \<longleftrightarrow> c \<in> set WVTCL_NASTY_NEWLINES_STR"
  "mask_get WVTCL_SPLITCHARS c \<longleftrightarrow> c \<in> set WVTCL_SPLITCHARS_STR"
  "mask_first WVTCL_SPLITCHARS = hd WVTCL_SPLITCHARS_STR"
  unfolding WVTCL_NASTY_SPACES_def WVTCL_NASTY_NEWLINES_def WVTCL_SPLITCHARS_def
     apply (rule mask_get_the(1) [OF default_strings_ok(1)])
    apply (rule mask_get_the(1) [OF default_strings_ok(2)])
   apply (rule mask_get_the(1) [OF default_strings_ok(3)])
  apply (simp only: mask_get_the(2) [OF default_strings_ok(3)])
  apply (simp add: WVTCL_SPLITCHARS_STR_def)
  done

lemma default_masks_ok: "tcl_masks_ok WVTCL_NASTY_SPACES WVTCL_SPLITCHARS"
  unfolding tcl_masks_ok_def default_masks_get
  by (auto simp: WVTCL_NASTY_SPACES_STR_def WVTCL_SPLITCHARS_STR_def
      always_nasty_def)

end
