(* ===== verification/WvEncoder.thy ===== *)
theory WvEncoder
  imports WvString
begin

text \<open>
  The encoder base class and the encoder chain (\<open>utils/wvencoder.cc\<close>,
  \<open>include/wvencoder.h\<close>).  An encoder is the base-class fields with the state of its
  subclass; the virtual methods of the subclass are a record of functions, as in a
  vtable.  A buffer is the list of its bytes, and an output buffer grows without limit, as
  a \<open>WvDynBuf\<close> does.  The locales state what the rest of the code expects of an encoder:
  that it only appends, and that it does not matter how its input is cut into pieces.
\<close>

record 'i encoder =
  e_okay :: bool
  e_finished :: bool
  e_errstr :: wvstring
  e_impl :: 'i

text \<open>The result of \<open>_encode\<close>: the encoder, what is left of the input buffer, the output
  buffer, and success.\<close>

type_synonym 'i encoded = "'i encoder \<times> string \<times> string \<times> bool"

record 'i enc_vtable =
  v_encode :: "'i encoder \<Rightarrow> string \<Rightarrow> string \<Rightarrow> bool \<Rightarrow> 'i encoded"
  v_finish :: "'i encoder \<Rightarrow> string \<Rightarrow> 'i encoder \<times> string \<times> bool"
  v_reset :: "'i encoder \<Rightarrow> 'i encoder \<times> bool"
  v_isok :: "'i encoder \<Rightarrow> bool"
  v_isfinished :: "'i encoder \<Rightarrow> bool"
  v_geterror :: "'i encoder \<Rightarrow> wvstring"

subsection \<open>The base class\<close>

definition enc_new :: "'i \<Rightarrow> 'i encoder" where
  "enc_new i = \<lparr>e_okay = True, e_finished = False, e_errstr = None, e_impl = i\<rparr>"

definition default_finish :: "'i encoder \<Rightarrow> string \<Rightarrow> 'i encoder \<times> string \<times> bool" where
  "default_finish e outb = (e, outb, True)"

definition default_isok :: "'i encoder \<Rightarrow> bool" where
  "default_isok e = True"

definition default_isfinished :: "'i encoder \<Rightarrow> bool" where
  "default_isfinished e = False"

definition default_geterror :: "'i encoder \<Rightarrow> wvstring" where
  "default_geterror e = None"

definition default_reset :: "'i encoder \<Rightarrow> 'i encoder \<times> bool" where
  "default_reset e = (e, False)"

definition enc_setnotok :: "'i encoder \<Rightarrow> 'i encoder" where
  "enc_setnotok e = e\<lparr>e_okay := False\<rparr>"

definition enc_seterror :: "'i encoder \<Rightarrow> wvstring \<Rightarrow> 'i encoder" where
  "enc_seterror e message = enc_setnotok (e\<lparr>e_errstr := message\<rparr>)"

definition enc_setfinished :: "'i encoder \<Rightarrow> 'i encoder" where
  "enc_setfinished e = e\<lparr>e_finished := True\<rparr>"

definition enc_isok :: "'i enc_vtable \<Rightarrow> 'i encoder \<Rightarrow> bool" where
  "enc_isok vt e \<longleftrightarrow> e_okay e \<and> v_isok vt e"

definition enc_isfinished :: "'i enc_vtable \<Rightarrow> 'i encoder \<Rightarrow> bool" where
  "enc_isfinished vt e \<longleftrightarrow> e_finished e \<or> v_isfinished vt e"

definition enc_geterror :: "'i enc_vtable \<Rightarrow> 'i encoder \<Rightarrow> wvstring" where
  "enc_geterror vt e =
     (if enc_isok vt e then None
      else if \<not> str_not (e_errstr e) then e_errstr e
      else if \<not> str_not (v_geterror vt e) then v_geterror vt e
      else Some ''unknown encoder error'')"

definition enc_finish :: "'i enc_vtable \<Rightarrow> 'i encoder \<Rightarrow> string \<Rightarrow> 'i encoder \<times> string \<times> bool" where
  "enc_finish vt e outb =
     (let success = (e_okay e \<and> \<not> e_finished e);
          (e1, out1, s1) = (if success then v_finish vt e outb else (e, outb, False))
      in (enc_setfinished e1, out1, s1))"

definition enc_encode :: "'i enc_vtable \<Rightarrow> 'i encoder \<Rightarrow> string \<Rightarrow> string \<Rightarrow> bool \<Rightarrow> bool \<Rightarrow> 'i encoded" where
  "enc_encode vt e inb outb flush do_finish =
     (let success = (e_okay e \<and> \<not> e_finished e \<and> (inb \<noteq> [] \<or> flush));
          (e1, in1, out1, s1) = (if success then v_encode vt e inb outb flush else (e, inb, outb, False))
      in if do_finish
         then let (e2, out2, s2) = enc_finish vt e1 out1 in (e2, in1, out2, s2 \<and> s1)
         else (e1, in1, out1, s1))"

definition enc_reset :: "'i enc_vtable \<Rightarrow> 'i encoder \<Rightarrow> 'i encoder \<times> bool" where
  "enc_reset vt e =
     (let (e1, success) = v_reset vt (e\<lparr>e_okay := True, e_finished := False, e_errstr := None\<rparr>)
      in (if \<not> success \<and> e_okay e1
          then enc_seterror e1 (Some ''reset not supported by encoder'') else e1, success))"

subsection \<open>The wrappers on strings and memory\<close>

text \<open>The bytes of a string buffer, and \<open>getstr\<close>, whose result ends at the first NUL.\<close>

definition str_bytes :: "wvstring \<Rightarrow> string" where
  "str_bytes s = (case s of None \<Rightarrow> [] | Some t \<Rightarrow> t)"

definition buf_getstr :: "string \<Rightarrow> wvstring" where
  "buf_getstr b = Some (takeWhile (\<lambda>c. c \<noteq> NUL) b)"

definition enc_flushstrbuf :: "'i enc_vtable \<Rightarrow> 'i encoder \<Rightarrow> wvstring \<Rightarrow> string \<Rightarrow> bool
    \<Rightarrow> 'i encoder \<times> string \<times> bool" where
  "enc_flushstrbuf vt e instr outb do_finish =
     (let (e1, in1, out1, s) = enc_encode vt e (str_bytes instr) outb True do_finish in (e1, out1, s))"

definition enc_encodebufstr :: "'i enc_vtable \<Rightarrow> 'i encoder \<Rightarrow> string \<Rightarrow> wvstring \<Rightarrow> bool \<Rightarrow> bool
    \<Rightarrow> ('i encoder \<times> string \<times> wvstring \<times> bool) option" where
  "enc_encodebufstr vt e inb outstr flush do_finish =
     (let (e1, in1, out1, s) = enc_encode vt e inb [] flush do_finish
      in map_option (\<lambda>r. (e1, in1, r, s)) (str_append outstr (buf_getstr out1)))"

definition enc_flushstrstr :: "'i enc_vtable \<Rightarrow> 'i encoder \<Rightarrow> wvstring \<Rightarrow> wvstring \<Rightarrow> bool
    \<Rightarrow> ('i encoder \<times> wvstring \<times> bool) option" where
  "enc_flushstrstr vt e instr outstr do_finish =
     (let (e1, in1, out1, s) = enc_encode vt e (str_bytes instr) [] True do_finish
      in map_option (\<lambda>r. (e1, r, s)) (str_append outstr (buf_getstr out1)))"

definition enc_strflushstr :: "'i enc_vtable \<Rightarrow> 'i encoder \<Rightarrow> wvstring \<Rightarrow> bool
    \<Rightarrow> ('i encoder \<times> wvstring) option" where
  "enc_strflushstr vt e instr do_finish =
     map_option (\<lambda>(e1, r, s). (e1, r)) (enc_flushstrstr vt e instr None do_finish)"

definition enc_strflushbuf :: "'i enc_vtable \<Rightarrow> 'i encoder \<Rightarrow> string \<Rightarrow> bool
    \<Rightarrow> ('i encoder \<times> string \<times> wvstring) option" where
  "enc_strflushbuf vt e inb do_finish =
     map_option (\<lambda>(e1, in1, r, s). (e1, in1, r)) (enc_encodebufstr vt e inb None True do_finish)"

definition enc_flushmembuf :: "'i enc_vtable \<Rightarrow> 'i encoder \<Rightarrow> string \<Rightarrow> string \<Rightarrow> bool
    \<Rightarrow> 'i encoder \<times> string \<times> bool" where
  "enc_flushmembuf vt e inmem outb do_finish =
     (let (e1, in1, out1, s) = enc_encode vt e inmem outb True do_finish in (e1, out1, s))"

text \<open>\<open>encodebufmem\<close> writes into \<open>outlen\<close> bytes of memory: the store of the output buffer
  asserts that there is room, so an output that does not fit is \<open>None\<close>.  The encoder is
  always flushed, whatever \<open>flush\<close> says.\<close>

definition enc_encodebufmem :: "'i enc_vtable \<Rightarrow> 'i encoder \<Rightarrow> string \<Rightarrow> nat \<Rightarrow> bool \<Rightarrow> bool
    \<Rightarrow> 'i encoded option" where
  "enc_encodebufmem vt e inb outlen flush do_finish =
     (let (e1, in1, out1, s) = enc_encode vt e inb [] True do_finish
      in if length out1 \<le> outlen then Some (e1, in1, out1, s) else None)"

definition enc_flushmemmem :: "'i enc_vtable \<Rightarrow> 'i encoder \<Rightarrow> string \<Rightarrow> nat \<Rightarrow> bool \<Rightarrow> 'i encoded option" where
  "enc_flushmemmem vt e inmem outlen do_finish = enc_encodebufmem vt e inmem outlen True do_finish"

definition enc_flushstrmem :: "'i enc_vtable \<Rightarrow> 'i encoder \<Rightarrow> wvstring \<Rightarrow> nat \<Rightarrow> bool \<Rightarrow> 'i encoded option" where
  "enc_flushstrmem vt e instr outlen do_finish =
     enc_encodebufmem vt e (str_bytes instr) outlen True do_finish"

definition enc_strflushmem :: "'i enc_vtable \<Rightarrow> 'i encoder \<Rightarrow> string \<Rightarrow> bool
    \<Rightarrow> ('i encoder \<times> string \<times> wvstring) option" where
  "enc_strflushmem vt e inmem do_finish = enc_strflushbuf vt e inmem do_finish"

subsection \<open>The null and the passthrough encoder\<close>

definition null_encode :: "'i encoder \<Rightarrow> string \<Rightarrow> string \<Rightarrow> bool \<Rightarrow> 'i encoded" where
  "null_encode e inb outb flush = (e, [], outb, True)"

definition null_reset :: "'i encoder \<Rightarrow> 'i encoder \<times> bool" where
  "null_reset e = (e, True)"

definition null_vtable :: "unit enc_vtable" where
  "null_vtable = \<lparr>v_encode = null_encode, v_finish = default_finish, v_reset = null_reset,
     v_isok = default_isok, v_isfinished = default_isfinished, v_geterror = default_geterror\<rparr>"

text \<open>The state of a passthrough encoder is the \<open>size_t\<close> number of bytes it has passed.\<close>

definition passthrough_encode :: "64 word encoder \<Rightarrow> string \<Rightarrow> string \<Rightarrow> bool \<Rightarrow> 64 word encoded" where
  "passthrough_encode e inb outb flush =
     (e\<lparr>e_impl := e_impl e + of_nat (length inb)\<rparr>, [], outb @ inb, True)"

definition passthrough_reset :: "64 word encoder \<Rightarrow> 64 word encoder \<times> bool" where
  "passthrough_reset e = (e\<lparr>e_impl := 0\<rparr>, True)"

definition passthrough_vtable :: "64 word enc_vtable" where
  "passthrough_vtable = \<lparr>v_encode = passthrough_encode, v_finish = default_finish,
     v_reset = passthrough_reset, v_isok = default_isok, v_isfinished = default_isfinished,
     v_geterror = default_geterror\<rparr>"

subsection \<open>The contract of an encoder\<close>

text \<open>
  What the base class and the chain rely on: \<open>_encode\<close> appends to the output without
  looking at it; when it succeeds without a flush it has drained its input; and a
  successful call on a first piece, followed by any call on the rest, is the call on both.
\<close>

locale stream_encoder =
  fixes vt :: "'i enc_vtable"
  assumes appends: "v_encode vt e inb outb flush =
      (let (e1, in1, out1, s) = v_encode vt e inb [] flush in (e1, in1, outb @ out1, s))"
    and drains: "v_encode vt e inb outb flush = (e1, in1, out1, True) \<Longrightarrow> in1 = []"
    and splits: "v_encode vt e a [] False = (e1, [], out1, True) \<Longrightarrow>
      v_encode vt e (a @ b) [] flush = v_encode vt e1 b out1 flush"

text \<open>Feeding an encoder piece by piece, stopping at the first failure.\<close>

primrec enc_feed :: "'i enc_vtable \<Rightarrow> 'i encoder \<Rightarrow> string list \<Rightarrow> string \<Rightarrow> 'i encoder \<times> string \<times> bool" where
  "enc_feed vt e [] outb = (e, outb, True)"
| "enc_feed vt e (c # cs) outb =
     (let (e1, in1, out1, s) = enc_encode vt e c outb False False
      in if s then enc_feed vt e1 cs out1 else (e1, out1, False))"

context stream_encoder
begin

lemma splits_out:
  assumes "v_encode vt e a outb False = (e1, [], out1, True)"
  shows "v_encode vt e (a @ b) outb flush = v_encode vt e1 b out1 flush"
proof -
  obtain o1 where o: "v_encode vt e a [] False = (e1, [], o1, True)" "out1 = outb @ o1"
    using assms appends [of e a outb False] by (auto simp: Let_def split: prod.splits)
  have "v_encode vt e (a @ b) outb flush =
      (let (e', i', o', s) = v_encode vt e1 b o1 flush in (e', i', outb @ o', s))"
    using appends [of e "a @ b" outb flush] splits [OF o(1)] by simp
  also have "\<dots> = v_encode vt e1 b out1 flush"
    using appends [of e1 b o1 flush] appends [of e1 b out1 flush] o(2)
    by (auto simp: Let_def split: prod.splits)
  finally show ?thesis .
qed

lemma feed_concat:
  "\<forall>c \<in> set cs. c \<noteq> [] \<Longrightarrow> c0 \<noteq> [] \<Longrightarrow> enc_feed vt e (c0 # cs) outb = (e', outb', True) \<Longrightarrow>
     enc_encode vt e (c0 @ concat cs) outb False False = (e', [], outb', True)"
proof (induction cs arbitrary: c0)
  case Nil
  then show ?case using drains
    by (auto simp: enc_encode_def split: if_splits prod.splits)
next
  case (Cons c cs)
  obtain e1 i1 o1 where 1: "enc_encode vt e c0 outb False False = (e1, i1, o1, True)"
    and r1: "enc_feed vt e1 (c # cs) o1 = (e', outb', True)"
    using Cons.prems(3) by (auto split: prod.splits if_splits simp del: enc_feed.simps(2)
        simp: enc_feed.simps(2) [of vt e c0])
  obtain e2 i2 o2 where 2: "enc_encode vt e1 c o1 False False = (e2, i2, o2, True)"
    and r2: "enc_feed vt e2 cs o2 = (e', outb', True)"
    using r1 by (auto split: prod.splits if_splits)
  have v1: "e_okay e" "\<not> e_finished e" "v_encode vt e c0 outb False = (e1, i1, o1, True)"
    using 1 by (auto simp: enc_encode_def split: if_splits)
  have v2: "v_encode vt e1 c o1 False = (e2, i2, o2, True)"
    using 2 by (auto simp: enc_encode_def split: if_splits)
  have "v_encode vt e (c0 @ c) outb False = (e2, i2, o2, True)"
    using splits_out [of e c0 outb e1 o1 c False] v1(3) drains [OF v1(3)] v2 by simp
  then have "enc_encode vt e (c0 @ c) outb False False = (e2, i2, o2, True)"
    using v1 Cons.prems(2) by (simp add: enc_encode_def)
  then have "enc_feed vt e ((c0 @ c) # cs) outb = (e', outb', True)" using r2 by simp
  from Cons.IH [OF _ _ this] Cons.prems show ?case by simp
qed

lemma encode_appends:
  "enc_encode vt e inb outb flush False =
     (let (e1, in1, out1, s) = enc_encode vt e inb [] flush False in (e1, in1, outb @ out1, s))"
  using appends [of e inb outb flush] by (auto simp: enc_encode_def Let_def split: prod.splits)

end

text \<open>An encoder whose \<open>_reset\<close> brings back the state it was made with.\<close>

locale resettable_encoder = stream_encoder vt for vt :: "'i enc_vtable" +
  fixes initial :: "'i \<Rightarrow> 'i"
  assumes resets: "v_reset vt e = (e\<lparr>e_impl := initial (e_impl e)\<rparr>, True)"
begin

lemma reset_new: "enc_reset vt e = (enc_new (initial (e_impl e)), True)"
  by (simp add: enc_reset_def resets enc_new_def)

lemma reset_encode:
  "enc_encode vt (fst (enc_reset vt e)) = enc_encode vt (enc_new (initial (e_impl e)))"
  by (simp add: reset_new)

end

interpretation null_enc: resettable_encoder null_vtable "\<lambda>_. ()"
  by unfold_locales (auto simp: null_vtable_def null_encode_def null_reset_def)

interpretation passthrough_enc: resettable_encoder passthrough_vtable "\<lambda>_. 0"
  by unfold_locales (auto simp: passthrough_vtable_def passthrough_encode_def passthrough_reset_def)

subsection \<open>Facts of the base class\<close>

lemma enc_finish_finished: "e_finished (fst (enc_finish vt e outb))"
  by (auto simp: enc_finish_def enc_setfinished_def Let_def split: prod.splits)

lemma enc_finish_twice:
  "enc_finish vt e outb = (e1, out1, s1) \<Longrightarrow> enc_finish vt e1 out1 = (e1, out1, False)"
  by (auto simp: enc_finish_def enc_setfinished_def Let_def split: prod.splits if_splits)

lemma enc_encode_after_finish:
  "enc_finish vt e outb = (e1, out1, s1) \<Longrightarrow> enc_encode vt e1 inb out1 flush False = (e1, inb, out1, False)"
  using enc_finish_finished [of vt e outb] by (simp add: enc_encode_def)

end
