(* ===== verification/WvHexBase64.thy ===== *)
theory WvHexBase64
  imports WvEncoder
begin

text \<open>
  The hexadecimal and the base 64 encoders and decoders (\<open>utils/wvhex.cc\<close>,
  \<open>utils/wvbase64.cc\<close>) as instances of the encoder base class.  Each decoder inverts its
  encoder; all four satisfy the contract of an encoder, so the input may be cut into
  pieces anywhere.
\<close>

text \<open>A byte read into an \<open>unsigned\<close>, the value of a \<open>char\<close>, which is signed, and the
  number an error message shows for it.\<close>

definition byte_word :: "char \<Rightarrow> 32 word" where
  "byte_word c = of_nat (code_of c)"

definition char_word :: "char \<Rightarrow> 32 word" where
  "char_word c = signed_take_bit 7 (of_nat (code_of c))"

subsection \<open>Hexadecimal\<close>

definition tohex :: "nat \<Rightarrow> nat \<Rightarrow> char" where
  "tohex digit alphabase = char_of ((if digit < 10 then 48 else alphabase) + digit)"

definition fromhex :: "char \<Rightarrow> int" where
  "fromhex digit =
     (if c_isdigit digit then int (code_of digit) - 48
      else if c_isupper digit then int (code_of digit) - 65 + 10
      else int (code_of digit) - 97 + 10)"

text \<open>The state of the encoder is \<open>alphabase\<close>.\<close>

definition hexenc_new :: "bool \<Rightarrow> nat encoder" where
  "hexenc_new use_uppercase = enc_new ((if use_uppercase then 65 else 97) - 10)"

definition hexenc_reset :: "nat encoder \<Rightarrow> nat encoder \<times> bool" where
  "hexenc_reset e = (e, True)"

primrec hexenc_loop :: "nat \<Rightarrow> string \<Rightarrow> string \<Rightarrow> string" where
  "hexenc_loop alphabase [] outb = outb"
| "hexenc_loop alphabase (byte # inb) outb =
     hexenc_loop alphabase inb
       (outb @ [tohex (code_of byte div 16) alphabase] @ [tohex (code_of byte mod 16) alphabase])"

definition hexenc_encode :: "nat encoder \<Rightarrow> string \<Rightarrow> string \<Rightarrow> bool \<Rightarrow> nat encoded" where
  "hexenc_encode e inb outb flush = (e, [], hexenc_loop (e_impl e) inb outb, True)"

definition hexenc_vtable :: "nat enc_vtable" where
  "hexenc_vtable = \<lparr>v_encode = hexenc_encode, v_finish = default_finish, v_reset = hexenc_reset,
     v_isok = default_isok, v_isfinished = default_isfinished, v_geterror = default_geterror\<rparr>"

record hexdec =
  hd_issecond :: bool
  hd_first :: int

definition hexdec_init :: hexdec where
  "hexdec_init = \<lparr>hd_issecond = False, hd_first = 0\<rparr>"

definition hexdec_new :: "hexdec encoder" where
  "hexdec_new = enc_new hexdec_init"

definition hexdec_reset :: "hexdec encoder \<Rightarrow> hexdec encoder \<times> bool" where
  "hexdec_reset e = (e\<lparr>e_impl := hexdec_init\<rparr>, True)"

definition hex_error :: "char \<Rightarrow> wvstring" where
  "hex_error ch = do_format ''invalid character '%s' in hex input'' [Some (string_of_signed (char_word ch))]"

text \<open>The loop returns the encoder, the rest of the input, the output, and whether it ended
  without an error.\<close>

primrec hexdec_loop :: "hexdec encoder \<Rightarrow> string \<Rightarrow> string \<Rightarrow> hexdec encoded" where
  "hexdec_loop e [] outb = (e, [], outb, True)"
| "hexdec_loop e (ch # inb) outb =
     (if c_isxdigit ch
      then (let digit = fromhex ch; st = e_impl e
            in if \<not> hd_issecond st
               then hexdec_loop (e\<lparr>e_impl := \<lparr>hd_issecond = True, hd_first = digit\<rparr>\<rparr>) inb outb
               else hexdec_loop (e\<lparr>e_impl := st\<lparr>hd_issecond := False\<rparr>\<rparr>) inb
                      (outb @ [char_of (nat (hd_first st * 16 + digit))]))
      else if c_isspace ch then hexdec_loop e inb outb
      else (enc_seterror e (hex_error ch), inb, outb, False))"

definition hexdec_encode :: "hexdec encoder \<Rightarrow> string \<Rightarrow> string \<Rightarrow> bool \<Rightarrow> hexdec encoded" where
  "hexdec_encode e inb outb flush =
     (let (e1, in1, out1, ended) = hexdec_loop e inb outb
      in if \<not> ended then (e1, in1, out1, False)
         else if flush \<and> hd_issecond (e_impl e1) then (e1, in1, out1, False)
         else (e1, in1, out1, True))"

definition hexdec_vtable :: "hexdec enc_vtable" where
  "hexdec_vtable = \<lparr>v_encode = hexdec_encode, v_finish = default_finish, v_reset = hexdec_reset,
     v_isok = default_isok, v_isfinished = default_isfinished, v_geterror = default_geterror\<rparr>"

text \<open>\<open>hexify\<close> gives the encoder \<open>2 * len + 1\<close> bytes and then writes the final NUL behind
  the output; \<open>unhexify\<close> gives the decoder half the length of the string.  The results are
  the bytes of memory written; \<open>None\<close> is a write without room.\<close>

definition hexify :: "string \<Rightarrow> string option" where
  "hexify ibuf =
     map_option (\<lambda>(e, i, out, s). out @ [NUL])
       (enc_flushmemmem hexenc_vtable (hexenc_new False) ibuf (length ibuf * 2 + 1) False)"

definition unhexify :: "string \<Rightarrow> string option" where
  "unhexify ibuf =
     map_option (\<lambda>(e, i, out, s). out)
       (enc_flushmemmem hexdec_vtable hexdec_new ibuf (length ibuf div 2) False)"

subsection \<open>Base 64\<close>

definition b64_alphabet :: string where
  "b64_alphabet = ''ABCDEFGHIJKLMNOPQRSTUVWXYZabcdefghijklmnopqrstuvwxyz0123456789+/='' @ [CHR 0x0A]"

definition b64_lookup :: "char \<Rightarrow> int" where
  "b64_lookup ch =
     (let c = int (code_of ch)
      in if c \<ge> 65 \<and> c \<le> 90 then c - 65
         else if c \<ge> 97 \<and> c \<le> 122 then c - 97 + 26
         else if c \<ge> 48 \<and> c \<le> 57 then c - 48 + 52
         else if ch = CHR ''+'' then 62
         else if ch = CHR ''/'' then 63
         else if ch = CHR ''='' then 64
         else if ch = CHR 0x0A \<or> ch = CHR '' '' \<or> ch = CHR 0x0D \<or> ch = CHR 0x09
                 \<or> ch = CHR 0x0C \<or> ch = CHR 0x0B then 65
         else - 1)"

definition alphabet_at :: "32 word \<Rightarrow> char" where
  "alphabet_at w = b64_alphabet ! unat w"

datatype b64_enc_state = ATBIT0 | ATBIT2 | ATBIT4

record b64enc =
  be_state :: b64_enc_state
  be_bits :: "32 word"

definition b64enc_init :: b64enc where
  "b64enc_init = \<lparr>be_state = ATBIT0, be_bits = 0\<rparr>"

definition b64enc_new :: "b64enc encoder" where
  "b64enc_new = enc_new b64enc_init"

definition b64enc_reset :: "b64enc encoder \<Rightarrow> b64enc encoder \<times> bool" where
  "b64enc_reset e = (e\<lparr>e_impl := b64enc_init\<rparr>, True)"

definition b64enc_step :: "b64enc \<Rightarrow> char \<Rightarrow> b64enc \<times> string" where
  "b64enc_step st byte =
     (let bits = push_bit 8 (be_bits st) OR byte_word byte
      in case be_state st of
           ATBIT0 \<Rightarrow> (\<lparr>be_state = ATBIT2, be_bits = bits AND 0x03\<rparr>, [alphabet_at (drop_bit 2 bits)])
         | ATBIT2 \<Rightarrow> (\<lparr>be_state = ATBIT4, be_bits = bits AND 0x0f\<rparr>, [alphabet_at (drop_bit 4 bits)])
         | ATBIT4 \<Rightarrow> (\<lparr>be_state = ATBIT0, be_bits = 0\<rparr>,
             [alphabet_at (drop_bit 6 bits), alphabet_at (bits AND 0x3f)]))"

primrec b64enc_loop :: "b64enc \<Rightarrow> string \<Rightarrow> string \<Rightarrow> b64enc \<times> string" where
  "b64enc_loop st [] outb = (st, outb)"
| "b64enc_loop st (byte # inb) outb =
     (let (st1, o1) = b64enc_step st byte in b64enc_loop st1 inb (outb @ o1))"

definition b64enc_encode :: "b64enc encoder \<Rightarrow> string \<Rightarrow> string \<Rightarrow> bool \<Rightarrow> b64enc encoded" where
  "b64enc_encode e inb outb flush =
     (let (st, out1) = b64enc_loop (e_impl e) inb outb
      in (e\<lparr>e_impl := st\<rparr>, [], out1, \<not> (flush \<and> be_state st \<noteq> ATBIT0)))"

definition b64enc_finish :: "b64enc encoder \<Rightarrow> string \<Rightarrow> b64enc encoder \<times> string \<times> bool" where
  "b64enc_finish e outb =
     (let bits = be_bits (e_impl e)
      in (e, outb @ (case be_state (e_impl e) of
                       ATBIT2 \<Rightarrow> [alphabet_at (push_bit 4 bits), CHR ''='', CHR ''='']
                     | ATBIT4 \<Rightarrow> [alphabet_at (push_bit 2 bits), CHR ''='']
                     | ATBIT0 \<Rightarrow> []), True))"

definition b64enc_vtable :: "b64enc enc_vtable" where
  "b64enc_vtable = \<lparr>v_encode = b64enc_encode, v_finish = b64enc_finish, v_reset = b64enc_reset,
     v_isok = default_isok, v_isfinished = default_isfinished, v_geterror = default_geterror\<rparr>"

datatype b64_dec_state = DBIT0 | DBIT2 | DBIT4 | DBIT6 | PAD

record b64dec =
  bd_state :: b64_dec_state
  bd_bits :: "32 word"

definition b64dec_init :: b64dec where
  "b64dec_init = \<lparr>bd_state = DBIT0, bd_bits = 0\<rparr>"

definition b64dec_new :: "b64dec encoder" where
  "b64dec_new = enc_new b64dec_init"

definition b64dec_reset :: "b64dec encoder \<Rightarrow> b64dec encoder \<times> bool" where
  "b64dec_reset e = (e\<lparr>e_impl := b64dec_init\<rparr>, True)"

text \<open>\<open>putch\<close> of an \<open>unsigned\<close> keeps its low byte.\<close>

definition word_byte :: "32 word \<Rightarrow> char" where
  "word_byte w = char_of (unat w)"

text \<open>A symbol below 64: the next state and the bytes put; \<open>None\<close> after padding.\<close>

definition b64dec_symbol :: "b64dec \<Rightarrow> int \<Rightarrow> b64dec \<times> string option" where
  "b64dec_symbol st symbol =
     (let bits = push_bit 6 (bd_bits st) OR word_of_int symbol
      in case bd_state st of
           DBIT0 \<Rightarrow> (\<lparr>bd_state = DBIT2, bd_bits = bits\<rparr>, Some [])
         | DBIT2 \<Rightarrow> (\<lparr>bd_state = DBIT4, bd_bits = bits AND 0x0f\<rparr>, Some [word_byte (drop_bit 4 bits)])
         | DBIT4 \<Rightarrow> (\<lparr>bd_state = DBIT6, bd_bits = bits AND 0x03\<rparr>, Some [word_byte (drop_bit 2 bits)])
         | DBIT6 \<Rightarrow> (\<lparr>bd_state = DBIT0, bd_bits = 0\<rparr>, Some [word_byte bits])
         | PAD \<Rightarrow> (\<lparr>bd_state = PAD, bd_bits = bits\<rparr>, None))"

definition b64_error :: "string \<Rightarrow> char \<Rightarrow> wvstring" where
  "b64_error what ch =
     do_format (''invalid character #%s '' @ what) [Some (string_of_signed (byte_word ch))]"

primrec b64dec_loop :: "b64dec encoder \<Rightarrow> string \<Rightarrow> string \<Rightarrow> b64dec encoded" where
  "b64dec_loop e [] outb = (e, [], outb, True)"
| "b64dec_loop e (ch # inb) outb =
     (let symbol = b64_lookup ch
      in if symbol = - 1 then (enc_seterror e (b64_error ''in base64 input'' ch), inb, outb, False)
         else if symbol = 64
         then b64dec_loop (enc_setfinished e\<lparr>e_impl := (e_impl e)\<lparr>bd_state := PAD\<rparr>\<rparr>) inb outb
         else if symbol = 65 then b64dec_loop e inb outb
         else (case b64dec_symbol (e_impl e) symbol of
                 (st, Some o1) \<Rightarrow> b64dec_loop (e\<lparr>e_impl := st\<rparr>) inb (outb @ o1)
               | (st, None) \<Rightarrow>
                   (enc_seterror (e\<lparr>e_impl := st\<rparr>) (b64_error ''after base64 padding'' ch), inb, outb, False)))"

definition b64dec_encode :: "b64dec encoder \<Rightarrow> string \<Rightarrow> string \<Rightarrow> bool \<Rightarrow> b64dec encoded" where
  "b64dec_encode e inb outb flush =
     (let (e1, in1, out1, ended) = b64dec_loop e inb outb
      in if \<not> ended then (e1, in1, out1, False)
         else if flush \<and> bd_state (e_impl e1) \<in> {DBIT2, DBIT4, DBIT6} then (e1, in1, out1, False)
         else (e1, in1, out1, True))"

definition b64dec_vtable :: "b64dec enc_vtable" where
  "b64dec_vtable = \<lparr>v_encode = b64dec_encode, v_finish = default_finish, v_reset = b64dec_reset,
     v_isok = default_isok, v_isfinished = default_isfinished, v_geterror = default_geterror\<rparr>"

subsection \<open>Hexadecimal: contract and round trip\<close>

lemma hexenc_loop_map:
  "hexenc_loop a inb outb =
     outb @ concat (map (\<lambda>b. [tohex (code_of b div 16) a, tohex (code_of b mod 16) a]) inb)"
  by (induction inb arbitrary: outb) auto

lemma hexdec_loop_out:
  "hexdec_loop e inb outb =
     (let (e1, in1, out1, s) = hexdec_loop e inb [] in (e1, in1, outb @ out1, s))"
proof (induction inb arbitrary: e outb)
  case (Cons c inb)
  show ?case
    unfolding hexdec_loop.simps Let_def
    by (subst (1 2 3) Cons.IH, subst (4 5) Cons.IH) (auto split: prod.splits)
qed simp

lemma hexdec_loop_append:
  "hexdec_loop e (a @ b) outb =
     (let (e1, in1, out1, s) = hexdec_loop e a outb
      in if s then hexdec_loop e1 b out1 else (e1, in1 @ b, out1, False))"
  by (induction a arbitrary: e outb) (auto simp: Let_def)

lemma hexdec_loop_drains: "hexdec_loop e a outb = (e1, in1, out1, True) \<Longrightarrow> in1 = []"
  by (induction a arbitrary: e outb) (auto simp: Let_def split: if_splits)

interpretation hexenc_c: resettable_encoder hexenc_vtable "\<lambda>a. a"
  by unfold_locales (auto simp: hexenc_vtable_def hexenc_encode_def hexenc_reset_def hexenc_loop_map)

interpretation hexdec_c: resettable_encoder hexdec_vtable "\<lambda>_. hexdec_init"
proof (unfold_locales, goal_cases)
  case (1 e inb outb flush)
  then show ?case using hexdec_loop_out [of e inb outb]
    by (auto simp: hexdec_vtable_def hexdec_encode_def Let_def split: prod.splits if_splits)
next
  case (2 e inb outb flush e1 in1 out1)
  then show ?case
    by (auto simp: hexdec_vtable_def hexdec_encode_def Let_def dest: hexdec_loop_drains
        split: prod.splits if_splits)
next
  case (3 e a e1 out1 b flush)
  then have "hexdec_loop e a [] = (e1, [], out1, True)"
    by (auto simp: hexdec_vtable_def hexdec_encode_def Let_def split: prod.splits if_splits)
  then show ?case
    by (simp add: hexdec_vtable_def hexdec_encode_def hexdec_loop_append)
next
  case (4 e)
  then show ?case by (simp add: hexdec_vtable_def hexdec_reset_def)
qed

lemma hex_digit_round:
  assumes "d < 16" "a = 55 \<or> a = 87"
  shows "c_isxdigit (tohex d a)" "fromhex (tohex d a) = int d"
proof -
  have "code_of (tohex d a) = (if d < 10 then 48 else a) + d" using assms by (auto simp: tohex_def)
  then show "c_isxdigit (tohex d a)" "fromhex (tohex d a) = int d" using assms
    by (auto simp: c_isxdigit_def c_isdigit_def fromhex_def c_isupper_def split: if_splits)
qed

lemma hexdec_hexenc_loop:
  assumes "a = 55 \<or> a = 87" "\<not> hd_issecond (e_impl e)"
  shows "\<exists>e1. hexdec_loop e (hexenc_loop a s []) outb = (e1, [], outb @ s, True) \<and>
    \<not> hd_issecond (e_impl e1) \<and> e_okay e1 = e_okay e \<and> e_finished e1 = e_finished e"
  using assms(2)
proof (induction s arbitrary: e outb)
  case (Cons b s)
  let ?e = "e\<lparr>e_impl := \<lparr>hd_issecond = False, hd_first = int (code_of b div 16)\<rparr>\<rparr>"
  have d: "code_of b div 16 < (16::nat)" "code_of b mod 16 < (16::nat)"
    using code_of_less [of b] by (simp_all add: less_mult_imp_div_less)
  have "int (code_of b div 16) * 16 + int (code_of b mod 16) = int (code_of b)"
    by (metis div_mult_mod_eq of_nat_add of_nat_mult of_nat_numeral)
  then have "nat (int (code_of b div 16) * 16 + int (code_of b mod 16)) = code_of b" by simp
  then have "hexdec_loop e (hexenc_loop a (b # s) []) outb =
      hexdec_loop ?e (hexenc_loop a s []) (outb @ [b])"
    using Cons.prems hex_digit_round [OF d(1) assms(1)] hex_digit_round [OF d(2) assms(1)]
    by (simp add: hexenc_loop_map Let_def)
  then show ?case using Cons.IH [of ?e "outb @ [b]"] by auto
qed (auto simp: hexenc_loop_map)

lemma hexdec_output_bound:
  "hexdec_loop e inb outb = (e1, in1, out1, s) \<Longrightarrow>
     2 * length out1 + (if hd_issecond (e_impl e1) then 1 else 0)
       \<le> 2 * length outb + length inb + (if hd_issecond (e_impl e) then 1 else 0)"
proof (induction inb arbitrary: e outb)
  case (Cons c inb)
  consider (first) "c_isxdigit c" "\<not> hd_issecond (e_impl e)" | (second) "c_isxdigit c" "hd_issecond (e_impl e)"
    | (space) "\<not> c_isxdigit c" "c_isspace c" | (error) "\<not> c_isxdigit c" "\<not> c_isspace c" by blast
  then show ?case
  proof cases
    case first
    from Cons.IH [of "e\<lparr>e_impl := \<lparr>hd_issecond = True, hd_first = fromhex c\<rparr>\<rparr>" outb]
    show ?thesis using first Cons.prems by (simp add: Let_def)
  next
    case second
    from Cons.IH [of "e\<lparr>e_impl := (e_impl e)\<lparr>hd_issecond := False\<rparr>\<rparr>"
        "outb @ [char_of (nat (hd_first (e_impl e) * 16 + fromhex c))]"]
    show ?thesis using second Cons.prems by (simp add: Let_def)
  next
    case space
    from Cons.IH [of e outb] show ?thesis using space Cons.prems by simp
  next
    case error
    then show ?thesis using Cons.prems by (auto simp: enc_seterror_def enc_setnotok_def)
  qed
qed auto

subsection \<open>Base 64: contract\<close>

lemma b64enc_loop_out: "b64enc_loop st inb outb = (let (st1, o1) = b64enc_loop st inb [] in (st1, outb @ o1))"
proof (induction inb arbitrary: st outb)
  case (Cons c inb)
  obtain st1 o1 where "b64enc_step st c = (st1, o1)" by (cases "b64enc_step st c") auto
  then show ?case using Cons.IH [of st1 "outb @ o1"] Cons.IH [of st1 o1]
    by (auto simp: Let_def split: prod.splits)
qed simp

lemma b64enc_loop_append:
  "b64enc_loop st (a @ b) outb = (let (st1, o1) = b64enc_loop st a outb in b64enc_loop st1 b o1)"
  by (induction a arbitrary: st outb) (auto simp: Let_def split: prod.splits)

interpretation b64enc_c: resettable_encoder b64enc_vtable "\<lambda>_. b64enc_init"
proof (unfold_locales, goal_cases)
  case (1 e inb outb flush)
  then show ?case using b64enc_loop_out [of "e_impl e" inb outb]
    by (auto simp: b64enc_vtable_def b64enc_encode_def Let_def split: prod.splits)
next
  case (3 e a e1 out1 b flush)
  then show ?case
    by (auto simp: b64enc_vtable_def b64enc_encode_def b64enc_loop_append Let_def split: prod.splits)
qed (auto simp: b64enc_vtable_def b64enc_encode_def b64enc_reset_def Let_def split: prod.splits)

lemma b64dec_loop_out:
  "b64dec_loop e inb outb =
     (let (e1, in1, out1, s) = b64dec_loop e inb [] in (e1, in1, outb @ out1, s))"
proof (induction inb arbitrary: e outb)
  case (Cons c inb)
  have ih: "b64dec_loop e' inb o' = (let (e1, in1, out1, s) = b64dec_loop e' inb [] in (e1, in1, o' @ out1, s))"
    for e' o' by (rule Cons.IH)
  obtain st r where sym: "b64dec_symbol (e_impl e) (b64_lookup c) = (st, r)"
    by (cases "b64dec_symbol (e_impl e) (b64_lookup c)") auto
  consider (err) "b64_lookup c = - 1" | (pad) "b64_lookup c = 64" | (space) "b64_lookup c = 65"
    | (bad) "b64_lookup c \<notin> {- 1, 64, 65}" "r = None"
    | (good) o1 where "b64_lookup c \<notin> {- 1, 64, 65}" "r = Some o1" by (cases r) auto
  then show ?case
  proof cases
    case good
    have "b64dec_loop e (c # inb) o' = b64dec_loop (e\<lparr>e_impl := st\<rparr>) inb (o' @ o1)" for o'
      using good sym by (simp add: Let_def)
    then show ?thesis using ih [of "e\<lparr>e_impl := st\<rparr>" "outb @ o1"] ih [of "e\<lparr>e_impl := st\<rparr>" o1]
      by (simp add: Let_def split: prod.splits)
  qed (use ih [of _ outb] sym in \<open>auto simp: Let_def\<close>)
qed simp

lemma b64dec_loop_append:
  "b64dec_loop e (a @ b) outb =
     (let (e1, in1, out1, s) = b64dec_loop e a outb
      in if s then b64dec_loop e1 b out1 else (e1, in1 @ b, out1, False))"
  by (induction a arbitrary: e outb) (auto simp: Let_def split: prod.splits option.splits)

lemma b64dec_loop_drains: "b64dec_loop e a outb = (e1, in1, out1, True) \<Longrightarrow> in1 = []"
  by (induction a arbitrary: e outb) (auto simp: Let_def split: if_splits prod.splits option.splits)

interpretation b64dec_c: resettable_encoder b64dec_vtable "\<lambda>_. b64dec_init"
proof (unfold_locales, goal_cases)
  case (1 e inb outb flush)
  then show ?case using b64dec_loop_out [of e inb outb]
    by (auto simp: b64dec_vtable_def b64dec_encode_def Let_def split: prod.splits if_splits)
next
  case (2 e inb outb flush e1 in1 out1)
  then show ?case
    by (auto simp: b64dec_vtable_def b64dec_encode_def Let_def dest: b64dec_loop_drains
        split: prod.splits if_splits)
next
  case (3 e a e1 out1 b flush)
  then have "b64dec_loop e a [] = (e1, [], out1, True)"
    by (auto simp: b64dec_vtable_def b64dec_encode_def Let_def split: prod.splits if_splits)
  then show ?case
    by (simp add: b64dec_vtable_def b64dec_encode_def b64dec_loop_append)
next
  case (4 e)
  then show ?case by (simp add: b64dec_vtable_def b64dec_reset_def)
qed

subsection \<open>Base 64: the words as numbers\<close>

lemma word_cat:
  assumes "c < 2 ^ k"
  shows "push_bit k (of_nat r) OR of_nat c = (of_nat (r * 2 ^ k + c) :: 32 word)"
proof -
  have "push_bit k r AND c = 0"
  proof (rule bit_eqI)
    fix n
    have "\<not> bit c n" if "k \<le> n"
    proof -
      have "c < 2 ^ n" using assms that by (meson less_le_trans one_le_numeral power_increasing)
      then show ?thesis by (simp add: bit_nat_def)
    qed
    then show "bit (push_bit k r AND c) n \<longleftrightarrow> bit (0::nat) n" by (auto simp: bit_simps)
  qed
  then have "push_bit k r OR c = r * 2 ^ k + c"
    by (simp add: disjunctive_add_eq_or [symmetric] push_bit_eq_mult)
  then show ?thesis by (metis of_nat_or_eq push_bit_of_nat)
qed

lemma word_masks:
  assumes "n < 2 ^ 32"
  shows "drop_bit k (of_nat n) = (of_nat (n div 2 ^ k) :: 32 word)"
    "of_nat n AND 0x03 = (of_nat (n mod 4) :: 32 word)"
    "of_nat n AND 0x0f = (of_nat (n mod 16) :: 32 word)"
    "of_nat n AND 0x3f = (of_nat (n mod 64) :: 32 word)"
    "unat (of_nat n :: 32 word) = n"
proof -
  show u: "unat (of_nat n :: 32 word) = n" using assms by (simp add: unat_of_nat take_bit_nat_eq_self)
  show "drop_bit k (of_nat n) = (of_nat (n div 2 ^ k) :: 32 word)"
  proof -
    have "n div 2 ^ k < 2 ^ 32" using assms by (meson div_le_dividend le_less_trans)
    then have "unat (of_nat (n div 2 ^ k) :: 32 word) = n div 2 ^ k"
      by (simp add: unat_of_nat take_bit_nat_eq_self)
    moreover have "unat (drop_bit k (of_nat n :: 32 word)) = n div 2 ^ k"
      unfolding unat_drop_bit_eq u by (simp only: drop_bit_eq_div)
    ultimately show ?thesis by (simp only: word_eq_iff_unsigned [where 'a = nat])
  qed
  have m: "of_nat n AND (mask k) = (of_nat (n mod 2 ^ k) :: 32 word)" for k
    by (metis of_nat_take_bit take_bit_eq_mask take_bit_eq_mod)
  show "of_nat n AND 0x03 = (of_nat (n mod 4) :: 32 word)"
    "of_nat n AND 0x0f = (of_nat (n mod 16) :: 32 word)"
    "of_nat n AND 0x3f = (of_nat (n mod 64) :: 32 word)"
    using m [of 2] m [of 4] m [of 6] by (simp_all add: mask_eq_exp_minus_1)
qed

text \<open>Base 64 as RFC 2045 defines it, in groups of three bytes.\<close>

fun b64_reference :: "string \<Rightarrow> string" where
  "b64_reference [] = []"
| "b64_reference [a] =
     (let n = code_of a * 65536
      in [b64_alphabet ! (n div 262144), b64_alphabet ! (n div 4096 mod 64), CHR ''='', CHR ''=''])"
| "b64_reference [a, b] =
     (let n = code_of a * 65536 + code_of b * 256
      in [b64_alphabet ! (n div 262144), b64_alphabet ! (n div 4096 mod 64),
          b64_alphabet ! (n div 64 mod 64), CHR ''=''])"
| "b64_reference (a # b # c # s) =
     (let n = code_of a * 65536 + code_of b * 256 + code_of c
      in [b64_alphabet ! (n div 262144), b64_alphabet ! (n div 4096 mod 64),
          b64_alphabet ! (n div 64 mod 64), b64_alphabet ! (n mod 64)] @ b64_reference s)"

lemma b64enc_steps:
  "be_state st = ATBIT0 \<Longrightarrow> be_bits st = 0 \<Longrightarrow> b64enc_step st a =
     (\<lparr>be_state = ATBIT2, be_bits = of_nat (code_of a mod 4)\<rparr>, [b64_alphabet ! (code_of a div 4)])"
  "r < 4 \<Longrightarrow> b64enc_step \<lparr>be_state = ATBIT2, be_bits = of_nat r\<rparr> a =
     (\<lparr>be_state = ATBIT4, be_bits = of_nat ((r * 256 + code_of a) mod 16)\<rparr>,
      [b64_alphabet ! ((r * 256 + code_of a) div 16)])"
  "r < 16 \<Longrightarrow> b64enc_step \<lparr>be_state = ATBIT4, be_bits = of_nat r\<rparr> a =
     (b64enc_init, [b64_alphabet ! ((r * 256 + code_of a) div 64), b64_alphabet ! ((r * 256 + code_of a) mod 64)])"
proof -
  have w: "push_bit 8 (of_nat r) OR byte_word a = of_nat (r * 256 + code_of a)" for r
    using word_cat [of "code_of a" 8 r] by (simp add: byte_word_def)
  have b: "r * 256 + code_of a < 2 ^ 32" if "r < 16" for r
  proof -
    have "r * 256 + code_of a < 16 * 256 + 256" using that code_of_less [of a] by linarith
    then show ?thesis by simp
  qed
  show "be_state st = ATBIT0 \<Longrightarrow> be_bits st = 0 \<Longrightarrow> b64enc_step st a =
     (\<lparr>be_state = ATBIT2, be_bits = of_nat (code_of a mod 4)\<rparr>, [b64_alphabet ! (code_of a div 4)])"
    using w [of 0] word_masks [OF b [of 0]] word_masks(5) [of "code_of a div 4"] code_of_less [of a]
    by (simp del: code_of_less add: b64enc_step_def alphabet_at_def word_masks(5))
  show "r < 4 \<Longrightarrow> b64enc_step \<lparr>be_state = ATBIT2, be_bits = of_nat r\<rparr> a =
     (\<lparr>be_state = ATBIT4, be_bits = of_nat ((r * 256 + code_of a) mod 16)\<rparr>,
      [b64_alphabet ! ((r * 256 + code_of a) div 16)])"
    using word_masks [OF b [of r]] word_masks(5) [of "(r * 256 + code_of a) div 16"] b [of r]
    by (simp add: b64enc_step_def alphabet_at_def w less_mult_imp_div_less)
  show "r < 16 \<Longrightarrow> b64enc_step \<lparr>be_state = ATBIT4, be_bits = of_nat r\<rparr> a =
     (b64enc_init, [b64_alphabet ! ((r * 256 + code_of a) div 64), b64_alphabet ! ((r * 256 + code_of a) mod 64)])"
    using word_masks [OF b [of r]] word_masks(5) [of "(r * 256 + code_of a) div 64"]
      word_masks(5) [of "(r * 256 + code_of a) mod 64"] b [of r]
    by (simp add: b64enc_step_def b64enc_init_def alphabet_at_def w less_mult_imp_div_less)
qed


lemma div_mod_parts:
  assumes "x = q * k + r" "r < (k::nat)"
  shows "x div k = q" "x mod k = r"
  using assms by simp_all

lemma b64_bits:
  fixes a b c :: nat
  assumes "a < 256" "b < 256" "c < 256"
  defines "n \<equiv> a * 65536 + b * 256 + c" and "r \<equiv> (a mod 4 * 256 + b) mod 16"
  shows "n div 262144 = a div 4" "n div 4096 mod 64 = (a mod 4 * 256 + b) div 16"
    "n div 64 mod 64 = (r * 256 + c) div 64" "n mod 64 = (r * 256 + c) mod 64"
    "r = b mod 16"
proof -
  define a1 a0 b1 b0 c1 c0
    where "a1 = a div 4" and "a0 = a mod 4" and "b1 = b div 16" and "b0 = b mod 16"
      and "c1 = c div 64" and "c0 = c mod 64"
  have abc: "a = a1 * 4 + a0" "b = b1 * 16 + b0" "c = c1 * 64 + c0"
    by (simp_all add: a1_def a0_def b1_def b0_def c1_def c0_def)
  have less: "a1 < 64" "a0 < 4" "b1 < 16" "b0 < 16" "c1 < 4" "c0 < 64"
    using assms(1-3) by (simp_all add: a1_def a0_def b1_def b0_def c1_def c0_def less_mult_imp_div_less)
  have m: "a mod 4 * 256 + b = (a0 * 16 + b1) * 16 + b0" using abc(2) by (simp add: a0_def)
  show r: "r = b mod 16" using div_mod_parts(2) [OF m less(4)] by (simp add: r_def b0_def)
  have rc: "r * 256 + c = (b0 * 4 + c1) * 64 + c0" unfolding r using abc(3) by (simp add: b0_def)
  have "n = a1 * 262144 + (a0 * 65536 + b1 * 4096 + b0 * 256 + c)"
    unfolding n_def using abc by simp
  from div_mod_parts(1) [OF this] show "n div 262144 = a div 4"
    using less abc(3) by (simp add: a1_def)
  have "n = (a1 * 64 + (a0 * 16 + b1)) * 4096 + (b0 * 256 + c)" unfolding n_def using abc by simp
  from div_mod_parts(1) [OF this] have "n div 4096 = a1 * 64 + (a0 * 16 + b1)" using less abc(3) by simp
  from div_mod_parts(2) [OF this] div_mod_parts(1) [OF m]
  show "n div 4096 mod 64 = (a mod 4 * 256 + b) div 16" using less by simp
  have 3: "n = ((a1 * 64 + (a0 * 16 + b1)) * 64 + (b0 * 4 + c1)) * 64 + c0" unfolding n_def using abc by simp
  from div_mod_parts(1) [OF 3] have "n div 64 = (a1 * 64 + (a0 * 16 + b1)) * 64 + (b0 * 4 + c1)"
    using less by simp
  from div_mod_parts(2) [OF this] div_mod_parts(1) [OF rc]
  show "n div 64 mod 64 = (r * 256 + c) div 64" using less by simp
  from div_mod_parts(2) [OF 3] div_mod_parts(2) [OF rc] show "n mod 64 = (r * 256 + c) mod 64"
    using less by simp
qed

lemma b64enc_step_init:
  "b64enc_step b64enc_init a =
     (\<lparr>be_state = ATBIT2, be_bits = of_nat (code_of a mod 4)\<rparr>, [b64_alphabet ! (code_of a div 4)])"
  by (rule b64enc_steps(1)) (simp_all add: b64enc_init_def)

lemma b64enc_few:
  "b64enc_loop b64enc_init [a] outb =
     (\<lparr>be_state = ATBIT2, be_bits = of_nat (code_of a mod 4)\<rparr>, outb @ [b64_alphabet ! (code_of a div 4)])"
  "b64enc_loop b64enc_init [a, b] outb =
     (\<lparr>be_state = ATBIT4, be_bits = of_nat ((code_of a mod 4 * 256 + code_of b) mod 16)\<rparr>,
      outb @ [b64_alphabet ! (code_of a div 4),
        b64_alphabet ! ((code_of a mod 4 * 256 + code_of b) div 16)])"
  by (simp_all add: b64enc_steps(2) b64enc_step_init)

lemma push_alphabet:
  "r < 4 \<Longrightarrow> alphabet_at (push_bit 4 (of_nat r)) = b64_alphabet ! (r * 16)"
  "r < 16 \<Longrightarrow> alphabet_at (push_bit 2 (of_nat r)) = b64_alphabet ! (r * 4)"
  using word_masks(5) [of "r * 16"] word_masks(5) [of "r * 4"]
  by (simp_all add: alphabet_at_def push_bit_eq_mult)

lemma b64enc_reference:
  "b64enc_loop b64enc_init s outb = (st, o1) \<Longrightarrow>
     o1 @ (case be_state st of
             ATBIT2 \<Rightarrow> [alphabet_at (push_bit 4 (be_bits st)), CHR ''='', CHR ''='']
           | ATBIT4 \<Rightarrow> [alphabet_at (push_bit 2 (be_bits st)), CHR ''='']
           | ATBIT0 \<Rightarrow> []) = outb @ b64_reference s"
proof (induction s arbitrary: outb rule: b64_reference.induct)
  case 1
  then show ?case by (auto simp: b64enc_init_def)
next
  case (2 a)
  show ?case using 2 push_alphabet(1) [of "code_of a mod 4"] b64_bits [of "code_of a" 0 0]
    unfolding b64enc_few by (auto simp: mult.commute)
next
  case (3 a b)
  let ?r = "(code_of a mod 4 * 256 + code_of b) mod (16::nat)"
  have "(code_of a * 65536 + code_of b * 256) div 64 mod 64 = ?r * 4"
    using b64_bits(3) [of "code_of a" "code_of b" 0] div_mod_parts(1) [of "?r * 256" "?r * 4" 64 0] by simp
  moreover have "(code_of a * 65536 + code_of b * 256) div 262144 = code_of a div (4::nat)"
    "(code_of a * 65536 + code_of b * 256) div 4096 mod 64 = (code_of a mod 4 * 256 + code_of b) div (16::nat)"
    using b64_bits(1,2) [of "code_of a" "code_of b" 0] by simp_all
  ultimately have "b64_reference [a, b] = [b64_alphabet ! (code_of a div 4),
      b64_alphabet ! ((code_of a mod 4 * 256 + code_of b) div 16), b64_alphabet ! (?r * 4), CHR ''='']"
    by (simp only: b64_reference.simps Let_def)
  moreover have "?r < 16" by simp
  moreover have "st = \<lparr>be_state = ATBIT4, be_bits = of_nat ?r\<rparr>"
    "o1 = outb @ [b64_alphabet ! (code_of a div 4), b64_alphabet ! ((code_of a mod 4 * 256 + code_of b) div 16)]"
    using 3 unfolding b64enc_few by blast+
  ultimately show ?case
    by (simp only: b64enc.simps b64_enc_state.case push_alphabet append_assoc append_Cons append_Nil)
next
  case (4 a b c s)
  let ?n = "code_of a * 65536 + code_of b * 256 + code_of c :: nat"
  let ?r = "(code_of a mod 4 * 256 + code_of b) mod (16::nat)"
  note n = b64_bits [of "code_of a" "code_of b" "code_of c"]
  have "b64enc_loop b64enc_init (a # b # c # s) outb = b64enc_loop b64enc_init s (outb @
      [b64_alphabet ! (code_of a div 4), b64_alphabet ! ((code_of a mod 4 * 256 + code_of b) div 16),
       b64_alphabet ! ((?r * 256 + code_of c) div 64), b64_alphabet ! ((?r * 256 + code_of c) mod 64)])"
    by (simp add: b64enc_step_init b64enc_steps(2,3))
  then show ?case using 4 n by (simp add: Let_def)
qed


subsection \<open>Base 64: decoding\<close>

lemma b64_lookup_alphabet:
  assumes "n < 64"
  shows "b64_lookup (b64_alphabet ! n) = int n"
proof -
  have "map b64_lookup (take 64 b64_alphabet) = map int [0..<64]"
    by (simp add: b64_alphabet_def b64_lookup_def upt_rec)
  then have "map b64_lookup (take 64 b64_alphabet) ! n = map int [0..<64] ! n" by simp
  moreover have "length b64_alphabet = 66" by (simp add: b64_alphabet_def)
  ultimately show ?thesis using assms by simp
qed

text \<open>One symbol on a decoder that is not past padding, with its bits as a number.\<close>

definition b64dec_at :: "b64dec encoder \<Rightarrow> b64_dec_state \<Rightarrow> nat \<Rightarrow> b64dec encoder" where
  "b64dec_at e s r = e\<lparr>e_impl := \<lparr>bd_state = s, bd_bits = of_nat r\<rparr>\<rparr>"

lemma b64dec_loop_symbol:
  assumes n: "n < 64"
  shows "b64dec_loop (b64dec_at e DBIT0 0) (b64_alphabet ! n # t) outb = b64dec_loop (b64dec_at e DBIT2 n) t outb"
    "r' < 64 \<Longrightarrow> b64dec_loop (b64dec_at e DBIT2 r') (b64_alphabet ! n # t) outb =
      b64dec_loop (b64dec_at e DBIT4 ((r' * 64 + n) mod 16)) t (outb @ [char_of ((r' * 64 + n) div 16)])"
    "r < 16 \<Longrightarrow> b64dec_loop (b64dec_at e DBIT4 r) (b64_alphabet ! n # t) outb =
      b64dec_loop (b64dec_at e DBIT6 ((r * 64 + n) mod 4)) t (outb @ [char_of ((r * 64 + n) div 4)])"
    "r < 16 \<Longrightarrow> b64dec_loop (b64dec_at e DBIT6 r) (b64_alphabet ! n # t) outb =
      b64dec_loop (b64dec_at e DBIT0 0) t (outb @ [char_of (r * 64 + n)])"
proof -
  have l: "b64_lookup (b64_alphabet ! n) = int n" using n by (rule b64_lookup_alphabet)
  then have ne: "b64_lookup (b64_alphabet ! n) \<noteq> - 1" "b64_lookup (b64_alphabet ! n) \<noteq> 64"
    "b64_lookup (b64_alphabet ! n) \<noteq> 65" using n by linarith+
  have w: "push_bit 6 (of_nat r) OR of_nat n = (of_nat (r * 64 + n) :: 32 word)" for r
    using word_cat [of n 6 r] n by simp
  have b: "r * 64 + n < 2 ^ 32" if "r < 64" for r
  proof -
    have "r * 64 + n < 64 * 64 + 64" using that n by linarith
    then show ?thesis by simp
  qed
  have d: "word_byte (drop_bit k (of_nat m)) = char_of (m div 2 ^ k)" if "m < 2 ^ 32" for m k
  proof -
    have "m div 2 ^ k < 2 ^ 32" using that by (meson div_le_dividend le_less_trans)
    then show ?thesis using that by (simp only: word_byte_def word_masks)
  qed
  note s = b64dec_symbol_def b64dec_at_def w Let_def
  show "b64dec_loop (b64dec_at e DBIT0 0) (b64_alphabet ! n # t) outb = b64dec_loop (b64dec_at e DBIT2 n) t outb"
    using ne w [of 0] by (simp add: s l)
  show "b64dec_loop (b64dec_at e DBIT2 r') (b64_alphabet ! n # t) outb =
      b64dec_loop (b64dec_at e DBIT4 ((r' * 64 + n) mod 16)) t (outb @ [char_of ((r' * 64 + n) div 16)])"
    if "r' < 64"
    using ne word_masks(3) [OF b [OF that]] d [OF b [OF that], of 4]
    by (simp add: s l del: of_nat_add of_nat_mult of_nat_mod)
  show "b64dec_loop (b64dec_at e DBIT4 r) (b64_alphabet ! n # t) outb =
      b64dec_loop (b64dec_at e DBIT6 ((r * 64 + n) mod 4)) t (outb @ [char_of ((r * 64 + n) div 4)])"
    if "r < 16"
    using ne word_masks(2) [OF b [of r]] d [OF b [of r], of 2] that
    by (simp add: s l del: of_nat_add of_nat_mult of_nat_mod)
  show "b64dec_loop (b64dec_at e DBIT6 r) (b64_alphabet ! n # t) outb =
      b64dec_loop (b64dec_at e DBIT0 0) t (outb @ [char_of (r * 64 + n)])"
    if "r < 16"
    using ne d [OF b [of r], of 0] that
    by (simp add: s l del: of_nat_add of_nat_mult of_nat_mod)
qed


text \<open>The four symbols of a group as numbers, and the three bytes they give back.\<close>

lemma b64_group:
  fixes a b c :: nat
  assumes "a < 256" "b < 256" "c < 256"
  defines "x1 \<equiv> a div 4" and "x2 \<equiv> (a mod 4 * 256 + b) div 16"
    and "x3 \<equiv> ((a mod 4 * 256 + b) mod 16 * 256 + c) div 64"
    and "x4 \<equiv> ((a mod 4 * 256 + b) mod 16 * 256 + c) mod 64"
  shows "x1 < 64" "x2 < 64" "x3 < 64" "x4 < 64" "(x1 * 64 + x2) div 16 = a" "(x1 * 64 + x2) mod 16 = b div 16"
    "(b div 16 * 64 + x3) div 4 = b" "(b div 16 * 64 + x3) mod 4 = c div 64" "c div 64 * 64 + x4 = c"
proof -
  define a1 a0 b1 b0 c1 c0
    where "a1 = a div 4" and "a0 = a mod 4" and "b1 = b div 16" and "b0 = b mod 16"
      and "c1 = c div 64" and "c0 = c mod 64"
  have abc: "a = a1 * 4 + a0" "b = b1 * 16 + b0" "c = c1 * 64 + c0"
    by (simp_all add: a1_def a0_def b1_def b0_def c1_def c0_def)
  have less: "a1 < 64" "a0 < 4" "b1 < 16" "b0 < 16" "c1 < 4" "c0 < 64"
    using assms(1-3) by (simp_all add: a1_def a0_def b1_def b0_def c1_def c0_def less_mult_imp_div_less)
  have m: "a mod 4 * 256 + b = (a0 * 16 + b1) * 16 + b0" using abc(2) by (simp add: a0_def)
  have x2: "x2 = a0 * 16 + b1" using div_mod_parts(1) [OF m less(4)] by (simp add: x2_def)
  have r: "(a mod 4 * 256 + b) mod 16 = b0" using div_mod_parts(2) [OF m less(4)] .
  have rc: "(a mod 4 * 256 + b) mod 16 * 256 + c = (b0 * 4 + c1) * 64 + c0" unfolding r using abc(3) by simp
  have x3: "x3 = b0 * 4 + c1" using div_mod_parts(1) [OF rc less(6)] by (simp add: x3_def)
  have x4: "x4 = c0" using div_mod_parts(2) [OF rc less(6)] by (simp add: x4_def)
  show "x1 < 64" "x2 < 64" "x3 < 64" "x4 < 64" using less x2 x3 x4 by (simp_all add: x1_def a1_def)
  have "x1 * 64 + x2 = (a1 * 4 + a0) * 16 + b1" unfolding x2 by (simp add: x1_def flip: a1_def)
  then have "x1 * 64 + x2 = a * 16 + b1" using abc(1) by simp
  from div_mod_parts [OF this less(3)] show "(x1 * 64 + x2) div 16 = a" "(x1 * 64 + x2) mod 16 = b div 16"
    by (simp_all add: b1_def)
  have "b div 16 * 64 + x3 = (b1 * 16 + b0) * 4 + c1" unfolding x3 by (simp flip: b1_def)
  then have "b div 16 * 64 + x3 = b * 4 + c1" using abc(2) by simp
  from div_mod_parts [OF this less(5)] show "(b div 16 * 64 + x3) div 4 = b" "(b div 16 * 64 + x3) mod 4 = c div 64"
    by (simp_all add: c1_def)
  show "c div 64 * 64 + x4 = c" unfolding x4 by (simp add: c0_def)
qed

lemma b64_reference_group:
  "b64_reference (a # b # c # s) =
     [b64_alphabet ! (code_of a div 4), b64_alphabet ! ((code_of a mod 4 * 256 + code_of b) div 16),
      b64_alphabet ! (((code_of a mod 4 * 256 + code_of b) mod 16 * 256 + code_of c) div 64),
      b64_alphabet ! (((code_of a mod 4 * 256 + code_of b) mod 16 * 256 + code_of c) mod 64)] @ b64_reference s"
  "b64_reference [a, b] =
     [b64_alphabet ! (code_of a div 4), b64_alphabet ! ((code_of a mod 4 * 256 + code_of b) div 16),
      b64_alphabet ! (((code_of a mod 4 * 256 + code_of b) mod 16 * 256 + 0) div 64), CHR ''='']"
  "b64_reference [a] =
     [b64_alphabet ! (code_of a div 4), b64_alphabet ! ((code_of a mod 4 * 256 + 0) div 16), CHR ''='', CHR ''='']"
proof -
  note A = code_of_less [of a] and B = code_of_less [of b] and C = code_of_less [of c]
  note b = b64_bits [OF A B C] and b0 = b64_bits [OF A B, of 0, simplified add_0_right]
    and b00 = b64_bits [OF A, of 0 0, simplified add_0_right mult_zero_left]
  show "b64_reference (a # b # c # s) =
     [b64_alphabet ! (code_of a div 4), b64_alphabet ! ((code_of a mod 4 * 256 + code_of b) div 16),
      b64_alphabet ! (((code_of a mod 4 * 256 + code_of b) mod 16 * 256 + code_of c) div 64),
      b64_alphabet ! (((code_of a mod 4 * 256 + code_of b) mod 16 * 256 + code_of c) mod 64)] @ b64_reference s"
    by (simp only: b64_reference.simps Let_def b(1-4))
  show "b64_reference [a, b] =
     [b64_alphabet ! (code_of a div 4), b64_alphabet ! ((code_of a mod 4 * 256 + code_of b) div 16),
      b64_alphabet ! (((code_of a mod 4 * 256 + code_of b) mod 16 * 256 + 0) div 64), CHR ''='']"
    using b0 by (simp only: b64_reference.simps Let_def add_0_right)
  show "b64_reference [a] =
     [b64_alphabet ! (code_of a div 4), b64_alphabet ! ((code_of a mod 4 * 256 + 0) div 16), CHR ''='', CHR ''='']"
    using b00 by (simp only: b64_reference.simps Let_def add_0_right)
qed

text \<open>The decoder after a text of groups: finished when the last group was padded.\<close>

definition b64dec_done :: "b64dec encoder \<Rightarrow> string \<Rightarrow> b64dec encoder \<Rightarrow> bool" where
  "b64dec_done e s e1 \<longleftrightarrow> e_okay e1 = e_okay e \<and> e_errstr e1 = e_errstr e \<and>
     (if length s mod 3 = 0 then e1 = b64dec_at e DBIT0 0
      else e_finished e1 \<and> bd_state (e_impl e1) = PAD)"

lemma b64dec_padding:
  "b64dec_loop e (CHR ''='' # t) outb =
     b64dec_loop (enc_setfinished e\<lparr>e_impl := (e_impl e)\<lparr>bd_state := PAD\<rparr>\<rparr>) t outb"
  by (simp add: b64_lookup_def)

lemma b64dec_reference:
  "\<exists>e1. b64dec_loop (b64dec_at e DBIT0 0) (b64_reference s) outb = (e1, [], outb @ s, True) \<and> b64dec_done e s e1"
proof (induction s arbitrary: outb rule: b64_reference.induct)
  case 1
  then show ?case by (simp add: b64dec_done_def b64dec_at_def)
next
  case (2 a)
  note g = b64_group [OF code_of_less [of a], of 0 0]
  have "\<exists>r. b64dec_loop (b64dec_at e DBIT0 0) (b64_reference [a]) outb =
      b64dec_loop (b64dec_at e DBIT4 r) ''=='' (outb @ [a])"
    unfolding b64_reference_group using g
    by (simp only: b64dec_loop_symbol zero_less_numeral char_of_char) blast
  then show ?case
    by (auto simp: b64dec_padding b64dec_done_def b64dec_at_def enc_setfinished_def simp del: b64dec_loop.simps(2))
next
  case (3 a b)
  note g = b64_group [OF code_of_less [of a] code_of_less [of b], of 0]
  have r: "code_of b div 16 < (16::nat)" using code_of_less [of b] by (simp add: less_mult_imp_div_less del: code_of_less)
  have "\<exists>r. b64dec_loop (b64dec_at e DBIT0 0) (b64_reference [a, b]) outb =
      b64dec_loop (b64dec_at e DBIT6 r) ''='' (outb @ [a, b])"
    unfolding b64_reference_group using g r
    by (simp only: b64dec_loop_symbol zero_less_numeral char_of_char append_assoc append_Cons append_Nil) blast
  then show ?case
    by (auto simp: b64dec_padding b64dec_done_def b64dec_at_def enc_setfinished_def simp del: b64dec_loop.simps(2))
next
  case (4 a b c s)
  note g = b64_group [OF code_of_less [of a] code_of_less [of b] code_of_less [of c]]
  have "code_of b div 16 < (16::nat)" "code_of c div 64 < (16::nat)"
    using code_of_less [of b] code_of_less [of c] by (simp_all add: less_mult_imp_div_less del: code_of_less)
  then have "b64dec_loop (b64dec_at e DBIT0 0) (b64_reference (a # b # c # s)) outb =
      b64dec_loop (b64dec_at e DBIT0 0) (b64_reference s) (outb @ [a, b, c])"
    unfolding b64_reference_group append_Cons append_Nil using g
    by (simp only: b64dec_loop_symbol char_of_char append_assoc append_Cons append_Nil)
  then show ?case using "4.IH" [OF refl, of "outb @ [a, b, c]"] by (auto simp: b64dec_done_def)
qed

subsection \<open>Whole messages\<close>

lemma b64enc_state: "b64enc_loop b64enc_init s outb = (st, o1) \<Longrightarrow> be_state st = ATBIT0 \<longleftrightarrow> length s mod 3 = 0"
proof (induction s arbitrary: outb rule: b64_reference.induct)
  case (3 a b)
  then show ?case unfolding b64enc_few by auto
next
  case (4 a b c s)
  have "b64enc_loop b64enc_init (a # b # c # s) outb =
      b64enc_loop b64enc_init s (snd (b64enc_loop b64enc_init [a, b, c] outb))"
    by (simp add: b64enc_step_init b64enc_steps(2,3))
  then show ?case using "4.IH" [OF refl] "4.prems" by simp
qed (auto simp: b64enc_init_def b64enc_few [unfolded b64enc_init_def] simp del: b64enc_loop.simps(2))

lemma b64enc_message:
  "\<exists>e. enc_encode b64enc_vtable b64enc_new s [] True True =
     (e, [], b64_reference s, length s mod 3 = 0)"
proof -
  obtain st o1 where l: "b64enc_loop b64enc_init s [] = (st, o1)" by (cases "b64enc_loop b64enc_init s []") auto
  from b64enc_reference [OF this] b64enc_state [OF this] show ?thesis
    by (simp add: enc_encode_def enc_finish_def b64enc_new_def enc_new_def b64enc_vtable_def
        b64enc_encode_def b64enc_finish_def l split: b64_enc_state.splits)
qed

lemma b64dec_message:
  "\<exists>e. enc_encode b64dec_vtable b64dec_new (b64_reference s) outb True False = (e, [], outb @ s, True) \<and>
     e_okay e \<and> (e_finished e \<longleftrightarrow> length s mod 3 \<noteq> 0)"
proof -
  have n: "b64dec_at b64dec_new DBIT0 0 = b64dec_new"
    by (simp add: b64dec_at_def b64dec_new_def enc_new_def b64dec_init_def)
  obtain e1 where "b64dec_loop b64dec_new (b64_reference s) outb = (e1, [], outb @ s, True)"
    and "b64dec_done b64dec_new s e1"
    using b64dec_reference [of b64dec_new s outb] n by auto
  then show ?thesis
    by (auto simp: enc_encode_def b64dec_vtable_def b64dec_encode_def b64dec_done_def b64dec_at_def
        b64dec_new_def enc_new_def split: if_splits)
qed

lemma hexenc_message:
  "enc_encode hexenc_vtable (hexenc_new u) s outb True False =
     (hexenc_new u, [], outb @ hexenc_loop (if u then 55 else 87) s [], True)"
  by (simp add: enc_encode_def hexenc_vtable_def hexenc_encode_def hexenc_new_def enc_new_def hexenc_loop_map)

lemma hexdec_message:
  "\<exists>e. enc_encode hexdec_vtable hexdec_new (hexenc_loop (if u then 55 else 87) s []) outb True False =
     (e, [], outb @ s, True) \<and> e_okay e \<and> \<not> e_finished e"
  using hexdec_hexenc_loop [of "if u then 55 else 87" hexdec_new s outb]
  by (auto simp: enc_encode_def hexdec_vtable_def hexdec_encode_def hexdec_new_def enc_new_def hexdec_init_def)

lemma hexify_digits: "hexify s = Some (hexenc_loop 87 s [] @ [NUL])"
proof -
  have "length (hexenc_loop 87 s []) = 2 * length s" by (induction s) (auto simp: hexenc_loop_map)
  then show ?thesis
    using hexenc_message [of False s "[]"]
    by (simp add: hexify_def enc_flushmemmem_def enc_encodebufmem_def)
qed

lemma unhexify_fits: "\<exists>out. unhexify s = Some out"
proof -
  obtain e1 i1 o1 r where d: "hexdec_loop hexdec_new s [] = (e1, i1, o1, r)" by (metis prod_cases4)
  have "length o1 \<le> length s div 2"
    using hexdec_output_bound [OF d] by (simp add: hexdec_new_def enc_new_def hexdec_init_def split: if_splits)
  then have "fst (snd (snd (enc_encode hexdec_vtable hexdec_new s [] True False))) = o1"
    using d by (auto simp: enc_encode_def hexdec_vtable_def hexdec_encode_def hexdec_new_def enc_new_def Let_def)
  then show ?thesis using \<open>length o1 \<le> length s div 2\<close>
    by (auto simp: unhexify_def enc_flushmemmem_def enc_encodebufmem_def split: prod.splits)
qed

end
