(* ===== verification/WvEncoderChain.thy ===== *)
theory WvEncoderChain
  imports WvHexBase64
begin

text \<open>
  The encoder chain (\<open>WvEncoderChain\<close> of \<open>utils/wvencoder.cc\<close>).  The encoders live in a
  store indexed by their addresses, because one encoder may stand in a chain more than
  once; an element of the chain owns the buffer between two encoders.  A vtable for a sum
  of two subclasses lets one store hold encoders of both.
\<close>

type_synonym 'i enc_store = "nat \<Rightarrow> 'i encoder"

text \<open>An element: its own address, the encoder it points to, its buffer, its \<open>autofree\<close>
  field, and the \<open>autofree\<close> flag of the list link that holds it.\<close>

record chain_elem =
  ce_id :: nat
  ce_enc :: nat
  ce_out :: string
  ce_autofree :: bool
  ce_link_autofree :: bool

record enc_chain =
  ch_encoders :: "chain_elem list"
  ch_last_run :: "nat option"

definition chain_new :: enc_chain where
  "chain_new = \<lparr>ch_encoders = [], ch_last_run = None\<rparr>"

definition chain_isok :: "'i enc_vtable \<Rightarrow> 'i enc_store \<Rightarrow> enc_chain \<Rightarrow> bool" where
  "chain_isok vt h ch \<longleftrightarrow> list_all (\<lambda>el. enc_isok vt (h (ce_enc el))) (ch_encoders ch)"

definition chain_isfinished :: "'i enc_vtable \<Rightarrow> 'i enc_store \<Rightarrow> enc_chain \<Rightarrow> bool" where
  "chain_isfinished vt h ch \<longleftrightarrow> list_ex (\<lambda>el. enc_isfinished vt (h (ce_enc el))) (ch_encoders ch)"

primrec chain_geterror_loop :: "'i enc_vtable \<Rightarrow> 'i enc_store \<Rightarrow> chain_elem list \<Rightarrow> wvstring" where
  "chain_geterror_loop vt h [] = None"
| "chain_geterror_loop vt h (el # els) =
     (let message = enc_geterror vt (h (ce_enc el))
      in if \<not> str_not message then message else chain_geterror_loop vt h els)"

definition chain_geterror :: "'i enc_vtable \<Rightarrow> 'i enc_store \<Rightarrow> enc_chain \<Rightarrow> wvstring" where
  "chain_geterror vt h ch = chain_geterror_loop vt h (ch_encoders ch)"

subsection \<open>Encoding\<close>

text \<open>
  The loop of \<open>do_encode\<close> with the final merge.  The input of an element is the buffer
  of the one before it, which keeps what the element did not take.  The result is what is
  left of \<open>tmpin\<close>, the elements, the store, the output, success, and \<open>last_run\<close>.
\<close>

primrec chain_run :: "'i enc_vtable \<Rightarrow> bool \<Rightarrow> bool \<Rightarrow> chain_elem list \<Rightarrow> 'i enc_store \<Rightarrow> nat option
    \<Rightarrow> string \<Rightarrow> string \<Rightarrow> string \<times> chain_elem list \<times> 'i enc_store \<times> string \<times> bool \<times> nat option" where
  "chain_run vt flush do_finish [] h lst tmpin outb = ([], [], h, outb @ tmpin, True, lst)"
| "chain_run vt flush do_finish (el # els) h lst tmpin outb =
     (let (e1, in1, out1, s1) = enc_encode vt (h (ce_enc el)) tmpin (ce_out el) flush False;
          (e2, out2, s2) = (if do_finish then enc_finish vt e1 out1 else (e1, out1, True));
          (rest, els', h', outb', s3, lst') =
            chain_run vt flush do_finish els (h(ce_enc el := e2)) (Some (ce_id el)) out2 outb
      in (in1, el\<lparr>ce_out := rest\<rparr> # els', h', outb', s1 \<and> s2 \<and> s3, lst'))"

text \<open>The elements that are skipped and those that are run: all are run without
  \<open>start_after\<close>, and none when it is no longer in the list.\<close>

definition chain_split :: "chain_elem list \<Rightarrow> nat option \<Rightarrow> chain_elem list \<times> chain_elem list" where
  "chain_split els start_after =
     (case start_after of
        None \<Rightarrow> ([], els)
      | Some i \<Rightarrow>
          let before = takeWhile (\<lambda>el. ce_id el \<noteq> i) els;
              found = dropWhile (\<lambda>el. ce_id el \<noteq> i) els
          in (before @ take 1 found, drop 1 found))"

definition do_encode :: "'i enc_vtable \<Rightarrow> 'i enc_store \<Rightarrow> enc_chain \<Rightarrow> string \<Rightarrow> string \<Rightarrow> nat option
    \<Rightarrow> bool \<Rightarrow> bool \<Rightarrow> 'i enc_store \<times> enc_chain \<times> string \<times> string \<times> bool" where
  "do_encode vt h ch inb outb start_after flush do_finish =
     (let (skipped, els) = chain_split (ch_encoders ch) start_after;
          (in1, els', h', outb', s, lst) = chain_run vt flush do_finish els h start_after inb outb
      in (h', \<lparr>ch_encoders = skipped @ els', ch_last_run = lst\<rparr>, in1, outb', s))"

definition chain_encode :: "'i enc_vtable \<Rightarrow> 'i enc_store \<Rightarrow> enc_chain \<Rightarrow> string \<Rightarrow> string \<Rightarrow> bool
    \<Rightarrow> 'i enc_store \<times> enc_chain \<times> string \<times> string \<times> bool" where
  "chain_encode vt h ch inb outb flush = do_encode vt h ch inb outb None flush False"

definition chain_finish :: "'i enc_vtable \<Rightarrow> 'i enc_store \<Rightarrow> enc_chain \<Rightarrow> string
    \<Rightarrow> 'i enc_store \<times> enc_chain \<times> string \<times> bool" where
  "chain_finish vt h ch outb =
     (let (h', ch', in1, outb', s) = do_encode vt h ch [] outb None True True in (h', ch', outb', s))"

definition continue_encode :: "'i enc_vtable \<Rightarrow> 'i enc_store \<Rightarrow> enc_chain \<Rightarrow> string \<Rightarrow> string
    \<Rightarrow> 'i enc_store \<times> enc_chain \<times> string \<times> string \<times> bool" where
  "continue_encode vt h ch inb outb = do_encode vt h ch inb outb (ch_last_run ch) False False"

primrec chain_reset_loop :: "'i enc_vtable \<Rightarrow> chain_elem list \<Rightarrow> 'i enc_store
    \<Rightarrow> chain_elem list \<times> 'i enc_store \<times> bool" where
  "chain_reset_loop vt [] h = ([], h, True)"
| "chain_reset_loop vt (el # els) h =
     (let (e1, s1) = enc_reset vt (h (ce_enc el));
          (els', h', s2) = chain_reset_loop vt els (h(ce_enc el := e1))
      in (el\<lparr>ce_out := []\<rparr> # els', h', s1 \<and> s2))"

definition chain_reset :: "'i enc_vtable \<Rightarrow> 'i enc_store \<Rightarrow> enc_chain \<Rightarrow> 'i enc_store \<times> enc_chain \<times> bool" where
  "chain_reset vt h ch =
     (let (els, h', s) = chain_reset_loop vt (ch_encoders ch) h in (h', ch\<lparr>ch_encoders := els\<rparr>, s))"

subsection \<open>The list of encoders\<close>

text \<open>\<open>elem_id\<close> is the address the allocator gives the new element.  The list owns it:
  its link is always added with \<open>autofree\<close>.\<close>

definition chain_append :: "nat \<Rightarrow> nat \<Rightarrow> bool \<Rightarrow> enc_chain \<Rightarrow> enc_chain" where
  "chain_append elem_id enc autofree ch = ch\<lparr>ch_encoders := ch_encoders ch @
     [\<lparr>ce_id = elem_id, ce_enc = enc, ce_out = [], ce_autofree = autofree, ce_link_autofree = True\<rparr>]\<rparr>"

definition chain_prepend :: "nat \<Rightarrow> nat \<Rightarrow> bool \<Rightarrow> enc_chain \<Rightarrow> enc_chain" where
  "chain_prepend elem_id enc autofree ch = ch\<lparr>ch_encoders :=
     \<lparr>ce_id = elem_id, ce_enc = enc, ce_out = [], ce_autofree = autofree, ce_link_autofree = True\<rparr>
       # ch_encoders ch\<rparr>"

definition chain_get_autofree :: "nat \<Rightarrow> enc_chain \<Rightarrow> bool" where
  "chain_get_autofree enc ch \<longleftrightarrow> list_ex (\<lambda>el. ce_enc el = enc \<and> ce_link_autofree el) (ch_encoders ch)"

primrec set_autofree_loop :: "nat \<Rightarrow> bool \<Rightarrow> chain_elem list \<Rightarrow> chain_elem list" where
  "set_autofree_loop enc first [] = []"
| "set_autofree_loop enc first (el # els) =
     (if ce_enc el = enc then el\<lparr>ce_link_autofree := first\<rparr> # set_autofree_loop enc False els
      else el # set_autofree_loop enc first els)"

definition chain_set_autofree :: "nat \<Rightarrow> bool \<Rightarrow> enc_chain \<Rightarrow> enc_chain" where
  "chain_set_autofree enc autofree ch = ch\<lparr>ch_encoders :=
     (if autofree then set_autofree_loop enc True (ch_encoders ch)
      else map (\<lambda>el. if ce_enc el = enc then el\<lparr>ce_link_autofree := False\<rparr> else el) (ch_encoders ch))\<rparr>"

text \<open>The encoders deleted with an element, and \<open>unlink\<close> and \<open>zap\<close> with all they delete.\<close>

definition elem_deleted :: "chain_elem \<Rightarrow> nat list" where
  "elem_deleted el = (if ce_link_autofree el \<and> ce_autofree el then [ce_enc el] else [])"

definition chain_unlink :: "nat \<Rightarrow> enc_chain \<Rightarrow> enc_chain \<times> nat list" where
  "chain_unlink enc ch =
     (ch\<lparr>ch_encoders := filter (\<lambda>el. ce_enc el \<noteq> enc) (ch_encoders ch)\<rparr>,
      concat (map elem_deleted (filter (\<lambda>el. ce_enc el = enc) (ch_encoders ch))))"

definition chain_zap :: "enc_chain \<Rightarrow> enc_chain \<times> nat list" where
  "chain_zap ch = (ch\<lparr>ch_encoders := []\<rparr>, concat (map elem_deleted (ch_encoders ch)))"

definition chain_buffered :: "enc_chain \<Rightarrow> nat" where
  "chain_buffered ch = sum_list (map (\<lambda>el. length (ce_out el)) (ch_encoders ch))"

subsection \<open>Two subclasses in one store\<close>

definition map_enc :: "('i \<Rightarrow> 'j) \<Rightarrow> 'i encoder \<Rightarrow> 'j encoder" where
  "map_enc f e = \<lparr>e_okay = e_okay e, e_finished = e_finished e, e_errstr = e_errstr e, e_impl = f (e_impl e)\<rparr>"

definition case_enc :: "('i encoder \<Rightarrow> 'r) \<Rightarrow> ('j encoder \<Rightarrow> 'r) \<Rightarrow> ('i + 'j) encoder \<Rightarrow> 'r" where
  "case_enc f g e =
     (case e_impl e of
        Inl i \<Rightarrow> f \<lparr>e_okay = e_okay e, e_finished = e_finished e, e_errstr = e_errstr e, e_impl = i\<rparr>
      | Inr j \<Rightarrow> g \<lparr>e_okay = e_okay e, e_finished = e_finished e, e_errstr = e_errstr e, e_impl = j\<rparr>)"

definition vt_sum :: "'i enc_vtable \<Rightarrow> 'j enc_vtable \<Rightarrow> ('i + 'j) enc_vtable" where
  "vt_sum v w = \<lparr>
     v_encode = case_enc (\<lambda>e inb outb flush. apfst (map_enc Inl) (v_encode v e inb outb flush))
                         (\<lambda>e inb outb flush. apfst (map_enc Inr) (v_encode w e inb outb flush)),
     v_finish = case_enc (\<lambda>e outb. apfst (map_enc Inl) (v_finish v e outb))
                         (\<lambda>e outb. apfst (map_enc Inr) (v_finish w e outb)),
     v_reset = case_enc (\<lambda>e. apfst (map_enc Inl) (v_reset v e)) (\<lambda>e. apfst (map_enc Inr) (v_reset w e)),
     v_isok = case_enc (v_isok v) (v_isok w),
     v_isfinished = case_enc (v_isfinished v) (v_isfinished w),
     v_geterror = case_enc (v_geterror v) (v_geterror w)\<rparr>"

lemma map_enc_simps [simp]:
  "e_okay (map_enc f e) = e_okay e" "e_finished (map_enc f e) = e_finished e"
  "e_errstr (map_enc f e) = e_errstr e" "e_impl (map_enc f e) = f (e_impl e)"
  "map_enc f (enc_new i) = enc_new (f i)"
  by (simp_all add: map_enc_def enc_new_def)

lemma case_enc_map [simp]:
  "case_enc f g (map_enc Inl e) = f e" "case_enc f g (map_enc Inr e') = g e'"
  by (cases e, cases e', simp add: case_enc_def map_enc_def)+

lemma setfinished_map: "enc_setfinished (map_enc f e) = map_enc f (enc_setfinished e)"
  by (simp add: enc_setfinished_def map_enc_def)

lemma vt_sum_finish:
  "enc_finish (vt_sum v w) (map_enc Inl e) outb = apfst (map_enc Inl) (enc_finish v e outb)"
  "enc_finish (vt_sum v w) (map_enc Inr e') outb = apfst (map_enc Inr) (enc_finish w e' outb)"
  by (auto simp: enc_finish_def vt_sum_def setfinished_map Let_def split: prod.splits)

lemma vt_sum_encode:
  "enc_encode (vt_sum v w) (map_enc Inl e) inb outb flush fin =
     apfst (map_enc Inl) (enc_encode v e inb outb flush fin)"
  "enc_encode (vt_sum v w) (map_enc Inr e') inb outb flush fin =
     apfst (map_enc Inr) (enc_encode w e' inb outb flush fin)"
  by (auto simp: enc_encode_def vt_sum_def vt_sum_finish [unfolded vt_sum_def] Let_def split: prod.splits)

subsection \<open>Facts of the chain\<close>

text \<open>The composition of the encoders of a chain, without buffers in between.\<close>

primrec enc_pipe :: "'i enc_vtable \<Rightarrow> bool \<Rightarrow> nat list \<Rightarrow> 'i enc_store \<Rightarrow> string \<Rightarrow> string option" where
  "enc_pipe vt flush [] h inb = Some inb"
| "enc_pipe vt flush (p # ps) h inb =
     (case enc_encode vt (h p) inb [] flush False of
        (e1, in1, out1, s) \<Rightarrow> if s then enc_pipe vt flush ps (h(p := e1)) out1 else None)"

context stream_encoder
begin

lemma encode_drains:
  "enc_encode vt e inb outb flush False = (e1, in1, out1, True) \<Longrightarrow> in1 = []"
  using drains by (auto simp: enc_encode_def split: if_splits prod.splits)

lemma chain_run_pipe:
  "\<forall>el \<in> set els. ce_out el = [] \<Longrightarrow>
   enc_pipe vt flush (map ce_enc els) h inb = Some res \<Longrightarrow>
     \<exists>h' lst'. chain_run vt flush False els h lst inb outb = ([], els, h', outb @ res, True, lst')"
proof (induction els arbitrary: h inb lst)
  case (Cons el els)
  obtain e1 in1 out1 where enc: "enc_encode vt (h (ce_enc el)) inb [] flush False = (e1, in1, out1, True)"
    and pipe: "enc_pipe vt flush (map ce_enc els) (h(ce_enc el := e1)) out1 = Some res"
    using Cons.prems(2) by (auto split: prod.splits if_splits)
  obtain h' lst' where "chain_run vt flush False els (h(ce_enc el := e1)) (Some (ce_id el)) out1 outb =
      ([], els, h', outb @ res, True, lst')"
    using Cons.IH [OF _ pipe] Cons.prems(1) by fastforce
  moreover have "in1 = []" using encode_drains [OF enc] .
  moreover have "el\<lparr>ce_out := []\<rparr> = el" using Cons.prems(1) by simp
  ultimately show ?case using enc Cons.prems(1) by simp
qed simp

end

lemma chain_split_parts: "chain_split els st = (a, b) \<Longrightarrow> els = a @ b"
  by (auto simp: chain_split_def Let_def split: option.splits)

lemma chain_run_last: "chain_run vt flush fin els h lst inb outb = (i, els', h', o', s, l) \<Longrightarrow> els \<noteq> [] \<Longrightarrow>
    l = Some (ce_id (last els))"
proof (induction els arbitrary: h lst inb outb i els' h' o' s l)
  case (Cons el els)
  then obtain h2 o2 r els2 s3
    where inner: "chain_run vt flush fin els h2 (Some (ce_id el)) o2 outb = (r, els2, h', o', s3, l)"
    by (auto simp: Let_def split: prod.splits)
  show ?case
  proof (cases "els = []")
    case True
    then show ?thesis using inner by simp
  next
    case False
    then show ?thesis using Cons.IH [OF inner] by simp
  qed
qed simp

lemma chain_run_ids: "chain_run vt flush fin els h lst inb outb = (i, els', h', o', s, l) \<Longrightarrow>
    map ce_id els' = map ce_id els \<and> map ce_enc els' = map ce_enc els"
  by (induction els arbitrary: h lst inb outb i els' h' o' s l) (auto simp: Let_def split: prod.splits)

subsection \<open>A base 64 encoder and its decoder in one chain\<close>

lemma enc_encode_then_finish:
  "enc_encode vt e inb outb flush True =
     (let (e1, in1, out1, s1) = enc_encode vt e inb outb flush False;
          (e2, out2, s2) = enc_finish vt e1 out1
      in (e2, in1, out2, s2 \<and> s1))"
  by (auto simp: enc_encode_def Let_def split: prod.splits)

lemma b64_chain_run:
  assumes el: "els = [el1, el2]" "ce_out el1 = []" "ce_out el2 = []" "ce_enc el1 \<noteq> ce_enc el2"
    and h: "h (ce_enc el1) = map_enc Inl b64enc_new" "h (ce_enc el2) = map_enc Inr b64dec_new"
  shows "\<exists>h' lst'. chain_run (vt_sum b64enc_vtable b64dec_vtable) True True els h lst s outb =
    ([], els, h', outb @ s, length s mod 3 = 0, lst')"
proof -
  obtain e1 in1 out1 s1 where enc: "enc_encode b64enc_vtable b64enc_new s [] True False = (e1, in1, out1, s1)"
    by (metis prod_cases4)
  obtain e2 out2 s2 where fin: "enc_finish b64enc_vtable e1 out1 = (e2, out2, s2)" by (metis prod_cases3)
  have m: "in1 = []" "out2 = b64_reference s" "(s2 \<and> s1) = (length s mod 3 = 0)"
    using b64enc_message [of s] enc fin by (auto simp: enc_encode_then_finish)
  obtain d where dec: "enc_encode b64dec_vtable b64dec_new (b64_reference s) [] True False = (d, [], s, True)"
    and d: "e_okay d" "e_finished d \<longleftrightarrow> length s mod 3 \<noteq> 0"
    using b64dec_message [of s "[]"] by auto
  have dfin: "enc_finish b64dec_vtable d s = (enc_setfinished d, s, length s mod 3 = 0)"
    using d by (simp add: enc_finish_def b64dec_vtable_def default_finish_def)
  have "el1\<lparr>ce_out := []\<rparr> = el1" "el2\<lparr>ce_out := []\<rparr> = el2" using el by simp_all
  then show ?thesis using el h enc fin m dec dfin
    by (auto simp: vt_sum_encode vt_sum_finish)
qed

end
