(* ===== verification/WvBufStore.thy ===== *)
theory WvBufStore
  imports WvEncoder
begin

text \<open>
  The buffer stores (\<open>utils/wvbufferstore.cc\<close>, \<open>include/wvbufstore.h\<close>): the helpers of the
  base class, the in-place, the constant in-place and the circular store, and the null and
  the cursor store.  A store is its fields and the bytes of its memory; a pointer into that
  memory is an index, and what a caller reads through a returned pointer is returned as
  bytes.  A failed assertion is \<open>None\<close>.  Sizes and offsets stay below the range of an
  \<open>int\<close>, so they are natural numbers and integers.
\<close>

record 's buf_vtable =
  b_used :: "'s \<Rightarrow> nat"
  b_optgettable :: "'s \<Rightarrow> nat"
  b_get :: "nat \<Rightarrow> 's \<Rightarrow> ('s \<times> string) option"
  b_unget :: "nat \<Rightarrow> 's \<Rightarrow> 's option"
  b_ungettable :: "'s \<Rightarrow> nat"
  b_optpeekable :: "int \<Rightarrow> 's \<Rightarrow> nat"
  b_peek :: "int \<Rightarrow> nat \<Rightarrow> 's \<Rightarrow> ('s \<times> string) option"
  b_zap :: "'s \<Rightarrow> 's"
  b_free :: "'s \<Rightarrow> nat"
  b_optallocable :: "'s \<Rightarrow> nat"
  b_alloc :: "nat \<Rightarrow> 's \<Rightarrow> ('s \<times> nat) option"
  b_unalloc :: "nat \<Rightarrow> 's \<Rightarrow> 's option"
  b_unallocable :: "'s \<Rightarrow> nat"
  b_mutablepeek :: "int \<Rightarrow> nat \<Rightarrow> 's \<Rightarrow> ('s \<times> nat) option"
  b_write :: "nat \<Rightarrow> string \<Rightarrow> 's \<Rightarrow> 's"

subsection \<open>Memory\<close>

text \<open>\<open>memcpy\<close> of given bytes to an index, \<open>memmove\<close> and the swap of two regions.\<close>

definition mem_write :: "nat \<Rightarrow> string \<Rightarrow> string \<Rightarrow> string" where
  "mem_write p bs m = take p m @ bs @ drop (p + length bs) m"

definition mem_read :: "nat \<Rightarrow> nat \<Rightarrow> string \<Rightarrow> string" where
  "mem_read p n m = take n (drop p m)"

definition mem_move :: "nat \<Rightarrow> nat \<Rightarrow> nat \<Rightarrow> string \<Rightarrow> string" where
  "mem_move target source count m = mem_write target (mem_read source count m) m"

primrec mem_swap :: "nat \<Rightarrow> nat \<Rightarrow> nat \<Rightarrow> string \<Rightarrow> string" where
  "mem_swap t1 t2 0 m = m"
| "mem_swap t1 t2 (Suc count) m =
     (let temp = m ! t1; m1 = m[t1 := m ! t2]; m2 = m1[t2 := temp]
      in mem_swap (t1 + 1) (t2 + 1) count m2)"

definition roundup :: "nat \<Rightarrow> nat \<Rightarrow> nat" where
  "roundup v boundary =
     (let m = v mod boundary in if m \<noteq> 0 then v + boundary - m else v)"

subsection \<open>Helpers of the base class\<close>

definition dflt_peekable :: "nat \<Rightarrow> nat \<Rightarrow> int \<Rightarrow> nat" where
  "dflt_peekable used ungettable offset =
     (if offset = 0 then used
      else if offset < 0 then (if nat (- offset) \<le> ungettable then nat (- offset) + used else 0)
      else (let avail = int used - offset in if avail > 0 then nat avail else 0))"

text \<open>\<open>move\<close> takes everything with one \<open>get\<close>.\<close>

definition buf_move :: "'s buf_vtable \<Rightarrow> nat \<Rightarrow> 's \<Rightarrow> ('s \<times> string) option" where
  "buf_move vt count s = (if count > 0 then b_get vt count s else Some (s, []))"

function buf_copy :: "'s buf_vtable \<Rightarrow> int \<Rightarrow> nat \<Rightarrow> 's \<Rightarrow> ('s \<times> string) option" where
  "buf_copy vt offset count s =
     (if count = 0 then Some (s, [])
      else let amount0 = b_optpeekable vt offset s
           in if amount0 = 0 then None
              else let amount = min amount0 count
                   in case b_peek vt offset amount s of
                        None \<Rightarrow> None
                      | Some (s1, bs) \<Rightarrow>
                          map_option (apsnd ((@) bs)) (buf_copy vt (offset + int amount) (count - amount) s1))"
  by pat_completeness auto
termination by (relation "measure (\<lambda>(vt, offset, count, s). count)") auto

declare buf_copy.simps [simp del]

function buf_put :: "'s buf_vtable \<Rightarrow> string \<Rightarrow> 's \<Rightarrow> 's option" where
  "buf_put vt bs s =
     (if bs = [] then Some s
      else let amount0 = b_optallocable vt s
           in if amount0 = 0 then None
              else let amount = min amount0 (length bs)
                   in case b_alloc vt amount s of
                        None \<Rightarrow> None
                      | Some (s1, p) \<Rightarrow> buf_put vt (drop amount bs) (b_write vt p (take amount bs) s1))"
  by pat_completeness auto
termination by (relation "measure (\<lambda>(vt, bs, s). length bs)") auto

declare buf_put.simps [simp del]

definition buf_fastput :: "'s buf_vtable \<Rightarrow> string \<Rightarrow> 's \<Rightarrow> 's option" where
  "buf_fastput vt bs s =
     map_option (\<lambda>(s1, p). b_write vt p bs s1) (b_alloc vt (length bs) s)"

function poke_loop :: "'s buf_vtable \<Rightarrow> string \<Rightarrow> int \<Rightarrow> 's \<Rightarrow> 's option" where
  "poke_loop vt bs offset s =
     (if bs = [] then Some s
      else let amount0 = b_optpeekable vt offset s
           in if amount0 = 0 then None
              else let amount = min amount0 (length bs)
                   in case b_mutablepeek vt offset amount s of
                        None \<Rightarrow> None
                      | Some (s1, p) \<Rightarrow>
                          poke_loop vt (drop amount bs) (offset + int amount) (b_write vt p (take amount bs) s1))"
  by pat_completeness auto
termination by (relation "measure (\<lambda>(vt, bs, offset, s). length bs)") auto

declare poke_loop.simps [simp del]

text \<open>\<open>count -= tail\<close> is unsigned: an offset far below the end never makes \<open>tail\<close> exceed
  \<open>count\<close>, since \<open>offset \<le> limit\<close>.\<close>

definition buf_poke :: "'s buf_vtable \<Rightarrow> string \<Rightarrow> int \<Rightarrow> 's \<Rightarrow> 's option" where
  "buf_poke vt bs offset s =
     (let limit = int (b_used vt s)
      in if \<not> offset \<le> limit then None
         else let stop = offset + int (length bs)
              in if stop \<ge> limit
                 then let count = length bs - nat (stop - limit)
                      in case buf_put vt (drop count bs) s of
                           None \<Rightarrow> None
                         | Some s1 \<Rightarrow> poke_loop vt (take count bs) offset s1
                 else poke_loop vt bs offset s)"

text \<open>
  \<open>basicmerge\<close>: the state of the loop is the bytes fetched and not yet stored
  (\<open>indata\<close>, \<open>inavail\<close>), the pointer and size of the room allocated and not yet filled, and
  the bytes still to be moved.  The two fetches at the head of the loop come first; the
  test for an empty fetch only makes the recursion well-founded, since a fetch that
  returns has fetched at least one byte.
\<close>

definition merge_fetch_in :: "'t buf_vtable \<Rightarrow> nat \<Rightarrow> string \<Rightarrow> 't \<Rightarrow> ('t \<times> string) option" where
  "merge_fetch_in wt count indata t =
     (if indata = []
      then let inavail = b_optgettable wt t
           in if inavail = 0 then None else b_get wt (min inavail count) t
      else Some (t, indata))"

definition merge_fetch_out :: "'s buf_vtable \<Rightarrow> nat \<Rightarrow> nat \<Rightarrow> nat \<Rightarrow> 's \<Rightarrow> ('s \<times> nat \<times> nat) option" where
  "merge_fetch_out vt count outdata outavail s =
     (if outavail = 0
      then let outavail' = b_optallocable vt s
           in if outavail' = 0 then None
              else map_option (\<lambda>(s1, p). (s1, p, min outavail' count)) (b_alloc vt (min outavail' count) s)
      else Some (s, outdata, outavail))"

function merge_loop :: "'s buf_vtable \<Rightarrow> 't buf_vtable \<Rightarrow> nat \<Rightarrow> string \<Rightarrow> nat \<Rightarrow> nat \<Rightarrow> 's \<Rightarrow> 't
    \<Rightarrow> ('s \<times> 't) option" where
  "merge_loop vt wt count indata outdata outavail s t =
     (case merge_fetch_in wt count indata t of
        None \<Rightarrow> None
      | Some (t1, indata1) \<Rightarrow>
          (case merge_fetch_out vt count outdata outavail s of
             None \<Rightarrow> None
           | Some (s1, outdata1, outavail1) \<Rightarrow>
               if indata1 = [] \<or> outavail1 = 0 then None
               else if length indata1 < outavail1
               then let s2 = b_write vt outdata1 indata1 s1;
                        count1 = count - length indata1; outavail2 = outavail1 - length indata1
                    in if count1 = 0
                       then map_option (\<lambda>s3. (s3, t1)) (b_unalloc vt outavail2 s2)
                       else merge_loop vt wt count1 [] (outdata1 + length indata1) outavail2 s2 t1
               else let s2 = b_write vt outdata1 (take outavail1 indata1) s1;
                        count1 = count - outavail1
                    in if count1 = 0 then Some (s2, t1)
                       else merge_loop vt wt count1 (drop outavail1 indata1) outdata1 0 s2 t1))"
  by pat_completeness auto
termination
  by (relation "measure (\<lambda>(vt, wt, count, indata, outdata, outavail, s, t). count)") auto

declare merge_loop.simps [simp del]

definition basicmerge :: "'s buf_vtable \<Rightarrow> 't buf_vtable \<Rightarrow> nat \<Rightarrow> 's \<Rightarrow> 't \<Rightarrow> ('s \<times> 't) option" where
  "basicmerge vt wt count s t =
     (if count = 0 then Some (s, t) else merge_loop vt wt count [] 0 0 s t)"

subsection \<open>The buffer of bytes\<close>

text \<open>\<open>utils/wvbuffer.cc\<close> on any store: strings in and out, and the searches.  A search walks
  over the pieces that \<open>optpeekable\<close> offers.\<close>

definition wvbuf_putstr :: "'s buf_vtable \<Rightarrow> wvstring \<Rightarrow> 's \<Rightarrow> 's option" where
  "wvbuf_putstr vt str s = buf_put vt (str_bytes str) s"

definition wvbuf_getstr :: "'s buf_vtable \<Rightarrow> 's \<Rightarrow> ('s \<times> wvstring) option" where
  "wvbuf_getstr vt s = map_option (apsnd buf_getstr) (buf_move vt (b_used vt s) s)"

definition wvbuf_getstr_len :: "'s buf_vtable \<Rightarrow> nat \<Rightarrow> 's \<Rightarrow> ('s \<times> wvstring) option" where
  "wvbuf_getstr_len vt len s = map_option (apsnd buf_getstr) (buf_move vt len s)"

text \<open>The index of the first byte of a piece that satisfies a test.\<close>

fun find_index :: "(char \<Rightarrow> bool) \<Rightarrow> string \<Rightarrow> nat option" where
  "find_index P [] = None"
| "find_index P (c # cs) = (if P c then Some 0 else map_option Suc (find_index P cs))"

function scan_loop :: "'s buf_vtable \<Rightarrow> (char \<Rightarrow> bool) \<Rightarrow> nat \<Rightarrow> nat \<Rightarrow> 's \<Rightarrow> ('s \<times> nat option \<times> nat) option" where
  "scan_loop vt P avail offset s =
     (if offset < avail
      then let len = b_optpeekable vt (int offset) s
           in if len = 0 then None
              else (case b_peek vt (int offset) len s of
                      None \<Rightarrow> None
                    | Some (s1, str) \<Rightarrow>
                        (case find_index P str of
                           Some i \<Rightarrow> Some (s1, Some (offset + i), offset)
                         | None \<Rightarrow> scan_loop vt P avail (offset + len) s1))
      else Some (s, None, offset))"
  by pat_completeness auto
termination by (relation "measure (\<lambda>(vt, P, avail, offset, s). avail - offset)") auto

declare scan_loop.simps [simp del]

text \<open>\<open>strchr\<close>: one more than the offset of the byte, or 0.\<close>

definition wvbuf_strchr :: "'s buf_vtable \<Rightarrow> char \<Rightarrow> 's \<Rightarrow> ('s \<times> nat) option" where
  "wvbuf_strchr vt ch s =
     map_option (\<lambda>(s1, found, end_offset). (s1, case found of Some i \<Rightarrow> i + 1 | None \<Rightarrow> 0))
       (scan_loop vt (\<lambda>c. c = ch) (b_used vt s) 0 s)"

text \<open>\<open>_match\<close>: the offset of the first byte that is not in the list, or, reversed, that is
  in it; at the end of the buffer 0, or, reversed, the length.\<close>

definition wvbuf_match :: "'s buf_vtable \<Rightarrow> string \<Rightarrow> bool \<Rightarrow> 's \<Rightarrow> ('s \<times> nat) option" where
  "wvbuf_match vt bytelist reverse s =
     map_option (\<lambda>(s1, found, end_offset).
         (s1, case found of Some i \<Rightarrow> i | None \<Rightarrow> if reverse then end_offset else 0))
       (scan_loop vt (\<lambda>c. if reverse then c \<in> set bytelist else c \<notin> set bytelist) (b_used vt s) 0 s)"

lemma map_option_plus_zero [simp]: "map_option ((+) (0::nat)) x = x"
  by (cases x) simp_all

lemma find_index_append:
  "find_index P (a @ b) =
     (case find_index P a of
        Some i \<Rightarrow> Some i
      | None \<Rightarrow> map_option (\<lambda>i. length a + i) (find_index P b))"
proof (induction a)
  case (Cons c a)
  then show ?case by (cases "find_index P a"; cases "find_index P b") auto
qed (cases "find_index P b"; simp)

subsection \<open>The contract of a store that can be read\<close>

text \<open>
  \<open>cont\<close> are the bytes that can still be read and \<open>hist\<close> those that can be put back.  The contents may
  lie in pieces: what can be peeked at is what \<open>optpeekable\<close> offers.
\<close>

locale piece_reader =
  fixes vt :: "'s buf_vtable" and inv :: "'s \<Rightarrow> bool" and hist cont :: "'s \<Rightarrow> string"
  assumes used: "inv s \<Longrightarrow> b_used vt s = length (cont s)"
    and ungettable: "inv s \<Longrightarrow> b_ungettable vt s = length (hist s)"
    and optgettable: "inv s \<Longrightarrow> b_optgettable vt s \<le> length (cont s)"
      "inv s \<Longrightarrow> cont s \<noteq> [] \<Longrightarrow> 0 < b_optgettable vt s"
    and get: "inv s \<Longrightarrow> n \<le> length (cont s) \<Longrightarrow> \<exists>s'. b_get vt n s = Some (s', take n (cont s)) \<and>
      inv s' \<and> cont s' = drop n (cont s) \<and> suffix (take n (cont s)) (hist s')"
    and get_fails: "inv s \<Longrightarrow> length (cont s) < n \<Longrightarrow> b_get vt n s = None"
    and unget: "inv s \<Longrightarrow> n \<le> length (hist s) \<Longrightarrow> \<exists>s'. b_unget vt n s = Some s' \<and> inv s' \<and>
      cont s' = drop (length (hist s) - n) (hist s) @ cont s \<and> hist s' = take (length (hist s) - n) (hist s)"
    and unget_fails: "inv s \<Longrightarrow> length (hist s) < n \<Longrightarrow> b_unget vt n s = None"
    and zap: "inv s \<Longrightarrow> inv (b_zap vt s) \<and> cont (b_zap vt s) = [] \<and> hist (b_zap vt s) = []"
    and optpeekable: "inv s \<Longrightarrow> 0 \<le> off \<Longrightarrow> off < int (length (cont s)) \<Longrightarrow>
      0 < b_optpeekable vt off s \<and> off + int (b_optpeekable vt off s) \<le> int (length (cont s))"
    and peek: "inv s \<Longrightarrow> 0 \<le> off \<Longrightarrow> off < int (length (cont s)) \<Longrightarrow> 0 < n \<Longrightarrow> n \<le> b_optpeekable vt off s \<Longrightarrow>
      \<exists>s'. b_peek vt off n s = Some (s', take n (drop (nat off) (cont s))) \<and>
        inv s' \<and> cont s' = cont s \<and> hist s' = hist s"
begin

lemma move_spec:
  assumes "inv s" "n \<le> length (cont s)"
  shows "\<exists>s'. buf_move vt n s = Some (s', take n (cont s)) \<and> inv s' \<and> cont s' = drop n (cont s)"
  using assms get [OF assms] by (auto simp: buf_move_def)

lemma copy_spec:
  "inv s \<Longrightarrow> 0 \<le> off \<Longrightarrow> off + int n \<le> int (length (cont s)) \<Longrightarrow>
     \<exists>s'. buf_copy vt off n s = Some (s', take n (drop (nat off) (cont s))) \<and>
       inv s' \<and> cont s' = cont s \<and> hist s' = hist s"
proof (induction vt \<equiv> vt off n s rule: buf_copy.induct)
  case (1 off n s)
  show ?case
  proof (cases "n = 0")
    case True
    then show ?thesis using 1 by (simp add: buf_copy.simps)
  next
    case False
    define a where "a = min (b_optpeekable vt off s) n"
    have o: "0 < b_optpeekable vt off s" using optpeekable [of s off] 1(2-4) False by simp
    then have a: "0 < a" "a \<le> n" using False by (simp_all add: a_def)
    obtain s1 where p: "b_peek vt off a s = Some (s1, take a (drop (nat off) (cont s)))"
      and s1: "inv s1" "cont s1 = cont s" "hist s1 = hist s"
      using peek [OF 1(2,3) _ a(1)] a 1(4) False by (auto simp: a_def)
    obtain s2 where r: "buf_copy vt (off + int a) (n - a) s1 =
        Some (s2, take (n - a) (drop (nat (off + int a)) (cont s1)))"
      and s2: "inv s2" "cont s2 = cont s1" "hist s2 = hist s1"
      using 1(1) [OF False refl _ a_def p refl] o s1 1(3,4) a by auto
    have "take a (drop (nat off) (cont s)) @ take (n - a) (drop (nat (off + int a)) (cont s)) =
        take n (drop (nat off) (cont s))"
      using a 1(3) by (simp add: nat_add_distrib take_add [symmetric] drop_drop [symmetric] add.commute
          flip: drop_drop)
    then show ?thesis using False o p r s1 s2
      by (subst buf_copy.simps) (simp add: a_def [symmetric] Let_def)
  qed
qed

lemma scan_spec:
  "inv s \<Longrightarrow> avail = length (cont s) \<Longrightarrow> off \<le> avail \<Longrightarrow>
     \<exists>s' k. scan_loop vt P avail off s = Some (s', map_option ((+) off) (find_index P (drop off (cont s))), k) \<and>
       inv s' \<and> cont s' = cont s \<and> (find_index P (drop off (cont s)) = None \<longrightarrow> k = avail)"
proof (induction vt \<equiv> vt P avail off s rule: scan_loop.induct)
  case (1 P avail off s)
  note fi = find_index_append [of P]
  show ?case
  proof (cases "off < avail")
    case False
    then show ?thesis using 1 by (auto simp: scan_loop.simps)
  next
    case True
    define len where "len = b_optpeekable vt (int off) s"
    have len: "0 < len" "off + len \<le> avail"
      using optpeekable [of s "int off"] 1(2-4) True by (auto simp: len_def)
    define str where "str = take len (drop off (cont s))"
    obtain s1 where p: "b_peek vt (int off) len s = Some (s1, str)"
      and s1: "inv s1" "cont s1 = cont s"
      using peek [OF 1(2) _ _ len(1), of "int off"] True 1(3) by (auto simp: str_def len_def)
    have d: "drop off (cont s) = str @ drop (off + len) (cont s)" "length str = len"
      using len 1(3) by (simp_all add: str_def add.commute flip: drop_drop)
    show ?thesis
    proof (cases "find_index P str")
      case None
      then have "find_index P (drop off (cont s)) =
          map_option ((+) len) (find_index P (drop (off + len) (cont s)))" using fi d by simp
      moreover obtain s' k where "scan_loop vt P avail (off + len) s1 =
          Some (s', map_option ((+) (off + len)) (find_index P (drop (off + len) (cont s1))), k)"
        "inv s'" "cont s' = cont s1" "find_index P (drop (off + len) (cont s1)) = None \<longrightarrow> k = avail"
        using 1(1) [OF True len_def _ p refl None s1(1)] len s1(2) 1(3) by auto
      moreover have "scan_loop vt P avail off s = scan_loop vt P avail (off + len) s1"
        using True len(1) p None by (subst scan_loop.simps) (simp add: len_def [symmetric])
      ultimately show ?thesis using s1(2)
        by (cases "find_index P (drop (off + len) (cont s))") auto
    next
      case (Some i)
      then have "find_index P (drop off (cont s)) = Some i" using fi [of str] d by simp
      then show ?thesis using True len p s1 Some
        by (subst scan_loop.simps) (auto simp: len_def [symmetric] Let_def)
    qed
  qed
qed

lemma strchr_spec:
  assumes "inv s"
  shows "\<exists>s'. wvbuf_strchr vt ch s =
      Some (s', case find_index (\<lambda>c. c = ch) (cont s) of Some i \<Rightarrow> i + 1 | None \<Rightarrow> 0) \<and> inv s' \<and> cont s' = cont s"
proof -
  obtain s' k where "scan_loop vt (\<lambda>c. c = ch) (length (cont s)) 0 s =
      Some (s', find_index (\<lambda>c. c = ch) (cont s), k)" "inv s'" "cont s' = cont s"
    using scan_spec [OF assms refl, of 0 "\<lambda>c. c = ch"] by (auto simp: option.map_ident)
  then show ?thesis by (auto simp: wvbuf_strchr_def used [OF assms])
qed

lemma match_spec:
  assumes "inv s"
  shows "\<exists>s'. wvbuf_match vt l r s =
      Some (s', case find_index (\<lambda>c. if r then c \<in> set l else c \<notin> set l) (cont s) of
                  Some i \<Rightarrow> i | None \<Rightarrow> if r then length (cont s) else 0) \<and> inv s' \<and> cont s' = cont s"
proof -
  let ?P = "\<lambda>c. if r then c \<in> set l else c \<notin> set l"
  obtain s' k where "scan_loop vt ?P (length (cont s)) 0 s = Some (s', find_index ?P (cont s), k)"
    "inv s'" "cont s' = cont s" "find_index ?P (cont s) = None \<longrightarrow> k = length (cont s)"
    using scan_spec [OF assms refl, of 0 ?P] by (auto simp: option.map_ident)
  then show ?thesis
    by (cases "find_index ?P (cont s)") (simp_all only: wvbuf_match_def used [OF assms] option.map prod.case option.case, auto)
qed

lemma getstr_spec:
  assumes "inv s"
  shows "\<exists>s'. wvbuf_getstr vt s = Some (s', buf_getstr (cont s)) \<and> inv s' \<and> cont s' = []"
  using move_spec [OF assms, of "length (cont s)"] used [OF assms] by (auto simp: wvbuf_getstr_def)

text \<open>What has just been read can be put back.\<close>

lemma get_unget:
  assumes "inv s" "n \<le> length (cont s)"
  shows "\<exists>s1 s2. b_get vt n s = Some (s1, take n (cont s)) \<and> b_unget vt n s1 = Some s2 \<and>
    inv s2 \<and> cont s2 = cont s"
proof -
  obtain s1 h where g: "b_get vt n s = Some (s1, take n (cont s))" "inv s1" "cont s1 = drop n (cont s)"
    "hist s1 = h @ take n (cont s)"
    using get [OF assms] by (auto simp: suffix_def)
  then have "n \<le> length (hist s1)" using assms by simp
  from unget [OF g(2) this] g assms show ?thesis by auto
qed

end

subsection \<open>The contract of a store that can be written\<close>

text \<open>
  \<open>refers s p i n\<close>: the pointer \<open>p\<close> gives access to the \<open>n\<close> bytes of the contents from
  index \<open>i\<close> on.
\<close>

locale piece_store = piece_reader vt inv hist cont
  for vt :: "'s buf_vtable" and inv :: "'s \<Rightarrow> bool" and hist cont :: "'s \<Rightarrow> string" +
  fixes refers :: "'s \<Rightarrow> nat \<Rightarrow> nat \<Rightarrow> nat \<Rightarrow> bool"
  assumes unallocable: "inv s \<Longrightarrow> b_unallocable vt s = length (cont s)"
    and optallocable: "inv s \<Longrightarrow> 0 < b_free vt s \<Longrightarrow> 0 < b_optallocable vt s"
    and alloc: "inv s \<Longrightarrow> n \<le> b_free vt s \<Longrightarrow> \<exists>s' p junk. b_alloc vt n s = Some (s', p) \<and> inv s' \<and>
      length junk = n \<and> cont s' = cont s @ junk \<and> refers s' p (length (cont s)) n \<and>
      b_free vt s \<le> b_free vt s' + n"
    and unalloc: "inv s \<Longrightarrow> n \<le> length (cont s) \<Longrightarrow> \<exists>s'. b_unalloc vt n s = Some s' \<and> inv s' \<and>
      cont s' = take (length (cont s) - n) (cont s)"
    and unalloc_fails: "inv s \<Longrightarrow> length (cont s) < n \<Longrightarrow> b_unalloc vt n s = None"
    and mutablepeek: "inv s \<Longrightarrow> 0 \<le> off \<Longrightarrow> off < int (length (cont s)) \<Longrightarrow> 0 < n \<Longrightarrow> n \<le> b_optpeekable vt off s \<Longrightarrow>
      \<exists>s' p. b_mutablepeek vt off n s = Some (s', p) \<and> inv s' \<and> cont s' = cont s \<and> refers s' p (nat off) n"
    and refers_tail: "refers s p i n \<Longrightarrow> j \<le> n \<Longrightarrow> refers s (p + j) (i + j) (n - j)"
    and writes: "inv s \<Longrightarrow> refers s p i n \<Longrightarrow> j + length bs \<le> n \<Longrightarrow>
      inv (b_write vt (p + j) bs s) \<and>
      cont (b_write vt (p + j) bs s) = mem_write (i + j) bs (cont s) \<and>
      refers (b_write vt (p + j) bs s) p i n \<and> b_free vt (b_write vt (p + j) bs s) = b_free vt s"
begin

lemma put_spec:
  "inv s \<Longrightarrow> length bs \<le> b_free vt s \<Longrightarrow> \<exists>s'. buf_put vt bs s = Some s' \<and> inv s' \<and>
     cont s' = cont s @ bs \<and> b_free vt s \<le> b_free vt s' + length bs"
proof (induction vt \<equiv> vt bs s rule: buf_put.induct)
  case (1 bs s)
  show ?case
  proof (cases "bs = []")
    case True
    then show ?thesis using 1(2) by (simp add: buf_put.simps)
  next
    case False
    define a where "a = min (b_optallocable vt s) (length bs)"
    have o: "0 < b_optallocable vt s" using optallocable [OF 1(2)] 1(3) False by (cases bs) auto
    then have a: "0 < a" "a \<le> length bs" "a \<le> b_free vt s" using False 1(3) by (auto simp: a_def)
    obtain s1 p junk where al: "b_alloc vt a s = Some (s1, p)" "inv s1" "length junk = a"
      "cont s1 = cont s @ junk" "refers s1 p (length (cont s)) a" "b_free vt s \<le> b_free vt s1 + a"
      using alloc [OF 1(2) a(3)] by auto
    define s2 where "s2 = b_write vt p (take a bs) s1"
    have w: "inv s2" "cont s2 = cont s @ take a bs" "b_free vt s \<le> b_free vt s2 + a"
      using writes [OF al(2,5), of 0 "take a bs"] a(2) al(3,4,6) by (simp_all add: s2_def mem_write_def)
    have "\<exists>s'. buf_put vt (drop a bs) s2 = Some s' \<and> inv s' \<and> cont s' = cont s2 @ drop a bs \<and>
        b_free vt s2 \<le> b_free vt s' + length (drop a bs)"
      using 1(1) [OF False refl _ a_def al(1) refl, folded s2_def] o w 1(3) by simp
    then show ?thesis using False o al(1) w a(2)
      by (subst buf_put.simps) (auto simp: a_def [symmetric] s2_def [symmetric] Let_def)
  qed
qed

lemma fastput_spec:
  assumes "inv s" "length bs \<le> b_free vt s"
  shows "\<exists>s'. buf_fastput vt bs s = Some s' \<and> inv s' \<and> cont s' = cont s @ bs"
proof -
  obtain s1 p junk where al: "b_alloc vt (length bs) s = Some (s1, p)" "inv s1" "length junk = length bs"
    "cont s1 = cont s @ junk" "refers s1 p (length (cont s)) (length bs)"
    using alloc [OF assms] by auto
  from writes [OF al(2,5), of 0 bs] al show ?thesis by (simp add: buf_fastput_def mem_write_def)
qed

lemma poke_loop_spec:
  "inv s \<Longrightarrow> 0 \<le> off \<Longrightarrow> off + int (length bs) \<le> int (length (cont s)) \<Longrightarrow>
     \<exists>s'. poke_loop vt bs off s = Some s' \<and> inv s' \<and> cont s' = mem_write (nat off) bs (cont s)"
proof (induction vt \<equiv> vt bs off s rule: poke_loop.induct)
  case (1 bs off s)
  show ?case
  proof (cases "bs = []")
    case True
    then show ?thesis using 1(2) by (simp add: poke_loop.simps mem_write_def)
  next
    case False
    define a where "a = min (b_optpeekable vt off s) (length bs)"
    have len: "0 < int (length bs)" using False by simp
    have o: "0 < b_optpeekable vt off s" using optpeekable [OF 1(2,3)] 1(4) len by simp
    then have a: "0 < a" "a \<le> length bs" using False by (auto simp: a_def)
    have "off + int a \<le> int (length (cont s))" using a 1(4) by linarith
    then obtain s1 p where mp: "b_mutablepeek vt off a s = Some (s1, p)" "inv s1" "cont s1 = cont s"
      "refers s1 p (nat off) a"
      using mutablepeek [OF 1(2,3) _ a(1)] 1(4) len by (auto simp: a_def)
    define s2 where "s2 = b_write vt p (take a bs) s1"
    have w: "inv s2" "cont s2 = mem_write (nat off) (take a bs) (cont s)"
      using writes [OF mp(2,4), of 0 "take a bs"] a(2) mp(3) by (simp_all add: s2_def)
    have l2: "length (cont s2) = length (cont s)"
      using w(2) a 1(3,4) by (simp add: mem_write_def)
    have "\<exists>s'. poke_loop vt (drop a bs) (off + int a) s2 = Some s' \<and> inv s' \<and>
        cont s' = mem_write (nat (off + int a)) (drop a bs) (cont s2)"
      using 1(1) [OF False refl _ a_def mp(1) refl, folded s2_def] o w(1) l2 1(3,4) a by simp
    moreover have "mem_write (nat (off + int a)) (drop a bs) (cont s2) = mem_write (nat off) bs (cont s)"
    proof -
      have n: "nat (off + int a) = nat off + a" using 1(3) by simp
      have "length (take (nat off) (cont s)) = nat off" using 1(3,4) by simp
      then show ?thesis using a(2) unfolding n w(2) mem_write_def
        by (simp add: take_drop [symmetric] add.commute add.left_commute)
    qed
    ultimately show ?thesis using False o mp(1)
      by (subst poke_loop.simps) (auto simp: a_def [symmetric] s2_def [symmetric] Let_def)
  qed
qed

text \<open>\<open>poke\<close> overwrites, and extends the buffer where it reaches behind the end.\<close>

lemma poke_spec:
  assumes "inv s" "0 \<le> off" "off \<le> int (length (cont s))"
    and room: "nat off + length bs \<le> length (cont s) + b_free vt s"
  shows "\<exists>s'. buf_poke vt bs off s = Some s' \<and> inv s' \<and> cont s' = mem_write (nat off) bs (cont s)"
proof (cases "off + int (length bs) \<ge> int (length (cont s))")
  case False
  then show ?thesis using poke_loop_spec [OF assms(1,2), of bs] assms used [OF assms(1)]
    by (simp add: buf_poke_def)
next
  case True
  define count where "count = length bs - nat (off + int (length bs) - int (length (cont s)))"
  have c: "count \<le> length bs" "off + int count = int (length (cont s))"
    using True assms(2,3) by (auto simp: count_def)
  obtain s1 where p: "buf_put vt (drop count bs) s = Some s1" "inv s1" "cont s1 = cont s @ drop count bs"
    using put_spec [OF assms(1), of "drop count bs"] room c assms(2) by fastforce
  have "\<exists>s'. poke_loop vt (take count bs) off s1 = Some s' \<and> inv s' \<and>
      cont s' = mem_write (nat off) (take count bs) (cont s1)"
    using poke_loop_spec [OF p(2) assms(2), of "take count bs"] p(3) c by simp
  moreover have "mem_write (nat off) (take count bs) (cont s1) = mem_write (nat off) bs (cont s)"
  proof -
    have n: "nat off + count = length (cont s)" "nat off \<le> length (cont s)" using c assms(2,3) by linarith+
    then show ?thesis using c(1) unfolding p(3) mem_write_def by simp
  qed
  ultimately show ?thesis using True assms(3) used [OF assms(1)] p(1)
    by (auto simp: buf_poke_def count_def [symmetric] Let_def)
qed

end

subsection \<open>The contract of a store in one piece\<close>

locale buf_reader = piece_reader +
  assumes optpeekable_end: "inv s \<Longrightarrow> int (length (cont s)) \<le> off \<Longrightarrow> b_optpeekable vt off s = 0"
    and peek_any: "inv s \<Longrightarrow> 0 \<le> off \<Longrightarrow> 0 < n \<Longrightarrow> off + int n \<le> int (length (cont s)) \<Longrightarrow>
      \<exists>s'. b_peek vt off n s = Some (s', take n (drop (nat off) (cont s))) \<and>
        inv s' \<and> cont s' = cont s \<and> hist s' = hist s"

locale buf_store = piece_store vt inv hist cont refers + buf_reader vt inv hist cont
  for vt :: "'s buf_vtable" and inv :: "'s \<Rightarrow> bool" and hist cont :: "'s \<Rightarrow> string" and refers +
  assumes optallocable_free: "inv s \<Longrightarrow> b_optallocable vt s \<le> b_free vt s"
    and alloc_free: "inv s \<Longrightarrow> b_alloc vt n s = Some (s', p) \<Longrightarrow> b_free vt s' = b_free vt s - n"
    and alloc_fails: "inv s \<Longrightarrow> b_free vt s < n \<Longrightarrow> b_alloc vt n s = None"
    and unalloc_free: "inv s \<Longrightarrow> b_unalloc vt n s = Some s' \<Longrightarrow> b_free vt s' = b_free vt s + n"
begin

lemma put_fails: "inv s \<Longrightarrow> b_free vt s < length bs \<Longrightarrow> buf_put vt bs s = None"
proof (induction vt \<equiv> vt bs s rule: buf_put.induct)
  case (1 bs s)
  define a where "a = min (b_optallocable vt s) (length bs)"
  have b: "bs \<noteq> []" using 1(3) by auto
  show ?case
  proof (cases "b_optallocable vt s = 0")
    case True
    then show ?thesis using b by (subst buf_put.simps) simp
  next
    case False
    then have a: "0 < a" "a \<le> length bs" "a \<le> b_free vt s"
      using b optallocable_free [OF 1(2)] by (auto simp: a_def)
    obtain s1 p junk where al: "b_alloc vt a s = Some (s1, p)" "inv s1" "length junk = a"
      "cont s1 = cont s @ junk" "refers s1 p (length (cont s)) a" "b_free vt s1 = b_free vt s - a"
      using alloc [OF 1(2) a(3)] alloc_free [OF 1(2)] by blast
    define s2 where "s2 = b_write vt p (take a bs) s1"
    have w: "inv s2" "b_free vt s2 = b_free vt s - a"
      using writes [OF al(2,5), of 0 "take a bs"] a(2) al(6) by (simp_all add: s2_def)
    have "buf_put vt (drop a bs) s2 = None"
      using 1(1) [OF b refl False a_def al(1) refl, folded s2_def] w a 1(3) by simp
    then show ?thesis using b False al(1)
      by (subst buf_put.simps) (simp add: a_def [symmetric] s2_def [symmetric] Let_def)
  qed
qed

end

subsection \<open>Merging one store into another\<close>

locale buf_merge = dst: piece_store vt inv hist cont refers + src: piece_reader wt inv2 hist2 cont2
  for vt :: "'s buf_vtable" and inv hist cont refers
    and wt :: "'t buf_vtable" and inv2 hist2 cont2
begin

text \<open>The bytes that are in the output and not only allocated.\<close>

definition filled :: "'s \<Rightarrow> nat \<Rightarrow> string" where
  "filled s outavail = take (length (cont s) - outavail) (cont s)"

lemma fetch_in:
  assumes "inv2 t" "0 < count" "length indata \<le> count" "count - length indata \<le> length (cont2 t)"
  shows "\<exists>t1 indata1. merge_fetch_in wt count indata t = Some (t1, indata1) \<and> inv2 t1 \<and> indata1 \<noteq> [] \<and>
    length indata1 \<le> count \<and> count - length indata1 \<le> length (cont2 t1) \<and>
    indata1 @ take (count - length indata1) (cont2 t1) = indata @ take (count - length indata) (cont2 t) \<and>
    drop (count - length indata1) (cont2 t1) = drop (count - length indata) (cont2 t)"
proof (cases "indata = []")
  case False
  then show ?thesis using assms by (simp add: merge_fetch_in_def)
next
  case True
  define a where "a = min (b_optgettable wt t) count"
  have o: "0 < b_optgettable wt t" "b_optgettable wt t \<le> length (cont2 t)"
    using src.optgettable [OF assms(1)] assms(2,4) True by (cases "cont2 t"; simp)+
  then have a: "0 < a" "a \<le> length (cont2 t)" "a \<le> count" using assms(2) by (auto simp: a_def)
  obtain t1 where g: "b_get wt a t = Some (t1, take a (cont2 t))" "inv2 t1" "cont2 t1 = drop a (cont2 t)"
    using src.get [OF assms(1) a(2)] by auto
  have "take a (cont2 t) @ take (count - a) (drop a (cont2 t)) = take count (cont2 t)"
    using a(3) by (metis le_add_diff_inverse take_add)
  moreover have "take a (cont2 t) \<noteq> []" using a by auto
  ultimately show ?thesis using True o g a assms
    by (auto simp: merge_fetch_in_def a_def [symmetric])
qed

lemma fetch_out:
  assumes "inv s" "0 < count" "outavail \<le> count" "count \<le> outavail + b_free vt s"
    "outavail \<le> length (cont s)" "outavail = 0 \<or> refers s outdata (length (cont s) - outavail) outavail"
  shows "\<exists>s1 p a. merge_fetch_out vt count outdata outavail s = Some (s1, p, a) \<and> inv s1 \<and> 0 < a \<and> a \<le> count \<and>
    count \<le> a + b_free vt s1 \<and> a \<le> length (cont s1) \<and> refers s1 p (length (cont s1) - a) a \<and>
    filled s1 a = filled s outavail"
proof (cases "outavail = 0")
  case False
  then show ?thesis using assms by (simp add: merge_fetch_out_def)
next
  case True
  define a where "a = min (b_optallocable vt s) count"
  have o: "0 < b_optallocable vt s" using dst.optallocable [OF assms(1)] assms(2,4) True by auto
  then have a: "0 < a" "a \<le> b_free vt s" "a \<le> count" using assms(2,4) True by (auto simp: a_def)
  obtain s1 p junk where al: "b_alloc vt a s = Some (s1, p)" "inv s1" "length junk = a"
    "cont s1 = cont s @ junk" "refers s1 p (length (cont s)) a" "b_free vt s \<le> b_free vt s1 + a"
    using dst.alloc [OF assms(1) a(2)] by auto
  then show ?thesis using True o a assms
    by (auto simp: merge_fetch_out_def a_def [symmetric] filled_def)
qed

lemma merge_loop_spec:
  "inv s \<Longrightarrow> inv2 t \<Longrightarrow> 0 < count \<Longrightarrow> length indata \<le> count \<Longrightarrow>
   count - length indata \<le> length (cont2 t) \<Longrightarrow> outavail \<le> count \<Longrightarrow> count \<le> outavail + b_free vt s \<Longrightarrow>
   outavail \<le> length (cont s) \<Longrightarrow> outavail = 0 \<or> refers s outdata (length (cont s) - outavail) outavail \<Longrightarrow>
     \<exists>s' t'. merge_loop vt wt count indata outdata outavail s t = Some (s', t') \<and> inv s' \<and> inv2 t' \<and>
       cont s' = filled s outavail @ indata @ take (count - length indata) (cont2 t) \<and>
       cont2 t' = drop (count - length indata) (cont2 t)"
proof (induction count arbitrary: indata outdata outavail s t rule: less_induct)
  case (less count)
  obtain t1 ind where fi: "merge_fetch_in wt count indata t = Some (t1, ind)" "inv2 t1" "ind \<noteq> []"
    "length ind \<le> count" "count - length ind \<le> length (cont2 t1)"
    "ind @ take (count - length ind) (cont2 t1) = indata @ take (count - length indata) (cont2 t)"
    "drop (count - length ind) (cont2 t1) = drop (count - length indata) (cont2 t)"
    using fetch_in [OF less.prems(2,3,4,5)] by auto
  obtain s1 p a where fo: "merge_fetch_out vt count outdata outavail s = Some (s1, p, a)" "inv s1" "0 < a"
    "a \<le> count" "count \<le> a + b_free vt s1" "a \<le> length (cont s1)"
    "refers s1 p (length (cont s1) - a) a" "filled s1 a = filled s outavail"
    using fetch_out [OF less.prems(1,3,6,7,8,9)] by auto
  define n where "n = min (length ind) a"
  define s2 where "s2 = b_write vt p (take n ind) s1"
  have n: "0 < n" "n \<le> length ind" "n \<le> a" "n \<le> count" using fi(3,4) fo(3,4) by (auto simp: n_def)
  have w: "inv s2" "cont s2 = mem_write (length (cont s1) - a) (take n ind) (cont s1)"
    "refers s2 p (length (cont s1) - a) a" "b_free vt s2 = b_free vt s1"
    using dst.writes [OF fo(2,7), of 0 "take n ind"] n by (simp_all add: s2_def)
  have len: "length (cont s2) = length (cont s1)" using w(2) n fo(6) by (simp add: mem_write_def)
  have fill: "filled s2 (a - n) = filled s outavail @ take n ind"
    using w(2) n fo(6,8) by (simp add: filled_def mem_write_def)
  have step: "merge_loop vt wt count indata outdata outavail s t =
      (if length ind < a
       then if count - length ind = 0 then map_option (\<lambda>s3. (s3, t1)) (b_unalloc vt (a - length ind) s2)
            else merge_loop vt wt (count - length ind) [] (p + length ind) (a - length ind) s2 t1
       else if count - a = 0 then Some (s2, t1)
            else merge_loop vt wt (count - a) (drop a ind) p 0 s2 t1)"
    using fi(1,3) fo(1,3) by (subst merge_loop.simps) (simp add: s2_def n_def Let_def)
  show ?case
  proof (cases "length ind < a")
    case True
    then have nl: "n = length ind" by (simp add: n_def)
    show ?thesis
    proof (cases "count - length ind = 0")
      case fin: True
      obtain s3 where "b_unalloc vt (a - length ind) s2 = Some s3" "inv s3"
        "cont s3 = take (length (cont s2) - (a - length ind)) (cont s2)"
        using dst.unalloc [OF w(1), of "a - length ind"] fo(6) len by fastforce
      then show ?thesis using step True fin fi fill by (auto simp: nl filled_def)
    next
      case more: False
      have r: "refers s2 (p + length ind) (length (cont s2) - (a - length ind)) (a - length ind)"
      proof -
        have "length (cont s1) - a + length ind = length (cont s2) - (a - length ind)"
          using True fo(6) len by linarith
        then show ?thesis using dst.refers_tail [OF w(3), of "length ind"] True by simp
      qed
      have "\<exists>s' t'. merge_loop vt wt (count - length ind) [] (p + length ind) (a - length ind) s2 t1 = Some (s', t') \<and>
          inv s' \<and> inv2 t' \<and> cont s' = filled s2 (a - length ind) @ [] @ take (count - length ind - length []) (cont2 t1) \<and>
          cont2 t' = drop (count - length ind - length []) (cont2 t1)"
        using less.IH [of "count - length ind" s2 t1 "[]" "a - length ind" "p + length ind"]
          w(1,4) fi(2,3,5) more True fo(4,5,6) len r less.prems(3) by simp
      then obtain s' t' where m: "merge_loop vt wt (count - length ind) [] (p + length ind) (a - length ind) s2 t1 = Some (s', t')"
        "inv s'" "inv2 t'" "cont s' = filled s2 (a - length ind) @ take (count - length ind) (cont2 t1)"
        "cont2 t' = drop (count - length ind) (cont2 t1)" by auto
      have "merge_loop vt wt count indata outdata outavail s t = Some (s', t')"
        using step True more m(1) by simp
      moreover have "cont s' = filled s outavail @ indata @ take (count - length indata) (cont2 t)"
        using m(4) fill fi(6) by (simp add: nl)
      ultimately show ?thesis using m fi(7) by auto
    qed
  next
    case False
    then have na: "n = a" by (simp add: n_def)
    show ?thesis
    proof (cases "count - a = 0")
      case fin: True
      then have "length ind = a" "count = a" using False fi(4) fo(4) by simp_all
      then show ?thesis using step False fi w(1) fill by (auto simp: na filled_def)
    next
      case more: False
      have "\<exists>s' t'. merge_loop vt wt (count - a) (drop a ind) p 0 s2 t1 = Some (s', t') \<and>
          inv s' \<and> inv2 t' \<and> cont s' = filled s2 0 @ drop a ind @ take (count - a - length (drop a ind)) (cont2 t1) \<and>
          cont2 t' = drop (count - a - length (drop a ind)) (cont2 t1)"
        using less.IH [of "count - a" s2 t1 "drop a ind" 0 p] w(1,4) fi(2,4,5) more False fo(3,4,5)
        by simp
      moreover have "count - a - length (drop a ind) = count - length ind" using False by simp
      ultimately show ?thesis using step False more fi(6,7) fill
        by (auto simp: na) (metis append.assoc append_take_drop_id)
    qed
  qed
qed

lemma basicmerge_spec:
  assumes "inv s" "inv2 t" "count \<le> length (cont2 t)" "count \<le> b_free vt s"
  shows "\<exists>s' t'. basicmerge vt wt count s t = Some (s', t') \<and> inv s' \<and> inv2 t' \<and>
    cont s' = cont s @ take count (cont2 t) \<and> cont2 t' = drop count (cont2 t)"
  using merge_loop_spec [OF assms(1,2), of count "[]" 0 0] assms
  by (auto simp: basicmerge_def filled_def)

end

end
