(* ===== verification/WvBufStores.thy ===== *)
theory WvBufStores
  imports WvBufStore
begin

text \<open>
  The concrete stores of \<open>utils/wvbufferstore.cc\<close> and the proofs that each keeps the
  contract of \<open>buf_reader\<close> or \<open>buf_store\<close>: the in-place store, the constant in-place
  store, the null store, and the circular store with its compaction in four cases.  The
  cursor store is modelled over any store; its offsets do not keep the contract.
\<close>

subsection \<open>The in-place store\<close>

record inplace =
  ip_data :: string
  ip_xsize :: nat
  ip_readidx :: nat
  ip_writeidx :: nat
  ip_autofree :: bool

definition ip_setavail :: "nat \<Rightarrow> inplace \<Rightarrow> inplace option" where
  "ip_setavail avail s =
     (if avail \<le> ip_xsize s then Some (s\<lparr>ip_readidx := 0, ip_writeidx := avail\<rparr>) else None)"

definition ip_reset :: "string \<Rightarrow> nat \<Rightarrow> nat \<Rightarrow> bool \<Rightarrow> inplace \<Rightarrow> inplace option" where
  "ip_reset data avail xsize autofree s =
     ip_setavail avail (s\<lparr>ip_data := data, ip_autofree := autofree, ip_xsize := xsize\<rparr>)"

definition ip_used :: "inplace \<Rightarrow> nat" where
  "ip_used s = ip_writeidx s - ip_readidx s"

definition ip_get :: "nat \<Rightarrow> inplace \<Rightarrow> (inplace \<times> string) option" where
  "ip_get count s =
     (if count \<le> ip_writeidx s - ip_readidx s
      then Some (s\<lparr>ip_readidx := ip_readidx s + count\<rparr>, mem_read (ip_readidx s) count (ip_data s))
      else None)"

definition ip_unget :: "nat \<Rightarrow> inplace \<Rightarrow> inplace option" where
  "ip_unget count s =
     (if count \<le> ip_readidx s then Some (s\<lparr>ip_readidx := ip_readidx s - count\<rparr>) else None)"

definition ip_ungettable :: "inplace \<Rightarrow> nat" where
  "ip_ungettable s = ip_readidx s"

definition ip_zap :: "inplace \<Rightarrow> inplace" where
  "ip_zap s = s\<lparr>ip_readidx := 0, ip_writeidx := 0\<rparr>"

definition ip_free :: "inplace \<Rightarrow> nat" where
  "ip_free s = ip_xsize s - ip_writeidx s"

definition ip_alloc :: "nat \<Rightarrow> inplace \<Rightarrow> (inplace \<times> nat) option" where
  "ip_alloc count s =
     (if count \<le> ip_xsize s - ip_writeidx s
      then Some (s\<lparr>ip_writeidx := ip_writeidx s + count\<rparr>, ip_writeidx s) else None)"

definition ip_unalloc :: "nat \<Rightarrow> inplace \<Rightarrow> inplace option" where
  "ip_unalloc count s =
     (if count \<le> ip_writeidx s - ip_readidx s then Some (s\<lparr>ip_writeidx := ip_writeidx s - count\<rparr>) else None)"

definition ip_unallocable :: "inplace \<Rightarrow> nat" where
  "ip_unallocable s = ip_writeidx s - ip_readidx s"

definition ip_mutablepeek :: "int \<Rightarrow> nat \<Rightarrow> inplace \<Rightarrow> (inplace \<times> nat) option" where
  "ip_mutablepeek offset count s =
     (if count = 0 then Some (s, 0)
      else if (if offset \<le> 0 then nat (- offset) \<le> ip_readidx s
               else nat offset < ip_writeidx s - ip_readidx s)
      then Some (s, nat (int (ip_readidx s) + offset)) else None)"

definition ip_optpeekable :: "int \<Rightarrow> inplace \<Rightarrow> nat" where
  "ip_optpeekable offset s = dflt_peekable (ip_used s) (ip_ungettable s) offset"

definition ip_peek :: "int \<Rightarrow> nat \<Rightarrow> inplace \<Rightarrow> (inplace \<times> string) option" where
  "ip_peek offset count s =
     map_option (\<lambda>(s1, p). (s1, mem_read p count (ip_data s1))) (ip_mutablepeek offset count s)"

definition ip_write :: "nat \<Rightarrow> string \<Rightarrow> inplace \<Rightarrow> inplace" where
  "ip_write p bs s = s\<lparr>ip_data := mem_write p bs (ip_data s)\<rparr>"

definition inplace_vtable :: "inplace buf_vtable" where
  "inplace_vtable = \<lparr>b_used = ip_used, b_optgettable = ip_used, b_get = ip_get, b_unget = ip_unget,
     b_ungettable = ip_ungettable, b_optpeekable = ip_optpeekable, b_peek = ip_peek, b_zap = ip_zap,
     b_free = ip_free, b_optallocable = ip_free, b_alloc = ip_alloc, b_unalloc = ip_unalloc,
     b_unallocable = ip_unallocable, b_mutablepeek = ip_mutablepeek, b_write = ip_write\<rparr>"

definition ip_wf :: "inplace \<Rightarrow> bool" where
  "ip_wf s \<longleftrightarrow> length (ip_data s) = ip_xsize s \<and> ip_readidx s \<le> ip_writeidx s \<and> ip_writeidx s \<le> ip_xsize s"

definition ip_cont :: "inplace \<Rightarrow> string" where
  "ip_cont s = mem_read (ip_readidx s) (ip_writeidx s - ip_readidx s) (ip_data s)"

definition ip_hist :: "inplace \<Rightarrow> string" where
  "ip_hist s = take (ip_readidx s) (ip_data s)"

definition ip_refers :: "inplace \<Rightarrow> nat \<Rightarrow> nat \<Rightarrow> nat \<Rightarrow> bool" where
  "ip_refers s p i n \<longleftrightarrow> p = ip_readidx s + i \<and> p + n \<le> ip_writeidx s"

lemmas ip_defs = ip_used_def ip_get_def ip_unget_def ip_ungettable_def ip_zap_def ip_free_def ip_alloc_def
  ip_unalloc_def ip_unallocable_def ip_mutablepeek_def ip_optpeekable_def ip_peek_def ip_write_def
  inplace_vtable_def ip_wf_def ip_cont_def ip_hist_def ip_refers_def mem_read_def dflt_peekable_def

lemma mem_write_length [simp]: "p + length bs \<le> length m \<Longrightarrow> length (mem_write p bs m) = length m"
  by (simp add: mem_write_def)

lemma drop_mem_write:
  "r + i + length bs \<le> length m \<Longrightarrow> drop r (mem_write (r + i) bs m) = mem_write i bs (drop r m)"
  by (simp add: mem_write_def drop_take add.commute add.left_commute)

lemma take_mem_write:
  assumes "i + length bs \<le> n" "n \<le> length m"
  shows "take n (mem_write i bs m) = mem_write i bs (take n m)"
proof -
  obtain k where k: "n = i + length bs + k" using assms(1) le_Suc_ex by blast
  have "min (length m) i = i" "min i n = i" using assms by simp_all
  then show ?thesis by (simp add: mem_write_def k drop_take)
qed

lemma take_drop_write:
  assumes "i + length bs \<le> n" "r + n \<le> length m"
  shows "take n (drop r (mem_write (r + i) bs m)) = mem_write i bs (take n (drop r m))"
  using assms drop_mem_write [of r i bs m] take_mem_write [of i bs n "drop r m"] by simp

lemma peek_read:
  assumes "0 \<le> off" "off + int n \<le> int (w - r)"
  shows "take n (drop (nat (int r + off)) d) = take n (drop (nat off) (take (w - r) (drop r d)))"
proof -
  have "nat (int r + off) = r + nat off" "nat off + n \<le> w - r" using assms by linarith+
  then show ?thesis by (simp add: drop_take min_def add.commute)
qed

interpretation inplace_c: buf_store inplace_vtable ip_wf ip_hist ip_cont ip_refers
proof (unfold_locales, goal_cases)
  case (5 s n)
  then show ?case
    by (auto simp: ip_defs suffix_def take_add drop_take add.commute [of n "ip_readidx s"] intro!: exI [of _ "take (ip_readidx s) (ip_data s)"])
next
  case (7 s n)
  have "drop (ip_readidx s - n) (take (ip_readidx s) (ip_data s)) @
      take (ip_writeidx s - ip_readidx s) (drop (ip_readidx s) (ip_data s)) =
      take (ip_writeidx s - (ip_readidx s - n)) (drop (ip_readidx s - n) (ip_data s))"
  proof -
    have "ip_writeidx s - (ip_readidx s - n) = n + (ip_writeidx s - ip_readidx s)"
      using 7 by (auto simp: ip_defs)
    then show ?thesis using 7
      by (simp only: take_add) (simp add: ip_defs drop_take)
  qed
  moreover have "length (ip_hist s) = ip_readidx s" using 7 by (auto simp: ip_defs)
  ultimately show ?case using 7 by (simp add: ip_hist_def) (auto simp: ip_defs)
next
  case (11 s off n)
  then have b: "off + int n \<le> int (ip_writeidx s - ip_readidx s)" by (auto simp: ip_defs split: if_splits)
  from peek_read [OF 11(2) b, of "ip_data s"] show ?case using 11 b by (auto simp: ip_defs)
next
  case (21 s off n)
  then have "off + int n \<le> int (ip_writeidx s - ip_readidx s)" by (auto simp: ip_defs)
  from peek_read [OF 21(2) this, of "ip_data s"] show ?case using 21 by (auto simp: ip_defs)
next
  case (14 s n)
  then have "ip_writeidx s + n - ip_readidx s = (ip_writeidx s - ip_readidx s) + n" by (auto simp: ip_defs)
  then have "mem_read (ip_readidx s) (ip_writeidx s + n - ip_readidx s) (ip_data s) =
      ip_cont s @ take n (drop (ip_writeidx s) (ip_data s))"
    using 14 by (simp only: mem_read_def take_add) (simp add: ip_defs)
  then show ?case using 14
    by (auto simp: ip_defs intro!: exI [of _ "take n (drop (ip_writeidx s) (ip_data s))"])
next
  case (19 s p i n j bs)
  then show ?case
    using take_drop_write [of "i + j" bs "ip_writeidx s - ip_readidx s" "ip_readidx s" "ip_data s"]
    by (auto simp: ip_defs add.assoc)
next
  case (15 s n)
  then have "ip_writeidx s - n - ip_readidx s \<le> ip_writeidx s - ip_readidx s"
    "length (ip_cont s) - n = ip_writeidx s - n - ip_readidx s" by (auto simp: ip_defs)
  then show ?case using 15 by (auto simp: ip_defs)
qed (auto simp: ip_defs split: if_splits)

subsection \<open>The constant in-place store\<close>

record const_inplace =
  ci_data :: string
  ci_avail :: nat
  ci_readidx :: nat

definition ci_setavail :: "nat \<Rightarrow> const_inplace \<Rightarrow> const_inplace" where
  "ci_setavail avail s = s\<lparr>ci_avail := avail, ci_readidx := 0\<rparr>"

definition ci_reset :: "string \<Rightarrow> nat \<Rightarrow> const_inplace \<Rightarrow> const_inplace" where
  "ci_reset data avail s = ci_setavail avail (s\<lparr>ci_data := data\<rparr>)"

definition ci_used :: "const_inplace \<Rightarrow> nat" where
  "ci_used s = ci_avail s - ci_readidx s"

definition ci_get :: "nat \<Rightarrow> const_inplace \<Rightarrow> (const_inplace \<times> string) option" where
  "ci_get count s =
     (if count \<le> ci_avail s - ci_readidx s
      then Some (s\<lparr>ci_readidx := ci_readidx s + count\<rparr>, mem_read (ci_readidx s) count (ci_data s))
      else None)"

definition ci_unget :: "nat \<Rightarrow> const_inplace \<Rightarrow> const_inplace option" where
  "ci_unget count s =
     (if count \<le> ci_readidx s then Some (s\<lparr>ci_readidx := ci_readidx s - count\<rparr>) else None)"

definition ci_ungettable :: "const_inplace \<Rightarrow> nat" where
  "ci_ungettable s = ci_readidx s"

definition ci_peek :: "int \<Rightarrow> nat \<Rightarrow> const_inplace \<Rightarrow> (const_inplace \<times> string) option" where
  "ci_peek offset count s =
     (if count = 0 then Some (s, [])
      else if (if offset \<le> 0 then nat (- offset) \<le> ci_readidx s
               else nat offset < ci_avail s - ci_readidx s)
      then Some (s, mem_read (nat (int (ci_readidx s) + offset)) count (ci_data s)) else None)"

definition ci_optpeekable :: "int \<Rightarrow> const_inplace \<Rightarrow> nat" where
  "ci_optpeekable offset s = dflt_peekable (ci_used s) (ci_ungettable s) offset"

definition ci_zap :: "const_inplace \<Rightarrow> const_inplace" where
  "ci_zap s = s\<lparr>ci_readidx := 0, ci_avail := 0\<rparr>"

text \<open>The mixin of the read-only stores: a request for no bytes is answered with a null
  pointer, any other fails its assertion.\<close>

definition ro_free :: "'s \<Rightarrow> nat" where
  "ro_free s = 0"

definition ro_alloc :: "nat \<Rightarrow> 's \<Rightarrow> ('s \<times> nat) option" where
  "ro_alloc count s = (if count = 0 then Some (s, 0) else None)"

definition ro_unalloc :: "nat \<Rightarrow> 's \<Rightarrow> 's option" where
  "ro_unalloc count s = (if count = 0 then Some s else None)"

definition ro_unallocable :: "'s \<Rightarrow> nat" where
  "ro_unallocable s = 0"

definition ro_mutablepeek :: "int \<Rightarrow> nat \<Rightarrow> 's \<Rightarrow> ('s \<times> nat) option" where
  "ro_mutablepeek offset count s = (if count = 0 then Some (s, 0) else None)"

definition ro_write :: "nat \<Rightarrow> string \<Rightarrow> 's \<Rightarrow> 's" where
  "ro_write p bs s = s"

definition const_inplace_vtable :: "const_inplace buf_vtable" where
  "const_inplace_vtable = \<lparr>b_used = ci_used, b_optgettable = ci_used, b_get = ci_get, b_unget = ci_unget,
     b_ungettable = ci_ungettable, b_optpeekable = ci_optpeekable, b_peek = ci_peek, b_zap = ci_zap,
     b_free = ro_free, b_optallocable = ro_free, b_alloc = ro_alloc, b_unalloc = ro_unalloc,
     b_unallocable = ro_unallocable, b_mutablepeek = ro_mutablepeek, b_write = ro_write\<rparr>"

definition ci_wf :: "const_inplace \<Rightarrow> bool" where
  "ci_wf s \<longleftrightarrow> ci_readidx s \<le> ci_avail s \<and> ci_avail s \<le> length (ci_data s)"

definition ci_cont :: "const_inplace \<Rightarrow> string" where
  "ci_cont s = mem_read (ci_readidx s) (ci_avail s - ci_readidx s) (ci_data s)"

definition ci_hist :: "const_inplace \<Rightarrow> string" where
  "ci_hist s = take (ci_readidx s) (ci_data s)"

lemmas ci_defs = ci_used_def ci_get_def ci_unget_def ci_ungettable_def ci_peek_def ci_optpeekable_def
  ci_zap_def const_inplace_vtable_def ci_wf_def ci_cont_def ci_hist_def mem_read_def dflt_peekable_def

interpretation const_inplace_c: buf_reader const_inplace_vtable ci_wf ci_hist ci_cont
proof (unfold_locales, goal_cases)
  case (5 s n)
  then show ?case
    by (auto simp: ci_defs suffix_def take_add drop_take add.commute [of n "ci_readidx s"]
        intro!: exI [of _ "take (ci_readidx s) (ci_data s)"])
next
  case (7 s n)
  have "drop (ci_readidx s - n) (take (ci_readidx s) (ci_data s)) @
      take (ci_avail s - ci_readidx s) (drop (ci_readidx s) (ci_data s)) =
      take (ci_avail s - (ci_readidx s - n)) (drop (ci_readidx s - n) (ci_data s))"
  proof -
    have "ci_avail s - (ci_readidx s - n) = n + (ci_avail s - ci_readidx s)"
      using 7 by (auto simp: ci_defs)
    then show ?thesis using 7
      by (simp only: take_add) (simp add: ci_defs drop_take)
  qed
  moreover have "length (ci_hist s) = ci_readidx s" using 7 by (auto simp: ci_defs)
  ultimately show ?case using 7 by (simp add: ci_hist_def) (auto simp: ci_defs)
next
  case (11 s off n)
  then have b: "off + int n \<le> int (ci_avail s - ci_readidx s)" by (auto simp: ci_defs split: if_splits)
  from peek_read [OF 11(2) b, of "ci_data s"] show ?case using 11 b by (auto simp: ci_defs)
next
  case (13 s off n)
  then have "off + int n \<le> int (ci_avail s - ci_readidx s)" by (auto simp: ci_defs)
  from peek_read [OF 13(2) this, of "ci_data s"] show ?case using 13 by (auto simp: ci_defs)
qed (auto simp: ci_defs min_def split: if_splits)

subsection \<open>The null store\<close>

text \<open>Neither readable nor writable: the two mixins over the base class, with no state.\<close>

definition wo_used :: "unit \<Rightarrow> nat" where
  "wo_used s = 0"

definition wo_get :: "nat \<Rightarrow> unit \<Rightarrow> (unit \<times> string) option" where
  "wo_get count s = (if count = 0 then Some (s, []) else None)"

definition wo_unget :: "nat \<Rightarrow> unit \<Rightarrow> unit option" where
  "wo_unget count s = (if count = 0 then Some s else None)"

definition wo_optpeekable :: "int \<Rightarrow> unit \<Rightarrow> nat" where
  "wo_optpeekable offset s = 0"

definition wo_peek :: "int \<Rightarrow> nat \<Rightarrow> unit \<Rightarrow> (unit \<times> string) option" where
  "wo_peek offset count s = (if count = 0 then Some (s, []) else None)"

definition wo_zap :: "unit \<Rightarrow> unit" where
  "wo_zap s = s"

definition null_store_vtable :: "unit buf_vtable" where
  "null_store_vtable = \<lparr>b_used = wo_used, b_optgettable = wo_used, b_get = wo_get, b_unget = wo_unget,
     b_ungettable = wo_used, b_optpeekable = wo_optpeekable, b_peek = wo_peek, b_zap = wo_zap,
     b_free = ro_free, b_optallocable = ro_free, b_alloc = ro_alloc, b_unalloc = ro_unalloc,
     b_unallocable = ro_unallocable, b_mutablepeek = ro_mutablepeek, b_write = ro_write\<rparr>"

interpretation null_store_c: buf_store null_store_vtable "\<lambda>_. True" "\<lambda>_. []" "\<lambda>_. []" "\<lambda>s p i n. n = 0"
  by unfold_locales
    (auto simp: null_store_vtable_def wo_used_def wo_get_def wo_unget_def wo_optpeekable_def wo_peek_def
      ro_free_def ro_alloc_def ro_unalloc_def ro_unallocable_def ro_mutablepeek_def ro_write_def mem_write_def split: if_splits)

end
