(* ===== verification/WvCircularBuf.thy ===== *)
theory WvCircularBuf
  imports WvBufStores
begin

text \<open>
  The circular store of \<open>utils/wvbufferstore.cc\<close>.  Its contents start at \<open>head\<close> and wrap
  around the end of the memory; \<open>ensurecontiguous\<close> turns a region that wraps into one
  piece by rotating the memory with \<open>compact\<close>.  A store without memory divides by zero,
  which is \<open>None\<close>.
\<close>

subsection \<open>Compaction\<close>

text \<open>The loop of the fourth case, with the start of the region and the length of the
  tail still to be placed.  It is only reached with a head that is not empty.\<close>

function compact_swap :: "string \<Rightarrow> nat \<Rightarrow> nat \<Rightarrow> nat \<Rightarrow> nat \<Rightarrow> string \<times> nat \<times> nat" where
  "compact_swap m start stop headcount tailcount =
     (if tailcount \<ge> headcount \<and> 0 < headcount
      then compact_swap (mem_swap start stop headcount m) (start + headcount) stop headcount (tailcount - headcount)
      else (m, start, tailcount))"
  by pat_completeness auto
termination by (relation "measure (\<lambda>(m, start, stop, headcount, tailcount). tailcount)") auto

declare compact_swap.simps [simp del]

definition compact :: "string \<Rightarrow> nat \<Rightarrow> nat \<Rightarrow> nat \<Rightarrow> string" where
  "compact data xsize head count =
     (if count = 0 then data
      else if head + count \<le> xsize then mem_move 0 head count data
      else let headcount = xsize - head;
               tailcount = count - headcount;
               freecount = xsize - count
           in if freecount \<ge> headcount
              then let d1 = mem_move headcount 0 tailcount data in mem_move 0 head headcount d1
              else let (d1, start, tailcount1) = compact_swap data 0 head headcount tailcount;
                       buf = mem_read start tailcount1 d1;
                       d2 = mem_move start head headcount d1
                   in mem_write (start + headcount) buf d2)"

subsection \<open>The store\<close>

record circ =
  cb_data :: string
  cb_xsize :: nat
  cb_head :: nat
  cb_totalused :: nat
  cb_totalinit :: nat
  cb_autofree :: bool

definition cb_setavail :: "nat \<Rightarrow> circ \<Rightarrow> circ option" where
  "cb_setavail avail s =
     (if avail \<le> cb_xsize s
      then Some (s\<lparr>cb_head := 0, cb_totalused := avail, cb_totalinit := avail\<rparr>) else None)"

definition cb_reset :: "string \<Rightarrow> nat \<Rightarrow> nat \<Rightarrow> bool \<Rightarrow> circ \<Rightarrow> circ option" where
  "cb_reset data avail xsize autofree s =
     cb_setavail avail (s\<lparr>cb_data := data, cb_autofree := autofree, cb_xsize := xsize\<rparr>)"

definition cb_used :: "circ \<Rightarrow> nat" where
  "cb_used s = cb_totalused s"

definition cb_optgettable :: "circ \<Rightarrow> nat" where
  "cb_optgettable s =
     (let avail = cb_xsize s - cb_head s
      in if avail > cb_totalused s then cb_totalused s else avail)"

definition ensurecontiguous :: "int \<Rightarrow> nat \<Rightarrow> bool \<Rightarrow> circ \<Rightarrow> (circ \<times> nat) option" where
  "ensurecontiguous offset count keephistory s =
     (if cb_xsize s = 0 then None
      else
        let xs = cb_xsize s;
            start = nat ((int (cb_head s) + offset + int xs) mod int xs)
        in if count \<noteq> 0 \<and> start + count > xs
           then let keepstart = (if keephistory
                                 then cb_head s + (cb_totalused s + xs - cb_totalinit s)
                                 else cb_head s) mod xs;
                    totalinit = (if keephistory then cb_totalinit s else cb_totalused s);
                    head = totalinit - cb_totalused s
                in Some (s\<lparr>cb_data := compact (cb_data s) xs keepstart totalinit,
                           cb_totalinit := totalinit, cb_head := head\<rparr>,
                         nat ((int head + offset + int xs) mod int xs))
           else Some (s, start))"

definition cb_get :: "nat \<Rightarrow> circ \<Rightarrow> (circ \<times> string) option" where
  "cb_get count s =
     (if count \<le> cb_totalused s
      then (case ensurecontiguous 0 count False s of
              None \<Rightarrow> None
            | Some (s1, first) \<Rightarrow>
                Some (s1\<lparr>cb_head := (cb_head s1 + count) mod cb_xsize s1,
                         cb_totalused := cb_totalused s1 - count\<rparr>,
                      mem_read first count (cb_data s1)))
      else None)"

definition cb_unget :: "nat \<Rightarrow> circ \<Rightarrow> circ option" where
  "cb_unget count s =
     (if count \<le> cb_totalinit s - cb_totalused s \<and> cb_xsize s \<noteq> 0
      then Some (s\<lparr>cb_head := (cb_head s + cb_xsize s - count) mod cb_xsize s,
                   cb_totalused := cb_totalused s + count\<rparr>)
      else None)"

definition cb_ungettable :: "circ \<Rightarrow> nat" where
  "cb_ungettable s = cb_totalinit s - cb_totalused s"

definition cb_zap :: "circ \<Rightarrow> circ" where
  "cb_zap s = s\<lparr>cb_head := 0, cb_totalused := 0, cb_totalinit := 0\<rparr>"

definition cb_free :: "circ \<Rightarrow> nat" where
  "cb_free s = cb_xsize s - cb_totalused s"

definition cb_optallocable :: "circ \<Rightarrow> nat" where
  "cb_optallocable s =
     (let tail = cb_head s + cb_totalused s
      in if tail \<ge> cb_xsize s then cb_xsize s - cb_totalused s else cb_xsize s - tail)"

definition cb_alloc :: "nat \<Rightarrow> circ \<Rightarrow> (circ \<times> nat) option" where
  "cb_alloc count s =
     (if count \<le> cb_xsize s - cb_totalused s
      then (case ensurecontiguous (int (cb_totalused s)) count False (s\<lparr>cb_totalinit := cb_totalused s\<rparr>) of
              None \<Rightarrow> None
            | Some (s1, first) \<Rightarrow>
                Some (s1\<lparr>cb_totalused := cb_totalused s1 + count,
                         cb_totalinit := cb_totalinit s1 + count\<rparr>, first))
      else None)"

definition cb_unalloc :: "nat \<Rightarrow> circ \<Rightarrow> circ option" where
  "cb_unalloc count s =
     (if count \<le> cb_totalused s
      then Some (s\<lparr>cb_totalused := cb_totalused s - count, cb_totalinit := cb_totalinit s - count\<rparr>)
      else None)"

definition cb_unallocable :: "circ \<Rightarrow> nat" where
  "cb_unallocable s = cb_totalused s"

definition cb_mutablepeek :: "int \<Rightarrow> nat \<Rightarrow> circ \<Rightarrow> (circ \<times> nat) option" where
  "cb_mutablepeek offset count s =
     (if count = 0 then Some (s, 0)
      else if (if offset \<le> 0 then nat (- offset) \<le> cb_totalinit s - cb_totalused s
               else nat offset < cb_totalused s)
      then ensurecontiguous offset count True s else None)"

definition cb_normalize :: "circ \<Rightarrow> circ" where
  "cb_normalize s =
     s\<lparr>cb_totalinit := cb_totalused s,
       cb_data := compact (cb_data s) (cb_xsize s) (cb_head s) (cb_totalused s), cb_head := 0\<rparr>"

definition cb_optpeekable :: "int \<Rightarrow> circ \<Rightarrow> nat" where
  "cb_optpeekable offset s = dflt_peekable (cb_used s) (cb_ungettable s) offset"

definition cb_peek :: "int \<Rightarrow> nat \<Rightarrow> circ \<Rightarrow> (circ \<times> string) option" where
  "cb_peek offset count s =
     map_option (\<lambda>(s1, p). (s1, mem_read p count (cb_data s1))) (cb_mutablepeek offset count s)"

definition cb_write :: "nat \<Rightarrow> string \<Rightarrow> circ \<Rightarrow> circ" where
  "cb_write p bs s = s\<lparr>cb_data := mem_write p bs (cb_data s)\<rparr>"

definition circ_vtable :: "circ buf_vtable" where
  "circ_vtable = \<lparr>b_used = cb_used, b_optgettable = cb_optgettable, b_get = cb_get, b_unget = cb_unget,
     b_ungettable = cb_ungettable, b_optpeekable = cb_optpeekable, b_peek = cb_peek, b_zap = cb_zap,
     b_free = cb_free, b_optallocable = cb_optallocable, b_alloc = cb_alloc, b_unalloc = cb_unalloc,
     b_unallocable = cb_unallocable, b_mutablepeek = cb_mutablepeek, b_write = cb_write\<rparr>"

subsection \<open>Circular regions\<close>

definition cyc :: "string \<Rightarrow> nat \<Rightarrow> nat \<Rightarrow> string" where
  "cyc m p n = map (\<lambda>j. m ! ((p + j) mod length m)) [0..<n]"

lemma cyc_length [simp]: "length (cyc m p n) = n"
  by (simp add: cyc_def)

lemma cyc_nth [simp]: "j < n \<Longrightarrow> cyc m p n ! j = m ! ((p + j) mod length m)"
  by (simp add: cyc_def)

lemma cyc_zero [simp]: "cyc m p 0 = []"
  by (simp add: cyc_def)

lemma cyc_Nil [simp]: "cyc m p n = [] \<longleftrightarrow> n = 0"
  by (simp add: cyc_def)

lemma cyc_mod: "cyc m (p mod length m) n = cyc m p n"
  by (simp add: cyc_def mod_add_left_eq)

lemma cyc_add: "cyc m p (a + b) = cyc m p a @ cyc m (p + a) b"
  by (intro nth_equalityI) (auto simp: nth_append add.assoc)

lemma cyc_take: "k \<le> n \<Longrightarrow> take k (cyc m p n) = cyc m p k"
  using cyc_add [of m p k "n - k"] by simp

lemma cyc_drop: "k \<le> n \<Longrightarrow> drop k (cyc m p n) = cyc m (p + k) (n - k)"
  using cyc_add [of m p k "n - k"] by simp

lemma cyc_read: "p + n \<le> length m \<Longrightarrow> mem_read p n m = cyc m p n"
  by (intro nth_equalityI) (auto simp: mem_read_def)

lemma cyc_prefix: "n \<le> length m \<Longrightarrow> cyc m 0 n = take n m"
  using cyc_read [of 0 n m] by (simp add: mem_read_def)

lemma cyc_wrap:
  assumes "p < length m" "n \<le> length m" "length m \<le> p + n"
  shows "cyc m p n = drop p m @ take (p + n - length m) m"
proof -
  have "n = (length m - p) + (p + n - length m)" using assms by simp
  then have "cyc m p n = cyc m p (length m - p) @ cyc m (p + (length m - p)) (p + n - length m)"
    by (metis cyc_add)
  also have "cyc m p (length m - p) = drop p m" using cyc_read [of p "length m - p" m] assms by (simp add: mem_read_def)
  also have "cyc m (p + (length m - p)) (p + n - length m) = take (p + n - length m) m"
    using cyc_prefix [of "p + n - length m" m] cyc_mod [of m "length m"] assms by simp
  finally show ?thesis .
qed

lemma mod_inject_less:
  fixes a b k :: nat
  assumes "(p + a) mod k = (p + b) mod k" "a < k" "b < k"
  shows "a = b"
proof -
  have "a mod k = b mod k" using assms(1) by (simp add: nat_mod_eq_iff)
  then show ?thesis using assms by simp
qed

lemma cyc_write:
  assumes "q = (p + i) mod length m" "q + length bs \<le> length m" "i + length bs \<le> n" "n \<le> length m"
  shows "cyc (mem_write q bs m) p n = mem_write i bs (cyc m p n)"
proof (rule nth_equalityI)
  show "length (cyc (mem_write q bs m) p n) = length (mem_write i bs (cyc m p n))" using assms by simp
next
  fix j assume "j < length (cyc (mem_write q bs m) p n)"
  then have j: "j < n" by simp
  have w: "mem_write r bs l ! k = (if r \<le> k \<and> k < r + length bs then bs ! (k - r) else l ! k)"
    if "r + length bs \<le> length l" "k < length l" for r k and l :: string
    using that by (auto simp: mem_write_def nth_append)
  have pos: "(p + (i + d)) mod length m = q + d" if "d < length bs" for d
  proof -
    have "(p + (i + d)) mod length m = (q + d) mod length m" using assms(1) by (simp add: mod_add_left_eq add.assoc)
    then show ?thesis using that assms(2) by simp
  qed
  show "cyc (mem_write q bs m) p n ! j = mem_write i bs (cyc m p n) ! j"
  proof (cases "i \<le> j \<and> j < i + length bs")
    case True
    then obtain d where d: "j = i + d" "d < length bs" by (auto simp: nat_le_iff_add)
    have "cyc (mem_write q bs m) p n ! j = mem_write q bs m ! (q + d)"
      using j pos [OF d(2)] assms(2) by (simp add: d(1))
    also have "\<dots> = bs ! d" using w [of q m "q + d"] assms(2) d(2) by simp
    also have "\<dots> = mem_write i bs (cyc m p n) ! j" using w [of i "cyc m p n" j] j d assms(3) by simp
    finally show ?thesis .
  next
    case False
    have "\<not> (q \<le> (p + j) mod length m \<and> (p + j) mod length m < q + length bs)"
    proof
      assume a: "q \<le> (p + j) mod length m \<and> (p + j) mod length m < q + length bs"
      then obtain d where d: "(p + j) mod length m = q + d" using le_Suc_ex by blast
      then have dl: "d < length bs" using a by simp
      then have "(p + j) mod length m = (p + (i + d)) mod length m" using pos d by simp
      moreover have "j < length m" "i + d < length m" using j dl assms(3,4) by linarith+
      ultimately have "j = i + d" by (rule mod_inject_less)
      then show False using False dl by simp
    qed
    moreover have "(p + j) mod length m < length m" using j assms(4) by (intro mod_less_divisor) linarith
    ultimately have "cyc (mem_write q bs m) p n ! j = m ! ((p + j) mod length m)"
      using w [of q m "(p + j) mod length m", OF assms(2)] j assms(2) by (simp only: cyc_nth mem_write_length if_False)
    also have "\<dots> = mem_write i bs (cyc m p n) ! j"
      using w [of i "cyc m p n" j] j False assms(3) by (simp only: cyc_nth cyc_length if_False)
    finally show ?thesis .
  qed
qed

subsection \<open>Compaction brings the region to the front\<close>

lemma mem_swap_parts:
  "length B = length D \<Longrightarrow>
     mem_swap (length A) (length A + length B + length C) (length B) (A @ B @ C @ D @ E) = A @ D @ C @ B @ E"
proof (induction "length B" arbitrary: A B C D)
  case (Suc n)
  obtain b B' where B: "B = b # B'" using Suc(2) by (cases B) auto
  obtain d D' where D: "D = d # D'" using Suc(2,3) by (cases D) auto
  have l: "length A + length B + length C = length (A @ B @ C)" by simp
  have step: "mem_swap (length A) (length A + length B + length C) (length B) (A @ B @ C @ D @ E) =
      mem_swap (length A + 1) (length A + length B + length C + 1) (length B') (A @ d # B' @ C @ b # D' @ E)"
    by (simp add: B D nth_append list_update_append Let_def)
  have "mem_swap (length (A @ [d])) (length (A @ [d]) + length B' + length (C @ [b])) (length B')
      ((A @ [d]) @ B' @ (C @ [b]) @ D' @ E) = (A @ [d]) @ D' @ (C @ [b]) @ B' @ E"
    using Suc(2,3) B D by (intro Suc(1)) auto
  then show ?case unfolding step by (simp add: B D)
qed simp

lemma mem_write_parts: "length bs = length B \<Longrightarrow> mem_write (length A) bs (A @ B @ C) = A @ bs @ C"
  by (simp add: mem_write_def)

lemma mem_read_parts: "mem_read (length A) (length B) (A @ B @ C) = B"
  by (simp add: mem_read_def)

text \<open>The last step of the fourth case, and the loop before it.\<close>

definition compact_end :: "string \<times> nat \<times> nat \<Rightarrow> nat \<Rightarrow> nat \<Rightarrow> string" where
  "compact_end r head headcount =
     (let (d1, start, tailcount) = r
      in mem_write (start + headcount) (mem_read start tailcount d1) (mem_move start head headcount d1))"

lemma compact_swap_parts:
  "m = A @ T @ F @ H \<Longrightarrow> 0 < length H \<Longrightarrow>
     length (compact_end (compact_swap m (length A) (length A + length T + length F) (length H) (length T))
       (length A + length T + length F) (length H)) = length m \<and>
     take (length A + length H + length T)
       (compact_end (compact_swap m (length A) (length A + length T + length F) (length H) (length T))
         (length A + length T + length F) (length H)) = A @ H @ T"
proof (induction "length T" arbitrary: A T F H m rule: less_induct)
  case less
  let ?fin = "length A + length T + length F"
  show ?case
  proof (cases "length T \<ge> length H")
    case True
    define T1 T2 where "T1 = take (length H) T" and "T2 = drop (length H) T"
    have T: "T = T1 @ T2" "length T1 = length H" using True by (simp_all add: T1_def T2_def)
    have sw: "mem_swap (length A) ?fin (length H) m = (A @ H) @ T2 @ F @ T1"
      using mem_swap_parts [of T1 H A "T2 @ F" "[]"] less.prems(1) T by (simp add: add.assoc)
    have "compact_swap m (length A) ?fin (length H) (length T) =
        compact_swap ((A @ H) @ T2 @ F @ T1) (length (A @ H)) (length (A @ H) + length T2 + length F) (length T1) (length T2)"
      using True less.prems(2) sw T
      by (subst compact_swap.simps) (simp add: add.assoc [symmetric])
    moreover have "?fin = length (A @ H) + length T2 + length F" using T by simp
    moreover have "length T2 < length T" "0 < length T1" using T less.prems(2) by simp_all
    moreover note less.hyps [OF \<open>length T2 < length T\<close> refl \<open>0 < length T1\<close>, of "A @ H" F]
    ultimately show ?thesis using T less.prems(1) by (simp add: add.assoc)
  next
    case False
    then have sw: "compact_swap m (length A) ?fin (length H) (length T) = (m, length A, length T)"
      by (subst compact_swap.simps) simp
    have buf: "mem_read (length A) (length T) m = T" using mem_read_parts [of A T] less.prems(1) by simp
    have h: "mem_read ?fin (length H) m = H"
      using mem_read_parts [of "A @ T @ F" H "[]"] less.prems(1) by (simp add: add.assoc)
    have lm: "length m = ?fin + length H" using less.prems(1) by simp
    define m1 where "m1 = mem_write (length A) H m"
    have m1: "length m1 = length m" "take (length A + length H) m1 = A @ H"
      using less.prems(1) by (auto simp: m1_def mem_write_def)
    have "mem_write (length A + length H) T m1 = (A @ H) @ T @ drop (length A + length H + length T) m1"
      using m1 by (simp add: mem_write_def)
    moreover have "length A + length H + length T \<le> length m" using lm by simp
    ultimately show ?thesis using m1(1)
      by (simp add: sw compact_end_def mem_move_def buf h m1_def [symmetric])
  qed
qed

lemma compact_length_front:
  assumes "length data = xsize" "head < xsize" "count \<le> xsize"
  shows "length (compact data xsize head count) = xsize \<and>
    take count (compact data xsize head count) = cyc data head count"
proof -
  consider (empty) "count = 0" | (whole) "count \<noteq> 0" "head + count \<le> xsize"
    | (split) "count \<noteq> 0" "\<not> head + count \<le> xsize" by blast
  then show ?thesis
  proof cases
    case empty
    then show ?thesis using assms by (simp add: compact_def)
  next
    case whole
    then have c: "compact data xsize head count = mem_move 0 head count data" by (simp add: compact_def)
    have r: "mem_read head count data = cyc data head count" using whole assms by (intro cyc_read) simp
    show ?thesis using assms unfolding c by (simp add: mem_move_def r mem_write_def)
  next
    case split
    define hc tc where "hc = xsize - head" and "tc = count - hc"
    define T F H where "T = take tc data" and "F = take (head - tc) (drop tc data)" and "H = drop head data"
    have le: "tc \<le> head" "count = hc + tc" "0 < hc" using split assms by (auto simp: hc_def tc_def)
    have "T @ F = take head data" using le(1) by (metis T_def F_def take_add le_add_diff_inverse)
    then have d: "data = T @ F @ H" using append_take_drop_id [of head data] by (metis H_def append.assoc)
    have len: "length T = tc" "length F = head - tc" "length H = hc"
      using assms le(1) by (simp_all add: T_def F_def H_def hc_def)
    have cy: "cyc data head count = H @ T"
      using cyc_wrap [of head data count] assms split
      by (simp add: H_def T_def hc_def tc_def add.commute [of head])
    show ?thesis
    proof (cases "xsize - count \<ge> hc")
      case True
      define d1 where "d1 = mem_move hc 0 tc data"
      have c: "compact data xsize head count = mem_move 0 head hc d1"
        using split True by (simp add: compact_def d1_def hc_def tc_def Let_def)
      have rd: "mem_read 0 tc data = T" by (simp add: mem_read_def T_def)
      have fit: "hc + tc \<le> head" using True le split assms by (simp add: hc_def)
      have d1: "d1 = take hc data @ T @ drop (hc + tc) data"
        by (simp add: d1_def mem_move_def rd mem_write_def len)
      have l1: "length d1 = xsize" using d1 fit assms le(1) len by simp
      have "drop head d1 = H"
        using fit len assms unfolding d1 H_def by simp
      then have rh: "mem_read head hc d1 = H" using len by (simp add: mem_read_def)
      have "mem_move 0 head hc d1 = H @ drop hc d1" by (simp add: mem_move_def rh mem_write_def len)
      moreover have "drop hc d1 = T @ drop (hc + tc) data" using fit assms by (simp add: d1)
      ultimately show ?thesis using c cy len le l1 fit assms by (simp add: len)
    next
      case False
      have c: "compact data xsize head count =
          compact_end (compact_swap data 0 head hc tc) head hc"
        using split False by (simp add: compact_def compact_end_def hc_def tc_def Let_def split: prod.splits)
      show ?thesis
        using compact_swap_parts [of data "[]" T F H] d len le c cy assms(1) by simp
    qed
  qed
qed

subsection \<open>The store keeps the contract\<close>

definition cb_wf :: "circ \<Rightarrow> bool" where
  "cb_wf s \<longleftrightarrow> length (cb_data s) = cb_xsize s \<and> cb_head s < cb_xsize s \<and>
     cb_totalused s \<le> cb_totalinit s \<and> cb_totalinit s \<le> cb_xsize s"

definition cb_cont :: "circ \<Rightarrow> string" where
  "cb_cont s = cyc (cb_data s) (cb_head s) (cb_totalused s)"

text \<open>The history ends where the contents begin.\<close>

definition cb_hstart :: "circ \<Rightarrow> nat" where
  "cb_hstart s = (cb_head s + (cb_totalused s + cb_xsize s - cb_totalinit s)) mod cb_xsize s"

definition cb_hist :: "circ \<Rightarrow> string" where
  "cb_hist s = cyc (cb_data s) (cb_hstart s) (cb_totalinit s - cb_totalused s)"

definition cb_refers :: "circ \<Rightarrow> nat \<Rightarrow> nat \<Rightarrow> nat \<Rightarrow> bool" where
  "cb_refers s p i n \<longleftrightarrow> n = 0 \<or>
     p = (cb_head s + i) mod cb_xsize s \<and> p + n \<le> cb_xsize s \<and> i + n \<le> cb_totalused s"

lemma cb_hstart_add:
  assumes "cb_wf s"
  shows "cyc (cb_data s) (cb_hstart s + (cb_totalinit s - cb_totalused s)) n = cyc (cb_data s) (cb_head s) n"
proof -
  have w: "length (cb_data s) = cb_xsize s" "cb_totalused s \<le> cb_totalinit s" "cb_totalinit s \<le> cb_xsize s"
    using assms by (simp_all add: cb_wf_def)
  have "(cb_hstart s + (cb_totalinit s - cb_totalused s)) mod cb_xsize s =
      (cb_head s + (cb_totalused s + cb_xsize s - cb_totalinit s) + (cb_totalinit s - cb_totalused s)) mod cb_xsize s"
    by (simp add: cb_hstart_def mod_add_left_eq)
  also have "cb_head s + (cb_totalused s + cb_xsize s - cb_totalinit s) + (cb_totalinit s - cb_totalused s) =
      cb_head s + cb_xsize s" using w by simp
  finally have "(cb_hstart s + (cb_totalinit s - cb_totalused s)) mod cb_xsize s = cb_head s mod cb_xsize s" by simp
  then show ?thesis using cyc_mod [of "cb_data s"] w(1) by metis
qed

lemma cb_all:
  assumes "cb_wf s"
  shows "cyc (cb_data s) (cb_hstart s) (cb_totalinit s) = cb_hist s @ cb_cont s"
proof -
  have "cb_totalinit s = (cb_totalinit s - cb_totalused s) + cb_totalused s"
    using assms by (simp add: cb_wf_def)
  then show ?thesis
    by (metis cyc_add cb_hist_def cb_cont_def cb_hstart_add [OF assms])
qed

lemma int_mod_nat: "0 < k \<Longrightarrow> nat ((int h + int i + int k) mod int k) = (h + i) mod k"
  by (simp flip: of_nat_add of_nat_mod)

text \<open>\<open>ensurecontiguous\<close> gives a region in one piece and keeps the contents, and the
  history when it is asked to.\<close>

lemma ensure_spec:
  assumes wf: "cb_wf s" and room: "int (if keep then cb_totalinit s - cb_totalused s else 0) + int off + int count \<le> int (cb_xsize s)"
    and off: "int off + int count \<le> int (cb_xsize s)"
  shows "\<exists>s' p. ensurecontiguous (int off) count keep s = Some (s', p) \<and> cb_wf s' \<and>
    cb_cont s' = cb_cont s \<and> cb_totalused s' = cb_totalused s \<and> cb_xsize s' = cb_xsize s \<and>
    p = (cb_head s' + off) mod cb_xsize s \<and> (count \<noteq> 0 \<longrightarrow> p + count \<le> cb_xsize s) \<and>
    (keep \<longrightarrow> cb_hist s' = cb_hist s \<and> cb_totalinit s' = cb_totalinit s) \<and>
    (cb_totalinit s = cb_totalused s \<longrightarrow> cb_totalinit s' = cb_totalused s') \<and>
    (s' = s \<or> \<not> keep \<longrightarrow> s' = s \<or> cb_totalinit s' = cb_totalused s')"
proof -
  define xs where "xs = cb_xsize s"
  have w: "length (cb_data s) = xs" "cb_head s < xs" "cb_totalused s \<le> cb_totalinit s" "cb_totalinit s \<le> xs" "0 < xs"
    using wf by (auto simp: cb_wf_def xs_def)
  define start where "start = (cb_head s + off) mod xs"
  have st: "nat ((int (cb_head s) + int off + int xs) mod int xs) = start"
    using int_mod_nat [OF w(5)] by (simp add: start_def)
  show ?thesis
  proof (cases "count \<noteq> 0 \<and> start + count > xs")
    case False
    then have "ensurecontiguous (int off) count keep s = Some (s, start)"
      using w(5) st unfolding ensurecontiguous_def Let_def xs_def [symmetric] by auto
    then show ?thesis using wf False by (auto simp: start_def xs_def)
  next
    case True
    define ti where "ti = (if keep then cb_totalinit s else cb_totalused s)"
    define ks where "ks = (if keep then cb_hstart s else cb_head s)"
    define s' where "s' = s\<lparr>cb_data := compact (cb_data s) xs ks ti, cb_totalinit := ti, cb_head := ti - cb_totalused s\<rparr>"
    have ks: "ks = (if keep then cb_head s + (cb_totalused s + xs - cb_totalinit s) else cb_head s) mod xs" "ks < xs"
      using w(2,5) by (simp_all add: ks_def cb_hstart_def xs_def [symmetric])
    have ti: "cb_totalused s \<le> ti" "ti \<le> xs" using w by (simp_all add: ti_def)
    have p: "nat ((int (ti - cb_totalused s) + int off + int xs) mod int xs) = (ti - cb_totalused s + off) mod xs"
      by (rule int_mod_nat [OF w(5)])
    have e: "ensurecontiguous (int off) count keep s = Some (s', (ti - cb_totalused s + off) mod xs)"
      using True w(5) st p ks(1) unfolding ensurecontiguous_def Let_def xs_def [symmetric] s'_def ti_def by simp
    have c: "length (compact (cb_data s) xs ks ti) = xs"
      "take ti (compact (cb_data s) xs ks ti) = cyc (cb_data s) ks ti"
      using compact_length_front [OF w(1) ks(2) ti(2)] by simp_all
    have room': "ti - cb_totalused s + off + count \<le> xs"
      using room off w by (auto simp: ti_def xs_def split: if_splits)
    have wf': "cb_wf s'"
    proof -
      have "ti - cb_totalused s < xs" using room' True by linarith
      then show ?thesis using c(1) ti by (simp add: cb_wf_def s'_def xs_def)
    qed
    have front: "cyc (cb_data s') 0 ti = cyc (cb_data s) ks ti"
      using cyc_prefix [of ti "cb_data s'"] c ti by (simp add: s'_def)
    have cont: "cb_cont s' = cb_cont s"
    proof -
      have "cb_cont s' = drop (ti - cb_totalused s) (cyc (cb_data s') 0 ti)"
        using cyc_drop [of "ti - cb_totalused s" ti "cb_data s'" 0] ti by (simp add: cb_cont_def s'_def)
      also have "\<dots> = cb_cont s"
        unfolding front using cb_all [OF wf] by (auto simp: ti_def ks_def cb_hist_def cb_cont_def)
      finally show ?thesis .
    qed
    have hist: "cb_hist s' = cb_hist s" if keep
    proof -
      have "cb_hstart s' = 0"
      proof -
        have "cb_head s' + (cb_totalused s' + cb_xsize s' - cb_totalinit s') = xs"
          using ti by (simp add: s'_def xs_def)
        then show ?thesis by (simp add: cb_hstart_def s'_def xs_def)
      qed
      then have "cb_hist s' = take (ti - cb_totalused s) (cyc (cb_data s') 0 ti)"
        using cyc_take [of "ti - cb_totalused s" ti "cb_data s'" 0] by (simp add: cb_hist_def s'_def)
      also have "\<dots> = cb_hist s"
        unfolding front using cb_all [OF wf] that by (simp add: ti_def ks_def cb_hist_def)
      finally show ?thesis .
    qed
    have "(ti - cb_totalused s + off) mod xs = ti - cb_totalused s + off"
      using room' True by (intro mod_less) linarith
    then show ?thesis using e wf' cont hist room'
      by (auto simp: s'_def ti_def xs_def)
  qed
qed

lemma mod_shift: "((h + i) mod k + j) mod k = (h + (i + j)) mod (k::nat)"
  by (simp add: mod_add_left_eq add.assoc)

lemma cb_get_spec:
  assumes wf: "cb_wf s" and n: "n \<le> cb_totalused s"
  shows "\<exists>s'. cb_get n s = Some (s', take n (cb_cont s)) \<and> cb_wf s' \<and> cb_cont s' = drop n (cb_cont s) \<and>
    suffix (take n (cb_cont s)) (cb_hist s')"
proof -
  have x: "cb_totalused s \<le> cb_xsize s" using wf by (simp add: cb_wf_def)
  obtain s1 p where e: "ensurecontiguous (int 0) n False s = Some (s1, p)" "cb_wf s1" "cb_cont s1 = cb_cont s"
    "cb_totalused s1 = cb_totalused s" "cb_xsize s1 = cb_xsize s" "p = (cb_head s1 + 0) mod cb_xsize s"
    "n \<noteq> 0 \<longrightarrow> p + n \<le> cb_xsize s"
    using ensure_spec [OF wf, of False 0 n] n x by auto
  have w: "length (cb_data s1) = cb_xsize s" "cb_head s1 < cb_xsize s" "cb_totalused s \<le> cb_totalinit s1"
    "cb_totalinit s1 \<le> cb_xsize s" using e(2,4,5) by (simp_all add: cb_wf_def)
  have r: "mem_read p n (cb_data s1) = cyc (cb_data s1) (cb_head s1) n"
  proof (cases "n = 0")
    case False
    then show ?thesis using e(6,7) w cyc_read [of p n "cb_data s1"] by simp
  qed (simp add: mem_read_def)
  have t: "take n (cb_cont s) = cyc (cb_data s1) (cb_head s1) n"
    using cyc_take [OF n, of "cb_data s1" "cb_head s1"] e(3,4) by (simp add: cb_cont_def)
  define s' where "s' = s1\<lparr>cb_head := (cb_head s1 + n) mod cb_xsize s1, cb_totalused := cb_totalused s1 - n\<rparr>"
  have g: "cb_get n s = Some (s', take n (cb_cont s))" using e(1) n r t by (simp add: cb_get_def s'_def)
  have wf': "cb_wf s'" using e(2) w(2) by (auto simp: cb_wf_def s'_def)
  have c: "cb_cont s' = drop n (cb_cont s)"
    using cyc_drop [OF n, of "cb_data s1" "cb_head s1"] e(3,4,5) w(1) cyc_mod [of "cb_data s1" "cb_head s1 + n"]
    by (simp add: cb_cont_def s'_def)
  have "cb_totalinit s' - cb_totalused s' = (cb_totalinit s1 - cb_totalused s1) + n"
    using n e(4) w(3) by (simp add: s'_def)
  moreover have "cb_hstart s' = cb_hstart s1"
  proof -
    have "n + (cb_totalused s1 - n + cb_xsize s1 - cb_totalinit s1) = cb_totalused s1 + cb_xsize s1 - cb_totalinit s1"
      using n e(4,5) w(4) by linarith
    moreover have "cb_hstart s' = (cb_head s1 + (n + (cb_totalused s1 - n + cb_xsize s1 - cb_totalinit s1))) mod cb_xsize s1"
      unfolding mod_shift [symmetric] by (simp add: cb_hstart_def s'_def)
    ultimately show ?thesis by (simp only: cb_hstart_def)
  qed
  ultimately have "cb_hist s' = cb_hist s1 @ cyc (cb_data s1) (cb_head s1) n"
    using cb_hstart_add [OF e(2)] by (simp add: cb_hist_def cyc_add s'_def)
  then show ?thesis using g wf' c t by (auto simp: suffix_def)
qed

lemma cb_unget_spec:
  assumes wf: "cb_wf s" and n: "n \<le> cb_totalinit s - cb_totalused s"
  shows "\<exists>s'. cb_unget n s = Some s' \<and> cb_wf s' \<and>
    cb_cont s' = drop (length (cb_hist s) - n) (cb_hist s) @ cb_cont s \<and>
    cb_hist s' = take (length (cb_hist s) - n) (cb_hist s)"
proof -
  define s' where "s' = s\<lparr>cb_head := (cb_head s + cb_xsize s - n) mod cb_xsize s, cb_totalused := cb_totalused s + n\<rparr>"
  define h where "h = cb_totalinit s - cb_totalused s"
  have w: "length (cb_data s) = cb_xsize s" "cb_head s < cb_xsize s" "cb_totalused s \<le> cb_totalinit s"
    "cb_totalinit s \<le> cb_xsize s" using wf by (simp_all add: cb_wf_def)
  have u: "cb_unget n s = Some s'" using n w(2) by (simp add: cb_unget_def s'_def)
  have wf': "cb_wf s'" using n w by (auto simp: cb_wf_def s'_def)
  have head: "cb_head s' = (cb_hstart s + (h - n)) mod cb_xsize s"
  proof -
    have "cb_totalused s + cb_xsize s - cb_totalinit s + (h - n) = cb_xsize s - n"
      using n w by (simp add: h_def)
    then have "(cb_hstart s + (h - n)) mod cb_xsize s = (cb_head s + (cb_xsize s - n)) mod cb_xsize s"
      by (simp add: cb_hstart_def mod_shift)
    moreover have "cb_head s + (cb_xsize s - n) = cb_head s + cb_xsize s - n" using n w by simp
    ultimately show ?thesis by (simp add: s'_def)
  qed
  have hs: "cb_hstart s' = cb_hstart s"
  proof -
    have "cb_head s' + (cb_totalused s' + cb_xsize s' - cb_totalinit s') =
        (cb_head s + (cb_xsize s - n)) mod cb_xsize s + (cb_totalused s + n + cb_xsize s - cb_totalinit s)"
      using n w by (simp add: s'_def)
    moreover have "(cb_xsize s - n) + (cb_totalused s + n + cb_xsize s - cb_totalinit s) =
        (cb_totalused s + cb_xsize s - cb_totalinit s) + cb_xsize s" using n w by simp
    ultimately show ?thesis
      by (simp add: cb_hstart_def s'_def mod_shift) (simp add: add.assoc [symmetric])
  qed
  have len: "length (cb_hist s) = h" by (simp add: cb_hist_def h_def)
  have hist: "cb_hist s' = take (h - n) (cb_hist s)"
    using cyc_take [of "h - n" h "cb_data s" "cb_hstart s"] n by (simp add: cb_hist_def hs) (simp add: s'_def h_def)
  have "cb_cont s' = cyc (cb_data s) (cb_hstart s + (h - n)) (cb_totalused s + n)"
    using head cyc_mod [of "cb_data s" "cb_hstart s + (h - n)"] w(1) by (simp add: cb_cont_def s'_def)
  also have "\<dots> = drop (h - n) (cyc (cb_data s) (cb_hstart s) (cb_totalinit s))"
    using cyc_drop [of "h - n" "cb_totalinit s" "cb_data s" "cb_hstart s"] n w(3) by (simp add: h_def)
  also have "\<dots> = drop (h - n) (cb_hist s) @ cb_cont s" unfolding cb_all [OF wf] by (simp add: len)
  finally show ?thesis using u wf' hist len by auto
qed

lemma cb_alloc_spec:
  assumes wf: "cb_wf s" and n: "n \<le> cb_free s"
  shows "\<exists>s' p junk. cb_alloc n s = Some (s', p) \<and> cb_wf s' \<and> length junk = n \<and>
    cb_cont s' = cb_cont s @ junk \<and> cb_refers s' p (length (cb_cont s)) n \<and> cb_free s' = cb_free s - n"
proof -
  define s0 where "s0 = s\<lparr>cb_totalinit := cb_totalused s\<rparr>"
  have s0: "cb_wf s0" "cb_cont s0 = cb_cont s" "cb_totalused s0 = cb_totalused s" "cb_xsize s0 = cb_xsize s"
    "cb_totalinit s0 = cb_totalused s0"
    using wf by (auto simp: cb_wf_def cb_cont_def s0_def)
  have x: "cb_totalused s + n \<le> cb_xsize s" using wf n by (auto simp: cb_wf_def cb_free_def)
  obtain s1 p where e: "ensurecontiguous (int (cb_totalused s)) n False s0 = Some (s1, p)" "cb_wf s1"
    "cb_cont s1 = cb_cont s" "cb_totalused s1 = cb_totalused s" "cb_xsize s1 = cb_xsize s"
    "p = (cb_head s1 + cb_totalused s) mod cb_xsize s" "n \<noteq> 0 \<longrightarrow> p + n \<le> cb_xsize s"
    "cb_totalinit s1 = cb_totalused s1"
    using ensure_spec [OF s0(1), of False "cb_totalused s" n] x s0 by auto
  define s' where "s' = s1\<lparr>cb_totalused := cb_totalused s1 + n, cb_totalinit := cb_totalinit s1 + n\<rparr>"
  have a: "cb_alloc n s = Some (s', p)"
    using e(1) n by (simp add: cb_alloc_def s'_def cb_free_def s0_def [symmetric])
  have wf': "cb_wf s'" using e(2,4,5,8) x by (simp add: cb_wf_def s'_def)
  have c: "cb_cont s' = cb_cont s @ cyc (cb_data s1) (cb_head s1 + cb_totalused s) n"
    using e(3,4) by (simp add: cb_cont_def s'_def cyc_add)
  have "cb_refers s' p (length (cb_cont s)) n"
    using e(4,5,6,7) by (auto simp: cb_refers_def s'_def cb_cont_def)
  then show ?thesis using a wf' c e(4,5) by (auto simp: cb_free_def s'_def)
qed

lemma cb_mutablepeek_spec:
  assumes wf: "cb_wf s" and n: "0 < n" and o: "0 \<le> off" "off + int n \<le> int (cb_totalused s)"
  shows "\<exists>s' p. cb_mutablepeek off n s = Some (s', p) \<and> cb_wf s' \<and> cb_cont s' = cb_cont s \<and>
    cb_hist s' = cb_hist s \<and> cb_refers s' p (nat off) n \<and> cb_free s' = cb_free s"
proof -
  have w: "cb_totalused s \<le> cb_totalinit s" "cb_totalinit s \<le> cb_xsize s" using wf by (simp_all add: cb_wf_def)
  have i: "off = int (nat off)" using o by simp
  obtain s' p where e: "ensurecontiguous off n True s = Some (s', p)" "cb_wf s'" "cb_cont s' = cb_cont s"
    "cb_totalused s' = cb_totalused s" "cb_xsize s' = cb_xsize s" "p = (cb_head s' + nat off) mod cb_xsize s"
    "p + n \<le> cb_xsize s" "cb_hist s' = cb_hist s"
    using ensure_spec [OF wf, of True "nat off" n] o w n i by auto
  have "nat off + n \<le> cb_totalused s" using o by linarith
  then have "cb_refers s' p (nat off) n" using e by (simp add: cb_refers_def)
  moreover have "cb_mutablepeek off n s = Some (s', p)" using e(1) n o by (auto simp: cb_mutablepeek_def)
  ultimately show ?thesis using e by (auto simp: cb_free_def)
qed

lemma mem_write_Nil [simp]: "mem_write i [] m = m"
  by (simp add: mem_write_def)

lemma cb_refers_tail: "cb_wf s \<Longrightarrow> cb_refers s p i n \<Longrightarrow> j \<le> n \<Longrightarrow> cb_refers s (p + j) (i + j) (n - j)"
proof (cases "j < n")
  case True
  assume "cb_wf s" "cb_refers s p i n"
  then have r: "p = (cb_head s + i) mod cb_xsize s" "p + n \<le> cb_xsize s" "i + n \<le> cb_totalused s"
    using True by (auto simp: cb_refers_def)
  have "(cb_head s + (i + j)) mod cb_xsize s = (p + j) mod cb_xsize s" by (simp add: r(1) mod_shift)
  also have "\<dots> = p + j" using r(2) True by simp
  finally show ?thesis using r True by (simp add: cb_refers_def)
qed (simp add: cb_refers_def)

lemma cb_write_spec:
  assumes wf: "cb_wf s" and r: "cb_refers s p i n" and j: "j + length bs \<le> n"
  shows "cb_wf (cb_write (p + j) bs s) \<and> cb_cont (cb_write (p + j) bs s) = mem_write (i + j) bs (cb_cont s) \<and>
    cb_refers (cb_write (p + j) bs s) p i n \<and> cb_free (cb_write (p + j) bs s) = cb_free s"
proof (cases "bs = []")
  case True
  then show ?thesis using wf r by (simp add: cb_write_def)
next
  case False
  have l: "length (cb_data s) = cb_xsize s" "cb_totalused s \<le> cb_xsize s" using wf by (simp_all add: cb_wf_def)
  have "j < n" using False j by (cases bs) auto
  then have "cb_refers s (p + j) (i + j) (n - j)" "0 < n - j" using cb_refers_tail [OF wf r, of j] by simp_all
  then have rt: "p + j = (cb_head s + (i + j)) mod cb_xsize s" "p + j + (n - j) \<le> cb_xsize s"
    "i + j + (n - j) \<le> cb_totalused s" by (auto simp: cb_refers_def)
  then have "cyc (mem_write (p + j) bs (cb_data s)) (cb_head s) (cb_totalused s) =
      mem_write (i + j) bs (cyc (cb_data s) (cb_head s) (cb_totalused s))"
    using l j by (intro cyc_write) simp_all
  moreover have "length (mem_write (p + j) bs (cb_data s)) = length (cb_data s)"
    using rt l j by (intro mem_write_length) simp
  ultimately show ?thesis using wf r
    by (simp add: cb_write_def cb_wf_def cb_cont_def cb_refers_def cb_free_def)
qed

lemma cb_peek_spec:
  assumes "cb_wf s" "0 \<le> off" "0 < n" "off + int n \<le> int (cb_totalused s)"
  shows "\<exists>s'. cb_peek off n s = Some (s', take n (drop (nat off) (cb_cont s))) \<and> cb_wf s' \<and>
    cb_cont s' = cb_cont s \<and> cb_hist s' = cb_hist s"
proof -
  obtain s' p where m: "cb_mutablepeek off n s = Some (s', p)" "cb_wf s'" "cb_cont s' = cb_cont s"
    "cb_hist s' = cb_hist s" "cb_refers s' p (nat off) n" "cb_totalused s' = cb_totalused s"
    using cb_mutablepeek_spec [of s n off] assms by (fastforce simp: cb_cont_def dest: arg_cong [of _ _ length])
  have r: "p = (cb_head s' + nat off) mod length (cb_data s')" "p + n \<le> length (cb_data s')"
    "nat off + n \<le> cb_totalused s'"
    using m(2,5) assms(3) by (auto simp: cb_refers_def cb_wf_def)
  have "mem_read p n (cb_data s') = cyc (cb_data s') (cb_head s' + nat off) n"
    using cyc_read [OF r(2)] r(1) by (simp add: cyc_mod)
  also have "\<dots> = take n (drop (nat off) (cb_cont s'))"
    using cyc_drop [of "nat off" "cb_totalused s'"] cyc_take [of n "cb_totalused s' - nat off"] r(3)
    by (simp add: cb_cont_def)
  finally show ?thesis using m by (simp add: cb_peek_def)
qed

interpretation circ_c: buf_store circ_vtable cb_wf cb_hist cb_cont cb_refers
proof (unfold_locales, goal_cases)
  case (5 s n)
  then show ?case using cb_get_spec [of s n] by (simp add: circ_vtable_def cb_cont_def)
next
  case (7 s n)
  then show ?case using cb_unget_spec [of s n] by (simp add: circ_vtable_def cb_hist_def)
next
  case (11 s off n)
  then have "off + int n \<le> int (cb_totalused s)"
    by (auto simp: circ_vtable_def cb_optpeekable_def dflt_peekable_def cb_used_def cb_cont_def split: if_splits)
  then show ?case using cb_peek_spec [of s off n] 11 by (simp add: circ_vtable_def)
next
  case (21 s off n)
  then show ?case using cb_peek_spec [of s off n] by (simp add: circ_vtable_def cb_cont_def)
next
  case (14 s n)
  then show ?case using cb_alloc_spec [of s n] by (fastforce simp: circ_vtable_def)
next
  case (23 s n s' p)
  then have "n \<le> cb_free s" by (auto simp: circ_vtable_def cb_alloc_def cb_free_def split: if_splits)
  then show ?case using cb_alloc_spec [of s n] 23 by (auto simp: circ_vtable_def)
next
  case (15 s n)
  have "take (cb_totalused s - n) (cyc (cb_data s) (cb_head s) (cb_totalused s)) =
      cyc (cb_data s) (cb_head s) (cb_totalused s - n)" by (rule cyc_take) simp
  then show ?case using 15
    by (auto simp: circ_vtable_def cb_unalloc_def cb_cont_def cb_wf_def cb_free_def)
next
  case (17 s off n)
  then have "off + int n \<le> int (cb_totalused s)"
    by (auto simp: circ_vtable_def cb_optpeekable_def dflt_peekable_def cb_used_def cb_cont_def split: if_splits)
  then show ?case using cb_mutablepeek_spec [of s n off] 17 by (fastforce simp: circ_vtable_def cb_cont_def)
next
  case (18 s p i n j)
  then show ?case
    by (cases "j < n") (auto simp: cb_refers_def mod_shift [symmetric] mod_less)
next
  case (19 s p i n j bs)
  then show ?case using cb_write_spec [of s p i n j bs] by (simp add: circ_vtable_def)
qed (auto simp: circ_vtable_def cb_used_def cb_cont_def cb_ungettable_def cb_hist_def cb_optgettable_def
    cb_optpeekable_def dflt_peekable_def cb_get_def cb_unget_def cb_zap_def cb_wf_def cb_unallocable_def
    cb_optallocable_def cb_free_def cb_alloc_def cb_unalloc_def Let_def split: if_splits)

text \<open>\<open>normalize\<close> rotates the contents to the front of the memory.\<close>

lemma cb_normalize_spec:
  assumes "cb_wf s"
  shows "cb_wf (cb_normalize s) \<and> cb_cont (cb_normalize s) = cb_cont s \<and>
    take (cb_totalused s) (cb_data (cb_normalize s)) = cb_cont s"
proof -
  have "length (compact (cb_data s) (cb_xsize s) (cb_head s) (cb_totalused s)) = cb_xsize s"
    "take (cb_totalused s) (compact (cb_data s) (cb_xsize s) (cb_head s) (cb_totalused s)) = cb_cont s"
    using compact_length_front [of "cb_data s" "cb_xsize s" "cb_head s" "cb_totalused s"] assms
    by (auto simp: cb_wf_def cb_cont_def)
  then show ?thesis using assms cyc_prefix [of "cb_totalused s" "cb_data (cb_normalize s)"]
    by (auto simp: cb_normalize_def cb_wf_def cb_cont_def)
qed

interpretation circ_merge: buf_merge circ_vtable cb_wf cb_hist cb_cont cb_refers circ_vtable cb_wf cb_hist cb_cont
  by unfold_locales

interpretation inplace_merge: buf_merge inplace_vtable ip_wf ip_hist ip_cont ip_refers
  const_inplace_vtable ci_wf ci_hist ci_cont
  by unfold_locales

end
