(* ===== verification/WvBufCursor.thy ===== *)
theory WvBufCursor
  imports WvCircularBuf
begin

text \<open>
  The cursor store of \<open>utils/wvbufferstore.cc\<close>: a window of \<open>length\<close> bytes into another
  store, from the offset \<open>start\<close> on, of which \<open>shift\<close> bytes have been read.  It is modelled
  over any store; the operations of the store below are those of its vtable.
\<close>

record 's cursor =
  cu_buf :: 's
  cu_start :: int
  cu_length :: nat
  cu_shift :: nat

definition cu_new :: "'s \<Rightarrow> int \<Rightarrow> nat \<Rightarrow> 's cursor" where
  "cu_new buf start len = \<lparr>cu_buf = buf, cu_start = start, cu_length = len, cu_shift = 0\<rparr>"

definition cu_used :: "'s cursor \<Rightarrow> nat" where
  "cu_used c = cu_length c - cu_shift c"

definition cu_optgettable :: "'s buf_vtable \<Rightarrow> 's cursor \<Rightarrow> nat option" where
  "cu_optgettable vt c =
     (let avail = b_optpeekable vt (cu_start c + int (cu_shift c)) (cu_buf c)
      in if \<not> (avail \<noteq> 0 \<or> cu_length c = cu_shift c) then None
         else Some (if avail > cu_length c then cu_length c else avail))"

definition cu_get :: "'s buf_vtable \<Rightarrow> nat \<Rightarrow> 's cursor \<Rightarrow> ('s cursor \<times> string) option" where
  "cu_get vt count c =
     (if count \<le> cu_length c - cu_shift c
      then map_option (\<lambda>(b, bs). (c\<lparr>cu_buf := b, cu_shift := cu_shift c + count\<rparr>, bs))
             (b_peek vt (cu_start c + int (cu_shift c)) count (cu_buf c))
      else None)"

definition cu_skip :: "nat \<Rightarrow> 's cursor \<Rightarrow> 's cursor option" where
  "cu_skip count c =
     (if count \<le> cu_length c - cu_shift c then Some (c\<lparr>cu_shift := cu_shift c + count\<rparr>) else None)"

definition cu_unget :: "nat \<Rightarrow> 's cursor \<Rightarrow> 's cursor option" where
  "cu_unget count c =
     (if count \<le> cu_shift c then Some (c\<lparr>cu_shift := cu_shift c - count\<rparr>) else None)"

definition cu_ungettable :: "'s cursor \<Rightarrow> nat" where
  "cu_ungettable c = cu_shift c"

definition cu_zap :: "'s cursor \<Rightarrow> 's cursor" where
  "cu_zap c = c\<lparr>cu_shift := cu_length c\<rparr>"

definition cu_peekable :: "int \<Rightarrow> 's cursor \<Rightarrow> nat" where
  "cu_peekable offset c =
     (let off = offset + int (cu_shift c) - cu_start c
      in if off < 0 \<or> off > int (cu_length c) then 0 else cu_length c - nat off)"

definition cu_optpeekable :: "'s buf_vtable \<Rightarrow> int \<Rightarrow> 's cursor \<Rightarrow> nat option" where
  "cu_optpeekable vt offset c =
     (let avail = b_optpeekable vt (cu_start c + int (cu_shift c) + offset) (cu_buf c)
      in if \<not> (avail \<noteq> 0 \<or> cu_length c = cu_shift c) then None
         else let m = cu_peekable offset c in Some (if avail > m then m else avail))"

definition cu_window_ok :: "int \<Rightarrow> nat \<Rightarrow> 's cursor \<Rightarrow> bool" where
  "cu_window_ok off count c \<longleftrightarrow> off \<ge> cu_start c \<and> off - cu_start c + int count \<le> int (cu_length c)"

definition cu_peek :: "'s buf_vtable \<Rightarrow> int \<Rightarrow> nat \<Rightarrow> 's cursor \<Rightarrow> ('s cursor \<times> string) option" where
  "cu_peek vt offset count c =
     (let off = offset + int (cu_shift c)
      in if cu_window_ok off count c
         then map_option (\<lambda>(b, bs). (c\<lparr>cu_buf := b\<rparr>, bs)) (b_peek vt off count (cu_buf c)) else None)"

definition cu_mutablepeek :: "'s buf_vtable \<Rightarrow> int \<Rightarrow> nat \<Rightarrow> 's cursor \<Rightarrow> ('s cursor \<times> nat) option" where
  "cu_mutablepeek vt offset count c =
     (let off = offset + int (cu_shift c)
      in if cu_window_ok off count c
         then map_option (\<lambda>(b, p). (c\<lparr>cu_buf := b\<rparr>, p)) (b_mutablepeek vt off count (cu_buf c)) else None)"

subsection \<open>Reading through a cursor\<close>

context buf_reader
begin

text \<open>\<open>get\<close> reads the next bytes of the window and leaves the store below unread.\<close>

lemma cursor_get:
  assumes "inv (cu_buf c)" "0 \<le> cu_start c" "cu_start c + int (cu_length c) \<le> int (length (cont (cu_buf c)))"
    and "0 < n" "n \<le> cu_used c"
  shows "\<exists>b. cu_get vt n c = Some (c\<lparr>cu_buf := b, cu_shift := cu_shift c + n\<rparr>,
      take n (drop (nat (cu_start c) + cu_shift c) (cont (cu_buf c)))) \<and> inv b \<and> cont b = cont (cu_buf c)"
proof -
  have "cu_start c + int (cu_shift c) + int n \<le> int (length (cont (cu_buf c)))"
    using assms by (auto simp: cu_used_def)
  then obtain b where "b_peek vt (cu_start c + int (cu_shift c)) n (cu_buf c) =
      Some (b, take n (drop (nat (cu_start c + int (cu_shift c))) (cont (cu_buf c))))"
    "inv b" "cont b = cont (cu_buf c)"
    using peek_any [OF assms(1) _ assms(4), of "cu_start c + int (cu_shift c)"] assms(2) by auto
  moreover have "nat (cu_start c + int (cu_shift c)) = nat (cu_start c) + cu_shift c" using assms(2) by simp
  ultimately show ?thesis using assms(5)
    by (intro exI [of _ b]) (simp add: cu_get_def cu_used_def)
qed

end

text \<open>A cursor over the ten digits: three of the first five have been read.\<close>

definition digits_store :: inplace where
  "digits_store = \<lparr>ip_data = ''0123456789'', ip_xsize = 10, ip_readidx = 0, ip_writeidx = 10, ip_autofree = False\<rparr>"

lemma cursor_optgettable_too_much:
  "let c = (cu_new digits_store 0 5)\<lparr>cu_shift := 3\<rparr>
   in cu_used c = 2 \<and> cu_optgettable inplace_vtable c = Some 5 \<and> cu_get inplace_vtable 5 c = None"
  by (simp add: cu_new_def digits_store_def cu_used_def cu_optgettable_def cu_get_def inplace_vtable_def
      ip_optpeekable_def dflt_peekable_def ip_used_def ip_ungettable_def)

text \<open>A window that does not start at offset 0 has nothing to peek at its own offset 0.\<close>

lemma cursor_peek_start:
  "let c = cu_new digits_store 2 5
   in map_option snd (cu_get inplace_vtable 1 c) = Some ''2'' \<and>
      cu_optpeekable inplace_vtable 0 c = Some 0 \<and> cu_peek inplace_vtable 0 1 c = None"
  by (simp add: cu_new_def digits_store_def cu_optpeekable_def cu_peekable_def cu_peek_def cu_window_ok_def
      cu_get_def inplace_vtable_def ip_optpeekable_def dflt_peekable_def ip_used_def ip_ungettable_def
      ip_peek_def ip_mutablepeek_def mem_read_def)

end
