(* ===== verification/WvBufRuns.thy ===== *)
theory WvBufRuns
  imports WvBufCursor
begin

text \<open>
  A buffer in use: a client puts bytes in, takes bytes out, puts back what it has just taken,
  searches and overwrites nothing.  A step carries the store together with all the bytes put
  in and all the bytes taken out so far.
\<close>

inductive buf_step :: "'s buf_vtable \<Rightarrow> 's \<times> string \<times> string \<Rightarrow> 's \<times> string \<times> string \<Rightarrow> bool"
  for vt :: "'s buf_vtable" where
  step_put: "length bs \<le> b_free vt s \<Longrightarrow> buf_put vt bs s = Some s' \<Longrightarrow>
     buf_step vt (s, sent, got) (s', sent @ bs, got)"
| step_get: "n \<le> b_used vt s \<Longrightarrow> b_get vt n s = Some (s', bs) \<Longrightarrow>
     buf_step vt (s, sent, got) (s', sent, got @ bs)"
| step_back: "n \<le> b_used vt s \<Longrightarrow> b_get vt n s = Some (s1, bs) \<Longrightarrow> b_unget vt n s1 = Some s' \<Longrightarrow>
     buf_step vt (s, sent, got) (s', sent, got)"
| step_find: "wvbuf_strchr vt ch s = Some (s', k) \<Longrightarrow> buf_step vt (s, sent, got) (s', sent, got)"

inductive_cases buf_stepE [elim!]: "buf_step vt (s, sent, got) (s', sent', got')"

context piece_store
begin

lemma step_fifo:
  assumes "buf_step vt (s, sent, got) (s', sent', got')" "inv s" "sent = got @ cont s"
  shows "inv s' \<and> sent' = got' @ cont s'"
  using assms
proof cases
  case (step_put bs)
  then show ?thesis using put_spec [of s bs] assms by auto
next
  case (step_get n bs)
  then show ?thesis using get [of s n] used [of s] assms by auto
next
  case (step_back n s1 bs)
  then show ?thesis using get_unget [of s n] used [of s] assms by auto
next
  case (step_find ch k)
  then show ?thesis using strchr_spec [of s ch] assms by auto
qed

lemma run_fifo:
  assumes "(buf_step vt)\<^sup>*\<^sup>* (s, sent, got) (s', sent', got')" "inv s" "sent = got @ cont s"
  shows "inv s' \<and> sent' = got' @ cont s'"
  using assms
proof (induction "(s', sent', got')" arbitrary: s' sent' got' rule: rtranclp_induct)
  case (step y)
  obtain s1 sent1 got1 where y: "y = (s1, sent1, got1)" by (cases y)
  then have "inv s1 \<and> sent1 = got1 @ cont s1" using step by blast
  moreover have "buf_step vt (s1, sent1, got1) (s', sent', got')" using step(2) y by (simp only:)
  ultimately show ?case using step_fifo [of s1 sent1 got1 s' sent' got'] by (simp only:)
qed simp

lemma step_put_enabled:
  assumes "inv s" "length bs \<le> b_free vt s"
  shows "\<exists>s'. buf_step vt (s, sent, got) (s', sent @ bs, got)"
  using put_spec [OF assms] buf_step.step_put [OF assms(2)] by blast

lemma step_get_enabled:
  assumes "inv s" "n \<le> b_used vt s"
  shows "\<exists>s'. buf_step vt (s, sent, got) (s', sent, got @ take n (cont s))"
proof -
  obtain s' where "b_get vt n s = Some (s', take n (cont s))"
    using get [of s n] assms used by auto
  then show ?thesis using buf_step.step_get [OF assms(2)] by blast
qed

end

end
