(* ===== verification/WvLinkedBuf.thy ===== *)
theory WvLinkedBuf
  imports WvBufRuns
begin

text \<open>
  The linked store and the growing store (\<open>WvLinkedBufferStore\<close> and \<open>WvDynBufStore\<close> of
  \<open>utils/wvbufferstore.cc\<close>).  The list of sub-buffers is a list of stores, each with the flag that says
  who destroys it; a buffer is named by its position, and the first is at position 0.  The operations
  take the vtable \<open>sv\<close> of a sub-buffer, which copies when it merges, and the virtual \<open>newbuffer\<close>.  The
  memories of the sub-buffers, \<open>msz\<close> bytes each, lie one after another, so an address in the list is the
  memory before its buffer plus the address inside.  Following a null link, which
  \<open>list.first()\<close> and \<open>it.ptr()\<close> do, is \<open>None\<close>, as a failed assertion is.
\<close>

subsection \<open>The list of sub-buffers\<close>

record 's lbuf =
  lb_list :: "('s \<times> bool) list"
  lb_totalused :: nat
  lb_maxungettable :: nat

definition lb_new :: "'s lbuf" where
  "lb_new = \<lparr>lb_list = [], lb_totalused = 0, lb_maxungettable = 0\<rparr>"

definition lb_numsubbuffers :: "'s lbuf \<Rightarrow> nat" where
  "lb_numsubbuffers s = length (lb_list s)"

definition lb_firstsubbuffer :: "'s lbuf \<Rightarrow> 's option" where
  "lb_firstsubbuffer s = (if lb_list s = [] then None else Some (fst (hd (lb_list s))))"

definition lb_appendsubbuffer :: "'s buf_vtable \<Rightarrow> 's \<Rightarrow> bool \<Rightarrow> 's lbuf \<Rightarrow> 's lbuf" where
  "lb_appendsubbuffer sv buf autofree s =
     s\<lparr>lb_list := lb_list s @ [(buf, autofree)], lb_totalused := lb_totalused s + b_used sv buf\<rparr>"

definition lb_prependsubbuffer :: "'s buf_vtable \<Rightarrow> 's \<Rightarrow> bool \<Rightarrow> 's lbuf \<Rightarrow> 's lbuf" where
  "lb_prependsubbuffer sv buf autofree s =
     s\<lparr>lb_list := (buf, autofree) # lb_list s, lb_totalused := lb_totalused s + b_used sv buf,
       lb_maxungettable := 0\<rparr>"

text \<open>The buffer at position \<open>k\<close> is unlinked and not destroyed; the flag it had is returned.\<close>

definition lb_unlinksubbuffer :: "'s buf_vtable \<Rightarrow> nat \<Rightarrow> 's lbuf \<Rightarrow> ('s lbuf \<times> bool) option" where
  "lb_unlinksubbuffer sv k s =
     (if k < length (lb_list s)
      then Some (s\<lparr>lb_totalused := lb_totalused s - b_used sv (fst (lb_list s ! k)),
                   lb_maxungettable := (if k = 0 then 0 else lb_maxungettable s),
                   lb_list := take k (lb_list s) @ drop (Suc k) (lb_list s)\<rparr>,
                 snd (lb_list s ! k))
      else None)"

text \<open>The assertion at the head of the operations.\<close>

definition lb_consistent :: "'s lbuf \<Rightarrow> bool" where
  "lb_consistent s \<longleftrightarrow> lb_totalused s = 0 \<or> lb_list s \<noteq> []"

definition lb_used :: "'s lbuf \<Rightarrow> nat" where
  "lb_used s = lb_totalused s"

fun first_gettable :: "'s buf_vtable \<Rightarrow> ('s \<times> bool) list \<Rightarrow> nat" where
  "first_gettable sv [] = 0"
| "first_gettable sv ((b, af) # l) =
     (if b_optgettable sv b \<noteq> 0 then b_optgettable sv b else first_gettable sv l)"

definition lb_optgettable :: "'s buf_vtable \<Rightarrow> 's lbuf \<Rightarrow> nat" where
  "lb_optgettable sv s = first_gettable sv (lb_list s)"

definition lb_ungettable :: "'s buf_vtable \<Rightarrow> 's lbuf \<Rightarrow> nat" where
  "lb_ungettable sv s =
     (case lb_list s of
        [] \<Rightarrow> 0
      | (b, af) # l \<Rightarrow> (let avail = b_ungettable sv b
                      in if avail > lb_maxungettable s then lb_maxungettable s else avail))"

text \<open>The loop of \<open>coalesce\<close> that pulls the following buffers into \<open>buf\<close>: it unlinks those it has
  emptied and leaves the last one in the list, even when that is empty too.\<close>

fun lb_pull :: "'s buf_vtable \<Rightarrow> 's \<Rightarrow> nat \<Rightarrow> ('s \<times> bool) list \<Rightarrow> ('s \<times> ('s \<times> bool) list) option" where
  "lb_pull sv buf needed [] = None"
| "lb_pull sv buf needed ((b, af) # rest) =
     (let avail = b_used sv b
      in if avail > 0
         then let chunk = min avail needed
              in (case basicmerge sv sv chunk buf b of
                    None \<Rightarrow> None
                  | Some (buf', b') \<Rightarrow>
                      if needed - chunk = 0 then Some (buf', (b', af) # rest)
                      else lb_pull sv buf' (needed - chunk) rest)
         else lb_pull sv buf needed rest)"

definition lb_coalesce :: "'s buf_vtable \<Rightarrow> (nat \<Rightarrow> 's lbuf \<Rightarrow> 's) \<Rightarrow> nat \<Rightarrow> nat \<Rightarrow> 's lbuf \<Rightarrow> 's lbuf option" where
  "lb_coalesce sv nb k count s =
     (if \<not> k < length (lb_list s) then None
      else let (buf, af) = lb_list s ! k; rest = drop (Suc k) (lb_list s); availused = b_used sv buf
           in if count \<le> availused then Some s
              else
                let needed = count - availused;
                    start =
                      (if b_free sv buf < needed
                       then let mustskip = (if k = 0 \<and> lb_totalused s \<noteq> 0 then lb_ungettable sv s else 0)
                            in map_option (\<lambda>buf1. (mustskip, (nb (count + mustskip) s, True), count + mustskip,
                                                   (buf1, af) # rest))
                                 (if k = 0 \<and> lb_totalused s \<noteq> 0 then b_unget sv mustskip buf else Some buf)
                       else Some (0, (buf, af), needed, rest))
                in (case start of
                      None \<Rightarrow> None
                    | Some (mustskip, (into, into_af), want, from) \<Rightarrow>
                        (case lb_pull sv into want from of
                           None \<Rightarrow> None
                         | Some (into1, rest1) \<Rightarrow>
                             map_option (\<lambda>(into2, bs). s\<lparr>lb_list := take k (lb_list s) @ (into2, into_af) # rest1\<rparr>)
                               (b_get sv mustskip into1))))"

text \<open>Leading empty buffers are unlinked, and with the first buffer what could be put back.\<close>

fun skip_empty :: "'s buf_vtable \<Rightarrow> ('s \<times> bool) list \<Rightarrow> nat \<Rightarrow> ('s \<times> bool) list \<times> nat" where
  "skip_empty sv [] m = ([], m)"
| "skip_empty sv ((b, af) # l) m = (if b_used sv b \<noteq> 0 then ((b, af) # l, m) else skip_empty sv l 0)"

definition lb_get :: "'s buf_vtable \<Rightarrow> (nat \<Rightarrow> 's lbuf \<Rightarrow> 's) \<Rightarrow> nat \<Rightarrow> 's lbuf \<Rightarrow> ('s lbuf \<times> string) option" where
  "lb_get sv nb count s =
     (if \<not> lb_consistent s then None
      else if count = 0 then Some (s, [])
      else if \<not> count \<le> lb_totalused s then None
      else let (l, m) = skip_empty sv (lb_list s) (lb_maxungettable s);
               s1 = s\<lparr>lb_totalused := lb_totalused s - count, lb_list := l, lb_maxungettable := m\<rparr>
           in if l = [] then None
              else (case (if b_used sv (fst (hd l)) < count then lb_coalesce sv nb 0 count s1 else Some s1) of
                      None \<Rightarrow> None
                    | Some s2 \<Rightarrow>
                        (case lb_list s2 of
                           [] \<Rightarrow> None
                         | (b, af) # r \<Rightarrow>
                             map_option (\<lambda>(b', bs). (s2\<lparr>lb_maxungettable := lb_maxungettable s2 + count,
                                                        lb_list := (b', af) # r\<rparr>, bs))
                               (b_get sv count b))))"

definition lb_unget :: "'s buf_vtable \<Rightarrow> nat \<Rightarrow> 's lbuf \<Rightarrow> 's lbuf option" where
  "lb_unget sv count s =
     (if \<not> lb_consistent s then None
      else if count = 0 then Some s
      else if lb_list s = [] \<or> \<not> count \<le> lb_maxungettable s then None
      else map_option (\<lambda>b. s\<lparr>lb_totalused := lb_totalused s + count,
                            lb_maxungettable := lb_maxungettable s - count,
                            lb_list := (b, snd (hd (lb_list s))) # tl (lb_list s)\<rparr>)
             (b_unget sv count (fst (hd (lb_list s)))))"

definition lb_zap :: "'s lbuf \<Rightarrow> 's lbuf" where
  "lb_zap s = s\<lparr>lb_totalused := 0, lb_maxungettable := 0, lb_list := []\<rparr>"

definition lb_free :: "'s buf_vtable \<Rightarrow> 's lbuf \<Rightarrow> nat" where
  "lb_free sv s = (if lb_list s \<noteq> [] then b_free sv (fst (last (lb_list s))) else 0)"

definition lb_optallocable :: "'s buf_vtable \<Rightarrow> 's lbuf \<Rightarrow> nat" where
  "lb_optallocable sv s = (if lb_list s \<noteq> [] then b_optallocable sv (fst (last (lb_list s))) else 0)"

text \<open>The address where the memory of the buffer at position \<open>k\<close> starts.\<close>

definition lb_base :: "('s \<Rightarrow> nat) \<Rightarrow> nat \<Rightarrow> ('s \<times> bool) list \<Rightarrow> nat" where
  "lb_base msz k l = sum_list (map (msz \<circ> fst) (take k l))"

definition lb_alloc :: "'s buf_vtable \<Rightarrow> ('s \<Rightarrow> nat) \<Rightarrow> nat \<Rightarrow> 's lbuf \<Rightarrow> ('s lbuf \<times> nat) option" where
  "lb_alloc sv msz count s =
     (if count = 0 then Some (s, 0)
      else if lb_list s = [] then None
      else map_option (\<lambda>(b, p). (s\<lparr>lb_totalused := lb_totalused s + count,
                                  lb_list := butlast (lb_list s) @ [(b, snd (last (lb_list s)))]\<rparr>,
                                lb_base msz (length (lb_list s) - 1) (lb_list s) + p))
             (b_alloc sv count (fst (last (lb_list s)))))"

function unalloc_loop :: "'s buf_vtable \<Rightarrow> nat \<Rightarrow> ('s \<times> bool) list \<Rightarrow> nat \<Rightarrow> (('s \<times> bool) list \<times> nat) option" where
  "unalloc_loop sv count l m =
     (if count = 0 then Some (l, m)
      else if l = [] then None
      else let (buf, af) = last l; avail = b_unallocable sv buf
           in if count < avail then map_option (\<lambda>b. (butlast l @ [(b, af)], m)) (b_unalloc sv count buf)
              else unalloc_loop sv (count - avail) (butlast l) (if length l = 1 then 0 else m))"
  by pat_completeness auto
termination by (relation "measure (\<lambda>(sv, count, l, m). length l)") auto

declare unalloc_loop.simps [simp del]

definition lb_unalloc :: "'s buf_vtable \<Rightarrow> nat \<Rightarrow> 's lbuf \<Rightarrow> 's lbuf option" where
  "lb_unalloc sv count s =
     (if \<not> count \<le> lb_totalused s then None
      else map_option (\<lambda>(l, m). s\<lparr>lb_totalused := lb_totalused s - count, lb_list := l, lb_maxungettable := m\<rparr>)
             (unalloc_loop sv count (lb_list s) (lb_maxungettable s)))"

definition lb_unallocable :: "'s lbuf \<Rightarrow> nat" where
  "lb_unallocable s = lb_totalused s"

text \<open>Where \<open>search\<close> leaves the iterator: at a buffer, with the offset in it; before the list, where
  its element is null; or behind the list, where it has no link.\<close>

datatype found = At nat int | Rewound | Ended

fun search_loop :: "'s buf_vtable \<Rightarrow> nat \<Rightarrow> int \<Rightarrow> ('s \<times> bool) list \<Rightarrow> found" where
  "search_loop sv k offset [] = Ended"
| "search_loop sv k offset ((b, af) # l) =
     (if nat offset < b_used sv b then At k offset
      else search_loop sv (Suc k) (offset - int (b_used sv b)) l)"

definition lb_search :: "'s buf_vtable \<Rightarrow> int \<Rightarrow> 's lbuf \<Rightarrow> found" where
  "lb_search sv offset s =
     (if lb_list s = [] then Ended
      else if offset < 0
      then (if nat (- offset) \<le> b_ungettable sv (fst (hd (lb_list s))) then At 0 offset else Rewound)
      else search_loop sv 0 offset (lb_list s))"

definition lb_optpeekable :: "'s buf_vtable \<Rightarrow> int \<Rightarrow> 's lbuf \<Rightarrow> nat option" where
  "lb_optpeekable sv offset s =
     (case lb_search sv offset s of
        At k o' \<Rightarrow> Some (b_optpeekable sv o' (fst (lb_list s ! k)))
      | Rewound \<Rightarrow> Some 0
      | Ended \<Rightarrow> None)"

text \<open>\<open>mutablepeek\<close> up to its last call: the state, the position of the buffer and the offset in it.\<close>

definition lb_locate :: "'s buf_vtable \<Rightarrow> (nat \<Rightarrow> 's lbuf \<Rightarrow> 's) \<Rightarrow> int \<Rightarrow> nat \<Rightarrow> 's lbuf
    \<Rightarrow> ('s lbuf \<times> nat \<times> int) option" where
  "lb_locate sv nb offset count s =
     (case lb_search sv offset s of
        At k o' \<Rightarrow>
          (let buf = fst (lb_list s ! k); availpeek = dflt_peekable (b_used sv buf) (b_ungettable sv buf) o'
           in map_option (\<lambda>s1. (s1, k, o'))
                (if availpeek < count then lb_coalesce sv nb k count s else Some s))
      | Rewound \<Rightarrow> None
      | Ended \<Rightarrow> None)"

definition lb_set :: "nat \<Rightarrow> 's \<Rightarrow> 's lbuf \<Rightarrow> 's lbuf" where
  "lb_set k b s = s\<lparr>lb_list := (lb_list s)[k := (b, snd (lb_list s ! k))]\<rparr>"

definition lb_mutablepeek :: "'s buf_vtable \<Rightarrow> ('s \<Rightarrow> nat) \<Rightarrow> (nat \<Rightarrow> 's lbuf \<Rightarrow> 's) \<Rightarrow> int \<Rightarrow> nat \<Rightarrow> 's lbuf
    \<Rightarrow> ('s lbuf \<times> nat) option" where
  "lb_mutablepeek sv msz nb offset count s =
     (if count = 0 then Some (s, 0)
      else (case lb_locate sv nb offset count s of
              None \<Rightarrow> None
            | Some (s1, k, o') \<Rightarrow>
                map_option (\<lambda>(b, p). (lb_set k b s1, lb_base msz k (lb_list s1) + p))
                  (b_mutablepeek sv o' count (fst (lb_list s1 ! k)))))"

definition lb_peek :: "'s buf_vtable \<Rightarrow> (nat \<Rightarrow> 's lbuf \<Rightarrow> 's) \<Rightarrow> int \<Rightarrow> nat \<Rightarrow> 's lbuf
    \<Rightarrow> ('s lbuf \<times> string) option" where
  "lb_peek sv nb offset count s =
     (if count = 0 then Some (s, [])
      else (case lb_locate sv nb offset count s of
              None \<Rightarrow> None
            | Some (s1, k, o') \<Rightarrow>
                map_option (\<lambda>(b, bs). (lb_set k b s1, bs))
                  (b_peek sv o' count (fst (lb_list s1 ! k)))))"

text \<open>The buffer whose memory an address lies in, and the address there.\<close>

fun addr_find :: "('s \<Rightarrow> nat) \<Rightarrow> nat \<Rightarrow> ('s \<times> bool) list \<Rightarrow> (nat \<times> nat) option" where
  "addr_find msz p [] = None"
| "addr_find msz p ((b, af) # l) =
     (if p < msz b then Some (0, p) else map_option (apfst Suc) (addr_find msz (p - msz b) l))"

definition lb_write :: "'s buf_vtable \<Rightarrow> ('s \<Rightarrow> nat) \<Rightarrow> nat \<Rightarrow> string \<Rightarrow> 's lbuf \<Rightarrow> 's lbuf" where
  "lb_write sv msz p bs s =
     (if bs = [] then s
      else (case addr_find msz p (lb_list s) of
              None \<Rightarrow> s
            | Some (k, q) \<Rightarrow> lb_set k (b_write sv q bs (fst (lb_list s ! k))) s))"

subsection \<open>The growing store\<close>

definition unlimited_free_space :: nat where
  "unlimited_free_space = 1073741823"

definition dyn_free :: "'s lbuf \<Rightarrow> nat" where
  "dyn_free s = unlimited_free_space"

definition dyn_optallocable :: "'s buf_vtable \<Rightarrow> 's lbuf \<Rightarrow> nat" where
  "dyn_optallocable sv s =
     (let avail = lb_optallocable sv s in if avail = 0 then unlimited_free_space else avail)"

definition dyn_alloc :: "'s buf_vtable \<Rightarrow> ('s \<Rightarrow> nat) \<Rightarrow> (nat \<Rightarrow> 's lbuf \<Rightarrow> 's) \<Rightarrow> nat \<Rightarrow> 's lbuf
    \<Rightarrow> ('s lbuf \<times> nat) option" where
  "dyn_alloc sv msz nb count s =
     lb_alloc sv msz count
       (if count > lb_free sv s then lb_appendsubbuffer sv (nb count s) True s else s)"

definition dyn_size :: "nat \<Rightarrow> nat \<Rightarrow> nat \<Rightarrow> nat \<Rightarrow> nat" where
  "dyn_size minalloc maxalloc minsize used =
     (let size1 = (if used < minsize * 2 then minsize * 2 else used);
          size2 = (if size1 < minalloc then minalloc else if size1 > maxalloc then maxalloc else size1)
      in if size2 < minsize then minsize else size2)"

definition dyn_vtable :: "'s buf_vtable \<Rightarrow> ('s \<Rightarrow> nat) \<Rightarrow> (nat \<Rightarrow> 's lbuf \<Rightarrow> 's) \<Rightarrow> 's lbuf buf_vtable" where
  "dyn_vtable sv msz nb = \<lparr>b_used = lb_used, b_optgettable = lb_optgettable sv, b_get = lb_get sv nb,
     b_unget = lb_unget sv, b_ungettable = lb_ungettable sv,
     b_optpeekable = (\<lambda>off s. case lb_optpeekable sv off s of None \<Rightarrow> 0 | Some n \<Rightarrow> n),
     b_peek = lb_peek sv nb, b_zap = lb_zap, b_free = dyn_free, b_optallocable = dyn_optallocable sv,
     b_alloc = dyn_alloc sv msz nb, b_unalloc = lb_unalloc sv, b_unallocable = lb_unallocable,
     b_mutablepeek = lb_mutablepeek sv msz nb, b_write = lb_write sv msz\<rparr>"

text \<open>\<open>newbuffer\<close> of the base class makes a circular store; its memory is zero in the model, and only
  bytes that were allocated and not written show it.\<close>

definition linked_newbuffer :: "nat \<Rightarrow> nat \<Rightarrow> circ" where
  "linked_newbuffer granularity minsize =
     (let size = roundup minsize granularity
      in \<lparr>cb_data = replicate size (CHR 0x00), cb_xsize = size, cb_head = 0, cb_totalused = 0, cb_totalinit = 0,
          cb_autofree = True\<rparr>)"

definition dyn_newbuffer :: "nat \<Rightarrow> nat \<Rightarrow> nat \<Rightarrow> nat \<Rightarrow> circ lbuf \<Rightarrow> circ" where
  "dyn_newbuffer granularity minalloc maxalloc minsize s =
     linked_newbuffer granularity (dyn_size minalloc maxalloc minsize (lb_used s))"

text \<open>A \<open>WvDynBufBase\<close> of bytes.\<close>

definition dynbuf_vtable :: "nat \<Rightarrow> nat \<Rightarrow> circ lbuf buf_vtable" where
  "dynbuf_vtable minalloc maxalloc = dyn_vtable circ_vtable cb_xsize (dyn_newbuffer 1 minalloc maxalloc)"

text \<open>\<open>WvBufStore::merge\<close> between two stores with sub-buffers: whole buffers change hands, and the rest
  of the bytes is copied.\<close>

function lb_steal :: "'s buf_vtable \<Rightarrow> nat \<Rightarrow> 's lbuf \<Rightarrow> 's lbuf \<Rightarrow> ('s lbuf \<times> 's lbuf \<times> nat) option" where
  "lb_steal sv count s t =
     (case lb_firstsubbuffer t of
        None \<Rightarrow> None
      | Some buf \<Rightarrow>
          (let avail = b_used sv buf
           in if avail > count then Some (s, t, count)
              else (case lb_unlinksubbuffer sv 0 t of
                      None \<Rightarrow> None
                    | Some (t1, autofree) \<Rightarrow>
                        (let s1 = lb_appendsubbuffer sv buf autofree s
                         in if count - avail = 0 then Some (s1, t1, 0)
                            else lb_steal sv (count - avail) s1 t1))))"
  by pat_completeness auto
termination
  by (relation "measure (\<lambda>(sv, count, s, t). length (lb_list t))")
    (auto simp: lb_unlinksubbuffer_def split: if_splits)

declare lb_steal.simps [simp del]

definition lb_merge :: "'s buf_vtable \<Rightarrow> 's lbuf buf_vtable \<Rightarrow> nat \<Rightarrow> 's lbuf \<Rightarrow> 's lbuf \<Rightarrow> ('s lbuf \<times> 's lbuf) option" where
  "lb_merge sv vt count s t =
     (if count = 0 then Some (s, t)
      else (case lb_steal sv count s t of
              None \<Rightarrow> None
            | Some (s1, t1, rest) \<Rightarrow> if rest = 0 then Some (s1, t1) else basicmerge vt vt rest s1 t1))"


subsection \<open>Sub-buffers whose memory has a size\<close>

text \<open>What the list relies on: the memory of a store is filled from empty to full, its size never
  changes, and a pointer stays inside.\<close>

locale sized_store = piece_store sv inv hist cont refers
  for sv :: "'s buf_vtable" and inv :: "'s \<Rightarrow> bool" and hist cont :: "'s \<Rightarrow> string" and refers +
  fixes msz :: "'s \<Rightarrow> nat"
  assumes capacity: "inv s \<Longrightarrow> length (cont s) + b_free sv s = msz s"
    and alloc_msz: "b_alloc sv n s = Some (s', p) \<Longrightarrow> msz s' = msz s"
    and unalloc_msz: "b_unalloc sv n s = Some s' \<Longrightarrow> msz s' = msz s"
    and write_msz: "msz (b_write sv p bs s) = msz s"
    and mutablepeek_msz: "b_mutablepeek sv off n s = Some (s', p) \<Longrightarrow> msz s' = msz s"
    and peek_front: "inv s \<Longrightarrow> 0 < n \<Longrightarrow> n \<le> length (cont s) \<Longrightarrow>
      \<exists>s'. b_peek sv 0 n s = Some (s', take n (cont s)) \<and> inv s' \<and> cont s' = cont s"
    and refers_in: "inv s \<Longrightarrow> refers s p i n \<Longrightarrow> 0 < n \<Longrightarrow> p + n \<le> msz s \<and> i + n \<le> length (cont s)"

sublocale sized_store \<subseteq> sm: buf_merge sv inv hist cont refers sv inv hist cont
  by unfold_locales

locale linked_store = sized_store +
  fixes nb :: "nat \<Rightarrow> 'a lbuf \<Rightarrow> 'a"
  assumes newbuffer: "0 < n \<Longrightarrow> inv (nb n l) \<and> cont (nb n l) = [] \<and> n \<le> b_free sv (nb n l)"

context sized_store
begin

lemma merge_loop_msz:
  "merge_loop sv sv count indata outdata outavail s t = Some (s', t') \<Longrightarrow> msz s' = msz s"
proof (induction sv \<equiv> sv wt \<equiv> sv count indata outdata outavail s t rule: merge_loop.induct)
  case (1 count indata outdata outavail s t)
  obtain t1 ind where i: "merge_fetch_in sv count indata t = Some (t1, ind)"
    using 1(3) by (cases "merge_fetch_in sv count indata t") (auto simp: merge_loop.simps)
  obtain s1 p a where o: "merge_fetch_out sv count outdata outavail s = Some (s1, p, a)"
    using 1(3) i by (cases "merge_fetch_out sv count outdata outavail s") (auto simp: merge_loop.simps)
  have m: "msz s1 = msz s" using o alloc_msz by (auto simp: merge_fetch_out_def Let_def split: if_splits)
  have "\<not> (ind = [] \<or> a = 0)" using 1(3) i o by (subst (asm) merge_loop.simps) (auto split: if_splits)
  note IH = 1(1,2) [OF i refl o refl refl this]
  show ?case
  proof (cases "length ind < a")
    case True
    then show ?thesis using 1(3) i o m IH(1) [OF True refl refl refl] \<open>\<not> (ind = [] \<or> a = 0)\<close> write_msz unalloc_msz
      by (subst (asm) merge_loop.simps) (fastforce simp: Let_def split: if_splits)
  next
    case False
    then show ?thesis using 1(3) i o m IH(2) [OF False refl refl] \<open>\<not> (ind = [] \<or> a = 0)\<close> write_msz
      by (subst (asm) merge_loop.simps) (fastforce simp: Let_def split: if_splits)
  qed
qed

lemma merge_into:
  assumes "inv s" "inv t" "n \<le> length (cont t)" "n \<le> b_free sv s"
  shows "\<exists>s' t'. basicmerge sv sv n s t = Some (s', t') \<and> inv s' \<and> inv t' \<and>
    cont s' = cont s @ take n (cont t) \<and> cont t' = drop n (cont t) \<and> b_free sv s' = b_free sv s - n"
proof -
  obtain s' t' where m: "basicmerge sv sv n s t = Some (s', t')" "inv s'" "inv t'"
    "cont s' = cont s @ take n (cont t)" "cont t' = drop n (cont t)"
    using sm.basicmerge_spec [OF assms] by auto
  have "msz s' = msz s" using m(1) merge_loop_msz by (auto simp: basicmerge_def split: if_splits)
  then have "b_free sv s' = b_free sv s - n"
    using capacity [OF assms(1)] capacity [OF m(2)] assms(3) m(4) by simp
  then show ?thesis using m by auto
qed

text \<open>The contents of a list of buffers.\<close>

definition cat :: "('s \<times> bool) list \<Rightarrow> string" where
  "cat l = concat (map (cont \<circ> fst) l)"

definition ok :: "('s \<times> bool) list \<Rightarrow> bool" where
  "ok l \<longleftrightarrow> (\<forall>b\<in>set l. inv (fst b))"

lemma cat_simps [simp]: "cat [] = []" "cat (b # l) = cont (fst b) @ cat l" "cat (l @ l') = cat l @ cat l'"
  by (simp_all add: cat_def)

lemma ok_simps [simp]: "ok []" "ok (b # l) \<longleftrightarrow> inv (fst b) \<and> ok l" "ok (l @ l') \<longleftrightarrow> ok l \<and> ok l'"
  by (auto simp: ok_def)

lemma pull_spec:
  "inv buf \<Longrightarrow> ok rest \<Longrightarrow> 0 < needed \<Longrightarrow> needed \<le> length (cat rest) \<Longrightarrow> needed \<le> b_free sv buf \<Longrightarrow>
     \<exists>buf' rest'. lb_pull sv buf needed rest = Some (buf', rest') \<and> inv buf' \<and> ok rest' \<and>
       cont buf' = cont buf @ take needed (cat rest) \<and> cat rest' = drop needed (cat rest)"
proof (induction rest arbitrary: buf needed)
  case (Cons x rest)
  obtain b af where x: "x = (b, af)" by force
  have b: "inv b" "b_used sv b = length (cont b)" using Cons.prems(2) used by (simp_all add: x)
  show ?case
  proof (cases "cont b = []")
    case True
    then show ?thesis using Cons.IH [of buf needed] Cons.prems b by (simp add: x)
  next
    case False
    define c where "c = min (length (cont b)) needed"
    have "c \<le> length (cont b)" "c \<le> b_free sv buf" using Cons.prems(5) by (simp_all add: c_def)
    then obtain buf1 b1 where m: "basicmerge sv sv c buf b = Some (buf1, b1)" "inv buf1" "inv b1"
      "cont buf1 = cont buf @ take c (cont b)" "cont b1 = drop c (cont b)" "b_free sv buf1 = b_free sv buf - c"
      using merge_into [OF Cons.prems(1) b(1), of c] by blast
    show ?thesis
    proof (cases "needed \<le> length (cont b)")
      case True
      then show ?thesis using m Cons.prems(2,3) False b(2) by (auto simp: x c_def Let_def)
    next
      case more: False
      then have "\<exists>buf' rest'. lb_pull sv buf1 (needed - c) rest = Some (buf', rest') \<and> inv buf' \<and> ok rest' \<and>
          cont buf' = cont buf1 @ take (needed - c) (cat rest) \<and> cat rest' = drop (needed - c) (cat rest)"
        using Cons.IH [of buf1 "needed - c"] m Cons.prems by (simp add: x c_def)
      then show ?thesis using more m False b(2) by (auto simp: x c_def Let_def)
    qed
  qed
qed simp

lemma skip_empty_spec:
  "ok l \<Longrightarrow> cat l \<noteq> [] \<Longrightarrow> \<exists>b af r m'. skip_empty sv l m = ((b, af) # r, m') \<and> inv b \<and> ok r \<and> cont b \<noteq> [] \<and>
     cat l = cont b @ cat r"
proof (induction sv \<equiv> sv l m rule: skip_empty.induct)
  case (2 b af l m)
  then show ?case using used [of b] by (cases "cont b = []") auto
qed simp

end

subsection \<open>The growing store\<close>

text \<open>What is kept after every operation: the count of the bytes is that of the buffers.\<close>

context linked_store
begin

definition lwf :: "'a lbuf \<Rightarrow> bool" where
  "lwf s \<longleftrightarrow> ok (lb_list s) \<and> lb_totalused s = length (cat (lb_list s)) \<and>
     (lb_list s = [] \<longrightarrow> lb_maxungettable s = 0)"

definition lcont :: "'a lbuf \<Rightarrow> string" where
  "lcont s = cat (lb_list s)"

definition lhist :: "'a lbuf \<Rightarrow> string" where
  "lhist s = (case lb_list s of
       [] \<Rightarrow> []
     | (b, af) # l \<Rightarrow> drop (length (hist b) - lb_maxungettable s) (hist b))"

lemma lwf_consistent: "lwf s \<Longrightarrow> lb_consistent s"
  by (auto simp: lwf_def lb_consistent_def)

lemma cat_split: "k < length l \<Longrightarrow> cat l = cat (take k l) @ cont (fst (l ! k)) @ cat (drop (Suc k) l)"
  by (metis cat_simps(2,3) id_take_nth_drop)

lemma ok_nth: "ok l \<Longrightarrow> k < length l \<Longrightarrow> inv (fst (l ! k))"
  by (simp add: ok_def)

lemma ok_take_drop: "ok l \<Longrightarrow> ok (take k l) \<and> ok (drop k l)"
  by (metis append_take_drop_id ok_simps(3))

lemma lb_ungettable_hist: "lwf s \<Longrightarrow> lb_ungettable sv s = length (lhist s)"
  by (auto simp: lb_ungettable_def lhist_def lwf_def ungettable Let_def min_def split: list.splits)

text \<open>Pulling into a buffer that is given and skipping what was put back before.\<close>

lemma pull_skip:
  assumes "inv b" "cont b = pre" "ok rest" "0 < want" "want \<le> length (cat rest)" "want \<le> b_free sv b"
    "skip \<le> length pre + want"
  shows "\<exists>b1 rest1 b2 bs. lb_pull sv b want rest = Some (b1, rest1) \<and> b_get sv skip b1 = Some (b2, bs) \<and> inv b2 \<and>
    ok rest1 \<and> cont b2 = drop skip (pre @ take want (cat rest)) \<and> cat rest1 = drop want (cat rest)"
proof -
  obtain b1 rest1 where p: "lb_pull sv b want rest = Some (b1, rest1)" "inv b1" "ok rest1"
    "cont b1 = pre @ take want (cat rest)" "cat rest1 = drop want (cat rest)"
    using pull_spec [OF assms(1,3-6)] assms(2) by blast
  have "skip \<le> length (cont b1)" using p(4) assms(5,7) by simp
  from get [OF p(2) this] p show ?thesis by auto
qed

lemma coalesce_spec:
  assumes l: "ok (lb_list s)" "k < length (lb_list s)" "count \<le> length (cat (drop k (lb_list s)))"
  shows "\<exists>b af rest. lb_coalesce sv nb k count s = Some (s\<lparr>lb_list := take k (lb_list s) @ (b, af) # rest\<rparr>) \<and>
    inv b \<and> ok rest \<and> cont b @ cat rest = cat (drop k (lb_list s)) \<and> count \<le> length (cont b)"
proof -
  obtain buf af where x: "lb_list s ! k = (buf, af)" by force
  define rest where "rest = drop (Suc k) (lb_list s)"
  have dk: "drop k (lb_list s) = (buf, af) # rest" using l(2) x by (simp add: rest_def Cons_nth_drop_Suc [symmetric])
  have b: "inv buf" "b_used sv buf = length (cont buf)" "ok rest"
    using ok_nth [OF l(1,2)] ok_take_drop [OF l(1), of "Suc k"] by (simp_all add: x used rest_def)
  have cl: "count \<le> length (cont buf) + length (cat rest)" using l(3) by (simp add: dk)
  show ?thesis
  proof (cases "count \<le> length (cont buf)")
    case True
    have "lb_coalesce sv nb k count s = Some s" using True l(2) x b(2) by (simp add: lb_coalesce_def)
    moreover have "take k (lb_list s) @ (buf, af) # rest = lb_list s" using dk by (metis append_take_drop_id)
    ultimately show ?thesis using True b dk by (intro exI [of _ buf] exI [of _ af] exI [of _ rest]) simp
  next
    case False
    define needed where "needed = count - length (cont buf)"
    have n: "0 < needed" "needed \<le> length (cat rest)" using False cl by (auto simp: needed_def)
    show ?thesis
    proof (cases "b_free sv buf < needed")
      case fits: False
      obtain b1 rest1 b2 bs where p: "lb_pull sv buf needed rest = Some (b1, rest1)" "b_get sv 0 b1 = Some (b2, bs)"
        "inv b2" "ok rest1" "cont b2 = cont buf @ take needed (cat rest)" "cat rest1 = drop needed (cat rest)"
        using pull_skip [OF b(1) refl b(3) n, of 0] fits by auto
      have "lb_coalesce sv nb k count s = Some (s\<lparr>lb_list := take k (lb_list s) @ (b2, af) # rest1\<rparr>)"
        using False fits l(2) x b(2) p(1,2) by (simp add: lb_coalesce_def Let_def needed_def rest_def)
      then show ?thesis using p n False dk
        by (intro exI [of _ b2] exI [of _ af] exI [of _ rest1]) (simp add: needed_def)
    next
      case fresh: True
      define first where "first \<longleftrightarrow> k = 0 \<and> lb_totalused s \<noteq> 0"
      define skip where "skip = (if first then lb_ungettable sv s else 0)"
      obtain buf1 h where u: "(if first then b_unget sv skip buf else Some buf) = Some buf1" "inv buf1"
        "cont buf1 = h @ cont buf" "length h = skip"
      proof (cases first)
        case True
        then have "hd (lb_list s) = (buf, af)" "lb_list s \<noteq> []" using x l(2) by (auto simp: first_def hd_conv_nth)
        then have "skip \<le> length (hist buf)" using True ungettable [OF b(1)]
          by (auto simp: skip_def lb_ungettable_def Let_def split: list.splits)
        then show ?thesis using that unget [OF b(1), of skip] True by fastforce
      next
        case False
        then show ?thesis using that [of buf "[]"] b(1) by (simp add: skip_def)
      qed
      have nb0: "inv (nb (count + skip) s)" "cont (nb (count + skip) s) = []" "count + skip \<le> b_free sv (nb (count + skip) s)"
        using newbuffer [of "count + skip" s] False by auto
      have "count + skip \<le> length (cat ((buf1, af) # rest))" using u(3,4) cl by simp
      then obtain b1 rest1 b2 bs where p: "lb_pull sv (nb (count + skip) s) (count + skip) ((buf1, af) # rest) = Some (b1, rest1)"
        "b_get sv skip b1 = Some (b2, bs)" "inv b2" "ok rest1"
        "cont b2 = drop skip (take (count + skip) (cat ((buf1, af) # rest)))"
        "cat rest1 = drop (count + skip) (cat ((buf1, af) # rest))"
        using pull_skip [OF nb0(1,2), of "(buf1, af) # rest" "count + skip" skip] nb0(3) u(2) b(3) False by auto
      have "lb_coalesce sv nb k count s = Some (s\<lparr>lb_list := take k (lb_list s) @ (b2, True) # rest1\<rparr>)"
        using False fresh l(2) x b(2) p(1,2) u(1)
        by (cases "k = 0"; cases "lb_totalused s = 0")
          (simp_all add: lb_coalesce_def Let_def needed_def rest_def skip_def first_def del: lb_pull.simps)
      moreover have "cont b2 = take count (cont buf @ cat rest)"
        using u(3,4) by (simp add: p(5) take_add drop_take)
      moreover have "cat rest1 = drop count (cont buf @ cat rest)"
        using u(3,4) by (simp add: p(6))
      ultimately show ?thesis using p(3,4) cl dk
        by (intro exI [of _ b2] exI [of _ True] exI [of _ rest1]) (simp del: take_append drop_append)
    qed
  qed
qed

lemma suffix_drop: "suffix xs h \<Longrightarrow> length xs \<le> n \<Longrightarrow> suffix xs (drop (length h - n) h)"
  by (auto simp: suffix_def)

lemma lget_spec:
  assumes w: "lwf s" and n: "n \<le> length (lcont s)"
  shows "\<exists>s'. lb_get sv nb n s = Some (s', take n (lcont s)) \<and> lwf s' \<and> lcont s' = drop n (lcont s) \<and>
    suffix (take n (lcont s)) (lhist s')"
proof (cases "n = 0")
  case True
  then show ?thesis using w lwf_consistent [OF w] by (simp add: lb_get_def)
next
  case False
  have s: "ok (lb_list s)" "lb_totalused s = length (cat (lb_list s))" "cat (lb_list s) \<noteq> []"
    using w n False by (auto simp: lwf_def lcont_def)
  obtain b af r m where e: "skip_empty sv (lb_list s) (lb_maxungettable s) = ((b, af) # r, m)" "inv b" "ok r"
    "cont b \<noteq> []" "cat (lb_list s) = cont b @ cat r"
    using skip_empty_spec [OF s(1,3)] by blast
  define s1 where "s1 = s\<lparr>lb_totalused := lb_totalused s - n, lb_list := (b, af) # r, lb_maxungettable := m\<rparr>"
  have s1: "lb_list s1 = (b, af) # r" "ok (lb_list s1)" "cat (lb_list s1) = lcont s"
    using e by (simp_all add: s1_def lcont_def)
  obtain b1 af1 r1 where c: "(if b_used sv b < n then lb_coalesce sv nb 0 n s1 else Some s1) =
      Some (s1\<lparr>lb_list := (b1, af1) # r1\<rparr>)" "inv b1" "ok r1" "cont b1 @ cat r1 = lcont s" "n \<le> length (cont b1)"
  proof (cases "b_used sv b < n")
    case True
    have "n \<le> length (cat (drop 0 (lb_list s1)))" "0 < length (lb_list s1)" using s1(1,3) n by (simp_all del: cat_simps)
    then have "\<exists>c cf rest. lb_coalesce sv nb 0 n s1 = Some (s1\<lparr>lb_list := (c, cf) # rest\<rparr>) \<and> inv c \<and> ok rest \<and>
        cont c @ cat rest = lcont s \<and> n \<le> length (cont c)"
      using coalesce_spec [OF s1(2), of 0 n] s1(3) by simp
    then show ?thesis using that True by auto
  next
    case False
    then show ?thesis using that [of b af r] e used [OF e(2)] s1 by (auto simp: s1_def)
  qed
  obtain b2 where g: "b_get sv n b1 = Some (b2, take n (cont b1))" "inv b2" "cont b2 = drop n (cont b1)"
    "suffix (take n (cont b1)) (hist b2)" using get [OF c(2,5)] by blast
  define s2 where "s2 = s1\<lparr>lb_maxungettable := m + n, lb_list := (b2, af1) # r1\<rparr>"
  have tk: "take n (lcont s) = take n (cont b1)" using c(4,5) by (metis append_take_drop_id take_append diff_is_0_eq
        append_Nil2 take0)
  have dr: "drop n (lcont s) = drop n (cont b1) @ cat r1" using c(4,5) by (metis diff_is_0_eq drop0 drop_append)
  have "lb_get sv nb n s = Some (s2, take n (lcont s))"
  proof -
    have "n \<le> lb_totalused s" using n s(2) by (simp add: lcont_def)
    moreover have "\<not> b_used sv b < n \<Longrightarrow> b1 = b \<and> af1 = af \<and> r1 = r"
      using arg_cong [OF c(1), of "\<lambda>x. lb_list (the x)"] s1(1) by simp
    ultimately show ?thesis using False lwf_consistent [OF w] e(1) c(1) g(1) tk
      by (cases "b_used sv b < n") (simp_all add: lb_get_def s1_def [symmetric] s2_def, simp_all add: s1_def)
  qed
  moreover have "lcont s2 = drop n (lcont s)" using dr g(3) by (simp add: s2_def lcont_def)
  moreover have "lwf s2"
    using g(2,3) c(3) s(2) dr by (simp add: lwf_def s2_def s1_def lcont_def) (metis length_append length_drop)
  moreover have "suffix (take n (lcont s)) (lhist s2)"
    using suffix_drop [OF g(4), of "m + n"] tk by (simp add: lhist_def s2_def)
  ultimately show ?thesis by blast
qed

end

context linked_store
begin

lemma lunget_spec:
  assumes w: "lwf s" and n: "n \<le> length (lhist s)"
  shows "\<exists>s'. lb_unget sv n s = Some s' \<and> lwf s' \<and> lcont s' = drop (length (lhist s) - n) (lhist s) @ lcont s \<and>
    lhist s' = take (length (lhist s) - n) (lhist s)"
proof (cases "n = 0")
  case True
  then show ?thesis using w lwf_consistent [OF w] by (simp add: lb_unget_def)
next
  case False
  obtain b af r where l: "lb_list s = (b, af) # r" using n False by (auto simp: lhist_def split: list.splits)
  have b: "inv b" using w by (simp add: lwf_def l)
  have n': "n \<le> lb_maxungettable s" "n \<le> length (hist b)" using n False by (auto simp: lhist_def l)
  obtain b' where u: "b_unget sv n b = Some b'" "inv b'" "cont b' = drop (length (hist b) - n) (hist b) @ cont b"
    "hist b' = take (length (hist b) - n) (hist b)" using unget [OF b n'(2)] by auto
  define s' where "s' = s\<lparr>lb_totalused := lb_totalused s + n, lb_maxungettable := lb_maxungettable s - n,
    lb_list := (b', af) # r\<rparr>"
  have "lb_unget sv n s = Some s'"
    using False lwf_consistent [OF w] l n'(1) u(1) by (simp add: lb_unget_def s'_def)
  moreover have "lwf s'" using w u n'(2) by (simp add: lwf_def s'_def l)
  moreover have "lcont s' = drop (length (lhist s) - n) (lhist s) @ lcont s"
    using u(3) n' by (simp add: s'_def lcont_def lhist_def l)
  moreover have "lhist s' = take (length (lhist s) - n) (lhist s)"
    using u(4) n' by (simp add: s'_def lhist_def l drop_take add.commute)
  ultimately show ?thesis by blast
qed

lemma lunget_fails:
  assumes "lwf s" "length (lhist s) < n"
  shows "lb_unget sv n s = None"
proof (cases "lb_list s")
  case (Cons x r)
  obtain b af where x: "x = (b, af)" by force
  have "inv b" using assms(1) by (simp add: lwf_def Cons x)
  then show ?thesis using assms(2) unget_fails [of b n] by (auto simp: lb_unget_def lhist_def Cons x)
qed (use assms in \<open>auto simp: lb_unget_def\<close>)

lemma search_loop_spec:
  "ok l \<Longrightarrow> 0 \<le> off \<Longrightarrow> off < int (length (cat l)) \<Longrightarrow>
     \<exists>k o'. search_loop sv k0 off l = At (k0 + k) o' \<and> k < length l \<and> 0 \<le> o' \<and>
       o' < int (length (cont (fst (l ! k)))) \<and> off = int (length (cat (take k l))) + o'"
proof (induction l arbitrary: k0 off)
  case (Cons x l)
  obtain b af where x: "x = (b, af)" by force
  have u: "b_used sv b = length (cont b)" using Cons.prems(1) used by (simp add: x)
  show ?case
  proof (cases "off < int (length (cont b))")
    case True
    then show ?thesis using Cons.prems(2) u by (intro exI [of _ 0] exI [of _ off]) (auto simp: x)
  next
    case False
    then obtain k o' where "search_loop sv (Suc k0) (off - int (length (cont b))) l = At (Suc k0 + k) o'" "k < length l"
      "0 \<le> o'" "o' < int (length (cont (fst (l ! k))))" "off - int (length (cont b)) = int (length (cat (take k l))) + o'"
      using Cons.IH [of "off - int (length (cont b))" "Suc k0"] Cons.prems by (auto simp: x)
    then show ?thesis using False u by (intro exI [of _ "Suc k"] exI [of _ o']) (auto simp: x)
  qed
qed simp

lemma lsearch_spec:
  assumes "lwf s" "0 \<le> off" "off < int (length (lcont s))"
  obtains k o' where "lb_search sv off s = At k o'" "k < length (lb_list s)" "0 \<le> o'"
    "o' < int (length (cont (fst (lb_list s ! k))))" "off = int (length (cat (take k (lb_list s)))) + o'"
    "inv (fst (lb_list s ! k))"
proof -
  have l: "ok (lb_list s)" "off < int (length (cat (lb_list s)))" "lb_list s \<noteq> []"
    using assms by (auto simp: lwf_def lcont_def)
  obtain k o' where k: "search_loop sv 0 off (lb_list s) = At (0 + k) o'" "k < length (lb_list s)" "0 \<le> o'"
    "o' < int (length (cont (fst (lb_list s ! k))))" "off = int (length (cat (take k (lb_list s)))) + o'"
    using search_loop_spec [OF l(1) assms(2) l(2)] by blast
  have "lb_search sv off s = At k o'" using k(1) l(3) assms(2) by (simp add: lb_search_def)
  then show ?thesis using that k ok_nth [OF l(1)] by blast
qed

lemma loptpeekable_spec:
  assumes "lwf s" "0 \<le> off" "off < int (length (lcont s))"
  shows "\<exists>m. lb_optpeekable sv off s = Some m \<and> 0 < m \<and> off + int m \<le> int (length (lcont s))"
proof -
  obtain k o' where k: "lb_search sv off s = At k o'" "k < length (lb_list s)" "0 \<le> o'"
    "o' < int (length (cont (fst (lb_list s ! k))))" "off = int (length (cat (take k (lb_list s)))) + o'"
    "inv (fst (lb_list s ! k))" using lsearch_spec [OF assms] by blast
  have "0 < b_optpeekable sv o' (fst (lb_list s ! k)) \<and>
      o' + int (b_optpeekable sv o' (fst (lb_list s ! k))) \<le> int (length (cont (fst (lb_list s ! k))))"
    using optpeekable [OF k(6,3,4)] .
  then show ?thesis using k(1,5) cat_split [OF k(2)] by (simp add: lb_optpeekable_def lcont_def)
qed

text \<open>What \<open>optpeekable\<close> offers lies in one buffer, so nothing is moved.\<close>

lemma llocate_spec:
  assumes w: "lwf s" "0 \<le> off" "off < int (length (lcont s))" and n: "lb_optpeekable sv off s = Some m" "n \<le> m"
  obtains k o' where "lb_locate sv nb off n s = Some (s, k, o')" "k < length (lb_list s)" "0 \<le> o'"
    "o' < int (length (cont (fst (lb_list s ! k))))" "off = int (length (cat (take k (lb_list s)))) + o'"
    "inv (fst (lb_list s ! k))" "n \<le> b_optpeekable sv o' (fst (lb_list s ! k))"
    "o' + int n \<le> int (length (cont (fst (lb_list s ! k))))"
proof -
  obtain k o' where k: "lb_search sv off s = At k o'" "k < length (lb_list s)" "0 \<le> o'"
    "o' < int (length (cont (fst (lb_list s ! k))))" "off = int (length (cat (take k (lb_list s)))) + o'"
    "inv (fst (lb_list s ! k))" using lsearch_spec [OF w] by blast
  have m: "n \<le> b_optpeekable sv o' (fst (lb_list s ! k))" using n k(1) by (simp add: lb_optpeekable_def)
  then have o: "o' + int n \<le> int (length (cont (fst (lb_list s ! k))))" using optpeekable [OF k(6,3,4)] by linarith
  then have "\<not> dflt_peekable (b_used sv (fst (lb_list s ! k))) (b_ungettable sv (fst (lb_list s ! k))) o' < n"
    using k(3) used [OF k(6)] by (auto simp: dflt_peekable_def Let_def)
  then have "lb_locate sv nb off n s = Some (s, k, o')" using k(1) by (simp add: lb_locate_def)
  then show ?thesis using that k m o by blast
qed

lemma cat_set: "k < length l \<Longrightarrow> cat (l[k := (b, af)]) = cat (take k l) @ cont b @ cat (drop (Suc k) l)"
  by (simp add: upd_conv_take_nth_drop)

lemma ok_set: "ok l \<Longrightarrow> inv b \<Longrightarrow> ok (l[k := (b, af)])"
  by (auto simp: ok_def dest: set_update_subset_insert [THEN subsetD])

text \<open>Replacing a buffer by one with the same contents.\<close>

lemma lset_same:
  assumes "lwf s" "k < length (lb_list s)" "inv b" "cont b = cont (fst (lb_list s ! k))"
  shows "lwf (lb_set k b s) \<and> lcont (lb_set k b s) = lcont s"
  using assms cat_set [OF assms(2)] cat_split [OF assms(2)] ok_set
  by (auto simp: lwf_def lcont_def lb_set_def)

lemma lset_hist:
  assumes "k < length (lb_list s)" "hist b = hist (fst (lb_list s ! k))"
  shows "lhist (lb_set k b s) = lhist s"
  using assms by (cases "lb_list s"; cases k) (auto simp: lhist_def lb_set_def split: prod.splits)

lemma cat_window:
  assumes "k < length l" "0 \<le> o'" "o' + int n \<le> int (length (cont (fst (l ! k))))"
  shows "take n (drop (nat (int (length (cat (take k l))) + o')) (cat l)) = take n (drop (nat o') (cont (fst (l ! k))))"
proof -
  have "nat (int (length (cat (take k l))) + o') = length (cat (take k l)) + nat o'" using assms(2) by simp
  then show ?thesis using assms by (simp add: cat_split [OF assms(1)])
qed

lemma lpeek_spec:
  assumes "lwf s" "0 \<le> off" "off < int (length (lcont s))" "0 < n" "lb_optpeekable sv off s = Some m" "n \<le> m"
  shows "\<exists>s'. lb_peek sv nb off n s = Some (s', take n (drop (nat off) (lcont s))) \<and> lwf s' \<and> lcont s' = lcont s \<and>
    lhist s' = lhist s"
proof -
  obtain k o' where k: "lb_locate sv nb off n s = Some (s, k, o')" "k < length (lb_list s)" "0 \<le> o'"
    "o' < int (length (cont (fst (lb_list s ! k))))" "off = int (length (cat (take k (lb_list s)))) + o'"
    "inv (fst (lb_list s ! k))" "n \<le> b_optpeekable sv o' (fst (lb_list s ! k))"
    "o' + int n \<le> int (length (cont (fst (lb_list s ! k))))"
    using llocate_spec [OF assms(1-3,5,6)] by blast
  obtain b where b: "b_peek sv o' n (fst (lb_list s ! k)) = Some (b, take n (drop (nat o') (cont (fst (lb_list s ! k)))))"
    "inv b" "cont b = cont (fst (lb_list s ! k))" "hist b = hist (fst (lb_list s ! k))"
    using peek [OF k(6,3,4) assms(4) k(7)] by blast
  have "lb_peek sv nb off n s = Some (lb_set k b s, take n (drop (nat off) (lcont s)))"
    using assms(4) k(1) b(1) cat_window [OF k(2,3,8)] by (simp add: lb_peek_def k(5) lcont_def)
  then show ?thesis using lset_same [OF assms(1) k(2) b(2,3)] lset_hist [OF k(2) b(4)] by blast
qed

text \<open>A pointer refers to bytes of one buffer.\<close>

definition lrefers :: "'a lbuf \<Rightarrow> nat \<Rightarrow> nat \<Rightarrow> nat \<Rightarrow> bool" where
  "lrefers s p i n \<longleftrightarrow> n = 0 \<or>
     (\<exists>k q j. k < length (lb_list s) \<and> p = lb_base msz k (lb_list s) + q \<and>
        i = length (cat (take k (lb_list s))) + j \<and> refers (fst (lb_list s ! k)) q j n)"

lemma lb_base_update: "j \<le> k \<Longrightarrow> lb_base msz j (l[k := x]) = lb_base msz j l"
  by (simp add: lb_base_def)

lemma lmutablepeek_spec:
  assumes "lwf s" "0 \<le> off" "off < int (length (lcont s))" "0 < n" "lb_optpeekable sv off s = Some m" "n \<le> m"
  shows "\<exists>s' p. lb_mutablepeek sv msz nb off n s = Some (s', p) \<and> lwf s' \<and> lcont s' = lcont s \<and>
    lrefers s' p (nat off) n"
proof -
  obtain k o' where k: "lb_locate sv nb off n s = Some (s, k, o')" "k < length (lb_list s)" "0 \<le> o'"
    "o' < int (length (cont (fst (lb_list s ! k))))" "off = int (length (cat (take k (lb_list s)))) + o'"
    "inv (fst (lb_list s ! k))" "n \<le> b_optpeekable sv o' (fst (lb_list s ! k))"
    "o' + int n \<le> int (length (cont (fst (lb_list s ! k))))"
    using llocate_spec [OF assms(1-3,5,6)] by blast
  obtain b q where b: "b_mutablepeek sv o' n (fst (lb_list s ! k)) = Some (b, q)"
    "inv b" "cont b = cont (fst (lb_list s ! k))" "refers b q (nat o') n"
    using mutablepeek [OF k(6,3,4) assms(4) k(7)] by blast
  have "lb_mutablepeek sv msz nb off n s = Some (lb_set k b s, lb_base msz k (lb_list s) + q)"
    using assms(4) k(1) b(1) by (simp add: lb_mutablepeek_def)
  moreover have "lrefers (lb_set k b s) (lb_base msz k (lb_list s) + q) (nat off) n"
    unfolding lrefers_def
    using k(2,3) b(4) by (intro disjI2 exI [of _ k] exI [of _ q] exI [of _ "nat o'"])
      (simp add: lb_set_def lb_base_update k(5) nat_add_distrib)
  ultimately show ?thesis using lset_same [OF assms(1) k(2) b(2,3)] by blast
qed

end

context linked_store
begin

lemma last_split: "l \<noteq> [] \<Longrightarrow> cat l = cat (butlast l) @ cont (fst (last l))"
  by (metis append_butlast_last_id cat_simps(1-3) append_Nil2)

lemma lalloc_last:
  assumes w: "lwf s" and n: "0 < n" "n \<le> lb_free sv s"
  shows "\<exists>s' p junk. lb_alloc sv msz n s = Some (s', p) \<and> lwf s' \<and> length junk = n \<and>
    lcont s' = lcont s @ junk \<and> lrefers s' p (length (lcont s)) n"
proof -
  have l: "lb_list s \<noteq> []" using n by (auto simp: lb_free_def)
  obtain b af where x: "last (lb_list s) = (b, af)" by force
  have b: "inv b" "n \<le> b_free sv b" using w n(2) l last_in_set [OF l] by (auto simp: lwf_def ok_def lb_free_def x)
  obtain b' p junk where a: "b_alloc sv n b = Some (b', p)" "inv b'" "length junk = n" "cont b' = cont b @ junk"
    "refers b' p (length (cont b)) n" using alloc [OF b] by blast
  define s' where "s' = s\<lparr>lb_totalused := lb_totalused s + n, lb_list := butlast (lb_list s) @ [(b', af)]\<rparr>"
  have c: "lcont s = cat (butlast (lb_list s)) @ cont b" using last_split [OF l] by (simp add: lcont_def x)
  have "lb_alloc sv msz n s = Some (s', lb_base msz (length (lb_list s) - 1) (lb_list s) + p)"
    using n(1) l a(1) by (simp add: lb_alloc_def x s'_def)
  moreover have c': "lcont s' = lcont s @ junk" using a(4) c by (simp add: s'_def lcont_def)
  moreover have "lwf s'"
  proof -
    have "ok (butlast (lb_list s))" using w by (auto simp: lwf_def ok_def dest: in_set_butlastD)
    then show ?thesis using w a(2,3) c' by (auto simp: lwf_def s'_def lcont_def)
  qed
  moreover have "lrefers s' (lb_base msz (length (lb_list s) - 1) (lb_list s) + p) (length (lcont s)) n"
  proof -
    have "take (length (lb_list s) - 1) (lb_list s) = butlast (lb_list s)" by (simp add: butlast_conv_take)
    then have "lb_base msz (length (lb_list s) - 1) (lb_list s) = lb_base msz (length (lb_list s) - 1) (lb_list s')"
      by (simp add: lb_base_def s'_def)
    then show ?thesis unfolding lrefers_def using l a(5) c
      by (intro disjI2 exI [of _ "length (lb_list s) - 1"] exI [of _ p] exI [of _ "length (cont b)"])
        (simp add: s'_def nth_append)
  qed
  ultimately show ?thesis using a(3) by blast
qed

lemma dalloc_spec:
  assumes w: "lwf s"
  shows "\<exists>s' p junk. dyn_alloc sv msz nb n s = Some (s', p) \<and> lwf s' \<and> length junk = n \<and>
    lcont s' = lcont s @ junk \<and> lrefers s' p (length (lcont s)) n"
proof (cases "n = 0")
  case True
  then show ?thesis using w by (simp add: dyn_alloc_def lb_alloc_def lrefers_def)
next
  case False
  define s1 where "s1 = (if n > lb_free sv s then lb_appendsubbuffer sv (nb n s) True s else s)"
  have "inv (nb n s)" "cont (nb n s) = []" "n \<le> b_free sv (nb n s)" using newbuffer [of n s] False by auto
  then have "lwf s1" "lcont s1 = lcont s" "n \<le> lb_free sv s1"
    using w used [of "nb n s"] by (auto simp: s1_def lb_appendsubbuffer_def lwf_def lcont_def lb_free_def)
  then show ?thesis using lalloc_last [of s1 n] False by (simp add: dyn_alloc_def s1_def [symmetric])
qed

lemma unalloc_loop_spec:
  "ok l \<Longrightarrow> n \<le> length (cat l) \<Longrightarrow> (l = [] \<longrightarrow> m = 0) \<Longrightarrow>
     \<exists>l' m'. unalloc_loop sv n l m = Some (l', m') \<and> ok l' \<and> (l' = [] \<longrightarrow> m' = 0) \<and>
       cat l' = take (length (cat l) - n) (cat l)"
proof (induction sv \<equiv> sv n l m rule: unalloc_loop.induct)
  case (1 n l m)
  show ?case
  proof (cases "n = 0")
    case True
    then show ?thesis using 1 by (subst unalloc_loop.simps) simp
  next
    case False
    then have l: "l \<noteq> []" using 1(3) by auto
    obtain b af where x: "last l = (b, af)" by force
    have c: "cat l = cat (butlast l) @ cont b" using last_split [OF l] by (simp add: x)
    have b: "inv b" "ok (butlast l)" using 1(2) last_in_set [OF l]
      by (auto simp: ok_def x dest: in_set_butlastD)
    have u: "b_unallocable sv b = length (cont b)" using unallocable [OF b(1)] .
    show ?thesis
    proof (cases "n < length (cont b)")
      case True
      obtain b' where a: "b_unalloc sv n b = Some b'" "inv b'" "cont b' = take (length (cont b) - n) (cont b)"
        using unalloc [OF b(1), of n] True by auto
      have "unalloc_loop sv n l m = Some (butlast l @ [(b', af)], m)"
        using False l True u a(1) by (subst unalloc_loop.simps) (simp add: x)
      then show ?thesis using b(2) a(2,3) c True by simp
    next
      case more: False
      define m1 where "m1 = (if length l = 1 then 0 else m)"
      have m1: "butlast l = [] \<longrightarrow> m1 = 0" using l by (cases l) (auto simp: m1_def)
      have "\<exists>l' m'. unalloc_loop sv (n - length (cont b)) (butlast l) m1 = Some (l', m') \<and> ok l' \<and>
          (l' = [] \<longrightarrow> m' = 0) \<and> cat l' = take (length (cat (butlast l)) - (n - length (cont b))) (cat (butlast l))"
        using 1(1) [OF False l x [symmetric] refl, unfolded u, OF refl more, folded m1_def] b(2) m1 1(3) c by simp
      moreover have "unalloc_loop sv n l m = unalloc_loop sv (n - length (cont b)) (butlast l) m1"
        using False l more u by (subst unalloc_loop.simps) (simp add: x m1_def)
      ultimately show ?thesis using c more by auto
    qed
  qed
qed

lemma lunalloc_spec:
  assumes "lwf s" "n \<le> length (lcont s)"
  shows "\<exists>s'. lb_unalloc sv n s = Some s' \<and> lwf s' \<and> lcont s' = take (length (lcont s) - n) (lcont s)"
proof -
  obtain l m where "unalloc_loop sv n (lb_list s) (lb_maxungettable s) = Some (l, m)" "ok l" "l = [] \<longrightarrow> m = 0"
    "cat l = take (length (lcont s) - n) (lcont s)"
    using unalloc_loop_spec [of "lb_list s" n "lb_maxungettable s"] assms by (auto simp: lwf_def lcont_def)
  then show ?thesis using assms by (auto simp: lb_unalloc_def lwf_def lcont_def)
qed

lemma addr_find_base:
  "k < length l \<Longrightarrow> q < msz (fst (l ! k)) \<Longrightarrow> addr_find msz (lb_base msz k l + q) l = Some (k, q)"
proof (induction l arbitrary: k)
  case (Cons x l)
  obtain b af where x: "x = (b, af)" by force
  show ?case
  proof (cases k)
    case 0
    then show ?thesis using Cons.prems by (simp add: x lb_base_def)
  next
    case (Suc i)
    have "lb_base msz k (x # l) = msz b + lb_base msz i l" by (simp add: Suc x lb_base_def)
    then show ?thesis using Cons.IH [of i] Cons.prems by (simp add: Suc x)
  qed
qed simp

lemma mem_write_mid: "i + length bs \<le> length b \<Longrightarrow> mem_write (length a + i) bs (a @ b @ c) = a @ mem_write i bs b @ c"
  by (simp add: mem_write_def)

lemma lwrite_spec:
  assumes w: "lwf s" and r: "lrefers s p i n" and j: "j + length bs \<le> n"
  shows "lwf (lb_write sv msz (p + j) bs s) \<and>
    lcont (lb_write sv msz (p + j) bs s) = mem_write (i + j) bs (lcont s) \<and>
    lrefers (lb_write sv msz (p + j) bs s) p i n"
proof (cases "bs = []")
  case True
  then show ?thesis using w r by (simp add: lb_write_def mem_write_def)
next
  case False
  then have "n \<noteq> 0" using j by (cases bs) auto
  then obtain k q i' where k: "k < length (lb_list s)" "p = lb_base msz k (lb_list s) + q"
    "i = length (cat (take k (lb_list s))) + i'" "refers (fst (lb_list s ! k)) q i' n"
    using r by (auto simp: lrefers_def)
  define b where "b = fst (lb_list s ! k)"
  have b: "inv b" using w ok_nth k(1) by (auto simp: lwf_def b_def)
  have bd: "q + n \<le> msz b" "i' + n \<le> length (cont b)" using refers_in [OF b k(4) [folded b_def]] \<open>n \<noteq> 0\<close> by auto
  define b' where "b' = b_write sv (q + j) bs b"
  have w': "inv b'" "cont b' = mem_write (i' + j) bs (cont b)" "refers b' q i' n"
    using writes [OF b k(4) [folded b_def] j] by (simp_all add: b'_def)
  have len: "length (cont b') = length (cont b)" using w'(2) bd j by (simp add: mem_write_length)
  have "q + j < msz b" using False bd(1) j by (cases bs) auto
  then have "lb_write sv msz (p + j) bs s = lb_set k b' s"
    using False addr_find_base [of k "lb_list s" "q + j"] k(1,2) by (simp add: lb_write_def b'_def b_def add.assoc)
  moreover have "lcont (lb_set k b' s) = mem_write (i + j) bs (lcont s)"
    using cat_set [OF k(1)] cat_split [OF k(1)] w'(2) k(3) bd(2) j
      mem_write_mid [of "i' + j" bs "cont b" "cat (take k (lb_list s))"]
    by (simp add: lcont_def lb_set_def b_def add.assoc)
  moreover have "lwf (lb_set k b' s)"
    using w w'(1) ok_set len cat_set [OF k(1)] cat_split [OF k(1)] k(1) by (auto simp: lwf_def lb_set_def b_def)
  moreover have "lrefers (lb_set k b' s) p i n"
    unfolding lrefers_def using k(1) w'(3)
    by (intro disjI2 exI [of _ k] exI [of _ q] exI [of _ i']) (simp add: lb_set_def lb_base_update k(2,3))
  ultimately show ?thesis by simp
qed

lemma loptgettable_spec:
  "ok l \<Longrightarrow> first_gettable sv l \<le> length (cat l) \<and> (cat l \<noteq> [] \<longrightarrow> 0 < first_gettable sv l)"
proof (induction sv \<equiv> sv l rule: first_gettable.induct)
  case (2 b af l)
  then show ?case using optgettable [of b] by (cases "cont b = []") auto
qed simp

lemma lrefers_tail:
  assumes "lrefers s p i n" "j \<le> n"
  shows "lrefers s (p + j) (i + j) (n - j)"
proof (cases "j = n")
  case False
  then obtain k q i' where "k < length (lb_list s)" "p = lb_base msz k (lb_list s) + q"
    "i = length (cat (take k (lb_list s))) + i'" "refers (fst (lb_list s ! k)) q i' n"
    using assms by (auto simp: lrefers_def)
  then show ?thesis unfolding lrefers_def using refers_tail assms(2)
    by (intro disjI2 exI [of _ k] exI [of _ "q + j"] exI [of _ "i' + j"]) simp
qed (simp add: lrefers_def)

end

sublocale linked_store \<subseteq> dyn: piece_store "dyn_vtable sv msz nb" lwf lhist lcont lrefers
proof (unfold_locales, goal_cases)
  case (1 s)
  then show ?case by (simp add: dyn_vtable_def lb_used_def lwf_def lcont_def)
next
  case (2 s)
  then show ?case by (simp add: dyn_vtable_def lb_ungettable_hist)
next
  case (3 s)
  then show ?case using loptgettable_spec by (simp add: dyn_vtable_def lb_optgettable_def lwf_def lcont_def)
next
  case (4 s)
  then show ?case using loptgettable_spec by (simp add: dyn_vtable_def lb_optgettable_def lwf_def lcont_def)
next
  case (5 s n)
  then show ?case using lget_spec [of s n] by (simp add: dyn_vtable_def)
next
  case (6 s n)
  then show ?case by (auto simp: dyn_vtable_def lb_get_def lwf_def lcont_def)
next
  case (7 s n)
  then show ?case using lunget_spec [of s n] by (simp add: dyn_vtable_def)
next
  case (8 s n)
  then show ?case using lunget_fails [of s n] by (simp add: dyn_vtable_def)
next
  case (9 s)
  then show ?case by (simp add: dyn_vtable_def lb_zap_def lwf_def lcont_def lhist_def)
next
  case (10 s off)
  then show ?case using loptpeekable_spec [of s off] by (auto simp: dyn_vtable_def)
next
  case (11 s off n)
  then show ?case using loptpeekable_spec [of s off] lpeek_spec [of s off n] by (auto simp: dyn_vtable_def)
next
  case (12 s)
  then show ?case by (simp add: dyn_vtable_def lb_unallocable_def lwf_def lcont_def)
next
  case (13 s)
  then show ?case by (simp add: dyn_vtable_def dyn_optallocable_def unlimited_free_space_def Let_def)
next
  case (14 s n)
  then show ?case using dalloc_spec [of s n] by (fastforce simp: dyn_vtable_def dyn_free_def)
next
  case (15 s n)
  then show ?case using lunalloc_spec [of s n] by (simp add: dyn_vtable_def)
next
  case (16 s n)
  then show ?case by (auto simp: dyn_vtable_def lb_unalloc_def lwf_def lcont_def)
next
  case (17 s off n)
  then show ?case using loptpeekable_spec [of s off] lmutablepeek_spec [of s off n] by (auto simp: dyn_vtable_def)
next
  case (18 s p i n j)
  then show ?case by (rule lrefers_tail)
next
  case (19 s p i n j bs)
  then show ?case using lwrite_spec [of s p i n j bs] by (simp add: dyn_vtable_def dyn_free_def)
qed

sublocale linked_store \<subseteq> dm: buf_merge "dyn_vtable sv msz nb" lwf lhist lcont lrefers
    "dyn_vtable sv msz nb" lwf lhist lcont
  by unfold_locales

context linked_store
begin

text \<open>Any number of bytes at the front can be peeked at: the buffers are brought together.\<close>

lemma lpeek_front:
  assumes w: "lwf s" and n: "0 < n" "n \<le> length (lcont s)"
  shows "\<exists>s'. lb_peek sv nb 0 n s = Some (s', take n (lcont s)) \<and> lwf s' \<and> lcont s' = lcont s"
proof -
  have s: "ok (lb_list s)" "lb_totalused s = length (cat (lb_list s))" using w by (auto simp: lwf_def)
  obtain k o' where k: "lb_search sv 0 s = At k o'" "k < length (lb_list s)" "0 \<le> o'"
    "0 = int (length (cat (take k (lb_list s)))) + o'" "inv (fst (lb_list s ! k))"
  proof -
    have "0 < int (length (lcont s))" using n by linarith
    from lsearch_spec [OF w order_refl this] that show thesis by blast
  qed
  then have "o' = 0" "length (cat (take k (lb_list s))) = 0" by linarith+
  then have z: "o' = 0" "cat (take k (lb_list s)) = []" by simp_all
  have d: "cat (drop k (lb_list s)) = lcont s"
    using z(2) by (metis append_Nil append_take_drop_id cat_simps(3) lcont_def)
  obtain b af rest where c: "lb_coalesce sv nb k n s = Some (s\<lparr>lb_list := take k (lb_list s) @ (b, af) # rest\<rparr>)"
    "inv b" "ok rest" "cont b @ cat rest = lcont s" "n \<le> length (cont b)"
    using coalesce_spec [OF s(1) k(2), of n] d n(2) by auto
  define s1 where "s1 = s\<lparr>lb_list := take k (lb_list s) @ (b, af) # rest\<rparr>"
  have lk: "lb_list s1 ! k = (b, af)" "k < length (lb_list s1)" using k(2) by (simp_all add: s1_def nth_append)
  have w1: "lwf s1" "lcont s1 = lcont s"
    using s c(2-4) ok_take_drop [OF s(1)] z(2) by (auto simp: s1_def lwf_def lcont_def)
  have loc: "lb_locate sv nb 0 n s = Some (s1, k, 0)"
  proof (cases "b_used sv (fst (lb_list s ! k)) < n")
    case True
    then show ?thesis using k(1) c(1) by (simp add: lb_locate_def z(1) dflt_peekable_def s1_def)
  next
    case False
    moreover obtain c cf where "lb_list s ! k = (c, cf)" by force
    ultimately have "lb_coalesce sv nb k n s = Some s" using k(2) by (simp add: lb_coalesce_def)
    then have "s1 = s" using c(1) by (simp add: s1_def)
    then show ?thesis using k(1) False by (simp add: lb_locate_def z(1) dflt_peekable_def)
  qed
  obtain b' where b': "b_peek sv 0 n b = Some (b', take n (cont b))" "inv b'" "cont b' = cont b"
    using peek_front [OF c(2) n(1) c(5)] by blast
  have "lb_peek sv nb 0 n s = Some (lb_set k b' s1, take n (cont b))"
    using n(1) loc b'(1) lk(1) by (simp add: lb_peek_def)
  moreover have "take n (cont b) = take n (lcont s)" using c(4,5) by (metis append_Nil2 diff_is_0_eq take0 take_append)
  ultimately show ?thesis using lset_same [OF w1(1) lk(2) b'(2)] b'(3) lk(1) w1(2) by auto
qed

text \<open>With an offset the count alone decides whether buffers are brought together: where the buffer holds
  at least that many bytes, it is asked for bytes behind its end.\<close>

lemma lpeek_across:
  assumes "lwf s" "lb_list s = (b, af) # r" "0 < off" "off < length (cont b)" "n \<le> length (cont b)" "0 < n"
  shows "lb_peek sv nb (int off) n s = map_option (\<lambda>(b', bs). (lb_set 0 b' s, bs)) (b_peek sv (int off) n b)"
proof -
  have u: "b_used sv b = length (cont b)" using assms(1,2) used by (auto simp: lwf_def)
  then have "lb_locate sv nb (int off) n s = Some (s, 0, int off)"
    using assms by (simp add: lb_locate_def lb_search_def lb_coalesce_def)
  then show ?thesis using assms(2,6) by (simp add: lb_peek_def)
qed

text \<open>Behind the end the search runs off the list, and its iterator has no link.\<close>

lemma loptpeekable_end: "lwf s \<Longrightarrow> int (length (lcont s)) \<le> off \<Longrightarrow> lb_optpeekable sv off s = None"
proof -
  have "ok l \<Longrightarrow> int (length (cat l)) \<le> off \<Longrightarrow> search_loop sv k off l = Ended" for l k off
    by (induction sv \<equiv> sv k off l rule: search_loop.induct) (auto simp: used nat_less_iff)
  then show "lwf s \<Longrightarrow> int (length (lcont s)) \<le> off \<Longrightarrow> lb_optpeekable sv off s = None"
    by (auto simp: lb_optpeekable_def lb_search_def lwf_def lcont_def)
qed

lemma steal_spec:
  "lwf s \<Longrightarrow> lwf t \<Longrightarrow> 0 < n \<Longrightarrow> n \<le> length (lcont t) \<Longrightarrow>
     \<exists>s' t' m. lb_steal sv n s t = Some (s', t', m) \<and> m \<le> n \<and> lwf s' \<and> lwf t' \<and>
       lcont s' = lcont s @ take (n - m) (lcont t) \<and> lcont t' = drop (n - m) (lcont t)"
proof (induction sv \<equiv> sv n s t rule: lb_steal.induct)
  case (1 n s t)
  obtain b af r where l: "lb_list t = (b, af) # r" using 1(4,5) by (cases "lb_list t") (auto simp: lcont_def)
  have b: "inv b" "b_used sv b = length (cont b)" "ok r" using 1(3) used by (auto simp: lwf_def l)
  have ct: "lcont t = cont b @ cat r" by (simp add: lcont_def l)
  show ?case
  proof (cases "length (cont b) > n")
    case True
    then show ?thesis using 1(2,3) b(2) l
      by (subst lb_steal.simps) (simp add: lb_firstsubbuffer_def)
  next
    case False
    define t1 where "t1 = t\<lparr>lb_totalused := lb_totalused t - length (cont b), lb_maxungettable := 0, lb_list := r\<rparr>"
    define s1 where "s1 = lb_appendsubbuffer sv b af s"
    have u: "lb_unlinksubbuffer sv 0 t = Some (t1, af)" "lb_firstsubbuffer t = Some b"
      using l b(2) by (simp_all add: lb_unlinksubbuffer_def t1_def lb_firstsubbuffer_def)
    have w: "lwf t1" "lcont t1 = cat r" "lwf s1" "lcont s1 = lcont s @ cont b"
      using 1(2,3) b by (auto simp: t1_def s1_def lwf_def lcont_def lb_appendsubbuffer_def l)
    have step: "lb_steal sv n s t =
        (if n - length (cont b) = 0 then Some (s1, t1, 0) else lb_steal sv (n - length (cont b)) s1 t1)"
      using False u b(2) by (subst lb_steal.simps) (simp add: s1_def Let_def)
    show ?thesis
    proof (cases "n - length (cont b) = 0")
      case True
      then show ?thesis using step w ct False by auto
    next
      case more: False
      have "\<exists>s' t' m. lb_steal sv (n - length (cont b)) s1 t1 = Some (s', t', m) \<and> m \<le> n - length (cont b) \<and> lwf s' \<and>
          lwf t' \<and> lcont s' = lcont s1 @ take (n - length (cont b) - m) (lcont t1) \<and>
          lcont t' = drop (n - length (cont b) - m) (lcont t1)"
        using 1(1) [OF u(2) refl, unfolded b(2), OF False u(1) refl s1_def more] w more 1(5) ct by simp
      then obtain s' t' m where i: "lb_steal sv (n - length (cont b)) s1 t1 = Some (s', t', m)" "m \<le> n - length (cont b)"
        "lwf s'" "lwf t'" "lcont s' = lcont s1 @ take (n - length (cont b) - m) (lcont t1)"
        "lcont t' = drop (n - length (cont b) - m) (lcont t1)" by blast
      have "n - m = length (cont b) + (n - length (cont b) - m)" using i(2) more False by linarith
      then show ?thesis using step more i w(2,4) ct by (auto simp: add.commute)
    qed
  qed
qed

lemma lmerge_spec:
  assumes "lwf s" "lwf t" "n \<le> length (lcont t)" "n \<le> unlimited_free_space"
  shows "\<exists>s' t'. lb_merge sv (dyn_vtable sv msz nb) n s t = Some (s', t') \<and> lwf s' \<and> lwf t' \<and>
    lcont s' = lcont s @ take n (lcont t) \<and> lcont t' = drop n (lcont t)"
proof (cases "n = 0")
  case True
  then show ?thesis using assms by (simp add: lb_merge_def)
next
  case False
  then obtain s1 t1 m where st: "lb_steal sv n s t = Some (s1, t1, m)" "m \<le> n" "lwf s1" "lwf t1"
    "lcont s1 = lcont s @ take (n - m) (lcont t)" "lcont t1 = drop (n - m) (lcont t)"
    using steal_spec [OF assms(1,2) _ assms(3)] by blast
  show ?thesis
  proof (cases "m = 0")
    case True
    then show ?thesis using False st by (simp add: lb_merge_def)
  next
    case more: False
    have "m \<le> length (lcont t1)" "m \<le> b_free (dyn_vtable sv msz nb) s1"
      using st(2,6) assms(3,4) by (simp_all add: dyn_vtable_def dyn_free_def)
    then obtain s' t' where b: "basicmerge (dyn_vtable sv msz nb) (dyn_vtable sv msz nb) m s1 t1 = Some (s', t')"
      "lwf s'" "lwf t'" "lcont s' = lcont s1 @ take m (lcont t1)" "lcont t' = drop m (lcont t1)"
      using dm.basicmerge_spec [OF st(3,4)] by blast
    have "n - m + m = n" using st(2) by simp
    then have "lcont s' = lcont s @ take n (lcont t)" "lcont t' = drop n (lcont t)"
      using b(4,5) st(5,6) by (simp_all flip: take_add)
    then show ?thesis using False more st(1) b(1-3) by (simp add: lb_merge_def)
  qed
qed

lemma lwf_new: "lwf lb_new" "lcont lb_new = []"
  by (simp_all add: lwf_def lcont_def lb_new_def)

end

subsection \<open>Growing stores of circular buffers\<close>

lemma ensure_xsize: "ensurecontiguous off n kh s = Some (s', p) \<Longrightarrow> cb_xsize s' = cb_xsize s"
  by (auto simp: ensurecontiguous_def Let_def split: if_splits)

interpretation circ_sized: sized_store circ_vtable cb_wf cb_hist cb_cont cb_refers cb_xsize
proof (unfold_locales, goal_cases)
  case (1 s)
  then show ?case by (simp add: circ_vtable_def cb_free_def cb_cont_def cb_wf_def)
next
  case (6 s n)
  then show ?case using circ_c.peek_any [of s 0 n] by auto
next
  case (7 s p i n)
  then show ?case by (simp add: cb_refers_def cb_cont_def)
qed (auto simp: circ_vtable_def cb_alloc_def cb_unalloc_def cb_write_def cb_mutablepeek_def dest!: ensure_xsize
    split: if_splits option.splits)

lemma dyn_size_min: "minsize \<le> dyn_size minalloc maxalloc minsize u"
  by (simp add: dyn_size_def Let_def)

interpretation dynbuf: linked_store circ_vtable cb_wf cb_hist cb_cont cb_refers cb_xsize "dyn_newbuffer 1 minalloc maxalloc"
  for minalloc maxalloc
proof (unfold_locales, goal_cases)
  case (1 n l)
  then show ?case using dyn_size_min [of n minalloc maxalloc "lb_used l"]
    by (simp add: dyn_newbuffer_def linked_newbuffer_def roundup_def cb_wf_def cb_cont_def circ_vtable_def cb_free_def Let_def)
qed

text \<open>The state of a growing store of circular buffers: well-formed buffers whose bytes the count adds up.\<close>

definition dyn_cont :: "circ lbuf \<Rightarrow> string" where
  "dyn_cont s = concat (map (cb_cont \<circ> fst) (lb_list s))"

definition dyn_wf :: "circ lbuf \<Rightarrow> bool" where
  "dyn_wf s \<longleftrightarrow> (\<forall>b\<in>set (lb_list s). cb_wf (fst b)) \<and> lb_totalused s = length (dyn_cont s) \<and>
     (lb_list s = [] \<longrightarrow> lb_maxungettable s = 0)"

lemma dyn_cont_eq: "dynbuf.lcont s = dyn_cont s"
  by (simp add: dynbuf.lcont_def circ_sized.cat_def dyn_cont_def)

lemma dyn_wf_eq: "dynbuf.lwf s = dyn_wf s"
  by (simp add: dynbuf.lwf_def dyn_wf_def circ_sized.ok_def circ_sized.cat_def dyn_cont_def)

lemmas dyn_abs = dyn_cont_eq dyn_wf_eq dynbuf_vtable_def

end
