(* ===== verification/UniRecIter.thy ===== *)
theory UniRecIter
  imports UniTempGen
begin

text \<open>
  The recursive iterator that a generator has when it does not bring its own
  (\<open>_UniConfGenRecursiveIter\<close> in \<open>uniconf/uniconfgen.cc\<close>).  It keeps a list of iterators, the innermost
  first; each is the item it stands at, when it was stepped, and the items to come.  The generator
  does not change while it is iterated over.
\<close>

record riter =
  ri_itlist :: "(notice option \<times> notice list) list"
  ri_current :: key
  ri_sub_next :: bool

definition ri_rewind :: "'s igen \<Rightarrow> 's \<Rightarrow> key \<Rightarrow> riter option" where
  "ri_rewind ops s base = do {
     subi \<leftarrow> ig_iterator ops base s;
     Some \<lparr>ri_itlist = (case subi of None \<Rightarrow> [] | Some l \<Rightarrow> [(None, l)]), ri_current = [], ri_sub_next = False\<rparr> }"

text \<open>The first part of \<open>next\<close>: it goes into the subtree of the item returned last.\<close>

definition ri_descend :: "'s igen \<Rightarrow> 's \<Rightarrow> key \<Rightarrow> riter \<Rightarrow> riter option" where
  "ri_descend ops s base it =
     (if \<not> ri_sub_next it then Some it
      else (case ri_itlist it of
              (Some (subkey, v), l) # rest \<Rightarrow> do {
                newsub \<leftarrow> ig_iterator ops (key_concat base (key_concat (ri_current it) subkey)) s;
                (case newsub of
                   None \<Rightarrow> Some (it\<lparr>ri_sub_next := False\<rparr>)
                 | Some l' \<Rightarrow> Some (it\<lparr>ri_sub_next := False, ri_current := key_append (ri_current it) subkey,
                                     ri_itlist := (None, l') # ri_itlist it\<rparr>)) }
            | _ \<Rightarrow> None))"

text \<open>The loop: iterators that have ended are unlinked, each with a segment of the current key.\<close>

fun ri_step :: "(notice option \<times> notice list) list \<Rightarrow> key \<Rightarrow> bool \<times> (notice option \<times> notice list) list \<times> key" where
  "ri_step [] current = (False, [], current)"
| "ri_step ((c, x # l) # rest) current = (True, (Some x, l) # rest, current)"
| "ri_step ((c, []) # rest) current = ri_step rest (key_removelast current 1)"

definition ri_next :: "'s igen \<Rightarrow> 's \<Rightarrow> key \<Rightarrow> riter \<Rightarrow> (bool \<times> riter) option" where
  "ri_next ops s base it = do {
     it1 \<leftarrow> ri_descend ops s base it;
     (let (more, itlist, current) = ri_step (ri_itlist it1) (ri_current it1)
      in Some (more, it1\<lparr>ri_itlist := itlist, ri_current := current, ri_sub_next := (more \<or> ri_sub_next it1)\<rparr>)) }"

definition ri_key :: "riter \<Rightarrow> key option" where
  "ri_key it =
     (case ri_itlist it of
        [] \<Rightarrow> Some (ri_current it)
      | (Some (k, v), l) # rest \<Rightarrow> Some (key_concat (ri_current it) k)
      | _ \<Rightarrow> None)"

definition ri_value :: "'s igen \<Rightarrow> 's \<Rightarrow> key \<Rightarrow> riter \<Rightarrow> wvstring option" where
  "ri_value ops s base it = do { k \<leftarrow> ri_key it; ig_get ops (key_concat base k) s }"

text \<open>The keys and values that a loop of at most so many steps meets.\<close>

primrec ri_collect :: "nat \<Rightarrow> 's igen \<Rightarrow> 's \<Rightarrow> key \<Rightarrow> riter \<Rightarrow> notice list option" where
  "ri_collect 0 ops s base it = Some []"
| "ri_collect (Suc n) ops s base it = do {
     (more, it') \<leftarrow> ri_next ops s base it;
     (if more
      then do {
        k \<leftarrow> ri_key it';
        v \<leftarrow> ri_value ops s base it';
        rest \<leftarrow> ri_collect n ops s base it';
        Some ((k, v) # rest) }
      else Some []) }"

definition ri_all :: "nat \<Rightarrow> 's igen \<Rightarrow> key \<Rightarrow> 's \<Rightarrow> notice list option" where
  "ri_all n ops base s = do { it \<leftarrow> ri_rewind ops s base; ri_collect n ops s base it }"

subsection \<open>Plain keys\<close>

definition plain_segs :: "key \<Rightarrow> bool" where
  "plain_segs p \<longleftrightarrow> key_cstr p \<and> [] \<notin> set p"

lemma plain_segs_append [simp]: "plain_segs (p @ q) \<longleftrightarrow> plain_segs p \<and> plain_segs q"
  by (auto simp: plain_segs_def)

lemma plain_segs_single [simp]: "plain_segs [s] \<longleftrightarrow> seg_ok s"
  by (auto simp: plain_segs_def seg_ok_def)

lemma plain_segs_Nil [simp]: "plain_segs []"
  by (simp add: plain_segs_def)

lemma key_concat_plain: "plain_segs q \<Longrightarrow> q \<noteq> [] \<Longrightarrow> key_concat t q = nonempty_segs t @ q"
  by (cases q rule: rev_cases)
    (auto simp: key_concat_def Let_def key_isempty_def key_hastrailingslash_def plain_segs_def nonempty_segs_def
      filter_id_conv key_collapse_def append_eq_Cons_conv)

lemma key_append_plain: "plain_segs p \<Longrightarrow> plain_segs q \<Longrightarrow> q \<noteq> [] \<Longrightarrow> key_append p q = p @ q"
  by (cases q rule: rev_cases)
    (auto simp: key_append_def Let_def key_isempty_def key_hastrailingslash_def plain_segs_def nonempty_segs_def
      filter_id_conv key_collapse_def append_eq_Cons_conv)

lemma nonempty_segs_plain: "plain_segs p \<Longrightarrow> nonempty_segs p = p"
  by (auto simp: plain_segs_def nonempty_segs_def filter_id_conv)

lemma key_removelast_plain: "plain_segs (p @ [s]) \<Longrightarrow> key_removelast (p @ [s]) 1 = p"
  by (auto simp: key_removelast_def key_range_def Let_def key_numsegments_def plain_segs_def key_collapse_def
      dest: in_set_takeD)

lemma key_path_plain: "plain_segs p \<Longrightarrow> key_path p = map lower p"
  by (simp add: key_path_def nonempty_segs_plain)

lemma key_path_base:
  assumes "plain_segs p"
  shows "key_path (nonempty_segs b @ p) = key_path b @ map lower p"
proof -
  have "nonempty_segs (nonempty_segs b @ p) = nonempty_segs b @ nonempty_segs p" by (simp add: nonempty_segs_def)
  then show ?thesis using assms by (simp add: key_path_def nonempty_segs_plain)
qed

lemma key_ok_base:
  assumes "key_ok m b" "plain_segs p" "p \<noteq> []" "int (length b + length p) \<le> m'"
  shows "key_ok m' (nonempty_segs b @ p)"
proof -
  have "length (nonempty_segs b) \<le> length b" by (simp add: nonempty_segs_def)
  moreover have "[] \<notin> set (nonempty_segs b)" "key_cstr (nonempty_segs b)"
    using assms(1) by (auto simp: nonempty_segs_def key_ok_def key_cstr_def)
  ultimately show ?thesis using assms(2-4)
    by (auto simp: key_ok_def plain_segs_def butlast_append append_eq_Cons_conv dest: in_set_butlastD)
qed

lemma plain_no_trailing: "plain_segs p \<Longrightarrow> p \<noteq> [] \<Longrightarrow> \<not> key_hastrailingslash (b @ p)"
  by (cases p rule: rev_cases) (auto simp: key_hastrailingslash_def plain_segs_def)

subsection \<open>The loop meets every key below its base once\<close>

text \<open>The order in which the keys are met, down to a depth.\<close>

primrec preorder :: "(key \<Rightarrow> notice list) \<Rightarrow> nat \<Rightarrow> key \<Rightarrow> key list" where
  "preorder kids 0 p = []"
| "preorder kids (Suc d) p = concat (map (\<lambda>(j, v). (p @ j) # preorder kids d (p @ j)) (kids p))"

definition preorder_items :: "(key \<Rightarrow> notice list) \<Rightarrow> nat \<Rightarrow> key \<Rightarrow> notice list \<Rightarrow> key list" where
  "preorder_items kids d p l = concat (map (\<lambda>(j, v). (p @ j) # preorder kids d (p @ j)) l)"

lemma preorder_items_simps [simp]:
  "preorder_items kids d p [] = []"
  "preorder_items kids d p ((j, v) # l) = ((p @ j) # preorder kids d (p @ j)) @ preorder_items kids d p l"
  by (simp_all add: preorder_items_def)

lemma preorder_Suc: "preorder kids (Suc d) p = preorder_items kids d p (kids p)"
  by (simp add: preorder_items_def)

text \<open>Contents in which what is above a key exists, and to a depth below a path.\<close>

definition tree_closed :: "(string list \<Rightarrow> wvstring) \<Rightarrow> bool" where
  "tree_closed M \<longleftrightarrow> (\<forall>q s. M (q @ [s]) \<noteq> None \<longrightarrow> M q \<noteq> None)"

definition depth_below :: "string list \<Rightarrow> nat \<Rightarrow> (string list \<Rightarrow> wvstring) \<Rightarrow> bool" where
  "depth_below P D M \<longleftrightarrow> (\<forall>q. M (P @ q) \<noteq> None \<longrightarrow> length q \<le> D)"

lemma tree_closedD: "tree_closed M \<Longrightarrow> M (a @ b) \<noteq> None \<Longrightarrow> M a \<noteq> None"
proof (induction b rule: rev_induct)
  case (snoc x b)
  then have "M ((a @ b) @ [x]) \<noteq> None" by simp
  then have "M (a @ b) \<noteq> None" using snoc.prems(1) unfolding tree_closed_def by blast
  then show ?case using snoc by blast
qed simp

context uni_gen
begin

definition kids :: "'s \<Rightarrow> key \<Rightarrow> key \<Rightarrow> notice list" where
  "kids s base p = (case ig_iterator ops (if p = [] then base else nonempty_segs base @ p) s of
     Some (Some l) \<Rightarrow> l | _ \<Rightarrow> [])"

definition walk :: "'s \<Rightarrow> nat \<Rightarrow> key \<Rightarrow> notice list" where
  "walk s D base = map (\<lambda>p. (p, contents s (key_path base @ map lower p))) (preorder (kids s base) D [])"

text \<open>What the iterator at a key below the base yields.\<close>

lemma kids_spec:
  assumes "valid n s" "key_ok klen base" "plain_segs p" "int (length base + length p) \<le> klen"
  shows "\<exists>r. ig_iterator ops (if p = [] then base else nonempty_segs base @ p) s = Some r \<and>
      kids s base p = (case r of None \<Rightarrow> [] | Some l \<Rightarrow> l)"
    "distinct (map (\<lambda>d. map lower (fst d)) (kids s base p))"
    "\<forall>(j, v) \<in> set (kids s base p). \<exists>x. j = [x] \<and> seg_ok x \<and> contents s (key_path base @ map lower p @ [lower x]) = v \<and> v \<noteq> None"
    "\<forall>x. contents s (key_path base @ map lower p @ [x]) \<noteq> None \<longrightarrow> (\<exists>j v. (j, v) \<in> set (kids s base p) \<and> map lower j = [x])"
proof -
  define k where "k = (if p = [] then base else nonempty_segs base @ p)"
  have k: "key_ok klen k" "key_path k = key_path base @ map lower p"
    using assms key_ok_base [OF assms(2,3)] key_path_base [OF assms(3)] by (auto simp: k_def)
  obtain r where r: "ig_iterator ops k s = Some r" "iter_spec k (contents s) r"
    using iterator_law [OF assms(1) k(1)] by blast
  have kd: "kids s base p = (case r of None \<Rightarrow> [] | Some l \<Rightarrow> l)"
    using r(1) by (simp add: kids_def k_def split: option.split)
  show "\<exists>r. ig_iterator ops (if p = [] then base else nonempty_segs base @ p) s = Some r \<and>
      kids s base p = (case r of None \<Rightarrow> [] | Some l \<Rightarrow> l)" using r(1) kd by (simp add: k_def)
  show "distinct (map (\<lambda>d. map lower (fst d)) (kids s base p))"
    using r(2) kd by (simp add: iter_spec_def split: option.splits)
  show "\<forall>(j, v) \<in> set (kids s base p). \<exists>x. j = [x] \<and> seg_ok x \<and> contents s (key_path base @ map lower p @ [lower x]) = v \<and> v \<noteq> None"
  proof (cases r)
    case (Some l)
    have d: "distinct (map fst (map (\<lambda>(j, v). (map lower j, the v)) l))"
      using r(2) Some by (simp add: iter_spec_def comp_def case_prod_beta)
    show ?thesis
    proof (intro ballI, clarify)
      fix j v assume jv: "(j, v) \<in> set (kids s base p)"
      then have l: "(j, v) \<in> set l" using kd Some by simp
      then obtain x where x: "j = [x]" "seg_ok x" "val_ok v" using r(2) Some by (auto simp: iter_spec_def)
      have "map_of (map (\<lambda>(j, v). (map lower j, the v)) l) [lower x] = Some (the v)"
        using d l x(1) by (intro map_of_is_SomeI) force+
      then have "contents s (key_path base @ map lower p @ [lower x]) = v"
        using r(2) Some k(2) val_ok_Some [OF x(3)] by (auto simp: iter_spec_def)
      then show "\<exists>x. j = [x] \<and> seg_ok x \<and> contents s (key_path base @ map lower p @ [lower x]) = v \<and> v \<noteq> None"
        using x val_ok_Some [OF x(3)] by blast
    qed
  qed (simp add: kd)
  show "\<forall>x. contents s (key_path base @ map lower p @ [x]) \<noteq> None \<longrightarrow> (\<exists>j v. (j, v) \<in> set (kids s base p) \<and> map lower j = [x])"
  proof (cases r)
    case None
    then show ?thesis using r(2) k(2) by (auto simp: iter_spec_def haschildren_spec_def)
  next
    case (Some l)
    show ?thesis
    proof (intro allI impI)
      fix x assume "contents s (key_path base @ map lower p @ [x]) \<noteq> None"
      then have "map_of (map (\<lambda>(j, v). (map lower j, the v)) l) [x] \<noteq> None"
        using r(2) Some k(2) by (auto simp: iter_spec_def)
      then show "\<exists>j v. (j, v) \<in> set (kids s base p) \<and> map lower j = [x]"
        using kd Some by (auto simp: map_of_eq_None_iff)
    qed
  qed
qed

lemma map_option_append [simp]:
  "map_option ((@) []) z = z" "map_option (\<lambda>a. a) z = z" "map_option ((#) x) (map_option ((@) b) z) = map_option ((@) (x # b)) z"
  "map_option ((@) a) (map_option ((@) b) z) = map_option ((@) (a @ b)) z"
  by (cases z; simp)+

lemma collect_ended:
  "ri_collect m ops s base \<lparr>ri_itlist = (c, []) # rest, ri_current = p, ri_sub_next = False\<rparr> =
    ri_collect m ops s base \<lparr>ri_itlist = (c', []) # rest, ri_current = p, ri_sub_next = False\<rparr>"
  by (cases m) (simp_all add: ri_next_def ri_descend_def)

lemma collect_descend:
  assumes "ri_descend ops s base it = Some it'" "\<not> ri_sub_next it'"
  shows "ri_collect n ops s base it = ri_collect n ops s base it'"
proof -
  have "ri_descend ops s base it' = Some it'" using assms(2) by (simp add: ri_descend_def)
  then show ?thesis using assms(1) by (cases n) (simp_all add: ri_next_def)
qed

lemma collect_pop:
  assumes "plain_segs (p @ [x])"
  shows "ri_collect n ops s base \<lparr>ri_itlist = (c, []) # rest, ri_current = p @ [x], ri_sub_next = False\<rparr> =
    ri_collect n ops s base \<lparr>ri_itlist = rest, ri_current = p, ri_sub_next = False\<rparr>"
  using key_removelast_plain [OF assms] by (cases n) (simp_all add: ri_next_def ri_descend_def)


text \<open>The loop from a state in which an iterator has items to come.\<close>

definition visit :: "'s \<Rightarrow> key \<Rightarrow> key \<Rightarrow> notice" where
  "visit s base p = (p, contents s (key_path base @ map lower p))"

lemma collect_item:
  assumes v: "valid n s" "key_ok klen base" "plain_segs p" "seg_ok x" "int (length base + length p) < klen"
  shows "ri_collect (Suc m) ops s base \<lparr>ri_itlist = (c, ([x], v) # l) # rest, ri_current = p, ri_sub_next = False\<rparr> =
    map_option ((#) (visit s base (p @ [x])))
      (ri_collect m ops s base \<lparr>ri_itlist = (Some ([x], v), l) # rest, ri_current = p, ri_sub_next = True\<rparr>)"
proof -
  have px: "plain_segs (p @ [x])" "plain_segs [x]" "key_concat p [x] = p @ [x]"
    using v(3,4) key_concat_plain [of "[x]" p] by (simp_all add: nonempty_segs_plain)
  have k: "key_ok klen (nonempty_segs base @ p @ [x])" "\<not> key_hastrailingslash (nonempty_segs base @ p @ [x])"
    using key_ok_base [OF v(2) px(1)] plain_no_trailing [OF px(1)] v(5) by simp_all
  have "ig_get ops (key_concat base (p @ [x])) s = Some (contents s (key_path base @ map lower (p @ [x])))"
    using get_law [OF v(1) k(1)] k(2) key_concat_plain [OF px(1), of base] key_path_base [OF px(1), of base]
    by (simp add: get_spec_def)
  then show ?thesis
    by (cases "ri_collect m ops s base \<lparr>ri_itlist = (Some ([x], v), l) # rest, ri_current = p, ri_sub_next = True\<rparr>")
      (simp_all add: ri_next_def ri_descend_def ri_key_def ri_value_def px(3) visit_def)
qed

text \<open>What is below an item comes next, given a run through its children.\<close>

lemma collect_below:
  assumes v: "valid n s" "key_ok klen base" "plain_segs (p @ [x])" "int (length base + length p) < klen"
    and run: "\<And>m c c' rest. ri_collect (length ps + m) ops s base
        \<lparr>ri_itlist = (c, kids s base (p @ [x])) # rest, ri_current = p @ [x], ri_sub_next = False\<rparr> =
      map_option ((@) (map (visit s base) ps)) (ri_collect m ops s base
        \<lparr>ri_itlist = (c', []) # rest, ri_current = p @ [x], ri_sub_next = False\<rparr>)"
    and none: "kids s base (p @ [x]) = [] \<Longrightarrow> ps = []"
  shows "ri_collect (length ps + m) ops s base \<lparr>ri_itlist = (Some ([x], w), l) # rest, ri_current = p, ri_sub_next = True\<rparr> =
    map_option ((@) (map (visit s base) ps))
      (ri_collect m ops s base \<lparr>ri_itlist = (Some ([x], w), l) # rest, ri_current = p, ri_sub_next = False\<rparr>)"
proof -
  let ?it = "\<lparr>ri_itlist = (Some ([x], w), l) # rest, ri_current = p, ri_sub_next = True\<rparr>"
  let ?up = "\<lparr>ri_itlist = (Some ([x], w), l) # rest, ri_current = p, ri_sub_next = False\<rparr>"
  have px: "plain_segs p" "plain_segs [x]" using v(3) by simp_all
  have kc: "key_concat p [x] = p @ [x]" "key_append p [x] = p @ [x]" "key_concat base (p @ [x]) = nonempty_segs base @ p @ [x]"
    using key_concat_plain [OF px(2), of p] key_append_plain [OF px] key_concat_plain [OF v(3), of base]
    by (simp_all add: nonempty_segs_plain px(1))
  obtain r where r: "ig_iterator ops (nonempty_segs base @ p @ [x]) s = Some r"
    "kids s base (p @ [x]) = (case r of None \<Rightarrow> [] | Some l \<Rightarrow> l)"
    using kids_spec(1) [OF v(1-3)] v(4) by auto
  show ?thesis
  proof (cases r)
    case None
    then have "ri_descend ops s base ?it = Some ?up" using r(1) by (simp add: ri_descend_def kc)
    moreover have "ps = []" using none r(2) None by simp
    ultimately show ?thesis using collect_descend [of s base ?it ?up m]
      by simp
  next
    case (Some l')
    let ?in = "\<lparr>ri_itlist = (None, l') # (Some ([x], w), l) # rest, ri_current = p @ [x], ri_sub_next = False\<rparr>"
    have "ri_descend ops s base ?it = Some ?in" using r(1) Some by (simp add: ri_descend_def kc)
    then have "ri_collect (length ps + m) ops s base ?it = ri_collect (length ps + m) ops s base ?in"
      by (rule collect_descend) simp
    also have "\<dots> = map_option ((@) (map (visit s base) ps)) (ri_collect m ops s base
        \<lparr>ri_itlist = (None, []) # (Some ([x], w), l) # rest, ri_current = p @ [x], ri_sub_next = False\<rparr>)"
      using run [of m None "(Some ([x], w), l) # rest" None] r(2) Some by simp
    finally show ?thesis by (simp add: collect_pop [OF v(3)])
  qed
qed

lemma collect_items:
  assumes v: "valid n s" "key_ok klen base" "plain_segs p" "int (length base + length p) < klen"
    and below: "\<And>x w l m rest. seg_ok x \<Longrightarrow> contents s (key_path base @ map lower (p @ [x])) \<noteq> None \<Longrightarrow>
      ri_collect (length (preorder (kids s base) d (p @ [x])) + m) ops s base
          \<lparr>ri_itlist = (Some ([x], w), l) # rest, ri_current = p, ri_sub_next = True\<rparr> =
        map_option ((@) (map (visit s base) (preorder (kids s base) d (p @ [x]))))
          (ri_collect m ops s base \<lparr>ri_itlist = (Some ([x], w), l) # rest, ri_current = p, ri_sub_next = False\<rparr>)"
  shows "(\<forall>(j, w) \<in> set l. \<exists>x. j = [x] \<and> seg_ok x \<and> contents s (key_path base @ map lower p @ [lower x]) = w \<and> w \<noteq> None) \<Longrightarrow>
    ri_collect (length (preorder_items (kids s base) d p l) + m) ops s base
        \<lparr>ri_itlist = (c, l) # rest, ri_current = p, ri_sub_next = False\<rparr> =
      map_option ((@) (map (visit s base) (preorder_items (kids s base) d p l)))
        (ri_collect m ops s base \<lparr>ri_itlist = (c', []) # rest, ri_current = p, ri_sub_next = False\<rparr>)"
proof (induction l arbitrary: c m)
  case Nil
  then show ?case using collect_ended [of m s base c rest p c'] by simp
next
  case (Cons a l)
  obtain x w where a: "a = ([x], w)" and x: "seg_ok x" "contents s (key_path base @ map lower (p @ [x])) \<noteq> None"
    using Cons.prems by (cases a) auto
  let ?ps = "preorder (kids s base) d (p @ [x])" and ?qs = "preorder_items (kids s base) d p l"
  have "ri_collect (length (preorder_items (kids s base) d p (a # l)) + m) ops s base
      \<lparr>ri_itlist = (c, a # l) # rest, ri_current = p, ri_sub_next = False\<rparr> =
    map_option ((#) (visit s base (p @ [x]))) (ri_collect (length ?ps + (length ?qs + m)) ops s base
      \<lparr>ri_itlist = (Some ([x], w), l) # rest, ri_current = p, ri_sub_next = True\<rparr>)"
    using collect_item [OF v(1-3) x(1) v(4), of "length ?ps + (length ?qs + m)" c w l rest] by (simp add: a add.assoc)
  also have "\<dots> = map_option ((@) (map (visit s base) ((p @ [x]) # ?ps))) (ri_collect (length ?qs + m) ops s base
      \<lparr>ri_itlist = (Some ([x], w), l) # rest, ri_current = p, ri_sub_next = False\<rparr>)"
    unfolding below [OF x] by simp
  also have "ri_collect (length ?qs + m) ops s base \<lparr>ri_itlist = (Some ([x], w), l) # rest, ri_current = p, ri_sub_next = False\<rparr> =
      map_option ((@) (map (visit s base) ?qs))
        (ri_collect m ops s base \<lparr>ri_itlist = (c', []) # rest, ri_current = p, ri_sub_next = False\<rparr>)"
    using Cons.IH [of m "Some ([x], w)"] Cons.prems by simp
  finally show ?case by (simp add: a option.map_comp comp_def del: ri_collect.simps)
qed

lemma collect_run:
  assumes v: "valid n s" "key_ok klen base" "depth_below (key_path base) D (contents s)" "int (length base + D) < klen"
  shows "plain_segs p \<Longrightarrow> D \<le> length p + Suc d \<Longrightarrow>  length p \<le> D \<Longrightarrow>
    (\<forall>(j, w) \<in> set l. \<exists>x. j = [x] \<and> seg_ok x \<and> contents s (key_path base @ map lower p @ [lower x]) = w \<and> w \<noteq> None) \<Longrightarrow>
    ri_collect (length (preorder_items (kids s base) d p l) + m) ops s base
        \<lparr>ri_itlist = (c, l) # rest, ri_current = p, ri_sub_next = False\<rparr> =
      map_option ((@) (map (visit s base) (preorder_items (kids s base) d p l)))
        (ri_collect m ops s base \<lparr>ri_itlist = (c', []) # rest, ri_current = p, ri_sub_next = False\<rparr>)"
proof (induction d arbitrary: p l m c c' rest)
  case (0 p)
  have len: "int (length base + length p) < klen" using v(4) 0(3) by simp
  show ?case
  proof (rule collect_items [OF v(1,2) 0(1) len _ 0(4)])
    fix x w l m rest
    assume x: "seg_ok x" "contents s (key_path base @ map lower (p @ [x])) \<noteq> None"
    have px: "plain_segs (p @ [x])" using 0(1) x(1) by simp
    have "kids s base (p @ [x]) = []"
    proof (rule ccontr)
      assume "kids s base (p @ [x]) \<noteq> []"
      then obtain j v where "(j, v) \<in> set (kids s base (p @ [x]))" by (cases "kids s base (p @ [x])") auto
      then obtain y where "contents s (key_path base @ map lower (p @ [x]) @ [lower y]) \<noteq> None"
        using kids_spec(3) [OF v(1,2) px] v(4) 0 len by fastforce
      then have "length (map lower (p @ [x]) @ [lower y]) \<le> D" using v(3) unfolding depth_below_def by blast
      then show False using 0(2) by simp
    qed
    then have run: "ri_collect (length [] + m) ops s base
        \<lparr>ri_itlist = (c, kids s base (p @ [x])) # rest, ri_current = p @ [x], ri_sub_next = False\<rparr> =
      map_option ((@) (map (visit s base) [])) (ri_collect m ops s base
        \<lparr>ri_itlist = (c', []) # rest, ri_current = p @ [x], ri_sub_next = False\<rparr>)" for m c c' rest
      using collect_ended [of m s base c rest "p @ [x]" c'] by simp
    show "ri_collect (length (preorder (kids s base) 0 (p @ [x])) + m) ops s base
          \<lparr>ri_itlist = (Some ([x], w), l) # rest, ri_current = p, ri_sub_next = True\<rparr> =
        map_option ((@) (map (visit s base) (preorder (kids s base) 0 (p @ [x]))))
          (ri_collect m ops s base \<lparr>ri_itlist = (Some ([x], w), l) # rest, ri_current = p, ri_sub_next = False\<rparr>)"
      using collect_below [OF v(1,2) px len run] by simp
  qed
next
  case (Suc d)
  have len: "int (length base + length p) < klen" using v(4) Suc.prems(3) by simp
  show ?case
  proof (rule collect_items [OF v(1,2) Suc.prems(1) len _ Suc.prems(4)])
    fix x w l m rest
    assume x: "seg_ok x" "contents s (key_path base @ map lower (p @ [x])) \<noteq> None"
    have px: "plain_segs (p @ [x])" using Suc.prems(1) x(1) by simp
    have ld: "length (p @ [x]) \<le> D" using v(3) x(2) unfolding depth_below_def by (metis length_map)
    have "int (length base + length (p @ [x])) \<le> klen" using ld v(4) by simp
    note k = kids_spec(3) [OF v(1,2) px this]
    show "ri_collect (length (preorder (kids s base) (Suc d) (p @ [x])) + m) ops s base
          \<lparr>ri_itlist = (Some ([x], w), l) # rest, ri_current = p, ri_sub_next = True\<rparr> =
        map_option ((@) (map (visit s base) (preorder (kids s base) (Suc d) (p @ [x]))))
          (ri_collect m ops s base \<lparr>ri_itlist = (Some ([x], w), l) # rest, ri_current = p, ri_sub_next = False\<rparr>)"
      unfolding preorder_Suc
      by (rule collect_below [OF v(1,2) px len Suc.IH [OF px _ ld k]]) (use Suc.prems(2) in simp_all)
  qed
qed


text \<open>Enough steps run through all keys, and the loop has ended.\<close>

lemma ri_all_walk:
  assumes v: "valid n s" "key_ok klen base" "depth_below (key_path base) D (contents s)" "int (length base + D) < klen"
    and m: "length (walk s (Suc D) base) < m"
  shows "ri_all m ops base s = Some (walk s (Suc D) base)"
proof -
  let ?ps = "preorder_items (kids s base) D [] (kids s base [])"
  have k: "int (length base + length ([] :: key)) \<le> klen" using v(4) by simp
  obtain r where r: "ig_iterator ops base s = Some r" "kids s base [] = (case r of None \<Rightarrow> [] | Some l \<Rightarrow> l)"
    using kids_spec(1) [OF v(1,2) plain_segs_Nil k] by auto
  define j where "j = m - length ?ps"
  have w: "walk s (Suc D) base = map (visit s base) ?ps"
    unfolding walk_def preorder_Suc by (simp add: visit_def)
  have j: "m = length ?ps + j" "0 < j" using m w by (simp_all add: j_def)
  have stop: "ri_collect j ops s base \<lparr>ri_itlist = [], ri_current = p, ri_sub_next = False\<rparr> = Some []" for p
    using j(2) by (cases j) (simp_all add: ri_next_def ri_descend_def)
  have stop1: "ri_collect j ops s base \<lparr>ri_itlist = [(None, [])], ri_current = [], ri_sub_next = False\<rparr> = Some []"
    using j(2) by (cases j) (simp_all add: ri_next_def ri_descend_def)
  have "ri_all m ops base s = ri_collect m ops s base
      \<lparr>ri_itlist = (case r of None \<Rightarrow> [] | Some l \<Rightarrow> [(None, l)]), ri_current = [], ri_sub_next = False\<rparr>"
    using r(1) by (simp add: ri_all_def ri_rewind_def)
  also have "\<dots> = Some (map (visit s base) ?ps)"
  proof (cases r)
    case None
    then show ?thesis using r(2) stop j(1) by simp
  next
    case (Some l)
    then show ?thesis
      using collect_run [OF v, of "[]" D "kids s base []" j None "[]" None] kids_spec(3) [OF v(1,2) plain_segs_Nil k]
        stop1 r(2) j(1) by simp
  qed
  finally show ?thesis by (simp add: w)
qed

text \<open>They are the keys below the base, each once.\<close>

lemma items_keys:
  assumes sub: "\<And>x. seg_ok x \<Longrightarrow> contents s (key_path base @ map lower p @ [lower x]) \<noteq> None \<Longrightarrow>
      distinct (map (map lower) (preorder K d (p @ [x]))) \<and> (\<forall>k \<in> set (preorder K d (p @ [x])). plain_segs k) \<and>
      map lower ` set (preorder K d (p @ [x])) = {map lower (p @ [x]) @ q | q. q \<noteq> [] \<and> B (lower x # q)}"
    and p: "plain_segs p"
  shows "(\<forall>(j, w) \<in> set l. \<exists>x. j = [x] \<and> seg_ok x \<and> contents s (key_path base @ map lower p @ [lower x]) = w \<and> w \<noteq> None) \<Longrightarrow>
    distinct (map (\<lambda>d. map lower (fst d)) l) \<Longrightarrow>
    distinct (map (map lower) (preorder_items K d p l)) \<and> (\<forall>k \<in> set (preorder_items K d p l). plain_segs k) \<and>
    map lower ` set (preorder_items K d p l) =
      {map lower p @ y # q | y q. (\<exists>d \<in> set l. map lower (fst d) = [y]) \<and> (q = [] \<or> B (y # q))}"
proof (induction l)
  case (Cons a l)
  obtain x w where a: "a = ([x], w)" and x: "seg_ok x" "contents s (key_path base @ map lower p @ [lower x]) \<noteq> None"
    using Cons.prems(1) by (cases a) auto
  let ?hd = "(p @ [x]) # preorder K d (p @ [x])"
  note sub = sub [OF x]
  note IH = Cons.IH
  have IH: "distinct (map (map lower) (preorder_items K d p l))" "\<forall>k \<in> set (preorder_items K d p l). plain_segs k"
    "map lower ` set (preorder_items K d p l) =
      {map lower p @ y # q | y q. (\<exists>d \<in> set l. map lower (fst d) = [y]) \<and> (q = [] \<or> B (y # q))}"
    using Cons by simp_all
  have h: "map lower ` set ?hd = {map lower p @ lower x # q | q. q = [] \<or> B (lower x # q)}"
    using sub by auto
  have "map lower (p @ [x]) \<notin> map lower ` set (preorder K d (p @ [x]))" using sub by auto
  then have dh: "distinct (map (map lower) ?hd)" using sub by (simp add: image_comp)
  have new: "\<not> (\<exists>d \<in> set l. map lower (fst d) = [lower x])" using Cons.prems(2) by (force simp: a)
  have "map lower ` set ?hd \<inter> map lower ` set (preorder_items K d p l) = {}"
    unfolding h IH(3) using new by auto
  then have "distinct (map (map lower) (preorder_items K d p (a # l)))"
    using dh IH(1) by (simp add: a)
  moreover have "\<forall>k \<in> set (preorder_items K d p (a # l)). plain_segs k" using sub IH(2) p x(1) by (auto simp: a)
  moreover have "map lower ` set (preorder_items K d p (a # l)) =
      {map lower p @ y # q | y q. (\<exists>d \<in> set (a # l). map lower (fst d) = [y]) \<and> (q = [] \<or> B (y # q))}"
  proof -
    have "map lower ` set (preorder_items K d p (a # l)) = map lower ` set ?hd \<union> map lower ` set (preorder_items K d p l)"
      by (simp add: a image_Un)
    also have "\<dots> = {map lower p @ y # q | y q. (\<exists>d \<in> set (a # l). map lower (fst d) = [y]) \<and> (q = [] \<or> B (y # q))}"
    proof -
      define E where "E y \<longleftrightarrow> (\<exists>d \<in> set l. map lower (fst d) = [y])" for y
      have "(\<exists>d \<in> set (a # l). map lower (fst d) = [y]) \<longleftrightarrow> y = lower x \<or> E y" for y by (auto simp: a E_def)
      then show ?thesis unfolding h IH(3) E_def [symmetric] by auto
    qed
    finally show ?thesis .
  qed
  ultimately show ?case by blast
qed simp

lemma preorder_keys:
  assumes v: "valid n s" "key_ok klen base" "tree_closed (contents s)"
  shows "plain_segs p \<Longrightarrow> int (length base + length p + d) \<le> klen \<Longrightarrow>
    distinct (map (map lower) (preorder (kids s base) d p)) \<and>
    (\<forall>k \<in> set (preorder (kids s base) d p). plain_segs k) \<and>
    map lower ` set (preorder (kids s base) d p) =
      {map lower p @ q | q. q \<noteq> [] \<and> length q \<le> d \<and> contents s (key_path base @ map lower p @ q) \<noteq> None}"
proof (induction d arbitrary: p)
  case (Suc d)
  define B where "B q \<longleftrightarrow> length q \<le> Suc d \<and> contents s (key_path base @ map lower p @ q) \<noteq> None" for q
  have k: "int (length base + length p) \<le> klen" using Suc.prems(2) by simp
  note kd = kids_spec [OF v(1,2) Suc.prems(1) k]
  have ex: "(\<exists>d \<in> set (kids s base p). map lower (fst d) = [y]) \<longleftrightarrow> contents s (key_path base @ map lower p @ [y]) \<noteq> None" for y
  proof
    assume "\<exists>d \<in> set (kids s base p). map lower (fst d) = [y]"
    then obtain j w where jw: "(j, w) \<in> set (kids s base p)" "map lower j = [y]" by auto
    then show "contents s (key_path base @ map lower p @ [y]) \<noteq> None" using kd(3) by auto
  next
    assume "contents s (key_path base @ map lower p @ [y]) \<noteq> None"
    then obtain j w where "(j, w) \<in> set (kids s base p)" "map lower j = [y]" using kd(4) by metis
    then show "\<exists>d \<in> set (kids s base p). map lower (fst d) = [y]" by force
  qed
  have "distinct (map (map lower) (preorder_items (kids s base) d p (kids s base p))) \<and>
    (\<forall>k \<in> set (preorder_items (kids s base) d p (kids s base p)). plain_segs k) \<and>
    map lower ` set (preorder_items (kids s base) d p (kids s base p)) =
      {map lower p @ y # q | y q. (\<exists>d \<in> set (kids s base p). map lower (fst d) = [y]) \<and> (q = [] \<or> B (y # q))}"
  proof (rule items_keys [OF _ Suc.prems(1) kd(3,2)])
    fix x
    assume x: "seg_ok x"
    then have px: "plain_segs (p @ [x])" using Suc.prems(1) by simp
    show "distinct (map (map lower) (preorder (kids s base) d (p @ [x]))) \<and>
      (\<forall>k \<in> set (preorder (kids s base) d (p @ [x])). plain_segs k) \<and>
      map lower ` set (preorder (kids s base) d (p @ [x])) = {map lower (p @ [x]) @ q | q. q \<noteq> [] \<and> B (lower x # q)}"
      using Suc.IH [OF px] Suc.prems(2) by (simp add: B_def)
  qed
  moreover have "{map lower p @ y # q | y q. (\<exists>d \<in> set (kids s base p). map lower (fst d) = [y]) \<and> (q = [] \<or> B (y # q))} =
      {map lower p @ q | q. q \<noteq> [] \<and> B q}"
  proof -
    have "(contents s (key_path base @ map lower p @ [y]) \<noteq> None \<and> (q = [] \<or> B (y # q))) \<longleftrightarrow> B (y # q)" for y q
      using tree_closedD [OF v(3), of "key_path base @ map lower p @ [y]" q] by (auto simp: B_def)
    then show ?thesis unfolding ex by (auto simp: neq_Nil_conv)
  qed
  ultimately show ?case unfolding preorder_Suc B_def by simp
qed simp

lemma walk_spec:
  assumes v: "valid n s" "key_ok klen base" "depth_below (key_path base) D (contents s)" "int (length base + D) < klen"
    "tree_closed (contents s)"
  shows "distinct (map (\<lambda>d. map lower (fst d)) (walk s (Suc D) base)) \<and>
    (\<forall>d \<in> set (walk s (Suc D) base). plain_segs (fst d) \<and> fst d \<noteq> []) \<and>
    (\<lambda>d. (map lower (fst d), snd d)) ` set (walk s (Suc D) base) =
      {(q, w). q \<noteq> [] \<and> contents s (key_path base @ q) = w \<and> w \<noteq> None}"
proof -
  have k: "int (length base + length ([] :: key) + Suc D) \<le> klen" using v(4) by simp
  note pk = preorder_keys [OF v(1,2,5) plain_segs_Nil k]
  have d: "length q \<le> Suc D" if "contents s (key_path base @ q) \<noteq> None" for q
    using v(3) that unfolding depth_below_def by fastforce
  have i: "map lower ` set (preorder (kids s base) (Suc D) []) = {q. q \<noteq> [] \<and> contents s (key_path base @ q) \<noteq> None}"
    using pk d by auto
  have "(\<lambda>d. (map lower (fst d), snd d)) ` set (walk s (Suc D) base) =
      (\<lambda>q. (q, contents s (key_path base @ q))) ` (map lower ` set (preorder (kids s base) (Suc D) []))"
    by (simp add: walk_def image_comp comp_def del: preorder.simps)
  also have "\<dots> = {(q, w). q \<noteq> [] \<and> contents s (key_path base @ q) = w \<and> w \<noteq> None}" unfolding i by auto
  finally have set: "(\<lambda>d. (map lower (fst d), snd d)) ` set (walk s (Suc D) base) =
      {(q, w). q \<noteq> [] \<and> contents s (key_path base @ q) = w \<and> w \<noteq> None}" .
  have "[] \<notin> set (preorder (kids s base) (Suc D) [])"
  proof
    assume "[] \<in> set (preorder (kids s base) (Suc D) [])"
    then have "[] \<in> map lower ` set (preorder (kids s base) (Suc D) [])" by (metis imageI list.map(1))
    then show False unfolding i by simp
  qed
  then show ?thesis using pk set by (auto simp: walk_def comp_def simp del: preorder.simps)
qed

end

text \<open>The generator in memory.\<close>

lemma vt_map_closed: "vt_map (q @ r) node \<noteq> None \<Longrightarrow> vt_ok n node \<Longrightarrow> vt_map q node \<noteq> None"
proof (induction q arbitrary: node)
  case Nil
  then show ?case using val_ok_Some [OF vt_okD(1)] by simp
next
  case (Cons s q)
  then obtain c where c: "find (\<lambda>c. map lower (vt_key c) = [s]) (vt_childlist node) = Some c" "vt_map (q @ r) c \<noteq> None"
    by (auto split: option.splits)
  then have "c \<in> set (vt_childlist node)" by (auto simp: find_Some_iff)
  then have "vt_ok n c" using vt_okD(3) [OF Cons.prems(2)] by blast
  then show ?case using Cons.IH c by simp
qed

lemma vt_map_val: "vt_map q node \<noteq> None \<Longrightarrow> vt_ok n node \<Longrightarrow> val_ok (vt_map q node)"
proof (induction q arbitrary: node)
  case Nil
  then show ?case using vt_okD(1) by simp
next
  case (Cons s q)
  then obtain c where c: "find (\<lambda>c. map lower (vt_key c) = [s]) (vt_childlist node) = Some c" "vt_map q c \<noteq> None"
    by (auto split: option.splits)
  then have "c \<in> set (vt_childlist node)" by (auto simp: find_Some_iff)
  then have "vt_ok n c" using vt_okD(3) [OF Cons.prems(2)] by blast
  then show ?case using Cons.IH c by simp
qed

lemma tg_contents_val: "tg_valid n g \<Longrightarrow> tg_contents g q \<noteq> None \<Longrightarrow> val_ok (tg_contents g q)"
  using vt_map_val by (fastforce simp: tg_contents_def tg_valid_def split: option.splits)

lemma tg_closed: "tg_valid n g \<Longrightarrow> tree_closed (tg_contents g)"
  unfolding tree_closed_def
proof (intro allI impI)
  fix q x
  assume g: "tg_valid n g" and c: "tg_contents g (q @ [x]) \<noteq> None"
  then obtain root where "tg_root g = Some root" "vt_ok n root" by (auto simp: tg_contents_def tg_valid_def split: option.splits)
  then show "tg_contents g q \<noteq> None" using c vt_map_closed [of q "[x]" root n] by (simp add: tg_contents_def)
qed


text \<open>The whole of a generator in memory.\<close>

lemma tg_walk:
  assumes "tg_valid n g" "key_ok INT_MAX base" "depth_below (key_path base) D (tg_contents g)" "int (length base + D) < INT_MAX"
  shows "\<exists>l. (\<forall>m > length l. ri_all m tg_ops base g = Some l) \<and> distinct (map (\<lambda>d. map lower (fst d)) l) \<and>
    (\<forall>d \<in> set l. plain_segs (fst d) \<and> fst d \<noteq> []) \<and>
    (\<lambda>d. (map lower (fst d), snd d)) ` set l = {(q, w). q \<noteq> [] \<and> tg_contents g (key_path base @ q) = w \<and> w \<noteq> None}"
  using tg_c.ri_all_walk [OF assms] tg_c.walk_spec [OF assms tg_closed [OF assms(1)]] by blast

end
