(* ===== verification/UniCacheGen.thy ===== *)
theory UniCacheGen
  imports UniRecIter
begin

text \<open>
  The generator that caches another one in memory (\<open>uniconf/unicachegen.cc\<close>).  It is a generator in
  memory whose tree follows the notifications of the inner generator; \<open>this\<close> is the cookie of its callback
  and \<open>rec\<close> the inner generator's \<open>recursiveiterator\<close>.  The inner pointer may be null, which only the
  constructor tests.  \<open>flush_buffers\<close> delivers notifications that wait; the generators modelled have none.
\<close>

record 'i cachegen = tempgen +
  cg_inner :: "'i option"
  cg_refreshed_once :: bool

definition cg_new :: "'i igen \<Rightarrow> nat \<Rightarrow> 'i option \<Rightarrow> 'i cachegen option" where
  "cg_new inner this new = do {
     i \<leftarrow> (case new of None \<Rightarrow> Some None | Some i \<Rightarrow> map_option Some (ig_add_callback inner this i));
     Some (tempgen.extend tg_new \<lparr>cg_inner = i, cg_refreshed_once = False\<rparr>) }"

definition cg_deltacallback :: "key \<Rightarrow> wvstring \<Rightarrow> 'i cachegen \<Rightarrow> 'i cachegen option" where
  "cg_deltacallback key value g = tg_set key value g"

primrec cg_callbacks :: "notice list \<Rightarrow> 'i cachegen \<Rightarrow> 'i cachegen option" where
  "cg_callbacks [] g = Some g"
| "cg_callbacks (d # ds) g = do { g' \<leftarrow> cg_deltacallback (fst d) (snd d) g; cg_callbacks ds g' }"

text \<open>The inner generator after a method of it was run, with the calls of the callback that it made.\<close>

definition cg_after :: "'i igen \<Rightarrow> nat \<Rightarrow> 'i \<Rightarrow> 'i cachegen \<Rightarrow> 'i cachegen option" where
  "cg_after inner this i g = cg_callbacks (sent_to this (ig_sent inner i)) (g\<lparr>cg_inner := Some (ig_forget inner this i)\<rparr>)"

definition cg_isok :: "'i igen \<Rightarrow> 'i cachegen \<Rightarrow> bool option" where
  "cg_isok inner g = map_option (ig_isok inner) (cg_inner g)"

primrec loadtree_loop :: "notice list \<Rightarrow> 'i cachegen \<Rightarrow> 'i cachegen option" where
  "loadtree_loop [] g = Some g"
| "loadtree_loop (d # ds) g = do {
     g' \<leftarrow> (if snd d \<noteq> None \<and> snd d \<noteq> Some [] then tg_set (fst d) (snd d) g else Some g);
     loadtree_loop ds g' }"

definition cg_loadtree :: "(key \<Rightarrow> 'i \<Rightarrow> notice list option option) \<Rightarrow> key \<Rightarrow> 'i cachegen \<Rightarrow> 'i cachegen option" where
  "cg_loadtree rec key g = do {
     i \<leftarrow> cg_inner g;
     it \<leftarrow> rec key i;
     (case it of None \<Rightarrow> Some g | Some l \<Rightarrow> loadtree_loop l g) }"

definition cg_refresh :: "'i igen \<Rightarrow> (key \<Rightarrow> 'i \<Rightarrow> notice list option option) \<Rightarrow> nat \<Rightarrow> 'i cachegen
    \<Rightarrow> (bool \<times> 'i cachegen) option" where
  "cg_refresh inner rec this g =
     (if \<not> cg_refreshed_once g
      then do {
        i \<leftarrow> cg_inner g;
        (ret, i') \<leftarrow> ig_refresh inner i;
        g1 \<leftarrow> cg_after inner this i' g;
        g2 \<leftarrow> cg_loadtree rec [] g1;
        Some (ret, g2\<lparr>cg_refreshed_once := True\<rparr>) }
      else Some (False, g))"

definition cg_commit :: "'i igen \<Rightarrow> nat \<Rightarrow> 'i cachegen \<Rightarrow> 'i cachegen option" where
  "cg_commit inner this g = do { i \<leftarrow> cg_inner g; i' \<leftarrow> ig_commit inner i; cg_after inner this i' g }"

definition cg_set :: "'i igen \<Rightarrow> nat \<Rightarrow> key \<Rightarrow> wvstring \<Rightarrow> 'i cachegen \<Rightarrow> 'i cachegen option" where
  "cg_set inner this key value g = do {
     i \<leftarrow> cg_inner g;
     i' \<leftarrow> ig_set inner key value i;
     cg_after inner this i' g }"

definition cg_get :: "key \<Rightarrow> 'i cachegen \<Rightarrow> wvstring option" where
  "cg_get key g = do { i \<leftarrow> cg_inner g; tg_get key g }"

definition cg_setv :: "'i igen \<Rightarrow> nat \<Rightarrow> notice list \<Rightarrow> 'i cachegen \<Rightarrow> 'i cachegen option" where
  "cg_setv inner this pairs g = setv_naive (cg_set inner this) pairs g"

subsection \<open>The cache follows the inner generator\<close>

definition cg_valid :: "'i igen \<Rightarrow> (nat \<Rightarrow> 'i \<Rightarrow> bool) \<Rightarrow> nat \<Rightarrow> nat \<Rightarrow> nat \<Rightarrow> 'i cachegen \<Rightarrow> bool" where
  "cg_valid inner inner_valid this n m g \<longleftrightarrow>
     (\<exists>i. cg_inner g = Some i \<and> inner_valid n i \<and> this \<in> set (ig_callbacks inner i) \<and> sent_to this (ig_sent inner i) = []) \<and>
     tg_valid m g"

definition cg_coherent :: "('i \<Rightarrow> string list \<Rightarrow> wvstring) \<Rightarrow> 'i cachegen \<Rightarrow> bool" where
  "cg_coherent contents g \<longleftrightarrow> (\<exists>i. cg_inner g = Some i \<and> tg_contents g = contents i)"

lemma cg_callbacks_naive: "cg_callbacks ds g = setv_naive tg_set ds g"
  by (induction ds arbitrary: g) (simp_all add: cg_deltacallback_def)

lemma loadtree_naive:
  "loadtree_loop ds g = setv_naive tg_set (filter (\<lambda>d. snd d \<noteq> None \<and> snd d \<noteq> Some []) ds) g"
  by (induction ds arbitrary: g) simp_all


text \<open>A series of changes of a generator in memory.\<close>

lemma tg_setv_spec:
  assumes "tg_valid n g" "n + length pairs \<le> 26000" "\<forall>d \<in> set pairs. key_ok INT_MAX (fst d) \<and> (snd d = None \<or> val_ok (snd d))"
  shows "\<exists>g' ds. setv_naive tg_set pairs g = Some g' \<and> tg_valid (n + length pairs) g' \<and>
    tg_contents g' = foldl (\<lambda>M d. update_spec (fst d) (snd d) M) (tg_contents g) pairs \<and>
    gen_cblist g' = gen_cblist g \<and> tempgen.more g' = tempgen.more g \<and>
    gen_sent g' = gen_sent g @ sent_list (gen_cblist g) ds \<and> foldl key_note (tg_contents g) ds = tg_contents g'"
  using assms
proof (induction pairs arbitrary: n g)
  case Nil
  then show ?case by (intro exI [of _ g] exI [of _ "[]"]) simp
next
  case (Cons p pairs)
  obtain g1 ds1 where g1: "tg_set (fst p) (snd p) g = Some g1" "tg_valid (Suc n) g1"
    "tg_contents g1 = update_spec (fst p) (snd p) (tg_contents g)" "gen_cblist g1 = gen_cblist g"
    "tempgen.more g1 = tempgen.more g" "gen_sent g1 = gen_sent g @ sent_list (gen_cblist g) ds1"
    "foldl key_note (tg_contents g) ds1 = tg_contents g1"
    using tg_set_spec [of n g "fst p" "snd p"] Cons.prems by auto
  obtain g' ds where "setv_naive tg_set pairs g1 = Some g'" "tg_valid (Suc n + length pairs) g'"
    "tg_contents g' = foldl (\<lambda>M d. update_spec (fst d) (snd d) M) (tg_contents g1) pairs"
    "gen_cblist g' = gen_cblist g1" "tempgen.more g' = tempgen.more g1"
    "gen_sent g' = gen_sent g1 @ sent_list (gen_cblist g1) ds" "foldl key_note (tg_contents g1) ds = tg_contents g'"
    using Cons.IH [OF g1(2)] Cons.prems by auto
  then show ?case using g1 by (intro exI [of _ g'] exI [of _ "ds1 @ ds"]) (simp add: sent_list_append)
qed

lemma cg_inner_more: "tempgen.more g' = tempgen.more g \<Longrightarrow> cg_inner g' = cg_inner g"
  by (cases g; cases g') simp

lemma tg_contents_update [simp]: "tg_contents (g\<lparr>cg_inner := x\<rparr>) = tg_contents g" "tg_valid n (g\<lparr>cg_inner := x\<rparr>) = tg_valid n g"
  by (simp_all add: tg_contents_def tg_valid_def)

text \<open>Each change of the inner generator is replayed.\<close>

lemma cg_after_spec:
  assumes inner: "uni_gen inner klen valid contents" "klen \<le> INT_MAX"
    and g: "tg_valid m g" "tg_contents g = M" "valid n i" "this \<in> set (ig_callbacks inner i)"
    and ds: "sent_to this (ig_sent inner i) = ds" "replay_ok M ds" "foldl key_note M ds = contents i"
      "\<forall>d \<in> set ds. notice_ok klen d" "m + length ds \<le> 26000"
  shows "\<exists>g' es. cg_after inner this i g = Some g' \<and> cg_valid inner valid this n (m + length ds) g' \<and>
    cg_coherent contents g' \<and> cg_inner g' = Some (ig_forget inner this i) \<and> gen_cblist g' = gen_cblist g \<and>
    gen_sent g' = gen_sent g @ sent_list (gen_cblist g) es \<and> foldl key_note M es = contents i"
proof -
  let ?g = "g\<lparr>cg_inner := Some (ig_forget inner this i)\<rparr>"
  have "key_ok INT_MAX (fst d) \<and> (snd d = None \<or> val_ok (snd d))" if "d \<in> set ds" for d
    using ds(4) that inner(2) by (force simp: notice_ok_def key_ok_def dest: in_set_butlastD)
  then obtain g' es where g': "setv_naive tg_set ds ?g = Some g'" "tg_valid (m + length ds) g'"
    "tg_contents g' = foldl (\<lambda>M d. update_spec (fst d) (snd d) M) M ds" "gen_cblist g' = gen_cblist g"
    "tempgen.more g' = tempgen.more ?g" "gen_sent g' = gen_sent g @ sent_list (gen_cblist g) es"
    "foldl key_note M es = tg_contents g'"
    using tg_setv_spec [of m ?g ds] g(1,2) ds(5) by auto
  have c: "tg_contents g' = contents i" using g'(3) replay_ok_foldl [OF ds(2)] ds(3) by simp
  have i: "cg_inner g' = Some (ig_forget inner this i)" using cg_inner_more [OF g'(5)] by simp
  have f: "valid n (ig_forget inner this i)" "contents (ig_forget inner this i) = contents i"
    "ig_callbacks inner (ig_forget inner this i) = ig_callbacks inner i"
    "sent_to this (ig_sent inner (ig_forget inner this i)) = []"
    using uni_gen.forget_law [OF inner(1) g(3), of this] by (simp_all add: sent_to_def)
  show ?thesis using g' c i f g(4) ds(1)
    by (intro exI [of _ g'] exI [of _ es])
      (simp add: cg_after_def cg_callbacks_naive cg_valid_def cg_coherent_def)
qed

lemma cg_set_spec:
  assumes inner: "uni_gen inner klen valid contents" "klen \<le> INT_MAX"
    and g: "cg_valid inner valid this n m g" "cg_coherent contents g"
    and k: "n < 26000" "key_ok klen k" "v = None \<or> val_ok v"
    and i': "ig_set inner k v (the (cg_inner g)) = Some i'" "m + length (sent_to this (ig_sent inner i')) \<le> 26000"
  shows "\<exists>g' es. cg_set inner this k v g = Some g' \<and>
    cg_valid inner valid this (Suc n) (m + length (sent_to this (ig_sent inner i'))) g' \<and> cg_coherent contents g' \<and>
    tg_contents g' = update_spec k v (tg_contents g) \<and> cg_inner g' = Some (ig_forget inner this i') \<and>
    gen_cblist g' = gen_cblist g \<and> gen_sent g' = gen_sent g @ sent_list (gen_cblist g) es \<and> foldl key_note (tg_contents g) es = tg_contents g'"
proof -
  obtain i where i: "cg_inner g = Some i" "valid n i" "this \<in> set (ig_callbacks inner i)" "sent_to this (ig_sent inner i) = []"
    "tg_valid m g" "tg_contents g = contents i"
    using g by (auto simp: cg_valid_def cg_coherent_def)
  obtain ds where s: "valid (Suc n) i'" "contents i' = update_spec k v (contents i)"
    "ig_callbacks inner i' = ig_callbacks inner i" "ig_sent inner i' = ig_sent inner i @ sent_list (ig_callbacks inner i) ds"
    "foldl key_note (contents i) ds = contents i'" "replay_ok (contents i) ds" "\<forall>d \<in> set ds. notice_ok klen d"
    using uni_gen.set_law [OF inner(1) i(2) k] i'(1) i(1) by auto
  have ds: "sent_to this (ig_sent inner i') = ds"
    using s(4) i(3,4) uni_gen.callbacks_law [OF inner(1) i(2)] by (simp add: sent_to_append sent_to_list)
  have t: "this \<in> set (ig_callbacks inner i')" using s(3) i(3) by simp
  obtain g' es where "cg_after inner this i' g = Some g'" "cg_valid inner valid this (Suc n) (m + length ds) g'"
    "cg_coherent contents g'" "cg_inner g' = Some (ig_forget inner this i')" "gen_cblist g' = gen_cblist g"
    "gen_sent g' = gen_sent g @ sent_list (gen_cblist g) es" "foldl key_note (contents i) es = contents i'"
    using cg_after_spec [OF inner i(5,6) s(1) t ds s(6,5,7)] i'(2) ds by blast
  moreover from this have "tg_contents g' = contents i'"
    using uni_gen.forget_law [OF inner(1) s(1), of this] by (auto simp: cg_coherent_def)
  ultimately show ?thesis using i(1,6) i'(1) s(2) ds
    by (intro exI [of _ g'] exI [of _ es]) (simp add: cg_set_def)
qed

text \<open>A coherent cache is read like the generator behind it.\<close>

lemma cg_get_inner:
  assumes inner: "uni_gen inner klen valid contents" "klen \<le> INT_MAX"
    and g: "cg_valid inner valid this n m g" "cg_coherent contents g" and k: "key_ok klen k"
  shows "cg_get k g = ig_get inner k (the (cg_inner g))"
proof -
  obtain i where i: "cg_inner g = Some i" "valid n i" "tg_valid m g" "tg_contents g = contents i"
    using g by (auto simp: cg_valid_def cg_coherent_def)
  have "key_ok INT_MAX k" using k inner(2) by (simp add: key_ok_def)
  then show ?thesis using tg_get_spec [OF i(3)] uni_gen.get_law [OF inner(1) i(2) k] i by (simp add: cg_get_def)
qed


subsection \<open>Loading the tree\<close>

text \<open>Only values that are not empty are loaded: what is above one of them is kept, an empty value
  with nothing below is lost, and so is the value of the root, which the iterator does not visit.\<close>

definition has_text_below :: "(string list \<Rightarrow> wvstring) \<Rightarrow> string list \<Rightarrow> bool" where
  "has_text_below M q \<longleftrightarrow> (\<exists>r. r \<noteq> [] \<and> prefix q r \<and> M r \<noteq> None \<and> M r \<noteq> Some [])"

definition cache_loaded :: "(string list \<Rightarrow> wvstring) \<Rightarrow> string list \<Rightarrow> wvstring" where
  "cache_loaded M q = (if has_text_below M q then (if q = [] then Some [] else M q) else None)"

lemma foldl_set_spec:
  assumes "distinct (map fst l)"
  shows "foldl (\<lambda>M (p, v). set_spec p v M) (\<lambda>_. None) (map (\<lambda>(p, x). (p, Some x)) l) q =
    (case map_of l q of Some x \<Rightarrow> Some x | None \<Rightarrow> if \<exists>p \<in> fst ` set l. strict_prefix q p then Some [] else None)"
  using assms
proof (induction l arbitrary: q rule: rev_induct)
  case (snoc a l)
  obtain p x where a: "a = (p, x)" by (cases a)
  have n: "map_of l p = None" using snoc.prems by (simp add: a map_of_eq_None_iff)
  have IH: "foldl (\<lambda>M (p, v). set_spec p v M) (\<lambda>_. None) (map (\<lambda>(p, x). (p, Some x)) l) r =
      (case map_of l r of Some x \<Rightarrow> Some x | None \<Rightarrow> if \<exists>p \<in> fst ` set l. strict_prefix r p then Some [] else None)" for r
    using snoc by simp
  define N where "N = foldl (\<lambda>M (p, v). set_spec p v M) (\<lambda>_. None) (map (\<lambda>(p, x). (p, Some x)) l)"
  have "foldl (\<lambda>M (p, v). set_spec p v M) (\<lambda>_. None) (map (\<lambda>(p, x). (p, Some x)) (l @ [a])) q = set_spec p (Some x) N q"
    by (simp add: a N_def)
  also have "\<dots> = (if q = p then Some x else if strict_prefix q p \<and> N q = None then Some [] else N q)"
    by (simp add: set_spec_def)
  finally show ?case using n IH [folded N_def, of q] by (auto simp: a map_add_def split: option.splits)
qed simp

lemma cache_load_list:
  assumes l: "distinct (map (\<lambda>d. map lower (fst d)) l)"
    "(\<lambda>d. (map lower (fst d), snd d)) ` set l = {(q, w). q \<noteq> [] \<and> M q = w \<and> w \<noteq> None}"
    and M: "tree_closed M"
    and ps: "ps = map (\<lambda>d. (map lower (fst d), the (snd d))) (filter (\<lambda>d. snd d \<noteq> None \<and> snd d \<noteq> Some []) l)"
  shows "foldl (\<lambda>M (p, v). set_spec p v M) (\<lambda>_. None) (map (\<lambda>(p, x). (p, Some x)) ps) = cache_loaded M"
proof
  fix q
  have d: "distinct (map fst ps)" using l(1) by (simp add: ps comp_def distinct_map inj_on_def)
  have s: "set ps = {(q, x). q \<noteq> [] \<and> M q = Some x \<and> x \<noteq> []}"
  proof -
    have "(r, x) \<in> set ps \<longleftrightarrow> (\<exists>d \<in> set l. (map lower (fst d), snd d) = (r, Some x)) \<and> x \<noteq> []" for r x
    proof -
      have A: "(r, x) \<in> set ps \<longleftrightarrow> (\<exists>d \<in> set l. snd d \<noteq> None \<and> snd d \<noteq> Some [] \<and> r = map lower (fst d) \<and> x = the (snd d))"
        unfolding ps by auto
      have B: "(snd d \<noteq> None \<and> snd d \<noteq> Some [] \<and> r = map lower (fst d) \<and> x = the (snd d)) \<longleftrightarrow>
          (map lower (fst d), snd d) = (r, Some x) \<and> x \<noteq> []" for d :: notice by (cases "snd d") auto
      show ?thesis unfolding A B by (simp only: bex_simps)
    qed
    moreover have "(\<exists>d \<in> set l. (map lower (fst d), snd d) = (r, Some x)) \<longleftrightarrow> (r, Some x) \<in> (\<lambda>d. (map lower (fst d), snd d)) ` set l" for r x
      unfolding image_iff by (rule bex_cong [OF refl]) (rule eq_commute)
    ultimately show ?thesis unfolding l(2) by auto
  qed
  have m: "map_of ps q = Some x \<longleftrightarrow> q \<noteq> [] \<and> M q = Some x \<and> x \<noteq> []" for x
    using map_of_eq_Some_iff [OF d] s by auto
  show "foldl (\<lambda>M (p, v). set_spec p v M) (\<lambda>_. None) (map (\<lambda>(p, x). (p, Some x)) ps) q = cache_loaded M q"
  proof (cases "map_of ps q")
    case (Some x)
    then have "has_text_below M q" using m unfolding has_text_below_def by (intro exI [of _ q]) auto
    then show ?thesis using Some m [of x] foldl_set_spec [OF d, of q] by (simp add: cache_loaded_def)
  next
    case None
    have e: "(\<exists>p \<in> fst ` set ps. strict_prefix q p) \<longleftrightarrow> has_text_below M q"
    proof
      assume "has_text_below M q"
      then obtain r x where r: "r \<noteq> []" "prefix q r" "M r = Some x" "x \<noteq> []" by (auto simp: has_text_below_def)
      then have "q \<noteq> r" using None m [of x] by auto
      moreover have "(r, x) \<in> set ps" using r s by simp
      ultimately show "\<exists>p \<in> fst ` set ps. strict_prefix q p" using r(2) by (force simp: strict_prefix_def)
    qed (auto simp: s has_text_below_def strict_prefix_def)
    have "M q = Some []" if t: "has_text_below M q" "q \<noteq> []"
    proof -
      obtain r where "prefix q r" "M r \<noteq> None" using t(1) unfolding has_text_below_def by blast
      then obtain y where y: "M q = Some y" using tree_closedD [OF M, of q] by (auto simp: prefix_def)
      then show ?thesis using None m [of y] t(2) by auto
    qed
    then show ?thesis using None e foldl_set_spec [OF d, of q] by (auto simp: cache_loaded_def)
  qed
qed

definition default_rec :: "nat \<Rightarrow> 'i igen \<Rightarrow> key \<Rightarrow> 'i \<Rightarrow> notice list option option" where
  "default_rec fuel inner key i = map_option Some (ri_all fuel inner key i)"

lemma cg_loadtree_spec:
  assumes g: "cg_inner g = Some i" "tg_valid m g" "tg_contents g = (\<lambda>_. None)"
    and i: "tg_valid n i" "depth_below [] D (tg_contents i)" "int D < INT_MAX"
    and c: "finite {q. tg_contents i q \<noteq> None}" "card {q. tg_contents i q \<noteq> None} < fuel"
      "m + card {q. tg_contents i q \<noteq> None} \<le> 26000"
  shows "\<exists>g' k. cg_loadtree (default_rec fuel tg_ops) [] g = Some g' \<and> tg_valid k g' \<and> cg_inner g' = Some i \<and>
    tg_contents g' = cache_loaded (tg_contents i) \<and> gen_cblist g' = gen_cblist g"
proof -
  have b: "key_ok INT_MAX []" "key_path [] = []" by (simp_all add: key_ok_def INT_MAX_def key_path_def nonempty_segs_def)
  obtain l where l: "\<forall>k > length l. ri_all k tg_ops [] i = Some l" "distinct (map (\<lambda>d. map lower (fst d)) l)"
    "\<forall>d \<in> set l. plain_segs (fst d) \<and> fst d \<noteq> []"
    "(\<lambda>d. (map lower (fst d), snd d)) ` set l = {(q, w). q \<noteq> [] \<and> tg_contents i q = w \<and> w \<noteq> None}"
    using tg_walk [OF i(1) b(1), of D] i(2,3) b(2) by auto
  define ds where "ds = filter (\<lambda>d. snd d \<noteq> None \<and> snd d \<noteq> Some []) l"
  have paths: "map lower (fst d) \<noteq> [] \<and> tg_contents i (map lower (fst d)) = snd d \<and> snd d \<noteq> None" if "d \<in> set l" for d
    using imageI [OF that, of "\<lambda>d. (map lower (fst d), snd d)"] unfolding l(4) by simp
  have "length l = card (set (map (\<lambda>d. map lower (fst d)) l))" using distinct_card [OF l(2)] by simp
  also have "\<dots> \<le> card {q. tg_contents i q \<noteq> None}" using paths by (intro card_mono [OF c(1)]) auto
  finally have len: "length l \<le> card {q. tg_contents i q \<noteq> None}" .
  have dl: "length ds \<le> length l" by (simp add: ds_def)
  have ok: "key_ok INT_MAX (fst d) \<and> (snd d = None \<or> val_ok (snd d)) \<and> update_spec (fst d) (snd d) M = set_spec (map lower (fst d)) (snd d) M"
    if "d \<in> set ds" for d M
  proof -
    have d: "d \<in> set l" "plain_segs (fst d)" "fst d \<noteq> []" using that l(3) by (auto simp: ds_def)
    have "length (map lower (fst d)) \<le> D" using i(2) paths [OF d(1)] unfolding depth_below_def by (metis append_Nil)
    then have "key_ok INT_MAX (fst d)" using d(2,3) i(3) by (auto simp: key_ok_def plain_segs_def dest: in_set_butlastD)
    moreover have "val_ok (snd d)" using tg_contents_val [OF i(1), of "map lower (fst d)"] paths [OF d(1)] by simp
    moreover have "\<not> key_hastrailingslash (fst d)" using plain_no_trailing [OF d(2,3), of "[]"] by simp
    ultimately show ?thesis using key_path_plain [OF d(2)] val_ok_Some [of "snd d"] by (auto simp: update_spec_def)
  qed
  have "m + length ds \<le> 26000" using c(3) dl len by linarith
  then obtain g' where g': "setv_naive tg_set ds g = Some g'" "tg_valid (m + length ds) g'"
    "tg_contents g' = foldl (\<lambda>M d. update_spec (fst d) (snd d) M) (\<lambda>_. None) ds" "gen_cblist g' = gen_cblist g"
    "tempgen.more g' = tempgen.more g"
    using tg_setv_spec [OF g(2), of ds] ok g(3) by auto
  define ps where "ps = map (\<lambda>d. (map lower (fst d), the (snd d))) ds"
  have upd: "foldl (\<lambda>M d. update_spec (fst d) (snd d) M) M es =
      foldl (\<lambda>M (p, v). set_spec p v M) M (map (\<lambda>(p, x). (p, Some x)) (map (\<lambda>d. (map lower (fst d), the (snd d))) es))"
    if "set es \<subseteq> set ds" for M es
    using that
  proof (induction es arbitrary: M)
    case (Cons d es)
    have "snd d = Some (the (snd d))" using Cons.prems by (auto simp: ds_def)
    moreover have "update_spec (fst d) (snd d) M = set_spec (map lower (fst d)) (snd d) M" using ok Cons.prems by simp
    ultimately show ?case using Cons by simp
  qed simp
  have "tg_contents g' = cache_loaded (tg_contents i)"
    unfolding g'(3) upd [OF order_refl]
    by (rule cache_load_list [OF l(2,4) tg_closed [OF i(1)]]) (simp add: ds_def)
  moreover have "cg_loadtree (default_rec fuel tg_ops) [] g = Some g'"
  proof -
    have "length l < fuel" using len c(2) by simp
    then have "ri_all fuel tg_ops [] i = Some l" using l(1) by simp
    then show ?thesis using g(1) g'(1) by (simp add: cg_loadtree_def default_rec_def loadtree_naive ds_def)
  qed
  ultimately show ?thesis using g'(2,4) cg_inner_more [OF g'(5)] g(1)
    by (intro exI [of _ g'] exI [of _ "m + length ds"]) simp
qed


text \<open>The first refresh of a cache in front of a generator in memory.\<close>

lemma cg_refresh_spec:
  assumes g: "cg_valid tg_ops tg_valid this n m g" "tg_contents g = (\<lambda>_. None)" "\<not> cg_refreshed_once g" "cg_inner g = Some i"
    and i: "depth_below [] D (tg_contents i)" "int D < INT_MAX"
    and c: "finite {q. tg_contents i q \<noteq> None}" "card {q. tg_contents i q \<noteq> None} < fuel"
      "m + card {q. tg_contents i q \<noteq> None} \<le> 26000"
  shows "\<exists>g'. cg_refresh tg_ops (default_rec fuel tg_ops) this g = Some (True, g') \<and>
    tg_contents g' = cache_loaded (tg_contents i)"
proof -
  have v: "tg_valid n i" "tg_valid m g" "sent_to this (gen_sent i) = []"
    using g(1,4) by (auto simp: cg_valid_def tg_ops_def)
  let ?i = "gen_forget this i" and ?g = "g\<lparr>cg_inner := Some (gen_forget this i)\<rparr>"
  have f: "tg_contents ?i = tg_contents i" "tg_valid n ?i" using v(1) by (simp_all add: gen_forget_def tg_contents_def tg_valid_def)
  have a: "cg_after tg_ops this i g = Some ?g" using v(3) by (simp add: cg_after_def tg_ops_def)
  obtain g' k where "cg_loadtree (default_rec fuel tg_ops) [] ?g = Some g'" "tg_contents g' = cache_loaded (tg_contents ?i)"
    using cg_loadtree_spec [of ?g ?i m n D fuel] v(2) f i c g(2) by auto
  moreover have "tg_contents (g'\<lparr>cg_refreshed_once := True\<rparr>) = tg_contents g'" by (simp add: tg_contents_def)
  ultimately show ?thesis using g(3,4) a f(1)
    by (simp add: cg_refresh_def tg_refresh_def) (simp add: tg_ops_def tg_refresh_def)
qed

end
