(* ===== verification/UniListGen.thy ===== *)
theory UniListGen
  imports UniFilterGen
begin

text \<open>
  The generator that stacks others in an order of priority (\<open>uniconf/unilistgen.cc\<close>).  The inner
  generators are of one kind; \<open>this\<close> is the cookie of the callback.  What an inner generator sends while one
  of its methods runs is taken up when the method returns: the callback reads the stack, and the generators
  modelled send when their change is complete.
\<close>

record 'i listgen = gen +
  lg_list :: "'i list"

subsection \<open>Reading\<close>

primrec first_get :: "'i igen \<Rightarrow> key \<Rightarrow> 'i list \<Rightarrow> wvstring option" where
  "first_get inner key [] = Some None"
| "first_get inner key (i # is) = do {
     e \<leftarrow> ig_exists inner key i;
     (if e then ig_get inner key i else first_get inner key is) }"

definition lg_get :: "'i igen \<Rightarrow> key \<Rightarrow> 'i listgen \<Rightarrow> wvstring option" where
  "lg_get inner key g = first_get inner key (lg_list g)"

primrec any_of :: "('i \<Rightarrow> bool option) \<Rightarrow> 'i list \<Rightarrow> bool option" where
  "any_of f [] = Some False"
| "any_of f (i # is) = do { b \<leftarrow> f i; (if b then Some True else any_of f is) }"

definition lg_exists :: "'i igen \<Rightarrow> key \<Rightarrow> 'i listgen \<Rightarrow> bool option" where
  "lg_exists inner key g = any_of (ig_exists inner key) (lg_list g)"

definition lg_haschildren :: "'i igen \<Rightarrow> key \<Rightarrow> 'i listgen \<Rightarrow> bool option" where
  "lg_haschildren inner key g = any_of (ig_haschildren inner key) (lg_list g)"

definition lg_isok :: "'i igen \<Rightarrow> 'i listgen \<Rightarrow> bool" where
  "lg_isok inner g = list_all (ig_isok inner) (lg_list g)"

text \<open>\<open>IterIter\<close>: the iterators one after another; a key that was met before is passed over.\<close>

primrec iter_all :: "'i igen \<Rightarrow> key \<Rightarrow> 'i list \<Rightarrow> notice list option" where
  "iter_all inner key [] = Some []"
| "iter_all inner key (i # is) = do {
     it \<leftarrow> ig_iterator inner key i;
     rest \<leftarrow> iter_all inner key is;
     Some ((case it of None \<Rightarrow> [] | Some l \<Rightarrow> l) @ rest) }"

primrec iter_once :: "key list \<Rightarrow> notice list \<Rightarrow> notice list" where
  "iter_once d [] = []"
| "iter_once d (x # l) = (if list_ex (key_eq (fst x)) d then iter_once d l else x # iter_once (fst x # d) l)"

definition lg_iterator :: "'i igen \<Rightarrow> key \<Rightarrow> 'i listgen \<Rightarrow> notice list option option" where
  "lg_iterator inner key g = map_option (\<lambda>l. Some (iter_once [] l)) (iter_all inner key (lg_list g))"

subsection \<open>Changing\<close>

definition lg_gencallback :: "'i igen \<Rightarrow> key \<Rightarrow> wvstring \<Rightarrow> 'i listgen \<Rightarrow> 'i listgen option" where
  "lg_gencallback inner key value g = do { v \<leftarrow> lg_get inner key g; delta key v g }"

primrec lg_callbacks :: "'i igen \<Rightarrow> notice list \<Rightarrow> 'i listgen \<Rightarrow> 'i listgen option" where
  "lg_callbacks inner [] g = Some g"
| "lg_callbacks inner (d # ds) g = do {
     g' \<leftarrow> lg_gencallback inner (fst d) (snd d) g;
     lg_callbacks inner ds g' }"

text \<open>The generator at position \<open>j\<close> after a method of it was run.\<close>

definition lg_after :: "'i igen \<Rightarrow> nat \<Rightarrow> nat \<Rightarrow> 'i \<Rightarrow> 'i listgen \<Rightarrow> 'i listgen option" where
  "lg_after inner this j i g =
     lg_callbacks inner (sent_to this (ig_sent inner i)) (g\<lparr>lg_list := (lg_list g)[j := ig_forget inner this i]\<rparr>)"

text \<open>The loops run a method of each generator in turn.\<close>

primrec lg_each :: "'i igen \<Rightarrow> nat \<Rightarrow> ('i \<Rightarrow> ('r \<times> 'i) option) \<Rightarrow> nat list \<Rightarrow> 'i listgen \<Rightarrow> ('r list \<times> 'i listgen) option" where
  "lg_each inner this f [] g = Some ([], g)"
| "lg_each inner this f (j # js) g = do {
     (r, i') \<leftarrow> f (lg_list g ! j);
     g1 \<leftarrow> lg_after inner this j i' g;
     (rs, g2) \<leftarrow> lg_each inner this f js g1;
     Some (r # rs, g2) }"

definition lg_all :: "'i igen \<Rightarrow> nat \<Rightarrow> ('i \<Rightarrow> ('r \<times> 'i) option) \<Rightarrow> 'i listgen \<Rightarrow> ('r list \<times> 'i listgen) option" where
  "lg_all inner this f g = lg_each inner this f [0..<length (lg_list g)] g"

definition lg_set :: "'i igen \<Rightarrow> nat \<Rightarrow> key \<Rightarrow> wvstring \<Rightarrow> 'i listgen \<Rightarrow> 'i listgen option" where
  "lg_set inner this key value g = map_option snd (lg_all inner this (\<lambda>i. map_option (Pair ()) (ig_set inner key value i)) g)"

definition lg_setv :: "'i igen \<Rightarrow> nat \<Rightarrow> notice list \<Rightarrow> 'i listgen \<Rightarrow> 'i listgen option" where
  "lg_setv inner this pairs g = map_option snd (lg_all inner this (\<lambda>i. map_option (Pair ()) (ig_setv inner pairs i)) g)"

definition lg_commit :: "'i igen \<Rightarrow> nat \<Rightarrow> 'i listgen \<Rightarrow> 'i listgen option" where
  "lg_commit inner this g = map_option snd (lg_all inner this (\<lambda>i. map_option (Pair ()) (ig_commit inner i)) g)"

definition lg_refresh :: "'i igen \<Rightarrow> nat \<Rightarrow> 'i listgen \<Rightarrow> (bool \<times> 'i listgen) option" where
  "lg_refresh inner this g = map_option (apfst (list_all id)) (lg_all inner this (ig_refresh inner) g)"

primrec add_all :: "'i igen \<Rightarrow> nat \<Rightarrow> 'i list \<Rightarrow> 'i list option" where
  "add_all inner this [] = Some []"
| "add_all inner this (i # is) = do { i' \<leftarrow> ig_add_callback inner this i; is' \<leftarrow> add_all inner this is; Some (i' # is') }"

definition lg_new :: "'i igen \<Rightarrow> nat \<Rightarrow> 'i list \<Rightarrow> 'i listgen option" where
  "lg_new inner this l = map_option (\<lambda>l'. gen.extend gen_new \<lparr>lg_list = l'\<rparr>) (add_all inner this l)"

subsection \<open>The contents\<close>

text \<open>The value of a key is that of the first generator that has one.\<close>

primrec overlay :: "(string list \<Rightarrow> wvstring) list \<Rightarrow> string list \<Rightarrow> wvstring" where
  "overlay [] q = None"
| "overlay (M # Ms) q = (case M q of Some v \<Rightarrow> Some v | None \<Rightarrow> overlay Ms q)"

lemma overlay_None: "overlay Ms q = None \<longleftrightarrow> (\<forall>M \<in> set Ms. M q = None)"
  by (induction Ms) (auto split: option.split)

lemma overlay_update:
  "j < length Ms \<Longrightarrow> M' q = (Ms ! j) q \<Longrightarrow> overlay (Ms[j := M']) q = overlay Ms q"
  by (induction Ms arbitrary: j) (auto simp: nth_Cons split: option.split nat.split)

lemma overlay_map: "(\<And>M. M \<in> set Ms \<Longrightarrow> f M q = M q) \<Longrightarrow> overlay (map f Ms) q = overlay Ms q"
  by (induction Ms) (auto split: option.split)

definition lg_contents :: "('i \<Rightarrow> string list \<Rightarrow> wvstring) \<Rightarrow> 'i listgen \<Rightarrow> string list \<Rightarrow> wvstring" where
  "lg_contents contents g = overlay (map contents (lg_list g))"

definition lg_valid :: "'i igen \<Rightarrow> (nat \<Rightarrow> 'i \<Rightarrow> bool) \<Rightarrow> nat \<Rightarrow> nat \<Rightarrow> 'i listgen \<Rightarrow> bool" where
  "lg_valid inner inner_valid this n g \<longleftrightarrow>
     (\<forall>i \<in> set (lg_list g). inner_valid n i \<and> this \<in> set (ig_callbacks inner i) \<and> sent_to this (ig_sent inner i) = []) \<and>
     gen_hold g = 0 \<and> gen_deltas g = [] \<and> distinct (gen_cblist g)"

context uni_gen
begin

lemma first_get_spec:
  assumes "\<forall>i \<in> set is. \<exists>n. valid n i" "key_ok klen k"
  shows "first_get ops k is = Some (get_spec k (overlay (map contents is)))"
  using assms(1)
proof (induction "is")
  case (Cons i "is")
  then obtain n where n: "valid n i" by auto
  show ?case using Cons exists_law [OF n assms(2)] get_law [OF n assms(2)]
    by (auto simp: get_spec_def split: option.split)
qed (simp add: get_spec_def)

lemma lg_get_spec:
  assumes "lg_valid ops valid this n g" "key_ok klen k"
  shows "lg_get ops k g = Some (get_spec k (lg_contents contents g))"
  using first_get_spec [of "lg_list g" k] assms by (auto simp: lg_get_def lg_contents_def lg_valid_def)

lemma lg_exists_spec:
  assumes "lg_valid ops valid this n g" "key_ok klen k"
  shows "lg_exists ops k g = Some (get_spec k (lg_contents contents g) \<noteq> None)"
proof -
  have "\<forall>i \<in> set is. valid n i \<Longrightarrow> any_of (ig_exists ops k) is = Some (get_spec k (overlay (map contents is)) \<noteq> None)" for "is"
    using exists_law [OF _ assms(2)] by (induction "is") (auto simp: get_spec_def split: option.splits)
  then show ?thesis using assms(1) by (simp add: lg_exists_def lg_contents_def lg_valid_def)
qed

lemma lg_haschildren_spec:
  assumes "lg_valid ops valid this n g" "key_ok klen k"
  shows "lg_haschildren ops k g = Some (haschildren_spec k (lg_contents contents g))"
proof -
  have "\<forall>i \<in> set is. valid n i \<Longrightarrow> any_of (ig_haschildren ops k) is = Some (\<exists>i \<in> set is. haschildren_spec k (contents i))" for "is"
    using haschildren_law [OF _ assms(2)] by (induction "is") auto
  moreover have "haschildren_spec k (lg_contents contents g) \<longleftrightarrow> (\<exists>i \<in> set (lg_list g). haschildren_spec k (contents i))"
    by (auto simp: haschildren_spec_def lg_contents_def overlay_None)
  ultimately show ?thesis using assms(1) by (simp add: lg_haschildren_def lg_valid_def)
qed


text \<open>A listener is told the value that the stack has after the change of one generator.\<close>

definition lg_notes :: "('s \<Rightarrow> string list \<Rightarrow> wvstring) \<Rightarrow> 's listgen \<Rightarrow> notice list \<Rightarrow> notice list" where
  "lg_notes cts g ds = map (\<lambda>d. (fst d, lg_contents cts g (map lower (fst d)))) ds"

lemma notice_path: "notice_ok m d \<Longrightarrow> key_path (fst d) = map lower (fst d) \<and> \<not> key_hastrailingslash (fst d)"
  by (simp add: notice_ok_def key_path_def nonempty_segs_id plain_no_slash)

lemma lg_callbacks_eq:
  assumes "\<forall>i \<in> set (lg_list g). \<exists>n. valid n i" "gen_hold g = 0" "\<forall>d \<in> set ds. notice_ok klen d"
  shows "lg_callbacks ops ds g = Some (g\<lparr>gen_sent := gen_sent g @ sent_list (gen_cblist g) (lg_notes contents g ds)\<rparr>)"
  using assms
proof (induction ds arbitrary: g)
  case (Cons d ds)
  have k: "key_ok klen (fst d)" using Cons.prems(3) by (auto simp: notice_ok_def key_ok_def dest: in_set_butlastD)
  let ?v = "lg_contents contents g (map lower (fst d))"
  have "lg_get ops (fst d) g = Some ?v"
    using first_get_spec [OF Cons.prems(1) k] notice_path [of klen d] Cons.prems(3)
    by (simp add: lg_get_def lg_contents_def get_spec_def)
  moreover have "delta (fst d) ?v g = Some (g\<lparr>gen_sent := gen_sent g @ sent_list (gen_cblist g) [(fst d, ?v)]\<rparr>)"
    using delta_list_free [OF Cons.prems(2), of "[(fst d, ?v)]"] by (cases "delta (fst d) ?v g") simp_all
  ultimately show ?case
    using Cons.IH [of "g\<lparr>gen_sent := gen_sent g @ sent_list (gen_cblist g) [(fst d, ?v)]\<rparr>"] Cons.prems
    by (simp add: lg_gencallback_def lg_notes_def lg_contents_def sent_list_def)
qed (simp add: lg_notes_def)

lemma foldl_key_note_other: "q \<notin> (\<lambda>d. map lower (fst d)) ` set ds \<Longrightarrow> foldl key_note M ds q = M q"
  by (induction ds arbitrary: M) (auto simp: key_note_def)

lemma foldl_key_note_const:
  "(\<And>d. d \<in> set ds \<Longrightarrow> snd d = N (map lower (fst d))) \<Longrightarrow> (\<And>q. q \<notin> (\<lambda>d. map lower (fst d)) ` set ds \<Longrightarrow> M q = N q) \<Longrightarrow>
     foldl key_note M ds = N"
proof (induction ds arbitrary: M)
  case (Cons d ds)
  have "foldl key_note (key_note M d) ds = N"
    by (rule Cons.IH) (use Cons.prems in \<open>auto simp: key_note_def\<close>)
  then show ?case by simp
qed auto

text \<open>One generator changes: the listener keeps in step with the stack.\<close>

lemma lg_after_spec:
  assumes g: "j < length (lg_list g)" "\<forall>i \<in> set (lg_list g). \<exists>n. valid n i" "gen_hold g = 0"
    and i: "valid n i" "sent_to this (ig_sent ops i) = ds" "foldl key_note (contents (lg_list g ! j)) ds = contents i"
      "\<forall>d \<in> set ds. notice_ok klen d"
  shows "\<exists>g' es. lg_after ops this j i g = Some g' \<and> lg_list g' = (lg_list g)[j := ig_forget ops this i] \<and>
    gen_hold g' = gen_hold g \<and> gen_deltas g' = gen_deltas g \<and> gen_cblist g' = gen_cblist g \<and>
    gen_sent g' = gen_sent g @ sent_list (gen_cblist g) es \<and>
    foldl key_note (lg_contents contents g) es = lg_contents contents g'"
proof -
  define g1 where "g1 = g\<lparr>lg_list := (lg_list g)[j := ig_forget ops this i]\<rparr>"
  have f: "valid n (ig_forget ops this i)" "contents (ig_forget ops this i) = contents i" using forget_law [OF i(1)] by simp_all
  have v: "\<forall>i \<in> set (lg_list g1). \<exists>n. valid n i"
    using g(2) f(1) by (auto simp: g1_def dest!: set_update_subset_insert [THEN subsetD])
  have c: "lg_contents contents g1 = overlay ((map contents (lg_list g))[j := contents i])"
    using f(2) by (simp add: g1_def lg_contents_def map_update)
  have "foldl key_note (lg_contents contents g) (lg_notes contents g1 ds) = lg_contents contents g1"
  proof (rule foldl_key_note_const)
    fix q assume "q \<notin> (\<lambda>d. map lower (fst d)) ` set (lg_notes contents g1 ds)"
    moreover have "(\<lambda>d. map lower (fst d)) ` set (lg_notes contents g1 ds) = (\<lambda>d. map lower (fst d)) ` set ds"
      by (simp add: lg_notes_def image_image)
    ultimately have "q \<notin> (\<lambda>d. map lower (fst d)) ` set ds" by simp
    then have "contents i q = contents (lg_list g ! j) q" using i(3) foldl_key_note_other by metis
    then show "lg_contents contents g q = lg_contents contents g1 q"
      unfolding c using g(1) by (simp add: lg_contents_def overlay_update)
  qed (auto simp: lg_notes_def)
  moreover have "lg_after ops this j i g = Some (g1\<lparr>gen_sent := gen_sent g1 @ sent_list (gen_cblist g1) (lg_notes contents g1 ds)\<rparr>)"
    using lg_callbacks_eq [OF v _ i(4)] g(3) i(2) by (simp add: lg_after_def g1_def)
  ultimately show ?thesis by (simp add: g1_def lg_contents_def) blast
qed


text \<open>The loop over the generators; those before have been changed.\<close>

lemma lg_each_set:
  assumes "distinct js" "\<forall>j \<in> set js. j < length (lg_list g)" "n < 26000" "key_ok klen k" "v = None \<or> val_ok v"
    "\<forall>j < length (lg_list g). valid (if j \<in> set js then n else Suc n) (lg_list g ! j) \<and>
      this \<in> set (ig_callbacks ops (lg_list g ! j)) \<and> sent_to this (ig_sent ops (lg_list g ! j)) = []"
    "gen_hold g = 0" "gen_deltas g = []"
  shows "\<exists>rs g' es. lg_each ops this (\<lambda>i. map_option (Pair ()) (ig_set ops k v i)) js g = Some (rs, g') \<and>
    length (lg_list g') = length (lg_list g) \<and>
    (\<forall>j < length (lg_list g). valid (Suc n) (lg_list g' ! j) \<and> this \<in> set (ig_callbacks ops (lg_list g' ! j)) \<and>
      sent_to this (ig_sent ops (lg_list g' ! j)) = [] \<and>
      contents (lg_list g' ! j) = (if j \<in> set js then update_spec k v (contents (lg_list g ! j)) else contents (lg_list g ! j))) \<and>
    gen_hold g' = 0 \<and> gen_deltas g' = [] \<and> gen_cblist g' = gen_cblist g \<and>
    gen_sent g' = gen_sent g @ sent_list (gen_cblist g) es \<and>
    foldl key_note (lg_contents contents g) es = lg_contents contents g'"
  using assms
proof (induction js arbitrary: g)
  case Nil
  then show ?case by (intro exI [of _ "[]"] exI [of _ g]) simp
next
  case (Cons j js)
  have j: "j < length (lg_list g)" "j \<notin> set js" "valid n (lg_list g ! j)"
    "this \<in> set (ig_callbacks ops (lg_list g ! j))" "sent_to this (ig_sent ops (lg_list g ! j)) = []"
    using Cons.prems by auto
  obtain i' ds where i': "ig_set ops k v (lg_list g ! j) = Some i'" "valid (Suc n) i'"
    "contents i' = update_spec k v (contents (lg_list g ! j))" "ig_callbacks ops i' = ig_callbacks ops (lg_list g ! j)"
    "ig_sent ops i' = ig_sent ops (lg_list g ! j) @ sent_list (ig_callbacks ops (lg_list g ! j)) ds"
    "foldl key_note (contents (lg_list g ! j)) ds = contents i'" "\<forall>d \<in> set ds. notice_ok klen d"
    using set_law [OF j(3) Cons.prems(3-5)] by blast
  have ds: "sent_to this (ig_sent ops i') = ds"
    using i'(5) j(4,5) callbacks_law [OF j(3)] by (simp add: sent_to_append sent_to_list)
  have v: "\<forall>i \<in> set (lg_list g). \<exists>n. valid n i" using Cons.prems(6) by (metis in_set_conv_nth)
  obtain g1 es1 where g1: "lg_after ops this j i' g = Some g1" "lg_list g1 = (lg_list g)[j := ig_forget ops this i']"
    "gen_hold g1 = 0" "gen_deltas g1 = []" "gen_cblist g1 = gen_cblist g"
    "gen_sent g1 = gen_sent g @ sent_list (gen_cblist g) es1"
    "foldl key_note (lg_contents contents g) es1 = lg_contents contents g1"
    using lg_after_spec [OF j(1) v Cons.prems(7) i'(2) ds i'(6,7)] Cons.prems(7,8) by auto
  have f: "valid (Suc n) (ig_forget ops this i')" "contents (ig_forget ops this i') = contents i'"
    "this \<in> set (ig_callbacks ops (ig_forget ops this i'))" "sent_to this (ig_sent ops (ig_forget ops this i')) = []"
    using forget_law [OF i'(2), of this] i'(4) j(4) by (simp_all add: sent_to_def)
  have "\<forall>m < length (lg_list g1). valid (if m \<in> set js then n else Suc n) (lg_list g1 ! m) \<and>
      this \<in> set (ig_callbacks ops (lg_list g1 ! m)) \<and> sent_to this (ig_sent ops (lg_list g1 ! m)) = []"
  proof (intro allI impI)
    fix m assume m: "m < length (lg_list g1)"
    show "valid (if m \<in> set js then n else Suc n) (lg_list g1 ! m) \<and>
      this \<in> set (ig_callbacks ops (lg_list g1 ! m)) \<and> sent_to this (ig_sent ops (lg_list g1 ! m)) = []"
    proof (cases "m = j")
      case True
      then show ?thesis using f j(1,2) by (simp add: g1(2))
    next
      case False
      have "valid (if m \<in> set (j # js) then n else Suc n) (lg_list g ! m) \<and>
          this \<in> set (ig_callbacks ops (lg_list g ! m)) \<and> sent_to this (ig_sent ops (lg_list g ! m)) = []"
        using Cons.prems(6) m by (simp only: g1(2) length_list_update)
      then show ?thesis using False by (simp add: g1(2))
    qed
  qed
  then obtain rs g' es where g': "lg_each ops this (\<lambda>i. map_option (Pair ()) (ig_set ops k v i)) js g1 = Some (rs, g')"
    "length (lg_list g') = length (lg_list g1)"
    "\<forall>m < length (lg_list g1). valid (Suc n) (lg_list g' ! m) \<and> this \<in> set (ig_callbacks ops (lg_list g' ! m)) \<and>
      sent_to this (ig_sent ops (lg_list g' ! m)) = [] \<and>
      contents (lg_list g' ! m) = (if m \<in> set js then update_spec k v (contents (lg_list g1 ! m)) else contents (lg_list g1 ! m))"
    "gen_hold g' = 0" "gen_deltas g' = []" "gen_cblist g' = gen_cblist g1"
    "gen_sent g' = gen_sent g1 @ sent_list (gen_cblist g1) es"
    "foldl key_note (lg_contents contents g1) es = lg_contents contents g'"
    using Cons.IH [of g1] Cons.prems(1-5) g1(2-4) by auto
  have c: "contents (lg_list g' ! m) =
      (if m \<in> set (j # js) then update_spec k v (contents (lg_list g ! m)) else contents (lg_list g ! m))"
    if "m < length (lg_list g)" for m
  proof (cases "m = j")
    case True
    then show ?thesis using g'(3) that j(1,2) f(2) i'(3) by (simp add: g1(2))
  next
    case False
    then show ?thesis using g'(3) that by (simp add: g1(2))
  qed
  show ?case
    using i'(1) g1 g' c
    by (intro exI [of _ "() # rs"] exI [of _ g'] exI [of _ "es1 @ es"]) (simp add: sent_list_append)
qed

lemma lg_set_spec:
  assumes "lg_valid ops valid this n g" "n < 26000" "key_ok klen k" "v = None \<or> val_ok v"
  shows "\<exists>g' es. lg_set ops this k v g = Some g' \<and> lg_valid ops valid this (Suc n) g' \<and>
    lg_contents contents g' = overlay (map (\<lambda>i. update_spec k v (contents i)) (lg_list g)) \<and>
    length (lg_list g') = length (lg_list g) \<and>
    gen_cblist g' = gen_cblist g \<and> gen_sent g' = gen_sent g @ sent_list (gen_cblist g) es \<and>
    foldl key_note (lg_contents contents g) es = lg_contents contents g'"
proof -
  obtain rs g' es where g': "lg_each ops this (\<lambda>i. map_option (Pair ()) (ig_set ops k v i)) [0..<length (lg_list g)] g = Some (rs, g')"
    "length (lg_list g') = length (lg_list g)"
    "\<forall>j < length (lg_list g). valid (Suc n) (lg_list g' ! j) \<and> this \<in> set (ig_callbacks ops (lg_list g' ! j)) \<and>
      sent_to this (ig_sent ops (lg_list g' ! j)) = [] \<and>
      contents (lg_list g' ! j) = update_spec k v (contents (lg_list g ! j))"
    "gen_hold g' = 0" "gen_deltas g' = []" "gen_cblist g' = gen_cblist g"
    "gen_sent g' = gen_sent g @ sent_list (gen_cblist g) es"
    "foldl key_note (lg_contents contents g) es = lg_contents contents g'"
    using lg_each_set [of "[0..<length (lg_list g)]" g n k v this] assms by (auto simp: lg_valid_def)
  have "map contents (lg_list g') = map (\<lambda>i. update_spec k v (contents i)) (lg_list g)"
    using g'(2,3) by (intro nth_equalityI) auto
  then have "lg_contents contents g' = overlay (map (\<lambda>i. update_spec k v (contents i)) (lg_list g))"
    by (simp add: lg_contents_def)
  moreover have "lg_valid ops valid this (Suc n) g'"
    using g'(2-6) assms(1) by (auto simp: lg_valid_def in_set_conv_nth)
  ultimately show ?thesis using g' by (simp add: lg_set_def lg_all_def) blast
qed

text \<open>What a stack shows after a change: the key has the value, keys that are not above it are as before, and a
  key above it that the first generators do not have is hidden by an empty value.\<close>

lemma overlay_set:
  assumes "v \<noteq> None" "\<not> key_hastrailingslash k"
  shows "overlay (map (\<lambda>i. update_spec k v (cts i)) is) q =
    (if is = [] then None
     else if q = key_path k then v
     else if strict_prefix q (key_path k) \<and> cts (hd is) q = None then Some []
     else overlay (map cts is) q)"
proof (induction "is")
  case (Cons i "is")
  have "update_spec k v (cts i) q = (if q = key_path k then v
      else if strict_prefix q (key_path k) \<and> cts i q = None then Some [] else cts i q)"
    using assms by (auto simp: update_spec_def set_spec_def split: option.splits)
  moreover have "overlay (map (\<lambda>i. update_spec k v (cts i)) is) q = overlay (map cts is) q" if "\<not> prefix q (key_path k)"
    using that Cons.IH by (cases "is = []") (auto simp: strict_prefix_def)
  ultimately show ?case using assms(1) by (auto simp: strict_prefix_def split: option.splits)
qed simp

lemma overlay_remove:
  "overlay (map (\<lambda>i. update_spec k None (cts i)) is) q = (if prefix (key_path k) q then None else overlay (map cts is) q)"
  by (induction "is") (auto simp: update_spec_def remove_spec_def split: option.splits)

end

end
