(* ===== verification/WvHashTable.thy ===== *)
theory WvHashTable
  imports Prelude "HOL-Library.Word"
begin

text \<open>
  The hash table with chaining (\<open>utils/wvhashtable.cc\<close>, \<open>include/wvhashtable.h\<close>).  A table is the list of its
  slots, each a list of elements in the order of their links.  A link in front of an element is the number
  of elements before it, so that the head of a slot is 0.
\<close>

type_synonym 'a htable = "'a list list"

fun ht_slides :: "nat \<Rightarrow> nat" where
  "ht_slides n = (if n div 2 = 0 then 1 else Suc (ht_slides (n div 2)))"

declare ht_slides.simps [simp del]

definition ht_numslots :: "nat \<Rightarrow> nat" where
  "ht_numslots n = 2 ^ ht_slides n - 1"

definition ht_new :: "nat \<Rightarrow> 'a htable" where
  "ht_new n = replicate (ht_numslots n) []"

primrec ht_prevlink :: "('k \<Rightarrow> 'k \<Rightarrow> bool) \<Rightarrow> ('a \<Rightarrow> 'k) \<Rightarrow> 'k \<Rightarrow> 'a list \<Rightarrow> nat" where
  "ht_prevlink cmp get_key k [] = 0"
| "ht_prevlink cmp get_key k (e # es) = (if cmp k (get_key e) then 0 else Suc (ht_prevlink cmp get_key k es))"

definition ht_slot :: "32 word \<Rightarrow> 'a htable \<Rightarrow> nat" where
  "ht_slot hash t = unat hash mod length t"

definition ht_find :: "('k \<Rightarrow> 'k \<Rightarrow> bool) \<Rightarrow> ('a \<Rightarrow> 'k) \<Rightarrow> ('k \<Rightarrow> 32 word) \<Rightarrow> 'k \<Rightarrow> 'a htable \<Rightarrow> 'a option" where
  "ht_find cmp get_key hash k t =
     (let slot = t ! ht_slot (hash k) t; prev = ht_prevlink cmp get_key k slot
      in if prev < length slot then Some (slot ! prev) else None)"

definition ht_add :: "('a \<Rightarrow> 'k) \<Rightarrow> ('k \<Rightarrow> 32 word) \<Rightarrow> 'a \<Rightarrow> 'a htable \<Rightarrow> 'a htable" where
  "ht_add get_key hash e t = (let h = ht_slot (hash (get_key e)) t in t[h := t ! h @ [e]])"

definition ht_remove :: "('k \<Rightarrow> 'k \<Rightarrow> bool) \<Rightarrow> ('a \<Rightarrow> 'k) \<Rightarrow> ('k \<Rightarrow> 32 word) \<Rightarrow> 'a \<Rightarrow> 'a htable \<Rightarrow> 'a htable" where
  "ht_remove cmp get_key hash e t =
     (let h = ht_slot (hash (get_key e)) t; l = ht_prevlink cmp get_key (get_key e) (t ! h)
      in if l < length (t ! h) then t[h := take l (t ! h) @ drop (Suc l) (t ! h)] else t)"

definition ht_zap :: "'a htable \<Rightarrow> 'a htable" where
  "ht_zap t = replicate (length t) []"

text \<open>An element that was found is a pointer: what is written through it stays in its place.\<close>

definition ht_modify :: "('k \<Rightarrow> 'k \<Rightarrow> bool) \<Rightarrow> ('a \<Rightarrow> 'k) \<Rightarrow> ('k \<Rightarrow> 32 word) \<Rightarrow> 'k \<Rightarrow> ('a \<Rightarrow> 'a) \<Rightarrow> 'a htable \<Rightarrow> 'a htable option" where
  "ht_modify cmp get_key hash k f t =
     (let h = ht_slot (hash k) t; prev = ht_prevlink cmp get_key k (t ! h)
      in if prev < length (t ! h) then Some (t[h := (t ! h)[prev := f (t ! h ! prev)]]) else None)"

primrec ht_count :: "'a htable \<Rightarrow> nat" where
  "ht_count [] = 0"
| "ht_count (slot # t) = length slot + ht_count t"

primrec ht_isempty :: "'a htable \<Rightarrow> bool" where
  "ht_isempty [] = True"
| "ht_isempty (slot # t) = (if slot \<noteq> [] then False else ht_isempty t)"

subsection \<open>Iterators\<close>

text \<open>The index of the slot, and the elements behind the link; the null link is \<open>None\<close>.\<close>

record 'a hiter =
  hi_tblindex :: nat
  hi_link :: "'a list option"

definition hi_rewind :: "'a htable \<Rightarrow> 'a hiter" where
  "hi_rewind t = \<lparr>hi_tblindex = 0, hi_link = Some (t ! 0)\<rparr>"

function hi_bucket :: "'a htable \<Rightarrow> nat \<Rightarrow> nat \<times> 'a list" where
  "hi_bucket t cur =
     (if cur < length t - 1
      then (if t ! Suc cur \<noteq> [] then (Suc cur, t ! Suc cur) else hi_bucket t (Suc cur))
      else (cur, []))"
  by auto
termination by (relation "measure (\<lambda>(t, cur). length t - cur)") auto

declare hi_bucket.simps [simp del]

text \<open>A step returns the element it goes to.\<close>

definition hi_next :: "'a htable \<Rightarrow> 'a hiter \<Rightarrow> ('a option \<times> 'a hiter) option" where
  "hi_next t it =
     (case hi_link it of
        None \<Rightarrow> None
      | Some (e # es) \<Rightarrow> Some (Some e, it\<lparr>hi_link := Some es\<rparr>)
      | Some [] \<Rightarrow>
          (case hi_bucket t (hi_tblindex it) of
             (cur, []) \<Rightarrow> Some (None, \<lparr>hi_tblindex = cur, hi_link = None\<rparr>)
           | (cur, e # es) \<Rightarrow> Some (Some e, \<lparr>hi_tblindex = cur, hi_link = Some es\<rparr>)))"

primrec hi_collect :: "nat \<Rightarrow> 'a htable \<Rightarrow> 'a hiter \<Rightarrow> 'a list option" where
  "hi_collect 0 t it = None"
| "hi_collect (Suc n) t it =
     (case hi_next t it of
        None \<Rightarrow> None
      | Some (None, it') \<Rightarrow> Some []
      | Some (Some e, it') \<Rightarrow> map_option ((#) e) (hi_collect n t it'))"

definition ht_elements :: "'a htable \<Rightarrow> 'a list option" where
  "ht_elements t = hi_collect (Suc (ht_count t)) t (hi_rewind t)"

subsection \<open>Counting and walking\<close>

lemma ht_slides_bounds: "n < 2 ^ ht_slides n" "n > 0 \<Longrightarrow> 2 ^ (ht_slides n - 1) \<le> n" "0 < ht_slides n"
proof (induction n rule: ht_slides.induct)
  case (1 n)
  { case 1
    show ?case
    proof (cases "n div 2 = 0")
      case False
      then have "n div 2 < 2 ^ ht_slides (n div 2)" using "1.IH"(1) by blast
      then have "n < 2 * 2 ^ ht_slides (n div 2)" by simp
      then show ?thesis using False by (subst ht_slides.simps) simp
    qed (subst ht_slides.simps, simp)
  next
    case 2
    show ?case
    proof (cases "n div 2 = 0")
      case False
      then have "2 ^ (ht_slides (n div 2) - 1) \<le> n div 2" "0 < ht_slides (n div 2)"
        using "1.IH"(2,3) by blast+
      then have "2 ^ ht_slides (n div 2) \<le> n" by (cases "ht_slides (n div 2)") simp_all
      then show ?thesis using False by (subst ht_slides.simps) simp
    qed (use 2 in \<open>subst ht_slides.simps, simp\<close>)
  next
    case 3
    show ?case by (subst ht_slides.simps) simp
  }
qed

text \<open>The table has at least the wanted number of slots, never none, and less than twice as many and one.\<close>

lemma ht_numslots_bounds: "n \<le> ht_numslots n" "0 < ht_numslots n" "n > 0 \<Longrightarrow> ht_numslots n < 2 * n"
proof -
  obtain s where s: "ht_slides n = Suc s" using ht_slides_bounds(3) [of n] by (cases "ht_slides n") auto
  show "n \<le> ht_numslots n" using ht_slides_bounds(1) [of n] by (simp add: ht_numslots_def)
  have "Suc 0 < 2 * 2 ^ s" by (rule less_le_trans [of _ "2 * 1"]) (simp_all del: mult_1_right)
  then show "0 < ht_numslots n" by (simp add: ht_numslots_def s)
  show "ht_numslots n < 2 * n" if "n > 0"
  proof -
    define p :: nat where "p = 2 ^ s"
    have "p \<le> n" using ht_slides_bounds(2) [OF that] by (simp add: s p_def)
    moreover have "0 < p" by (simp add: p_def)
    moreover have "ht_numslots n = 2 * p - 1" by (simp add: ht_numslots_def s p_def)
    ultimately show ?thesis by linarith
  qed
qed

lemma ht_count_concat: "ht_count t = length (concat t)"
  by (induction t) simp_all

lemma ht_isempty_concat: "ht_isempty t \<longleftrightarrow> concat t = []"
  by (induction t) simp_all

lemma hi_bucket_spec:
  assumes "cur < length t"
  shows "\<exists>c es. hi_bucket t cur = (c, es) \<and> c < length t \<and> concat (drop (Suc cur) t) = es @ concat (drop (Suc c) t) \<and>
    (es = [] \<longrightarrow> concat (drop (Suc c) t) = [])"
  using assms
proof (induction t cur rule: hi_bucket.induct)
  case (1 t cur)
  show ?case
  proof (cases "cur < length t - 1")
    case True
    then have d: "drop (Suc cur) t = t ! Suc cur # drop (Suc (Suc cur)) t" by (simp add: Cons_nth_drop_Suc)
    show ?thesis
    proof (cases "t ! Suc cur = []")
      case True
      then obtain c es where "hi_bucket t (Suc cur) = (c, es)" "c < length t"
        "concat (drop (Suc (Suc cur)) t) = es @ concat (drop (Suc c) t)" "es = [] \<longrightarrow> concat (drop (Suc c) t) = []"
        using "1.IH" [OF \<open>cur < length t - 1\<close> _ less_diff_conv [THEN iffD1, OF \<open>cur < length t - 1\<close>, simplified]] True
        by (simp del: concat_eq_Nil_conv) blast
      moreover from this have "hi_bucket t cur = (c, es)"
        using True \<open>cur < length t - 1\<close> by (subst hi_bucket.simps) simp
      ultimately show ?thesis using True d by auto
    next
      case False
      then have "hi_bucket t cur = (Suc cur, t ! Suc cur)" using \<open>cur < length t - 1\<close> by (subst hi_bucket.simps) simp
      then show ?thesis using False d True by auto
    qed
  next
    case False
    then have "hi_bucket t cur = (cur, [])" "drop (Suc cur) t = []" using False by (subst hi_bucket.simps, auto)
    then show ?thesis using 1 by simp
  qed
qed

lemma hi_collect_spec:
  assumes "c < length t" "length (es @ concat (drop (Suc c) t)) < n"
  shows "hi_collect n t \<lparr>hi_tblindex = c, hi_link = Some es\<rparr> = Some (es @ concat (drop (Suc c) t))"
  using assms
proof (induction n arbitrary: c es)
  case (Suc n)
  show ?case
  proof (cases es)
    case Nil
    obtain c' es' where b: "hi_bucket t c = (c', es')" "c' < length t" "concat (drop (Suc c) t) = es' @ concat (drop (Suc c') t)"
      "es' = [] \<longrightarrow> concat (drop (Suc c') t) = []"
      using hi_bucket_spec [OF Suc.prems(1)] by blast
    show ?thesis
    proof (cases es')
      case Nil
      then show ?thesis using b \<open>es = []\<close> by (simp add: hi_next_def)
    next
      case (Cons e r)
      then show ?thesis using b \<open>es = []\<close> Suc.IH [of c' r] Suc.prems by (simp add: hi_next_def)
    qed
  next
    case (Cons e r)
    then show ?thesis using Suc.IH [of c r] Suc.prems by (simp add: hi_next_def)
  qed
qed simp

text \<open>An iterator meets the elements slot by slot, each once.\<close>

lemma ht_elements_concat: "t \<noteq> [] \<Longrightarrow> ht_elements t = Some (concat t)"
  using hi_collect_spec [of 0 t "t ! 0" "Suc (ht_count t)"]
  by (cases t) (simp_all add: ht_elements_def hi_rewind_def ht_count_concat)

subsection \<open>Finding, adding and removing\<close>

lemma ht_prevlink_le: "ht_prevlink cmp get_key k es \<le> length es"
  by (induction es) auto

lemma ht_prevlink_find:
  "(if ht_prevlink cmp get_key k es < length es then Some (es ! ht_prevlink cmp get_key k es) else None) =
     find (\<lambda>e. cmp k (get_key e)) es"
  by (induction es) auto

lemma ht_find_eq: "ht_find cmp get_key hash k t = find (\<lambda>e. cmp k (get_key e)) (t ! ht_slot (hash k) t)"
  by (simp add: ht_find_def Let_def ht_prevlink_find)

text \<open>Every element is in the slot of its key.\<close>

definition ht_ok :: "('a \<Rightarrow> 'k) \<Rightarrow> ('k \<Rightarrow> 32 word) \<Rightarrow> 'a htable \<Rightarrow> bool" where
  "ht_ok get_key hash t \<longleftrightarrow> t \<noteq> [] \<and> (\<forall>i < length t. \<forall>e \<in> set (t ! i). ht_slot (hash (get_key e)) t = i)"

lemma ht_slot_less: "t \<noteq> [] \<Longrightarrow> ht_slot h t < length t"
  by (simp add: ht_slot_def)

lemma ht_slot_update [simp]: "ht_slot h (t[i := es]) = ht_slot h t"
  by (simp add: ht_slot_def)

lemma ht_ok_new: "ht_ok get_key hash (ht_new n)"
  using ht_numslots_bounds(2) [of n] by (simp add: ht_ok_def ht_new_def)

lemma ht_ok_update:
  assumes "ht_ok get_key hash t" "\<And>e. e \<in> set es \<Longrightarrow> ht_slot (hash (get_key e)) t = i"
  shows "ht_ok get_key hash (t[i := es])"
  unfolding ht_ok_def
proof (intro conjI allI impI ballI)
  fix m e assume "m < length (t[i := es])" "e \<in> set (t[i := es] ! m)"
  then show "ht_slot (hash (get_key e)) (t[i := es]) = m"
    using assms by (cases "m = i") (auto simp: ht_ok_def)
qed (use assms(1) in \<open>simp add: ht_ok_def\<close>)

lemma ht_ok_add: "ht_ok get_key hash t \<Longrightarrow> ht_ok get_key hash (ht_add get_key hash e t)"
  unfolding ht_add_def Let_def
  by (rule ht_ok_update) (auto simp: ht_ok_def ht_slot_less)

lemma ht_ok_remove:
  assumes "ht_ok get_key hash t"
  shows "ht_ok get_key hash (ht_remove cmp get_key hash e t)"
proof -
  let ?h = "ht_slot (hash (get_key e)) t"
  have "\<forall>x \<in> set (t ! ?h). ht_slot (hash (get_key x)) t = ?h" using assms by (simp add: ht_ok_def ht_slot_less)
  then have "ht_ok get_key hash (t[?h := take l (t ! ?h) @ drop (Suc l) (t ! ?h)])" for l
    by (intro ht_ok_update [OF assms]) (auto dest: in_set_takeD in_set_dropD)
  then show ?thesis using assms by (simp add: ht_remove_def Let_def)
qed

text \<open>The element that was added is found, unless an equal one was there; other keys are found as before.\<close>

lemma ht_find_add:
  assumes "ht_ok get_key hash t" "\<And>k k'. cmp k k' \<Longrightarrow> hash k = hash k'"
  shows "ht_find cmp get_key hash k (ht_add get_key hash e t) =
    (case ht_find cmp get_key hash k t of Some x \<Rightarrow> Some x | None \<Rightarrow> if cmp k (get_key e) then Some e else None)"
proof -
  have f: "find P (xs @ [e]) = (case find P xs of Some x \<Rightarrow> Some x | None \<Rightarrow> if P e then Some e else None)" for P xs
    by (induction xs) auto
  show ?thesis
  proof (cases "ht_slot (hash k) t = ht_slot (hash (get_key e)) t")
    case True
    then show ?thesis using assms(1)
      by (simp add: ht_find_eq ht_add_def Let_def ht_ok_def ht_slot_less f)
  next
    case False
    then have "\<not> cmp k (get_key e)" using assms(2) by metis
    then show ?thesis using False by (simp add: ht_find_eq ht_add_def Let_def split: option.split)
  qed
qed

text \<open>Removing takes the first element with the key out: the others are found as before, and an element whose key
  was there once is gone.\<close>

lemma find_remove_prev:
  "find P (take (ht_prevlink cmp get_key k es) es @ drop (Suc (ht_prevlink cmp get_key k es)) es) =
     (case find (\<lambda>e. cmp k (get_key e)) es of
        None \<Rightarrow> find P es
      | Some x \<Rightarrow> if P x then find P (take (ht_prevlink cmp get_key k es) es @ drop (Suc (ht_prevlink cmp get_key k es)) es)
                  else find P es)"
  by (induction es) (auto split: option.split)

lemma ht_find_remove_other:
  assumes "ht_ok get_key hash t" "\<And>a. cmp (get_key e) (get_key a) \<Longrightarrow> \<not> cmp k (get_key a)"
  shows "ht_find cmp get_key hash k (ht_remove cmp get_key hash e t) = ht_find cmp get_key hash k t"
proof -
  let ?h = "ht_slot (hash (get_key e)) t"
  have "find (\<lambda>e. cmp k (get_key e)) (take l (t ! ?h) @ drop (Suc l) (t ! ?h)) = find (\<lambda>e. cmp k (get_key e)) (t ! ?h)"
    if "l = ht_prevlink cmp get_key (get_key e) (t ! ?h)" for l
    unfolding that by (subst find_remove_prev) (auto split: option.split simp: find_Some_iff assms(2))
  then show ?thesis using assms(1)
    by (cases "ht_slot (hash k) t = ?h") (simp_all add: ht_find_eq ht_remove_def Let_def ht_ok_def ht_slot_less)
qed

lemma ht_prevlink_less: "ht_prevlink cmp get_key k es < length es \<longleftrightarrow> (\<exists>e \<in> set es. cmp k (get_key e))"
  by (induction es) auto

lemma ht_find_remove:
  assumes "ht_ok get_key hash t" "length (filter (\<lambda>a. cmp (get_key e) (get_key a)) (concat t)) \<le> 1"
  shows "ht_find cmp get_key hash (get_key e) (ht_remove cmp get_key hash e t) = None"
proof -
  let ?h = "ht_slot (hash (get_key e)) t" and ?P = "\<lambda>a. cmp (get_key e) (get_key a)"
  have "length (filter ?P (t ! ?h)) \<le> 1"
  proof -
    have "t = take ?h t @ t ! ?h # drop (Suc ?h) t" using assms(1) by (simp add: ht_ok_def ht_slot_less id_take_nth_drop)
    then have "concat t = concat (take ?h t) @ t ! ?h @ concat (drop (Suc ?h) t)" by (metis concat.simps(2) concat_append)
    then show ?thesis using assms(2) by simp
  qed
  moreover have "find ?P (take (ht_prevlink cmp get_key (get_key e) es) es @ drop (Suc (ht_prevlink cmp get_key (get_key e) es)) es) = None"
    if "length (filter ?P es) \<le> 1" for es
    using that by (induction es) (auto simp: find_None_iff filter_empty_conv)
  ultimately show ?thesis using assms(1)
    by (cases "ht_prevlink cmp get_key (get_key e) (t ! ?h) < length (t ! ?h)")
      (auto simp: ht_find_eq ht_remove_def Let_def ht_ok_def ht_slot_less ht_prevlink_less find_None_iff)
qed

end
