(* ===== verification/UniMountGen.thy ===== *)
theory UniMountGen
  imports UniCacheGen UniFilterGen WvHashTable
begin

text \<open>
  The generator that holds other generators at the keys where they are mounted (\<open>uniconf/unimountgen.cc\<close>).
  A mount has the identity of its generator, the key and the state of the generator; generators of one
  kind are mounted, each once.  \<open>this\<close> is the cookie of the callbacks, which are bound to the key of
  their mount.  What a mounted generator sends while one of its methods runs is taken up when the method returns.
\<close>

record 'i genmount =
  gm_id :: nat
  gm_key :: key
  gm_gen :: 'i

record 'i mountgen = gen +
  mg_mounts :: "'i genmount list"

definition mg_new :: "'i mountgen" where
  "mg_new = gen.extend gen_new \<lparr>mg_mounts = []\<rparr>"

definition trimkey :: "key \<Rightarrow> key \<Rightarrow> key" where
  "trimkey foundkey key = key_removefirst key (key_numsegments foundkey)"

text \<open>A mount that is found is its position in the list.\<close>

primrec findmount :: "key \<Rightarrow> 'i genmount list \<Rightarrow> nat option" where
  "findmount key [] = None"
| "findmount key (m # ms) = (if key_suborsame (gm_key m) key then Some 0 else map_option Suc (findmount key ms))"

text \<open>The first mount that covers the key, and the number of mounts that were counted.\<close>

primrec findmountunder_loop :: "key \<Rightarrow> nat \<Rightarrow> 'i genmount list \<Rightarrow> nat option \<times> int \<Rightarrow> nat option \<times> int" where
  "findmountunder_loop key pos [] r = r"
| "findmountunder_loop key pos (m # ms) r =
     findmountunder_loop key (Suc pos) ms
       (if key_suborsame (gm_key m) key \<and> fst r = None then (Some pos, snd r + 1)
        else if key_suborsame key (gm_key m) then (fst r, snd r + 1) else r)"

definition findmountunder :: "key \<Rightarrow> 'i genmount list \<Rightarrow> nat option" where
  "findmountunder key ms =
     (let (foundmount, num_found_mounts) = findmountunder_loop key 0 ms (None, 0)
      in if num_found_mounts = 1 \<and> foundmount \<noteq> None then foundmount else None)"

primrec has_subkey :: "key \<Rightarrow> nat option \<Rightarrow> 'i genmount list \<Rightarrow> bool" where
  "has_subkey key found [] = False"
| "has_subkey key found (m # ms) =
     (if key_suborsame key (gm_key m) \<and> key_less key (gm_key m) then True
      else if found = Some 0 then False
      else has_subkey key (map_option (\<lambda>p. p - 1) found) ms)"

subsection \<open>Reading\<close>

definition mg_get :: "'i igen \<Rightarrow> key \<Rightarrow> 'i mountgen \<Rightarrow> wvstring option" where
  "mg_get inner key g =
     (case findmount key (mg_mounts g) of
        None \<Rightarrow> Some (if has_subkey key None (mg_mounts g) then Some [] else None)
      | Some p \<Rightarrow> (let m = mg_mounts g ! p in ig_get inner (trimkey (gm_key m) key) (gm_gen m)))"

definition mg_exists :: "'i igen \<Rightarrow> key \<Rightarrow> 'i mountgen \<Rightarrow> bool option" where
  "mg_exists inner key g =
     (let found = findmount key (mg_mounts g)
      in do {
        e \<leftarrow> (case found of
                None \<Rightarrow> Some False
              | Some p \<Rightarrow> (let m = mg_mounts g ! p in ig_exists inner (trimkey (gm_key m) key) (gm_gen m)));
        Some (if e then True else has_subkey key found (mg_mounts g)) })"

definition mg_haschildren :: "'i igen \<Rightarrow> key \<Rightarrow> 'i mountgen \<Rightarrow> bool option" where
  "mg_haschildren inner key g =
     (let found = findmount key (mg_mounts g)
      in do {
        e \<leftarrow> (case found of
                None \<Rightarrow> Some False
              | Some p \<Rightarrow> (let m = mg_mounts g ! p in ig_haschildren inner (trimkey (gm_key m) key) (gm_gen m)));
        Some (if e then True else has_subkey key found (mg_mounts g)) })"

primrec whichmount :: "key \<Rightarrow> 'i genmount list \<Rightarrow> (nat \<times> key) option" where
  "whichmount key [] = None"
| "whichmount key (m # ms) = (if key_suborsame (gm_key m) key then Some (gm_id m, gm_key m) else whichmount key ms)"

primrec ismountpoint :: "key \<Rightarrow> 'i genmount list \<Rightarrow> bool" where
  "ismountpoint key [] = False"
| "ismountpoint key (m # ms) = (if key_eq (gm_key m) key then True else ismountpoint key ms)"

text \<open>Where nothing is mounted: the names that lead to mounts, each once, sorted.\<close>

definition mount_name :: "key \<Rightarrow> key \<Rightarrow> string" where
  "mount_name key mountkey = key_printable (key_last (key_first mountkey (key_numsegments key + 1)) 1)"

primrec mount_names :: "key \<Rightarrow> 'i genmount list \<Rightarrow> string list \<Rightarrow> string list" where
  "mount_names key [] t = t"
| "mount_names key (m # ms) t =
     mount_names key ms
       (if key_numsegments key < key_numsegments (gm_key m) \<and> key_suborsame key (gm_key m)
        then (let k2 = mount_name key (gm_key m) in if k2 \<in> set t then t else t @ [k2])
        else t)"

definition mg_iterator :: "'i igen \<Rightarrow> key \<Rightarrow> 'i mountgen \<Rightarrow> notice list option option" where
  "mg_iterator inner key g =
     (case findmount key (mg_mounts g) of
        Some p \<Rightarrow> (let m = mg_mounts g ! p in ig_iterator inner (trimkey (gm_key m) key) (gm_gen m))
      | None \<Rightarrow>
          (let names = sort_key (map code_of) (mount_names key (mg_mounts g) []);
               it = foldl (\<lambda>it s. li_add (key_of_string (Some s)) None it) li_new names
           in map_option Some (li_all (mg_get inner) g it)))"

subsection \<open>Changing\<close>

definition mg_gencallback :: "key \<Rightarrow> key \<Rightarrow> wvstring \<Rightarrow> 'i mountgen \<Rightarrow> 'i mountgen option" where
  "mg_gencallback mountkey key value g = delta (key_concat mountkey key) value g"

primrec mg_callbacks :: "key \<Rightarrow> notice list \<Rightarrow> 'i mountgen \<Rightarrow> 'i mountgen option" where
  "mg_callbacks mountkey [] g = Some g"
| "mg_callbacks mountkey (d # ds) g = do {
     g' \<leftarrow> mg_gencallback mountkey (fst d) (snd d) g;
     mg_callbacks mountkey ds g' }"

text \<open>The generator of the mount at position \<open>p\<close> after a method of it was run.\<close>

definition mg_after :: "'i igen \<Rightarrow> nat \<Rightarrow> nat \<Rightarrow> 'i \<Rightarrow> 'i mountgen \<Rightarrow> 'i mountgen option" where
  "mg_after inner this p i g =
     mg_callbacks (gm_key (mg_mounts g ! p)) (sent_to this (ig_sent inner i))
       (g\<lparr>mg_mounts := (mg_mounts g)[p := (mg_mounts g ! p)\<lparr>gm_gen := ig_forget inner this i\<rparr>]\<rparr>)"

definition mg_run :: "'i igen \<Rightarrow> nat \<Rightarrow> nat \<Rightarrow> ('i \<Rightarrow> ('r \<times> 'i) option) \<Rightarrow> 'i mountgen \<Rightarrow> ('r \<times> 'i mountgen) option" where
  "mg_run inner this p f g = do {
     (r, i) \<leftarrow> f (gm_gen (mg_mounts g ! p));
     g' \<leftarrow> mg_after inner this p i g;
     Some (r, g') }"

definition mg_set :: "'i igen \<Rightarrow> nat \<Rightarrow> key \<Rightarrow> wvstring \<Rightarrow> 'i mountgen \<Rightarrow> 'i mountgen option" where
  "mg_set inner this key value g =
     (case findmount key (mg_mounts g) of
        None \<Rightarrow> Some g
      | Some p \<Rightarrow> do {
          i \<leftarrow> ig_set inner (trimkey (gm_key (mg_mounts g ! p)) key) value (gm_gen (mg_mounts g ! p));
          mg_after inner this p i g })"

text \<open>\<open>setv\<close> sorts the pairs by their mount, in a hash table under the printed key of the mount.\<close>

record mountpairs =
  mp_mount :: nat
  mp_key :: string
  mp_pairs :: "notice list"

definition mp_hash :: "string \<Rightarrow> 32 word" where
  "mp_hash k = wvhash_str k"

primrec mp_sort :: "'i mountgen \<Rightarrow> notice list \<Rightarrow> mountpairs htable \<Rightarrow> mountpairs htable option" where
  "mp_sort g [] t = Some t"
| "mp_sort g (d # ds) t =
     (case findmount (fst d) (mg_mounts g) of
        None \<Rightarrow> mp_sort g ds t
      | Some p \<Rightarrow> do {
          t' \<leftarrow> ht_modify (=) mp_key mp_hash (key_printable (gm_key (mg_mounts g ! p)))
                  (\<lambda>e. e\<lparr>mp_pairs := mp_pairs e @ [(trimkey (gm_key (mg_mounts g ! p)) (fst d), snd d)]\<rparr>) t;
          mp_sort g ds t' })"

primrec mp_run :: "'i igen \<Rightarrow> nat \<Rightarrow> mountpairs list \<Rightarrow> 'i mountgen \<Rightarrow> 'i mountgen option" where
  "mp_run inner this [] g = Some g"
| "mp_run inner this (e # es) g = do {
     i \<leftarrow> ig_setv inner (mp_pairs e) (gm_gen (mg_mounts g ! mp_mount e));
     g' \<leftarrow> mg_after inner this (mp_mount e) i g;
     mp_run inner this es g' }"

definition mg_setv :: "'i igen \<Rightarrow> nat \<Rightarrow> notice list \<Rightarrow> 'i mountgen \<Rightarrow> 'i mountgen option" where
  "mg_setv inner this pairs g =
     (let t0 = foldl (\<lambda>t p. ht_add mp_key mp_hash
                   \<lparr>mp_mount = p, mp_key = key_printable (gm_key (mg_mounts g ! p)), mp_pairs = []\<rparr> t)
                 (ht_new (length (mg_mounts g))) [0..<length (mg_mounts g)]
      in do {
        t \<leftarrow> mp_sort g pairs t0;
        es \<leftarrow> ht_elements t;
        mp_run inner this es g })"

text \<open>\<open>refresh\<close> asks no further generator once one has failed.\<close>

primrec refresh_loop :: "'i igen \<Rightarrow> nat \<Rightarrow> nat list \<Rightarrow> bool \<Rightarrow> 'i mountgen \<Rightarrow> (bool \<times> 'i mountgen) option" where
  "refresh_loop inner this [] result g = Some (result, g)"
| "refresh_loop inner this (p # ps) result g =
     (if result
      then do {
        (r, g') \<leftarrow> mg_run inner this p (ig_refresh inner) g;
        refresh_loop inner this ps r g' }
      else refresh_loop inner this ps False g)"

definition mg_refresh :: "'i igen \<Rightarrow> nat \<Rightarrow> 'i mountgen \<Rightarrow> (bool \<times> 'i mountgen) option" where
  "mg_refresh inner this g = do {
     (result, g1) \<leftarrow> refresh_loop inner this [0..<length (mg_mounts g)] True (hold_delta g);
     g2 \<leftarrow> unhold_delta g1;
     Some (result, g2) }"

primrec commit_loop :: "'i igen \<Rightarrow> nat \<Rightarrow> nat list \<Rightarrow> 'i mountgen \<Rightarrow> 'i mountgen option" where
  "commit_loop inner this [] g = Some g"
| "commit_loop inner this (p # ps) g = do {
     i \<leftarrow> ig_commit inner (gm_gen (mg_mounts g ! p));
     g' \<leftarrow> mg_after inner this p i g;
     commit_loop inner this ps g' }"

definition mg_commit :: "'i igen \<Rightarrow> nat \<Rightarrow> 'i mountgen \<Rightarrow> 'i mountgen option" where
  "mg_commit inner this g = do {
     g1 \<leftarrow> commit_loop inner this [0..<length (mg_mounts g)] (hold_delta g);
     unhold_delta g1 }"

subsection \<open>Mounting\<close>

text \<open>The keys that lead to a mount are created, and the mount point in the generator around it.\<close>

definition key_segments :: "key \<Rightarrow> key list" where
  "key_segments key = map (key_segment key) [0..key_numsegments key - 1]"

primrec makemount_loop :: "'i igen \<Rightarrow> nat \<Rightarrow> key list \<Rightarrow> key \<Rightarrow> 'i mountgen \<Rightarrow> (key \<times> 'i mountgen) option" where
  "makemount_loop inner this [] points g = Some (points, g)"
| "makemount_loop inner this (s # ss) points g =
     (let points' = key_append points s
      in do {
        v \<leftarrow> mg_get inner points' g;
        g' \<leftarrow> (if v = None then mg_set inner this points' (Some []) g else Some g);
        makemount_loop inner this ss points' g' })"

definition makemount :: "'i igen \<Rightarrow> nat \<Rightarrow> key \<Rightarrow> 'i mountgen \<Rightarrow> 'i mountgen option" where
  "makemount inner this key g = do {
     (points, g1) \<leftarrow> makemount_loop inner this (key_segments key) [] g;
     (case findmount (key_removelast points 1) (mg_mounts g1) of
        None \<Rightarrow> Some g1
      | Some p \<Rightarrow> do {
          v \<leftarrow> ig_get inner (trimkey (gm_key (mg_mounts g1 ! p)) key) (gm_gen (mg_mounts g1 ! p));
          (if v = None
           then do {
             i \<leftarrow> ig_set inner (trimkey (gm_key (mg_mounts g1 ! p)) key) (Some []) (gm_gen (mg_mounts g1 ! p));
             mg_after inner this p i g1 }
           else Some g1) }) }"

text \<open>A generator that is not in the list yet, but has the callback already.\<close>

definition key_root :: key where
  "key_root = key_of_string (Some ''/'')"

definition mg_mountgen :: "'i igen \<Rightarrow> nat \<Rightarrow> key \<Rightarrow> nat \<Rightarrow> 'i \<Rightarrow> bool \<Rightarrow> 'i mountgen \<Rightarrow> 'i mountgen option" where
  "mg_mountgen inner this key ident i refresh g = do {
     i1 \<leftarrow> ig_add_callback inner this i;
     g1 \<leftarrow> delta key None (hold_delta g);
     g2 \<leftarrow> makemount inner this key g1;
     (i2, g3) \<leftarrow> (if refresh
                   then do {
                     (r, i') \<leftarrow> ig_refresh inner i1;
                     g' \<leftarrow> mg_callbacks key (sent_to this (ig_sent inner i')) g2;
                     Some (ig_forget inner this i', g') }
                   else Some (i1, g2));
     (let g4 = g3\<lparr>mg_mounts := \<lparr>gm_id = ident, gm_key = key, gm_gen = i2\<rparr> # mg_mounts g3\<rparr>
      in do {
        v \<leftarrow> mg_get inner key g4;
        g5 \<leftarrow> delta key v g4;
        g6 \<leftarrow> unhold_delta g5;
        e \<leftarrow> ig_exists inner key_root (gm_gen (mg_mounts g6 ! 0));
        (if e then Some g6
         else do {
           i' \<leftarrow> ig_set inner key_root (Some []) (gm_gen (mg_mounts g6 ! 0));
           mg_after inner this 0 i' g6 }) }) }"

text \<open>\<open>mount\<close>: the generator for a moniker, if there is one.\<close>

definition mg_mount :: "'i igen \<Rightarrow> nat \<Rightarrow> key \<Rightarrow> (nat \<times> 'i) option \<Rightarrow> bool \<Rightarrow> 'i mountgen \<Rightarrow> (nat option \<times> 'i mountgen) option" where
  "mg_mount inner this key created refresh g =
     (case created of
        None \<Rightarrow> Some (None, g)
      | Some (ident, i) \<Rightarrow> do {
          g1 \<leftarrow> mg_mountgen inner this key ident i refresh g;
          e \<leftarrow> ig_exists inner key_root (gm_gen (mg_mounts g1 ! 0));
          g2 \<leftarrow> (if e then Some g1
                else do {
                  i' \<leftarrow> ig_set inner key_root (Some []) (gm_gen (mg_mounts g1 ! 0));
                  mg_after inner this 0 i' g1 });
          Some (Some ident, g2) })"

text \<open>The loop of \<open>unmount\<close> over the mounts before the one that follows the removed one.\<close>

primrec remake_loop :: "'i igen \<Rightarrow> nat \<Rightarrow> key \<Rightarrow> nat list \<Rightarrow> 'i mountgen \<Rightarrow> 'i mountgen option" where
  "remake_loop inner this key [] g = Some g"
| "remake_loop inner this key (p # ps) g =
     (let mkey = gm_key (mg_mounts g ! p)
      in if key_suborsame key mkey \<and> \<not> key_eq key mkey
         then do {
           g1 \<leftarrow> makemount inner this mkey g;
           v \<leftarrow> mg_get inner mkey g1;
           g2 \<leftarrow> delta mkey v g1;
           remake_loop inner this key ps g2 }
         else remake_loop inner this key ps g)"

primrec position :: "nat \<Rightarrow> 'i genmount list \<Rightarrow> nat option" where
  "position ident [] = None"
| "position ident (m # ms) = (if gm_id m = ident then Some 0 else map_option Suc (position ident ms))"

text \<open>A generator that is not mounted: the iterator is at the end and its null link is followed.\<close>

definition mg_unmount :: "'i igen \<Rightarrow> nat \<Rightarrow> nat \<Rightarrow> bool \<Rightarrow> 'i mountgen \<Rightarrow> 'i mountgen option" where
  "mg_unmount inner this ident commit g =
     (case position ident (mg_mounts g) of
        None \<Rightarrow> None
      | Some p \<Rightarrow>
          (let g1 = hold_delta g
           in do {
             g2 \<leftarrow> (if commit
                   then do { i \<leftarrow> ig_commit inner (gm_gen (mg_mounts g1 ! p)); mg_after inner this p i g1 }
                   else Some g1);
             i \<leftarrow> ig_del_callback inner this (gm_gen (mg_mounts g2 ! p));
             (let key = gm_key (mg_mounts g2 ! p)
              in do {
                g3 \<leftarrow> delta key None g2;
                (let g4 = g3\<lparr>mg_mounts := take p (mg_mounts g3) @ drop (Suc p) (mg_mounts g3)\<rparr>
                 in do {
                   g5 \<leftarrow> remake_loop inner this key [0..<p] g4;
                   unhold_delta g5 }) }) }))"

primrec zap_loop :: "nat \<Rightarrow> 'i igen \<Rightarrow> nat \<Rightarrow> 'i mountgen \<Rightarrow> 'i mountgen option" where
  "zap_loop 0 inner this g = (if mg_mounts g = [] then Some g else None)"
| "zap_loop (Suc n) inner this g =
     (if mg_mounts g = [] then Some g
      else do { g' \<leftarrow> mg_unmount inner this (gm_id (hd (mg_mounts g))) False g; zap_loop n inner this g' })"

definition mg_zap :: "'i igen \<Rightarrow> nat \<Rightarrow> 'i mountgen \<Rightarrow> 'i mountgen option" where
  "mg_zap inner this g = zap_loop (length (mg_mounts g)) inner this g"

definition mg_isok :: "'i mountgen \<Rightarrow> bool" where
  "mg_isok g = True"

definition mg_ops :: "'i igen \<Rightarrow> nat \<Rightarrow> 'i mountgen igen" where
  "mg_ops inner this =
     \<lparr>ig_get = mg_get inner, ig_set = mg_set inner this, ig_setv = mg_setv inner this, ig_exists = mg_exists inner,
      ig_haschildren = mg_haschildren inner, ig_iterator = mg_iterator inner, ig_commit = mg_commit inner this,
      ig_refresh = mg_refresh inner this, ig_isok = mg_isok, ig_add_callback = add_callback,
      ig_del_callback = del_callback, ig_callbacks = gen_cblist, ig_sent = gen_sent, ig_forget = gen_forget\<rparr>"

text \<open>The recursive iterator is that of a mounted generator when no other mount is involved.\<close>

definition mg_recursiveiterator ::
    "nat \<Rightarrow> (key \<Rightarrow> 'i \<Rightarrow> notice list option option) \<Rightarrow> 'i igen \<Rightarrow> nat \<Rightarrow> key \<Rightarrow> 'i mountgen \<Rightarrow> notice list option option" where
  "mg_recursiveiterator fuel inner_rec inner this key g =
     (case findmountunder key (mg_mounts g) of
        Some p \<Rightarrow> (let m = mg_mounts g ! p in inner_rec (trimkey (gm_key m) key) (gm_gen m))
      | None \<Rightarrow> default_rec fuel (mg_ops inner this) key g)"

subsection \<open>Keys and mounts\<close>

definition plain_key :: "key \<Rightarrow> bool" where
  "plain_key k \<longleftrightarrow> plain_segs k \<and> int (length k) \<le> INT_MAX"

lemma plain_key_path: "plain_key k \<Longrightarrow> key_path k = map lower k"
  by (simp add: plain_key_def key_path_plain)

lemma plain_key_take: "plain_key k \<Longrightarrow> plain_key (take n k)"
  by (auto simp: plain_key_def plain_segs_def key_cstr_def dest: in_set_takeD)

lemma plain_key_drop: "plain_key k \<Longrightarrow> plain_key (drop n k)"
  by (auto simp: plain_key_def plain_segs_def key_cstr_def dest: in_set_dropD)

lemma plain_key_ok: "plain_key k \<Longrightarrow> int (length k) \<le> m \<Longrightarrow> key_ok m k"
  by (auto simp: plain_key_def plain_segs_def key_ok_def dest: in_set_butlastD)

lemma plain_key_no_slash: "plain_key k \<Longrightarrow> \<not> key_hastrailingslash k"
  by (simp add: plain_key_def plain_segs_def plain_no_slash)

lemma plain_collapse: "plain_segs k \<Longrightarrow> key_collapse k = k" "plain_segs k \<Longrightarrow> key_collapse (take n k) = take n k"
    "plain_segs k \<Longrightarrow> key_collapse (drop n k) = drop n k"
  unfolding plain_segs_def by (auto intro!: key_collapse_plain dest: in_set_takeD in_set_dropD)

lemma suborsame_plain:
  assumes "plain_key a" "plain_key k"
  shows "key_suborsame a k \<longleftrightarrow> prefix (map lower a) (map lower k)"
proof -
  have c: "key_cstr (take (length a) k)" "key_cstr a"
    using assms by (auto simp: plain_key_def plain_segs_def key_cstr_def dest: in_set_takeD)
  have "key_suborsame a k \<longleftrightarrow> map lower (take (length a) k) = map lower a"
    using assms plain_key_no_slash [OF assms(1)] key_eq_iff [OF c]
    by (simp add: key_suborsame_def Let_def key_numsegments_def key_first_nat plain_collapse plain_key_def)
  also have "\<dots> \<longleftrightarrow> prefix (map lower a) (map lower k)"
    by (metis append_eq_conv_conj length_map prefix_def take_map)
  finally show ?thesis .
qed

lemma trimkey_plain: "plain_key k \<Longrightarrow> length a \<le> length k \<Longrightarrow> trimkey a k = drop (length a) k"
  by (auto simp: trimkey_def key_numsegments_def key_removefirst_nat plain_collapse plain_key_def)

lemma less_plain:
  assumes "plain_key k" "plain_key m" "prefix (map lower k) (map lower m)"
  shows "key_less k m \<longleftrightarrow> strict_prefix (map lower k) (map lower m)"
proof -
  have o: "key_ord x = map (map code_of) (map lower x)" for x
    by (simp add: key_ord_def str_ord_def lower_def comp_def)
  obtain r where r: "map lower m = map lower k @ r" using assms(3) by (auto simp: prefix_def)
  have a: "(xs :: nat list list) < xs @ ys \<longleftrightarrow> ys \<noteq> []" for xs ys by (induction xs) (cases ys; simp)+
  have "key_less k m \<longleftrightarrow> key_ord k < key_ord m"
    using assms by (auto simp: plain_key_def plain_segs_def intro!: key_less_iff)
  also have "\<dots> \<longleftrightarrow> r \<noteq> []" by (simp only: o r map_append a) simp
  finally show ?thesis using r by (simp add: strict_prefix_def)
qed

subsection \<open>The contents\<close>

text \<open>A path belongs to the first mount that covers it; a path that leads to a mount is there, with an empty
  value, when it belongs to none.\<close>

abbreviation gm_path :: "'i genmount \<Rightarrow> string list" where
  "gm_path m \<equiv> map lower (gm_key m)"

primrec mount_of :: "string list \<Rightarrow> 'i genmount list \<Rightarrow> nat option" where
  "mount_of q [] = None"
| "mount_of q (m # ms) = (if prefix (gm_path m) q then Some 0 else map_option Suc (mount_of q ms))"

definition mounts_contents :: "('i \<Rightarrow> string list \<Rightarrow> wvstring) \<Rightarrow> 'i genmount list \<Rightarrow> string list \<Rightarrow> wvstring" where
  "mounts_contents cts ms q =
     (case mount_of q ms of
        None \<Rightarrow> if \<exists>m \<in> set ms. strict_prefix q (gm_path m) then Some [] else None
      | Some p \<Rightarrow> cts (gm_gen (ms ! p)) (drop (length (gm_key (ms ! p))) q))"

abbreviation mg_contents :: "('i \<Rightarrow> string list \<Rightarrow> wvstring) \<Rightarrow> 'i mountgen \<Rightarrow> string list \<Rightarrow> wvstring" where
  "mg_contents cts g \<equiv> mounts_contents cts (mg_mounts g)"

definition mounts_ok :: "'i igen \<Rightarrow> (nat \<Rightarrow> 'i \<Rightarrow> bool) \<Rightarrow> nat \<Rightarrow> nat \<Rightarrow> 'i genmount list \<Rightarrow> bool" where
  "mounts_ok inner inner_valid this n ms \<longleftrightarrow>
     (\<forall>m \<in> set ms. (\<exists>n' \<le> n. inner_valid n' (gm_gen m)) \<and> plain_key (gm_key m) \<and>
        this \<in> set (ig_callbacks inner (gm_gen m)) \<and> sent_to this (ig_sent inner (gm_gen m)) = []) \<and>
     distinct (map gm_id ms)"

definition mg_valid :: "'i igen \<Rightarrow> (nat \<Rightarrow> 'i \<Rightarrow> bool) \<Rightarrow> nat \<Rightarrow> nat \<Rightarrow> 'i mountgen \<Rightarrow> bool" where
  "mg_valid inner inner_valid this n g \<longleftrightarrow>
     mounts_ok inner inner_valid this n (mg_mounts g) \<and> gen_hold g = 0 \<and> gen_deltas g = [] \<and> distinct (gen_cblist g)"

lemma mount_of_Some:
  "mount_of q ms = Some p \<Longrightarrow> p < length ms \<and> prefix (gm_path (ms ! p)) q \<and> (\<forall>i < p. \<not> prefix (gm_path (ms ! i)) q)"
  by (induction ms arbitrary: p) (auto split: if_splits simp: nth_Cons less_Suc_eq_0_disj split: nat.split)

lemma mount_of_None: "mount_of q ms = None \<longleftrightarrow> (\<forall>m \<in> set ms. \<not> prefix (gm_path m) q)"
  by (induction ms) auto

lemma mount_of_eq: "p < length ms \<Longrightarrow> prefix (gm_path (ms ! p)) q \<Longrightarrow> (\<And>i. i < p \<Longrightarrow> \<not> prefix (gm_path (ms ! i)) q) \<Longrightarrow> mount_of q ms = Some p"
proof (induction ms arbitrary: p)
  case (Cons m ms)
  show ?case
  proof (cases p)
    case (Suc p')
    then show ?thesis using Cons.IH [of p'] Cons.prems(1,2) Cons.prems(3) [of 0] Cons.prems(3) [of "Suc _"] by simp
  qed (use Cons.prems in simp)
qed simp

text \<open>The keys of the mounts matter only.\<close>

lemma mount_of_keys: "map gm_key ms = map gm_key ms' \<Longrightarrow> mount_of q ms = mount_of q ms'"
  by (induction ms arbitrary: ms') (auto simp: Cons_eq_map_conv)

lemma findmount_plain:
  "plain_key k \<Longrightarrow> \<forall>m \<in> set ms. plain_key (gm_key m) \<Longrightarrow> findmount k ms = mount_of (map lower k) ms"
  by (induction ms) (auto simp: suborsame_plain)

lemma whichmount_plain:
  "plain_key k \<Longrightarrow> \<forall>m \<in> set ms. plain_key (gm_key m) \<Longrightarrow>
     whichmount k ms = map_option (\<lambda>p. (gm_id (ms ! p), gm_key (ms ! p))) (mount_of (map lower k) ms)"
  by (induction ms) (auto simp: suborsame_plain option.map_comp comp_def)

lemma ismountpoint_plain:
  "plain_key k \<Longrightarrow> \<forall>m \<in> set ms. plain_key (gm_key m) \<Longrightarrow> ismountpoint k ms \<longleftrightarrow> (\<exists>m \<in> set ms. gm_path m = map lower k)"
  by (induction ms) (auto simp: plain_key_def plain_segs_def key_eq_iff)

lemma subkey_test:
  "plain_key k \<Longrightarrow> plain_key m \<Longrightarrow> key_suborsame k m \<and> key_less k m \<longleftrightarrow> strict_prefix (map lower k) (map lower m)"
  by (auto simp: suborsame_plain less_plain strict_prefix_def)

lemma has_subkey_None:
  "plain_key k \<Longrightarrow> \<forall>m \<in> set ms. plain_key (gm_key m) \<Longrightarrow>
     has_subkey k None ms \<longleftrightarrow> (\<exists>m \<in> set ms. strict_prefix (map lower k) (gm_path m))"
  by (induction ms) (auto simp: subkey_test)

text \<open>When a mount was found, those in front of it are searched, and it.\<close>

lemma has_subkey_Some:
  "plain_key k \<Longrightarrow> \<forall>m \<in> set ms. plain_key (gm_key m) \<Longrightarrow>
     has_subkey k (Some p) ms \<longleftrightarrow> (\<exists>m \<in> set (take (Suc p) ms). strict_prefix (map lower k) (gm_path m))"
proof (induction ms arbitrary: p)
  case (Cons m ms)
  then show ?case using subkey_test [OF Cons.prems(1), of "gm_key m"]
    by (cases p) auto
qed simp

text \<open>A mount that no other in front of it covers, and what mounting is to make sure: the keys that lead to such a
  mount, and its own root, are there.\<close>

definition mounts_made :: "('i \<Rightarrow> string list \<Rightarrow> wvstring) \<Rightarrow> 'i genmount list \<Rightarrow> bool" where
  "mounts_made cts ms \<longleftrightarrow>
     (\<forall>p < length ms. mount_of (gm_path (ms ! p)) ms = Some p \<longrightarrow>
        (\<forall>q. prefix q (gm_path (ms ! p)) \<longrightarrow> mounts_contents cts ms q \<noteq> None))"

lemma mount_of_self:
  assumes "mount_of q ms = Some p" "prefix (gm_path (ms ! p)) r" "prefix r q"
  shows "mount_of r ms = Some p"
  using mount_of_Some [OF assms(1)] assms(2,3)
  by (intro mount_of_eq) (auto intro: prefix_order.trans)

lemma madeD:
  "mounts_made cts ms \<Longrightarrow> mount_of r ms = Some p \<Longrightarrow> prefix q (gm_path (ms ! p)) \<Longrightarrow> mounts_contents cts ms q \<noteq> None"
  using mount_of_Some [of r ms p] mount_of_self [of r ms p "gm_path (ms ! p)"] by (auto simp: mounts_made_def)

text \<open>A path on the way to a mount is there, unless it belongs to a mount in front of that one.\<close>

lemma made_above:
  assumes "mounts_made cts ms" "m \<in> set (take r ms)" "strict_prefix q (gm_path m)"
    "\<And>p. mount_of q ms = Some p \<Longrightarrow> r \<le> Suc p"
  shows "\<exists>s. prefix (q @ [s]) (gm_path m) \<and> mounts_contents cts ms q \<noteq> None \<and> mounts_contents cts ms (q @ [s]) \<noteq> None"
proof -
  obtain i where i: "i < r" "i < length ms" "m = ms ! i" using assms(2) by (auto simp: in_set_conv_nth)
  obtain p where p: "mount_of (gm_path m) ms = Some p" using mount_of_None [of "gm_path m" ms] assms(2) by (auto dest: in_set_takeD)
  note P = mount_of_Some [OF p]
  have pi: "p \<le> i" using P i by (metis leI prefix_order.order_refl)
  have "prefix q (gm_path (ms ! p)) \<or> prefix (gm_path (ms ! p)) q"
    using assms(3) P prefix_same_cases strict_prefix_def by metis
  moreover have "\<not> prefix (gm_path (ms ! p)) q"
  proof
    assume c: "prefix (gm_path (ms ! p)) q"
    then have o: "mount_of q ms = Some p" using mount_of_self [OF p] assms(3) by (simp add: strict_prefix_def)
    then have "i = p" using assms(4) [OF o] i(1) pi by simp
    then show False using c assms(3) i(3) by (simp add: prefix_order.less_le_not_le)
  qed
  ultimately have "strict_prefix q (gm_path (ms ! p))" by (auto simp: strict_prefix_def)
  then obtain s where s: "prefix (q @ [s]) (gm_path (ms ! p))"
    by (auto simp: strict_prefix_def prefix_def neq_Nil_conv)
  then show ?thesis using madeD [OF assms(1) p] P by (meson append_prefixD prefix_order.trans)
qed

lemma contents_mount:
  assumes "mounts_contents cts ms q \<noteq> None"
  shows "\<exists>m \<in> set ms. prefix (gm_path m) q \<or> strict_prefix q (gm_path m)"
proof (cases "mount_of q ms")
  case None
  then show ?thesis using assms by (auto simp: mounts_contents_def split: if_splits)
next
  case (Some p)
  then show ?thesis using mount_of_Some [OF Some] by (auto intro!: bexI [of _ "ms ! p"])
qed

text \<open>Where the mounts are.\<close>

abbreviation places :: "'i genmount list \<Rightarrow> (nat \<times> key) list" where
  "places ms \<equiv> map (\<lambda>m. (gm_id m, gm_key m)) ms"

lemma places_keys:
  assumes "places ms' = places ms"
  shows "map gm_key ms' = map gm_key ms"
proof -
  have "map snd (places ms') = map snd (places ms)" by (simp only: assms)
  then show ?thesis by (simp add: comp_def)
qed

lemma places_ids:
  assumes "places ms' = places ms"
  shows "map gm_id ms' = map gm_id ms"
proof -
  have "map fst (places ms') = map fst (places ms)" by (simp only: assms)
  then show ?thesis by (simp add: comp_def)
qed

text \<open>A generator of a mount is replaced.\<close>

lemma mounts_contents_update:
  assumes "p < length ms"
  shows "mounts_contents cts (ms[p := (ms ! p)\<lparr>gm_gen := x\<rparr>]) q =
    (if mount_of q ms = Some p then cts x (drop (length (gm_key (ms ! p))) q) else mounts_contents cts ms q)"
proof -
  let ?ms = "ms[p := (ms ! p)\<lparr>gm_gen := x\<rparr>]"
  have k: "map gm_key ?ms = map gm_key ms" using assms by (simp add: map_update list_update_same_conv)
  have e: "(\<exists>m \<in> set xs. strict_prefix q (gm_path m)) \<longleftrightarrow> (\<exists>y \<in> set (map gm_key xs). strict_prefix q (map lower y))" for xs :: "'a genmount list"
    by simp
  show ?thesis unfolding mounts_contents_def e k mount_of_keys [OF k]
    by (auto simp: nth_list_update split: option.split dest: mount_of_Some)
qed

lemma mounts_made_mono:
  assumes "mounts_made cts ms" "places ms' = places ms"
    "\<And>q. mounts_contents cts ms q \<noteq> None \<Longrightarrow> mounts_contents cts ms' q \<noteq> None"
  shows "mounts_made cts ms'"
proof -
  note k = places_keys [OF assms(2)]
  have "length ms' = length ms" using assms(2) by (metis length_map)
  moreover have "gm_key (ms' ! p) = gm_key (ms ! p)" if "p < length ms" for p
    using that k \<open>length ms' = length ms\<close> by (metis nth_map)
  ultimately show ?thesis using assms(1,3) by (simp add: mounts_made_def mount_of_keys [OF k])
qed

definition mount_spec :: "string list \<Rightarrow> (string list \<Rightarrow> wvstring) \<Rightarrow> (string list \<Rightarrow> wvstring) \<Rightarrow> string list \<Rightarrow> wvstring" where
  "mount_spec K C M q =
     (if prefix K q then (let r = drop (length K) q in if r = [] \<and> C r = None then Some [] else C r)
      else if strict_prefix q K \<and> M q = None then Some [] else M q)"

text \<open>A mount in front of the others: its way was made, and it has a root.\<close>

lemma mounts_made_mount:
  assumes "places ms' = (ident, k) # places ms" "mounts_made cts ms"
    "\<And>q. mounts_contents cts ms' q = mount_spec (map lower k) C (mounts_contents cts ms) q"
  shows "mounts_made cts ms'"
  unfolding mounts_made_def
proof (intro allI impI)
  fix p q assume p: "p < length ms'" "mount_of (gm_path (ms' ! p)) ms' = Some p" and q: "prefix q (gm_path (ms' ! p))"
  obtain x xs where x: "ms' = x # xs" "gm_key x = k" "places xs = places ms" using assms(1) by (cases ms') auto
  show "mounts_contents cts ms' q \<noteq> None"
  proof (cases p)
    case 0
    then have "prefix q (map lower k)" using q x by simp
    then show ?thesis unfolding assms(3)
      by (cases "q = map lower k") (auto simp: mount_spec_def Let_def strict_prefix_def)
  next
    case (Suc p')
    have "map gm_key xs = map gm_key ms" by (rule places_keys [OF x(3)])
    then have k: "gm_key (xs ! p') = gm_key (ms ! p')" using p(1) x(1) Suc by (metis Suc_less_eq length_Cons length_map nth_map)
    have n: "\<not> prefix (map lower k) (gm_path (ms ! p'))" and o: "mount_of (gm_path (ms ! p')) ms = Some p'"
      using p(2) x Suc k mount_of_keys [OF places_keys [OF x(3)]] by (auto split: if_splits)
    have "mounts_contents cts ms q \<noteq> None" using madeD [OF assms(2) o] q x Suc k by simp
    moreover have "\<not> prefix (map lower k) q" using n q x Suc k by (auto intro: prefix_order.trans)
    ultimately show ?thesis by (simp add: assms(3) mount_spec_def)
  qed
qed

text \<open>A value that is set in the mount of its key shows as in a single tree.\<close>

lemma set_contents:
  assumes "mounts_made cts ms" "mount_of K ms = Some p" "v \<noteq> None"
  defines "l \<equiv> length (gm_key (ms ! p))"
  shows "(if mount_of q ms = Some p then set_spec (drop l K) v (cts (gm_gen (ms ! p))) (drop l q) else mounts_contents cts ms q) =
    set_spec K v (mounts_contents cts ms) q"
proof (cases "prefix q K")
  case True
  show ?thesis
  proof (cases "prefix (gm_path (ms ! p)) q")
    case own: True
    then have o: "mount_of q ms = Some p" using mount_of_self [OF assms(2)] True by simp
    obtain r where r: "q = gm_path (ms ! p) @ r" using own by (auto simp: prefix_def)
    obtain r' where r': "K = q @ r'" using True by (auto simp: prefix_def)
    have l: "l = length (gm_path (ms ! p))" by (simp add: l_def)
    have "mounts_contents cts ms q = cts (gm_gen (ms ! p)) (drop l q)" by (simp add: mounts_contents_def o l_def)
    then show ?thesis using o by (auto simp: set_spec_def r r' l strict_prefix_def)
  next
    case False
    then have q: "strict_prefix q (gm_path (ms ! p))"
      using True mount_of_Some [OF assms(2)] prefix_same_cases by (metis strict_prefix_def)
    then have "mounts_contents cts ms q \<noteq> None" using madeD [OF assms(1,2)] by (simp add: strict_prefix_def)
    moreover have "mount_of q ms \<noteq> Some p" using False mount_of_Some [of q ms p] by blast
    moreover have "q \<noteq> K" using False mount_of_Some [OF assms(2)] by blast
    ultimately show ?thesis by (simp add: set_spec_def)
  qed
next
  case False
  then have "set_spec K v (mounts_contents cts ms) q = mounts_contents cts ms q" by (auto simp: set_spec_def strict_prefix_def)
  moreover have "set_spec (drop l K) v M (drop l q) = M (drop l q)" if o: "mount_of q ms = Some p" for M
  proof -
    obtain r where r: "q = gm_path (ms ! p) @ r" using mount_of_Some [OF o] by (auto simp: prefix_def)
    obtain r' where r': "K = gm_path (ms ! p) @ r'" using mount_of_Some [OF assms(2)] by (auto simp: prefix_def)
    have l: "l = length (gm_path (ms ! p))" by (simp add: l_def)
    show ?thesis using False by (auto simp: set_spec_def r r' l strict_prefix_def)
  qed
  ultimately show ?thesis by (simp add: mounts_contents_def l_def)
qed

text \<open>A change of the root of a mounted generator is reported with a trailing slash.\<close>

lemma mg_gencallback_root:
  assumes "plain_key mk" "mk \<noteq> []"
  shows "mg_gencallback mk [] v g = delta (mk @ [[]]) v g"
proof -
  have "nonempty_segs mk = mk" using assms(1) by (simp add: plain_key_def nonempty_segs_plain)
  then show ?thesis using assms(2)
    by (simp add: mg_gencallback_def key_concat_def Let_def key_isempty_def nonempty_segs_def key_collapse_def append_eq_Cons_conv)
qed

lemma mg_mounts_new [simp]: "mg_mounts mg_new = []"
  by (simp add: mg_new_def gen.defs)

lemma mg_valid_new: "mg_valid ops inner_valid this 0 mg_new" "mounts_made cts (mg_mounts mg_new)"
  by (simp_all add: mg_valid_def mg_new_def mounts_ok_def mounts_made_def gen_new_def gen.defs)

text \<open>What a section that may be held or not leaves.\<close>

definition told :: "notice list \<Rightarrow> 'i mountgen \<Rightarrow> 'i mountgen \<Rightarrow> bool" where
  "told ds g g' \<longleftrightarrow> mg_mounts g' = mg_mounts g \<and> gen_hold g' = gen_hold g \<and> gen_cblist g' = gen_cblist g \<and>
     (gen_hold g = 0 \<longrightarrow> gen_deltas g' = gen_deltas g \<and> gen_sent g' = gen_sent g @ sent_list (gen_cblist g) ds) \<and>
     (0 < gen_hold g \<longrightarrow> gen_deltas g' = gen_deltas g @ ds \<and> gen_sent g' = gen_sent g)"

lemma told_trans: "told ds g g1 \<Longrightarrow> told es (g1\<lparr>mg_mounts := ms\<rparr>) g' \<Longrightarrow> told (ds @ es) (g\<lparr>mg_mounts := ms\<rparr>) g'"
  by (simp add: told_def sent_list_append)

definition mount_notes :: "key \<Rightarrow> notice list \<Rightarrow> notice list" where
  "mount_notes mk ds = map (\<lambda>d. (key_concat mk (fst d), snd d)) ds"

text \<open>Making the way to a mount: keys on it that belong to a mount and are not there are set to the empty value.\<close>

definition made_spec :: "string list \<Rightarrow> 'i genmount list \<Rightarrow> (string list \<Rightarrow> wvstring) \<Rightarrow> string list \<Rightarrow> wvstring" where
  "made_spec K ms M q = (if prefix q K \<and> M q = None \<and> mount_of q ms \<noteq> None then Some [] else M q)"

context uni_gen
begin

lemma mounts_ok_mono: "mounts_ok ops valid this n ms \<Longrightarrow> n \<le> m \<Longrightarrow> mounts_ok ops valid this m ms"
  unfolding mounts_ok_def by (meson le_trans)

lemma mounts_okD:
  assumes "mounts_ok ops valid this n ms" "p < length ms"
  shows "\<exists>n' \<le> n. valid n' (gm_gen (ms ! p))" "plain_key (gm_key (ms ! p))" "this \<in> set (ig_callbacks ops (gm_gen (ms ! p)))"
    "sent_to this (ig_sent ops (gm_gen (ms ! p))) = []"
  using assms by (auto simp: mounts_ok_def)

lemma mounts_ok_keys: "mounts_ok ops valid this n ms \<Longrightarrow> \<forall>m \<in> set ms. plain_key (gm_key m)"
  by (simp add: mounts_ok_def)

lemma trim_spec:
  assumes "mounts_ok ops valid this n ms" "plain_key k" "int (length k) \<le> klen" "mount_of (map lower k) ms = Some p"
  defines "t \<equiv> trimkey (gm_key (ms ! p)) k"
  shows "key_ok klen t" "t = drop (length (gm_key (ms ! p))) k" "plain_key t" "length (gm_key (ms ! p)) \<le> length k"
    "get_spec t M = M (drop (length (gm_key (ms ! p))) (map lower k))"
proof -
  have l: "length (gm_key (ms ! p)) \<le> length k"
    using mount_of_Some [OF assms(4)] prefix_length_le [of "gm_path (ms ! p)" "map lower k"] by simp
  then show t: "t = drop (length (gm_key (ms ! p))) k" "length (gm_key (ms ! p)) \<le> length k"
    unfolding t_def using assms(2) by (simp_all add: trimkey_plain)
  show p: "plain_key t" unfolding t by (rule plain_key_drop [OF assms(2)])
  then show "key_ok klen t" by (rule plain_key_ok) (use assms(3) in \<open>simp add: t\<close>)
  show "get_spec t M = M (drop (length (gm_key (ms ! p))) (map lower k))"
    using plain_key_no_slash [OF p] plain_key_path [OF p] by (simp add: get_spec_def t drop_map)
qed

lemma mg_get_spec:
  assumes "mounts_ok ops valid this n (mg_mounts g)" "plain_key k" "int (length k) \<le> klen"
  shows "mg_get ops k g = Some (mg_contents contents g (map lower k))"
proof (cases "mount_of (map lower k) (mg_mounts g)")
  case None
  then show ?thesis
    using assms findmount_plain [OF assms(2) mounts_ok_keys [OF assms(1)]] has_subkey_None [OF assms(2) mounts_ok_keys [OF assms(1)]]
    by (simp add: mg_get_def mounts_contents_def)
next
  case (Some p)
  note t = trim_spec [OF assms Some]
  obtain n' where "valid n' (gm_gen (mg_mounts g ! p))" using mounts_okD [OF assms(1)] mount_of_Some [OF Some] by blast
  from get_law [OF this t(1)] show ?thesis
    using findmount_plain [OF assms(2) mounts_ok_keys [OF assms(1)]] t(5) Some by (simp add: mg_get_def mounts_contents_def Let_def)
qed

text \<open>\<open>exists\<close> also holds of a key above a mount that its own generator does not have.\<close>

lemma mg_exists_spec:
  assumes "mounts_ok ops valid this n (mg_mounts g)" "plain_key k" "int (length k) \<le> klen"
  shows "mg_exists ops k g = Some (mg_contents contents g (map lower k) \<noteq> None \<or>
    (\<exists>p. mount_of (map lower k) (mg_mounts g) = Some p \<and> (\<exists>m \<in> set (take (Suc p) (mg_mounts g)). strict_prefix (map lower k) (gm_path m))))"
proof (cases "mount_of (map lower k) (mg_mounts g)")
  case None
  then show ?thesis
    using assms findmount_plain [OF assms(2) mounts_ok_keys [OF assms(1)]] has_subkey_None [OF assms(2) mounts_ok_keys [OF assms(1)]]
    by (simp add: mg_exists_def mounts_contents_def)
next
  case (Some p)
  note t = trim_spec [OF assms Some]
  obtain n' where "valid n' (gm_gen (mg_mounts g ! p))" using mounts_okD [OF assms(1)] mount_of_Some [OF Some] by blast
  from exists_law [OF this t(1)] show ?thesis
    using findmount_plain [OF assms(2) mounts_ok_keys [OF assms(1)]] has_subkey_Some [OF assms(2) mounts_ok_keys [OF assms(1)], of p] t(5) Some
    by (simp add: mg_exists_def mounts_contents_def Let_def)
qed

lemma mg_exists_made:
  assumes "mounts_ok ops valid this n (mg_mounts g)" "mounts_made contents (mg_mounts g)" "plain_key k" "int (length k) \<le> klen"
  shows "mg_exists ops k g = Some (mg_contents contents g (map lower k) \<noteq> None)"
  using mg_exists_spec [OF assms(1,3,4)] made_above [OF assms(2), of _ _ "map lower k"] by fastforce

text \<open>When the keys that lead to mounts are there, children are what the contents say.\<close>

lemma mg_haschildren_spec:
  assumes "mounts_ok ops valid this n (mg_mounts g)" "mounts_made contents (mg_mounts g)" "plain_key k" "int (length k) \<le> klen"
  shows "mg_haschildren ops k g = Some (haschildren_spec k (mg_contents contents g))"
proof -
  let ?q = "map lower k" and ?ms = "mg_mounts g"
  have q: "key_path k = ?q" by (rule plain_key_path [OF assms(3)])
  note keys = mounts_ok_keys [OF assms(1)]
  show ?thesis
  proof (cases "mount_of ?q ?ms")
    case None
    have up: "haschildren_spec k (mg_contents contents g)" if "has_subkey k None ?ms"
      using that made_above [OF assms(2), of _ "length ?ms" ?q] None
      by (fastforce simp: has_subkey_None [OF assms(3) keys] haschildren_spec_def q)
    have down: "has_subkey k None ?ms" if c: "mg_contents contents g (?q @ [s]) \<noteq> None" for s
    proof -
      obtain m where "m \<in> set ?ms" "prefix (gm_path m) (?q @ [s]) \<or> strict_prefix (?q @ [s]) (gm_path m)"
        using contents_mount [OF c] by blast
      then have "m \<in> set ?ms" "strict_prefix ?q (gm_path m)"
        using None by (auto simp: mount_of_None prefix_snoc strict_prefix_def dest: append_prefixD)
      then show ?thesis by (auto simp: has_subkey_None [OF assms(3) keys])
    qed
    show ?thesis using up down None findmount_plain [OF assms(3) keys]
      by (auto simp: mg_haschildren_def haschildren_spec_def q)
  next
    case (Some p)
    note t = trim_spec [OF assms(1,3,4) Some]
    let ?i = "gm_gen (?ms ! p)" and ?l = "length (gm_key (?ms ! p))"
    obtain n' where n': "valid n' ?i" using mounts_okD [OF assms(1)] mount_of_Some [OF Some] by blast
    have tp: "key_path (trimkey (gm_key (?ms ! p)) k) = drop ?l ?q" using plain_key_path [OF t(3)] t(2) by (simp add: drop_map)
    have inner: "mg_contents contents g (?q @ [s]) = contents ?i (drop ?l ?q @ [s])" if "mount_of (?q @ [s]) ?ms = Some p" for s
      using that t(4) by (simp add: mounts_contents_def)
    have up1: "haschildren_spec k (mg_contents contents g)" if "has_subkey k (Some p) ?ms"
      using that made_above [OF assms(2), of _ "Suc p" ?q] Some
      by (fastforce simp: has_subkey_Some [OF assms(3) keys] haschildren_spec_def q)
    have other: "has_subkey k (Some p) ?ms" if c: "mount_of (?q @ [s]) ?ms \<noteq> Some p" for s
    proof -
      have "prefix (gm_path (?ms ! p)) (?q @ [s])" using mount_of_Some [OF Some] by (auto intro: prefix_prefix)
      then have "\<exists>i < p. prefix (gm_path (?ms ! i)) (?q @ [s])" using c mount_of_Some [OF Some] mount_of_eq [of p ?ms "?q @ [s]"] by blast
      then obtain i where i: "i < p" "prefix (gm_path (?ms ! i)) (?q @ [s])" by blast
      then have "gm_path (?ms ! i) = ?q @ [s]" using mount_of_Some [OF Some] by (simp add: prefix_snoc)
      moreover have "?ms ! i \<in> set (take (Suc p) ?ms)"
        using nth_mem [of i "take (Suc p) ?ms"] i(1) mount_of_Some [OF Some] by simp
      ultimately show ?thesis by (auto simp: has_subkey_Some [OF assms(3) keys] strict_prefix_def intro!: bexI [of _ "?ms ! i"])
    qed
    have up2: "haschildren_spec k (mg_contents contents g)" if h: "haschildren_spec (trimkey (gm_key (?ms ! p)) k) (contents ?i)"
    proof -
      obtain s where s: "contents ?i (drop ?l ?q @ [s]) \<noteq> None" using h by (auto simp: haschildren_spec_def tp)
      show ?thesis
      proof (cases "mount_of (?q @ [s]) ?ms = Some p")
        case True
        then show ?thesis using inner [OF True] s unfolding haschildren_spec_def q by (intro exI [of _ s]) simp
      next
        case False
        then show ?thesis using up1 other by blast
      qed
    qed
    have down: "has_subkey k (Some p) ?ms \<or> haschildren_spec (trimkey (gm_key (?ms ! p)) k) (contents ?i)"
      if h: "haschildren_spec k (mg_contents contents g)"
    proof -
      obtain s where s: "mg_contents contents g (?q @ [s]) \<noteq> None" using h by (auto simp: haschildren_spec_def q)
      show ?thesis
      proof (cases "mount_of (?q @ [s]) ?ms = Some p")
        case True
        then show ?thesis using inner [OF True] s unfolding haschildren_spec_def tp by (intro disjI2 exI [of _ s]) simp
      next
        case False
        then show ?thesis using other by blast
      qed
    qed
    show ?thesis using up1 up2 down Some findmount_plain [OF assms(3) keys] haschildren_law [OF n' t(1)]
      by (auto simp: mg_haschildren_def Let_def)
  qed
qed

subsection \<open>A change in one mount\<close>

lemma mg_callbacks_eq:
  "mg_callbacks mk ds g = delta_list (map (\<lambda>d. (key_concat mk (fst d), snd d)) ds) g"
  by (induction ds arbitrary: g) (simp_all add: mg_gencallback_def)

lemma delta_list_told: "0 \<le> gen_hold g \<Longrightarrow> \<exists>g'. delta_list ds g = Some g' \<and> told ds g g'"
  by (cases "gen_hold g = 0") (simp_all add: delta_list_free delta_list_held told_def)

lemma mg_after_spec:
  assumes "mounts_ok ops valid this n (mg_mounts g)" "p < length (mg_mounts g)" "0 \<le> gen_hold g"
    "valid n' i" "n' \<le> n" "this \<in> set (ig_callbacks ops i)"
  shows "\<exists>g'. mg_after ops this p i g = Some g' \<and>
    told (mount_notes (gm_key (mg_mounts g ! p)) (sent_to this (ig_sent ops i)))
      (g\<lparr>mg_mounts := (mg_mounts g)[p := (mg_mounts g ! p)\<lparr>gm_gen := ig_forget ops this i\<rparr>]\<rparr>) g' \<and>
    mounts_ok ops valid this n (mg_mounts g')"
proof -
  let ?ms = "(mg_mounts g)[p := (mg_mounts g ! p)\<lparr>gm_gen := ig_forget ops this i\<rparr>]"
  obtain g' where g': "delta_list (mount_notes (gm_key (mg_mounts g ! p)) (sent_to this (ig_sent ops i))) (g\<lparr>mg_mounts := ?ms\<rparr>) = Some g'"
    "told (mount_notes (gm_key (mg_mounts g ! p)) (sent_to this (ig_sent ops i))) (g\<lparr>mg_mounts := ?ms\<rparr>) g'"
    using delta_list_told [of "g\<lparr>mg_mounts := ?ms\<rparr>"] assms(3) by auto
  have f: "valid n' (ig_forget ops this i)" "this \<in> set (ig_callbacks ops (ig_forget ops this i))"
    "sent_to this (ig_sent ops (ig_forget ops this i)) = []"
    using forget_law [OF assms(4), of this] assms(6) by (simp_all add: sent_to_def)
  have "map gm_id ?ms = map gm_id (mg_mounts g)" using assms(2) by (simp add: map_update list_update_same_conv)
  then have "mounts_ok ops valid this n ?ms"
    using assms(1,2,5) f by (auto simp: mounts_ok_def dest!: set_update_subset_insert [THEN subsetD])
  then show ?thesis using g' by (simp add: mg_after_def mg_callbacks_eq mount_notes_def told_def)
qed

text \<open>A mounted generator is told to set a key, and what it sends is taken up.\<close>

lemma mount_set_spec:
  assumes "mounts_ok ops valid this n (mg_mounts g)" "p < length (mg_mounts g)" "0 \<le> gen_hold g" "n < 26000" "key_ok klen t"
    "v = None \<or> val_ok v"
  defines "m \<equiv> mg_mounts g ! p"
  shows "\<exists>i' g' ds. ig_set ops t v (gm_gen m) = Some i' \<and> mg_after ops this p i' g = Some g' \<and>
    mg_mounts g' = (mg_mounts g)[p := m\<lparr>gm_gen := ig_forget ops this i'\<rparr>] \<and>
    mounts_ok ops valid this (Suc n) (mg_mounts g') \<and> places (mg_mounts g') = places (mg_mounts g) \<and>
    told (mount_notes (gm_key m) ds) (g\<lparr>mg_mounts := mg_mounts g'\<rparr>) g' \<and>
    (\<forall>q. mg_contents contents g' q = (if mount_of q (mg_mounts g) = Some p
       then update_spec t v (contents (gm_gen m)) (drop (length (gm_key m)) q) else mg_contents contents g q)) \<and>
    foldl key_note (contents (gm_gen m)) ds = update_spec t v (contents (gm_gen m)) \<and> (\<forall>d \<in> set ds. notice_ok klen d)"
proof -
  note p = assms(2)
  obtain n' where n': "valid n' (gm_gen m)" "n' \<le> n" "this \<in> set (ig_callbacks ops (gm_gen m))" "sent_to this (ig_sent ops (gm_gen m)) = []"
    using mounts_okD [OF assms(1) p] by (auto simp: m_def)
  obtain i' ds where i': "ig_set ops t v (gm_gen m) = Some i'" "valid (Suc n') i'" "contents i' = update_spec t v (contents (gm_gen m))"
    "ig_callbacks ops i' = ig_callbacks ops (gm_gen m)"
    "ig_sent ops i' = ig_sent ops (gm_gen m) @ sent_list (ig_callbacks ops (gm_gen m)) ds"
    "foldl key_note (contents (gm_gen m)) ds = contents i'" "\<forall>d \<in> set ds. notice_ok klen d"
    using set_law [OF n'(1), of t v] n'(2) assms(4-6) by auto
  have ds: "sent_to this (ig_sent ops i') = ds"
    using i'(5) n'(3,4) callbacks_law [OF n'(1)] by (simp add: sent_to_append sent_to_list)
  have ok: "mounts_ok ops valid this (Suc n) (mg_mounts g)" by (rule mounts_ok_mono [OF assms(1)]) simp
  obtain g' where g': "mg_after ops this p i' g = Some g'"
    "told (mount_notes (gm_key m) ds) (g\<lparr>mg_mounts := (mg_mounts g)[p := m\<lparr>gm_gen := ig_forget ops this i'\<rparr>]\<rparr>) g'"
    "mounts_ok ops valid this (Suc n) (mg_mounts g')"
    using mg_after_spec [OF ok p assms(3) i'(2)] n'(2,3) i'(4) by (auto simp: ds m_def)
  have ms: "mg_mounts g' = (mg_mounts g)[p := m\<lparr>gm_gen := ig_forget ops this i'\<rparr>]" using g'(2) by (simp add: told_def)
  have "places (mg_mounts g') = places (mg_mounts g)"
    using p by (simp add: ms m_def map_update list_update_same_conv)
  moreover have "mg_contents contents g' q = (if mount_of q (mg_mounts g) = Some p
       then update_spec t v (contents (gm_gen m)) (drop (length (gm_key m)) q) else mg_contents contents g q)" for q
    using forget_law [OF i'(2), of this] i'(3) by (simp add: ms m_def mounts_contents_update [OF p])
  ultimately show ?thesis using i'(1) g' i'(3,6,7) ms by (intro exI [of _ i'] exI [of _ g'] exI [of _ ds]) simp
qed

lemma mg_set_spec:
  assumes "mounts_ok ops valid this n (mg_mounts g)" "0 \<le> gen_hold g" "n < 26000" "plain_key k" "int (length k) \<le> klen"
    "v = None \<or> val_ok v" "mount_of (map lower k) (mg_mounts g) = Some p"
  defines "m \<equiv> mg_mounts g ! p"
  defines "t \<equiv> trimkey (gm_key m) k"
  shows "\<exists>g' ds. mg_set ops this k v g = Some g' \<and> mounts_ok ops valid this (Suc n) (mg_mounts g') \<and>
    places (mg_mounts g') = places (mg_mounts g) \<and>
    told (mount_notes (gm_key m) ds) (g\<lparr>mg_mounts := mg_mounts g'\<rparr>) g' \<and>
    (\<forall>q. mg_contents contents g' q = (if mount_of q (mg_mounts g) = Some p
       then update_spec t v (contents (gm_gen m)) (drop (length (gm_key m)) q) else mg_contents contents g q)) \<and>
    foldl key_note (contents (gm_gen m)) ds = update_spec t v (contents (gm_gen m)) \<and> (\<forall>d \<in> set ds. notice_ok klen d)"
proof -
  have p: "p < length (mg_mounts g)" using mount_of_Some [OF assms(7)] by simp
  have "key_ok klen t" using trim_spec(1) [OF assms(1,4,5,7)] by (simp add: t_def m_def)
  from mount_set_spec [OF assms(1) p assms(2,3) this assms(6)]
  obtain i' g' ds where g': "ig_set ops t v (gm_gen m) = Some i'" "mg_after ops this p i' g = Some g'"
    "mounts_ok ops valid this (Suc n) (mg_mounts g')" "places (mg_mounts g') = places (mg_mounts g)"
    "told (mount_notes (gm_key m) ds) (g\<lparr>mg_mounts := mg_mounts g'\<rparr>) g'"
    "\<forall>q. mg_contents contents g' q = (if mount_of q (mg_mounts g) = Some p
       then update_spec t v (contents (gm_gen m)) (drop (length (gm_key m)) q) else mg_contents contents g q)"
    "foldl key_note (contents (gm_gen m)) ds = update_spec t v (contents (gm_gen m))" "\<forall>d \<in> set ds. notice_ok klen d"
    unfolding m_def by blast
  have "mg_set ops this k v g = Some g'"
    using findmount_plain [OF assms(4) mounts_ok_keys [OF assms(1)]] assms(7) g'(1,2) by (simp add: mg_set_def t_def m_def)
  then show ?thesis using g'(3-8) by blast
qed

text \<open>A value that is set, with or without a mount for its key.\<close>

lemma mg_set_value:
  assumes "mounts_ok ops valid this n (mg_mounts g)" "mounts_made contents (mg_mounts g)" "0 \<le> gen_hold g" "n < 26000"
    "plain_key k" "int (length k) \<le> klen" "val_ok v"
  shows "\<exists>g' es. mg_set ops this k v g = Some g' \<and> mounts_ok ops valid this (Suc n) (mg_mounts g') \<and>
    places (mg_mounts g') = places (mg_mounts g) \<and> mounts_made contents (mg_mounts g') \<and>
    told es (g\<lparr>mg_mounts := mg_mounts g'\<rparr>) g' \<and>
    (\<forall>q. mg_contents contents g' q = (if mount_of (map lower k) (mg_mounts g) = None then mg_contents contents g q
       else set_spec (map lower k) v (mg_contents contents g) q))"
proof (cases "mount_of (map lower k) (mg_mounts g)")
  case None
  then have "mg_set ops this k v g = Some g"
    using findmount_plain [OF assms(5) mounts_ok_keys [OF assms(1)]] by (simp add: mg_set_def)
  moreover have "mounts_ok ops valid this (Suc n) (mg_mounts g)" by (rule mounts_ok_mono [OF assms(1)]) simp
  ultimately show ?thesis using None assms(2) by (intro exI [of _ g] exI [of _ "[]"]) (simp add: told_def)
next
  case (Some p)
  have v: "v \<noteq> None" by (rule val_ok_Some [OF assms(7)])
  note t = trim_spec [OF assms(1,5,6) Some]
  let ?m = "mg_mounts g ! p"
  have u: "update_spec (trimkey (gm_key ?m) k) v M = set_spec (drop (length (gm_key ?m)) (map lower k)) v M" for M
    using v plain_key_no_slash [OF t(3)] plain_key_path [OF t(3)] by (auto simp: update_spec_def t(2) drop_map)
  obtain g' ds where g': "mg_set ops this k v g = Some g'" "mounts_ok ops valid this (Suc n) (mg_mounts g')"
    "places (mg_mounts g') = places (mg_mounts g)"
    "told (mount_notes (gm_key ?m) ds) (g\<lparr>mg_mounts := mg_mounts g'\<rparr>) g'"
    "\<forall>q. mg_contents contents g' q = (if mount_of q (mg_mounts g) = Some p
       then update_spec (trimkey (gm_key ?m) k) v (contents (gm_gen ?m)) (drop (length (gm_key ?m)) q) else mg_contents contents g q)"
    using mg_set_spec [OF assms(1,3,4,5,6) _ Some, of v] assms(7) by blast
  have c: "\<forall>q. mg_contents contents g' q = set_spec (map lower k) v (mg_contents contents g) q"
    by (simp only: g'(5) [rule_format] u set_contents [OF assms(2) Some v] simp_thms)
  have "mounts_made contents (mg_mounts g')"
    by (rule mounts_made_mono [OF assms(2) g'(3)]) (use v in \<open>simp add: c set_spec_def\<close>)
  then show ?thesis using g' c Some by (intro exI [of _ g'] exI [of _ "mount_notes (gm_key ?m) ds"]) simp
qed

subsection \<open>Mounting and unmounting\<close>

definition way_made :: "string list \<Rightarrow> 's mountgen \<Rightarrow> bool" where
  "way_made K g \<longleftrightarrow> (\<forall>q. prefix q K \<longrightarrow> mount_of q (mg_mounts g) \<noteq> None \<longrightarrow> mg_contents contents g q \<noteq> None)"

lemma val_ok_empty: "val_ok (Some [])"
  by (simp add: val_ok_def)

lemma way_made_Nil: "mounts_made contents (mg_mounts g) \<Longrightarrow> way_made [] g"
  by (auto simp: way_made_def dest: madeD [where q = "[]"])

text \<open>Above a key that belongs to a mount, with the way to it made up to there, nothing is missing.\<close>

lemma way_above:
  assumes "mounts_made contents (mg_mounts g)" "way_made K g" "mount_of (K @ [s]) (mg_mounts g) \<noteq> None" "prefix q K"
  shows "mg_contents contents g q \<noteq> None"
proof (cases "mount_of q (mg_mounts g)")
  case None
  obtain p where p: "mount_of (K @ [s]) (mg_mounts g) = Some p" using assms(3) by auto
  note P = mount_of_Some [OF p]
  have "\<not> prefix (gm_path (mg_mounts g ! p)) q" using None P by (auto simp: mount_of_None)
  then have "prefix q (gm_path (mg_mounts g ! p))" using assms(4) P prefix_same_cases [of q "K @ [s]"] by auto
  then show ?thesis by (rule madeD [OF assms(1) p])
qed (use assms(2,4) in \<open>auto simp: way_made_def\<close>)

lemma makemount_loop_spec:
  assumes "mounts_ok ops valid this n (mg_mounts g)" "mounts_made contents (mg_mounts g)" "0 \<le> gen_hold g"
    "n + length ss \<le> 26000" "plain_key (pts @ ss)" "int (length (pts @ ss)) \<le> klen" "way_made (map lower pts) g"
  shows "\<exists>g' es. makemount_loop ops this (map (\<lambda>s. [s]) ss) pts g = Some (pts @ ss, g') \<and>
    mounts_ok ops valid this (n + length ss) (mg_mounts g') \<and> places (mg_mounts g') = places (mg_mounts g) \<and>
    mounts_made contents (mg_mounts g') \<and> way_made (map lower (pts @ ss)) g' \<and>
    told es (g\<lparr>mg_mounts := mg_mounts g'\<rparr>) g' \<and>
    (\<forall>q. mg_contents contents g' q = made_spec (map lower (pts @ ss)) (mg_mounts g) (mg_contents contents g) q)"
  using assms
proof (induction ss arbitrary: n g pts)
  case Nil
  then show ?case
    by (intro exI [of _ g] exI [of _ "[]"]) (auto simp: told_def made_spec_def way_made_def)
next
  case (Cons s ss)
  let ?P = "pts @ [s]" and ?M = "mg_contents contents g"
  have pl: "plain_key ?P" "int (length ?P) \<le> klen" "plain_segs pts" "plain_segs [s]"
    using plain_key_take [OF Cons.prems(5), of "Suc (length pts)"] Cons.prems(5,6) by (auto simp: plain_key_def)
  have a: "key_append pts [s] = ?P" using key_append_plain [OF pl(3,4)] by simp
  have v: "mg_get ops ?P g = Some (?M (map lower ?P))" by (rule mg_get_spec [OF Cons.prems(1) pl(1,2)])
  obtain g1 es1 where g1: "(if ?M (map lower ?P) = None then mg_set ops this ?P (Some []) g else Some g) = Some g1"
    "mounts_ok ops valid this (Suc n) (mg_mounts g1)" "places (mg_mounts g1) = places (mg_mounts g)"
    "mounts_made contents (mg_mounts g1)" "told es1 (g\<lparr>mg_mounts := mg_mounts g1\<rparr>) g1"
    "\<forall>q. mg_contents contents g1 q = (if ?M (map lower ?P) = None \<and> mount_of (map lower ?P) (mg_mounts g) \<noteq> None
       then set_spec (map lower ?P) (Some []) ?M q else ?M q)"
  proof (cases "?M (map lower ?P) = None")
    case True
    have "n < 26000" using Cons.prems(4) by simp
    from mg_set_value [OF Cons.prems(1-3) this pl(1,2) val_ok_empty]
    obtain g1 es1 where "mg_set ops this ?P (Some []) g = Some g1" "mounts_ok ops valid this (Suc n) (mg_mounts g1)"
      "places (mg_mounts g1) = places (mg_mounts g)" "mounts_made contents (mg_mounts g1)"
      "told es1 (g\<lparr>mg_mounts := mg_mounts g1\<rparr>) g1"
      "\<forall>q. mg_contents contents g1 q = (if mount_of (map lower ?P) (mg_mounts g) = None then ?M q else set_spec (map lower ?P) (Some []) ?M q)"
      by blast
    then show thesis using that [of g1 es1] True by (cases "mount_of (map lower ?P) (mg_mounts g)"; simp)
  next
    case False
    then obtain y where "?M (map lower ?P) = Some y" by blast
    then show thesis
      using that [of g "[]"] Cons.prems(2) mounts_ok_mono [OF Cons.prems(1), of "Suc n"] by (simp add: told_def)
  qed
  have c: "mg_contents contents g1 q = (if q = map lower ?P \<and> ?M q = None \<and> mount_of q (mg_mounts g) \<noteq> None then Some [] else ?M q)" for q
    using g1(6) way_above [OF Cons.prems(2,7), of "lower s" q] by (auto simp: set_spec_def strict_prefix_def)
  note mo = mount_of_keys [OF places_keys [OF g1(3)]]
  have w: "way_made (map lower ?P) g1"
    using Cons.prems(7) by (auto simp: way_made_def c mo)
  obtain g' es where g': "makemount_loop ops this (map (\<lambda>s. [s]) ss) ?P g1 = Some (?P @ ss, g')"
    "mounts_ok ops valid this (Suc n + length ss) (mg_mounts g')" "places (mg_mounts g') = places (mg_mounts g1)"
    "mounts_made contents (mg_mounts g')" "way_made (map lower (?P @ ss)) g'" "told es (g1\<lparr>mg_mounts := mg_mounts g'\<rparr>) g'"
    "\<forall>q. mg_contents contents g' q = made_spec (map lower (?P @ ss)) (mg_mounts g1) (mg_contents contents g1) q"
    using Cons.IH [OF g1(2,4), of ?P] g1(5) Cons.prems(3-6) w by (auto simp: told_def)
  have "made_spec (map lower (?P @ ss)) (mg_mounts g1) (mg_contents contents g1) q = made_spec (map lower (pts @ s # ss)) (mg_mounts g) ?M q" for q
    by (auto simp: made_spec_def c mo)
  moreover have "told (es1 @ es) (g\<lparr>mg_mounts := mg_mounts g'\<rparr>) g'" using told_trans [OF g1(5) g'(6)] by simp
  ultimately show ?case using g' g1(1,3) v a
    by (intro exI [of _ g'] exI [of _ "es1 @ es"]) (simp add: Let_def)
qed

lemma key_segments_plain: "plain_key k \<Longrightarrow> key_segments k = map (\<lambda>s. [s]) k"
proof (rule nth_equalityI)
  assume k: "plain_key k"
  show "length (key_segments k) = length (map (\<lambda>s. [s]) k)" by (simp add: key_segments_def key_numsegments_def)
  fix j assume "j < length (key_segments k)"
  then have j: "j < length k" by (simp add: key_segments_def key_numsegments_def)
  have "k ! j \<noteq> []"
  proof
    assume "k ! j = []"
    then show False using k nth_mem [OF j] by (simp add: plain_key_def plain_segs_def)
  qed
  moreover have "take (Suc 0) (drop j k) = [k ! j]" using j by (simp add: take_Suc_conv_app_nth)
  ultimately show "key_segments k ! j = map (\<lambda>s. [s]) k ! j"
    using j by (simp add: key_segments_def key_numsegments_def key_segment_def key_range_def Let_def key_collapse_def)
qed

lemma key_removelast_butlast: "plain_key k \<Longrightarrow> key_removelast k 1 = butlast k"
  by (cases k rule: rev_cases) (auto simp: plain_key_def key_removelast_plain,
    simp add: key_removelast_def key_range_def Let_def key_numsegments_def key_collapse_def)

text \<open>The mount point is created in the generator around it too, where it cannot be seen.\<close>

lemma makemount_spec:
  assumes "mounts_ok ops valid this n (mg_mounts g)" "mounts_made contents (mg_mounts g)" "0 \<le> gen_hold g"
    "n + length k < 26000" "plain_key k" "int (length k) \<le> klen"
  shows "\<exists>g' es. makemount ops this k g = Some g' \<and> mounts_ok ops valid this (Suc (n + length k)) (mg_mounts g') \<and>
    places (mg_mounts g') = places (mg_mounts g) \<and> mounts_made contents (mg_mounts g') \<and> way_made (map lower k) g' \<and>
    told es (g\<lparr>mg_mounts := mg_mounts g'\<rparr>) g' \<and>
    (\<forall>q. mg_contents contents g' q = made_spec (map lower k) (mg_mounts g) (mg_contents contents g) q)"
proof -
  obtain g1 es1 where g1: "makemount_loop ops this (key_segments k) [] g = Some (k, g1)"
    "mounts_ok ops valid this (n + length k) (mg_mounts g1)" "places (mg_mounts g1) = places (mg_mounts g)"
    "mounts_made contents (mg_mounts g1)" "way_made (map lower k) g1" "told es1 (g\<lparr>mg_mounts := mg_mounts g1\<rparr>) g1"
    "\<forall>q. mg_contents contents g1 q = made_spec (map lower k) (mg_mounts g) (mg_contents contents g) q"
    using makemount_loop_spec [OF assms(1-3), of k "[]"] assms(4-6) way_made_Nil [OF assms(2)] by (auto simp: key_segments_plain [OF assms(5)])
  have h: "0 \<le> gen_hold g1" using g1(6) assms(3) by (simp add: told_def)
  have ok1: "mounts_ok ops valid this (Suc (n + length k)) (mg_mounts g1)" by (rule mounts_ok_mono [OF g1(2)]) simp
  have b: "plain_key (butlast k)" using plain_key_take [OF assms(5)] by (simp add: butlast_conv_take)
  have f: "findmount (key_removelast k 1) (mg_mounts g1) = mount_of (map lower (butlast k)) (mg_mounts g1)"
    using findmount_plain [OF b mounts_ok_keys [OF g1(2)]] by (simp add: key_removelast_butlast [OF assms(5)])
  show ?thesis
  proof (cases "mount_of (map lower (butlast k)) (mg_mounts g1)")
    case None
    then show ?thesis using g1 f ok1 by (intro exI [of _ g1] exI [of _ es1]) (simp add: makemount_def)
  next
    case (Some p)
    let ?m = "mg_mounts g1 ! p" and ?K = "map lower k"
    note P = mount_of_Some [OF Some]
    have pre: "prefix (gm_path ?m) ?K" using P by (metis butlast_conv_take map_butlast prefix_order.trans take_is_prefix)
    then have l: "length (gm_key ?m) \<le> length k" using prefix_length_le [OF pre] by simp
    define t where "t = trimkey (gm_key ?m) k"
    have t: "t = drop (length (gm_key ?m)) k" unfolding t_def by (rule trimkey_plain [OF assms(5) l])
    have tp: "plain_key t" unfolding t by (rule plain_key_drop [OF assms(5)])
    have tk: "key_ok klen t" by (rule plain_key_ok [OF tp]) (use assms(6) in \<open>simp add: t\<close>)
    obtain n' where n': "valid n' (gm_gen ?m)" using mounts_okD [OF g1(2)] P by blast
    have v: "ig_get ops t (gm_gen ?m) = Some (contents (gm_gen ?m) (drop (length (gm_key ?m)) ?K))"
      using get_law [OF n' tk] plain_key_no_slash [OF tp] plain_key_path [OF tp] by (simp add: get_spec_def t drop_map)
    show ?thesis
    proof (cases "contents (gm_gen ?m) (drop (length (gm_key ?m)) ?K) = None")
      case False
      then show ?thesis using g1 f ok1 Some v by (intro exI [of _ g1] exI [of _ es1]) (auto simp: makemount_def t_def)
    next
      case True
      obtain i' g' ds where g': "ig_set ops t (Some []) (gm_gen ?m) = Some i'" "mg_after ops this p i' g1 = Some g'"
        "mounts_ok ops valid this (Suc (n + length k)) (mg_mounts g')" "places (mg_mounts g') = places (mg_mounts g1)"
        "told (mount_notes (gm_key ?m) ds) (g1\<lparr>mg_mounts := mg_mounts g'\<rparr>) g'"
        "\<forall>q. mg_contents contents g' q = (if mount_of q (mg_mounts g1) = Some p
           then update_spec t (Some []) (contents (gm_gen ?m)) (drop (length (gm_key ?m)) q) else mg_contents contents g1 q)"
        using mount_set_spec [OF g1(2) _ h assms(4) tk, of p "Some []"] P val_ok_empty by blast
      have u: "update_spec t (Some []) M = set_spec (drop (length (gm_key ?m)) ?K) (Some []) M" for M
        using plain_key_no_slash [OF tp] plain_key_path [OF tp] by (auto simp: update_spec_def t drop_map)
      have nK: "mount_of ?K (mg_mounts g1) \<noteq> Some p"
        using g1(5) True by (auto simp: way_made_def mounts_contents_def)
      have c: "mg_contents contents g' q = mg_contents contents g1 q" for q
      proof (cases "mount_of q (mg_mounts g1) = Some p")
        case own: True
        obtain r where r: "q = gm_path ?m @ r" using mount_of_Some [OF own] by (auto simp: prefix_def)
        obtain r' where r': "?K = gm_path ?m @ r'" using pre by (auto simp: prefix_def)
        have len: "length (gm_key ?m) = length (gm_path ?m)" by simp
        have "r \<noteq> r'" using own nK r r' by auto
        moreover have "contents (gm_gen ?m) r \<noteq> None" if "strict_prefix r r'"
        proof -
          have "prefix q ?K" using that by (simp add: r r' strict_prefix_def)
          then have "mg_contents contents g1 q \<noteq> None" using g1(5) own by (simp add: way_made_def)
          then show ?thesis using own by (simp add: mounts_contents_def r)
        qed
        ultimately have "set_spec (drop (length (gm_key ?m)) ?K) (Some []) (contents (gm_gen ?m)) (drop (length (gm_key ?m)) q) =
            contents (gm_gen ?m) (drop (length (gm_key ?m)) q)"
          unfolding len r r' by (simp add: set_spec_def)
        then show ?thesis using g'(6) own by (simp add: u mounts_contents_def)
      qed (use g'(6) in simp)
      have "mounts_made contents (mg_mounts g')" by (rule mounts_made_mono [OF g1(4) g'(4)]) (simp add: c)
      moreover have "way_made ?K g'" using g1(5) by (simp add: way_made_def c mount_of_keys [OF places_keys [OF g'(4)]])
      moreover have "makemount ops this k g = Some g'" using g1(1) f Some v True g'(1,2) by (simp add: makemount_def t_def)
      ultimately show ?thesis using g' g1(3,7) c told_trans [OF g1(6) g'(5)]
        by (intro exI [of _ g'] exI [of _ "es1 @ mount_notes (gm_key ?m) ds"]) simp
    qed
  qed
qed

lemma key_root_eq: "key_root = []"
  unfolding key_root_def by code_simp

lemma mounts_okI:
  assumes "mounts_ok ops valid this n ms" "valid n i" "plain_key k" "this \<in> set (ig_callbacks ops i)"
    "sent_to this (ig_sent ops i) = []" "ident \<notin> set (map gm_id ms)"
  shows "mounts_ok ops valid this n (\<lparr>gm_id = ident, gm_key = k, gm_gen = i\<rparr> # ms)"
  using assms by (auto simp: mounts_ok_def)

text \<open>What is mounted is seen at its mount point, with a root; what led nowhere leads to it, and the rest is as before.\<close>

lemma mg_mountgen_spec:
  assumes "mg_valid ops valid this n g" "mounts_made contents (mg_mounts g)" "n + length k < 25999" "plain_key k" "int (length k) \<le> klen"
    "valid n i" "this \<notin> set (ig_callbacks ops i)" "sent_to this (ig_sent ops i) = []" "ident \<notin> set (map gm_id (mg_mounts g))"
  shows "\<exists>g'. mg_mountgen ops this k ident i False g = Some g' \<and> mg_valid ops valid this (n + length k + 2) g' \<and>
    mounts_made contents (mg_mounts g') \<and> places (mg_mounts g') = (ident, k) # places (mg_mounts g) \<and>
    (\<forall>q. mg_contents contents g' q = mount_spec (map lower k) (contents i) (mg_contents contents g) q) \<and>
    (\<forall>q. mounts_contents contents (tl (mg_mounts g')) q = made_spec (map lower k) (mg_mounts g) (mg_contents contents g) q) \<and>
    gen_cblist g' = gen_cblist g \<and> (\<exists>es. gen_sent g' = gen_sent g @ sent_list (gen_cblist g) es)"
proof -
  let ?K = "map lower k" and ?M = "mg_contents contents g"
  obtain i1 where i1: "ig_add_callback ops this i = Some i1" "valid n i1" "contents i1 = contents i"
    "this \<in> set (ig_callbacks ops i1)" "ig_sent ops i1 = ig_sent ops i"
    using add_callback_law [OF assms(6,7)] by (auto simp: set_insort_key)
  define g1 where "g1 = g\<lparr>gen_hold := 1, gen_deltas := [(k, None)]\<rparr>"
  have d1: "delta k None (hold_delta g) = Some g1"
    using assms(1) by (simp add: delta_held hold_delta_def mg_valid_def g1_def)
  have m1: "mg_mounts g1 = mg_mounts g" "gen_hold g1 = 1" "gen_cblist g1 = gen_cblist g" by (simp_all add: g1_def)
  have ok: "mounts_ok ops valid this n (mg_mounts g1)" using assms(1) by (simp add: mg_valid_def m1)
  obtain g2 es where g2: "makemount ops this k g1 = Some g2" "mounts_ok ops valid this (Suc (n + length k)) (mg_mounts g2)"
    "places (mg_mounts g2) = places (mg_mounts g)" "mounts_made contents (mg_mounts g2)"
    "told es (g1\<lparr>mg_mounts := mg_mounts g2\<rparr>) g2"
    "\<forall>q. mg_contents contents g2 q = made_spec ?K (mg_mounts g) ?M q"
    using makemount_spec [OF ok, of k] assms(2-5) by (auto simp: m1)
  define m where "m = \<lparr>gm_id = ident, gm_key = k, gm_gen = i1\<rparr>"
  define g4 where "g4 = g2\<lparr>mg_mounts := m # mg_mounts g2\<rparr>"
  have h2: "gen_hold g2 = 1" "gen_cblist g2 = gen_cblist g" "gen_sent g2 = gen_sent g" using g2(5) by (simp_all add: told_def m1) (simp add: g1_def)
  have ok4: "mounts_ok ops valid this (Suc (n + length k)) (mg_mounts g4)"
    using g2(2) i1 assms(4,8,9) places_ids [OF g2(3)] by (auto simp: g4_def m_def mounts_ok_def intro: exI [of _ n])
  have get4: "mg_get ops k g4 = Some (mg_contents contents g4 ?K)" by (rule mg_get_spec [OF ok4 assms(4,5)])
  obtain g6 ds6 where g6: "(delta k (mg_contents contents g4 ?K) g4 \<bind> unhold_delta) = Some g6" "mg_mounts g6 = m # mg_mounts g2"
    "gen_hold g6 = 0" "gen_deltas g6 = []" "gen_cblist g6 = gen_cblist g"
    "gen_sent g6 = gen_sent g @ sent_list (gen_cblist g) ds6"
    using h2 by (simp add: delta_held g4_def unhold_delta_def flush_delta_eq Let_def)
  have c6: "mounts_contents contents (m # mg_mounts g2) q =
      (if prefix ?K q then contents i (drop (length k) q) else if strict_prefix q ?K \<and> ?M q = None then Some [] else ?M q)" for q
  proof -
    have e: "(\<exists>x \<in> set (mg_mounts g2). strict_prefix q (gm_path x)) \<longleftrightarrow> (\<exists>x \<in> set (mg_mounts g). strict_prefix q (gm_path x))"
    proof -
      have "(\<exists>x \<in> set xs. strict_prefix q (gm_path x)) \<longleftrightarrow> (\<exists>y \<in> set (map gm_key xs). strict_prefix q (map lower y))" for xs :: "'s genmount list"
        by simp
      then show ?thesis by (simp only: places_keys [OF g2(3)])
    qed
    note mo = mount_of_keys [OF places_keys [OF g2(3)], of q]
    show ?thesis
      using g2(6) [rule_format, of q] i1(3)
      by (cases "mount_of q (mg_mounts g)") (auto simp: mounts_contents_def m_def mo e made_spec_def strict_prefix_def split: if_splits)
  qed
  have ex: "ig_exists ops key_root i1 = Some (contents i [] \<noteq> None)"
    using exists_law [OF i1(2), of "[]"] i1(3) assms(5)
    by (simp add: key_root_eq get_spec_def key_path_def nonempty_segs_def key_hastrailingslash_def key_ok_def)
  have ok6: "mounts_ok ops valid this (Suc (n + length k)) (mg_mounts g6)" using ok4 by (simp add: g6(2) g4_def)
  have made: "mounts_made contents (mg_mounts g')" if "places (mg_mounts g') = (ident, k) # places (mg_mounts g)"
    "\<forall>q. mg_contents contents g' q = mount_spec ?K (contents i) ?M q" for g'
    using that by (intro mounts_made_mount [OF that(1) assms(2)]) auto
  have run: "mg_mountgen ops this k ident i False g =
      (if contents i [] \<noteq> None then Some g6 else (ig_set ops key_root (Some []) i1 \<bind> (\<lambda>i'. mg_after ops this 0 i' g6)))"
    using i1(1) d1 g2(1) get4 g6(1,2) ex
    by (auto simp: mg_mountgen_def Let_def g4_def m_def split: option.splits bind_splits)
  show ?thesis
  proof (cases "contents i [] = None")
    case False
    have c: "\<forall>q. mg_contents contents g6 q = mount_spec ?K (contents i) ?M q"
      using c6 False by (auto simp: g6(2) mount_spec_def Let_def)
    have pl: "places (mg_mounts g6) = (ident, k) # places (mg_mounts g)" using g2(3) by (simp add: g6(2) m_def)
    have "mg_valid ops valid this (n + length k + 2) g6"
      using mounts_ok_mono [OF ok6, of "n + length k + 2"] assms(1) g6 by (simp add: mg_valid_def)
    then show ?thesis using run False c pl made [OF pl c] g2(6) g6(2,5,6) by (intro exI [of _ g6]) auto
  next
    case True
    have "key_ok klen key_root" using assms(5) by (simp add: key_root_eq key_ok_def)
    moreover have "Suc (n + length k) < 26000" using assms(3) by simp
    ultimately obtain i' g' ds where g': "ig_set ops key_root (Some []) i1 = Some i'" "mg_after ops this 0 i' g6 = Some g'"
      "mg_mounts g' = (mg_mounts g6)[0 := m\<lparr>gm_gen := ig_forget ops this i'\<rparr>]"
      "mounts_ok ops valid this (Suc (Suc (n + length k))) (mg_mounts g')" "places (mg_mounts g') = places (mg_mounts g6)"
      "told (mount_notes k ds) (g6\<lparr>mg_mounts := mg_mounts g'\<rparr>) g'"
      "\<forall>q. mg_contents contents g' q = (if mount_of q (mg_mounts g6) = Some 0
         then update_spec key_root (Some []) (contents i1) (drop (length k) q) else mg_contents contents g6 q)"
      using mount_set_spec [OF ok6, of 0 key_root "Some []"] g6(2,3) val_ok_empty by (auto simp: m_def)
    have "update_spec key_root (Some []) C r = (if r = [] then Some [] else C r)" for C r
      by (simp add: key_root_eq update_spec_def set_spec_def key_path_def nonempty_segs_def key_hastrailingslash_def)
    then have c: "\<forall>q. mg_contents contents g' q = mount_spec ?K (contents i) ?M q"
      using c6 True by (simp add: g'(7) g6(2) i1(3) mount_spec_def Let_def) (simp add: m_def)
    have pl: "places (mg_mounts g') = (ident, k) # places (mg_mounts g)" using g2(3) g'(5) by (simp add: g6(2) m_def)
    have "mg_valid ops valid this (n + length k + 2) g'"
      using g'(4,6) assms(1) g6(3-5) by (simp add: mg_valid_def told_def)
    moreover have "gen_cblist g' = gen_cblist g" "gen_sent g' = gen_sent g @ sent_list (gen_cblist g) (ds6 @ mount_notes k ds)"
      using g'(6) g6(3,5,6) by (simp_all add: told_def sent_list_append)
    ultimately show ?thesis using run True c pl made [OF pl c] g2(6) g'(1-3) g6(2) by (intro exI [of _ g']) auto
  qed
qed

text \<open>Taking out the mount that was added last.\<close>

lemma mg_unmount_head:
  assumes "mg_valid ops valid this n g" "mg_mounts g = m # ms"
    "\<And>i. this \<in> set (ig_callbacks ops i) \<Longrightarrow> ig_del_callback ops this i \<noteq> None"
  shows "\<exists>g'. mg_unmount ops this (gm_id m) False g = Some g' \<and> mg_valid ops valid this n g' \<and> mg_mounts g' = ms \<and>
    gen_cblist g' = gen_cblist g \<and> gen_sent g' = gen_sent g @ sent_list (gen_cblist g) [(gm_key m, None)]"
proof -
  have "this \<in> set (ig_callbacks ops (gm_gen m))" using assms(1,2) by (simp add: mg_valid_def mounts_ok_def)
  then obtain i where i: "ig_del_callback ops this (gm_gen m) = Some i" using assms(3) by blast
  have "gen_hold g = 0" "gen_deltas g = []" using assms(1) by (simp_all add: mg_valid_def)
  then show ?thesis using assms(1,2) i
    by (simp add: mg_unmount_def Let_def hold_delta_def delta_held unhold_delta_def flush_delta_eq mg_valid_def mounts_ok_def)
qed

text \<open>\<open>zap\<close> ends, with nothing mounted.\<close>

lemma mg_zap_spec:
  assumes "mg_valid ops valid this n g" "\<And>i. this \<in> set (ig_callbacks ops i) \<Longrightarrow> ig_del_callback ops this i \<noteq> None"
  shows "\<exists>g'. mg_zap ops this g = Some g' \<and> mg_mounts g' = [] \<and>
    gen_sent g' = gen_sent g @ sent_list (gen_cblist g) (map (\<lambda>m. (gm_key m, None)) (mg_mounts g))"
proof -
  have "\<exists>g'. zap_loop (length ms) ops this g = Some g' \<and> mg_mounts g' = [] \<and>
    gen_sent g' = gen_sent g @ sent_list (gen_cblist g) (map (\<lambda>m. (gm_key m, None)) ms)"
    if "mg_valid ops valid this n g" "mg_mounts g = ms" for ms g
    using that
  proof (induction ms arbitrary: g)
    case (Cons m ms)
    obtain g1 where g1: "mg_unmount ops this (gm_id m) False g = Some g1" "mg_valid ops valid this n g1" "mg_mounts g1 = ms"
      "gen_cblist g1 = gen_cblist g" "gen_sent g1 = gen_sent g @ sent_list (gen_cblist g) [(gm_key m, None)]"
      using mg_unmount_head [OF Cons.prems assms(2)] by blast
    then show ?case using Cons.IH [OF g1(2,3)] Cons.prems(2) by (auto simp: sent_list_Cons)
  qed simp
  then show ?thesis using assms(1) by (simp add: mg_zap_def)
qed

end

text \<open>Generators in memory, mounted.\<close>

lemma tg_mountgen_spec:
  assumes "mg_valid tg_ops tg_valid this n g" "mounts_made tg_contents (mg_mounts g)" "n + length k < 25999" "plain_key k"
    "tg_valid n i" "this \<notin> set (gen_cblist i)" "sent_to this (gen_sent i) = []" "ident \<notin> set (map gm_id (mg_mounts g))"
  shows "\<exists>g'. mg_mountgen tg_ops this k ident i False g = Some g' \<and> mg_valid tg_ops tg_valid this (n + length k + 2) g' \<and>
    mounts_made tg_contents (mg_mounts g') \<and> places (mg_mounts g') = (ident, k) # places (mg_mounts g) \<and>
    (\<forall>q. mg_contents tg_contents g' q = mount_spec (map lower k) (tg_contents i) (mg_contents tg_contents g) q) \<and>
    (\<forall>q. mounts_contents tg_contents (tl (mg_mounts g')) q = made_spec (map lower k) (mg_mounts g) (mg_contents tg_contents g) q) \<and>
    gen_cblist g' = gen_cblist g \<and> (\<exists>es. gen_sent g' = gen_sent g @ sent_list (gen_cblist g) es)"
proof -
  have c: "this \<notin> set (ig_callbacks tg_ops i)" "sent_to this (ig_sent tg_ops i) = []" "int (length k) \<le> INT_MAX"
    using assms(4,6,7) by (simp_all add: tg_ops_def plain_key_def)
  show ?thesis by (rule tg_c.mg_mountgen_spec [OF assms(1-4) c(3) assms(5) c(1,2) assms(8)])
qed

lemma tg_mount_get:
  assumes "mg_valid tg_ops tg_valid this n g" "plain_key j"
  shows "mg_get tg_ops j g = Some (mg_contents tg_contents g (map lower j))"
  using tg_c.mg_get_spec [OF _ assms(2), of this] assms by (auto simp: mg_valid_def plain_key_def)

lemma tg_del_callback: "this \<in> set (ig_callbacks tg_ops i) \<Longrightarrow> ig_del_callback tg_ops this i \<noteq> None"
  by (simp add: tg_ops_def del_callback_def cb_del_def)

end
