(* ===== verification/UniWatch.thy ===== *)
theory UniWatch
  imports UniRecIter
begin

text \<open>
  The tree of watches of \<open>UniConfRoot\<close> (\<open>uniconf/uniconfroot.cc\<close>, \<open>include/uniconfroot.h\<close>): which callbacks
  are told of a change.  A call of a callback is recorded with the key of its \<open>UniConf\<close> object and the key
  below that; the callbacks change neither the watches nor the configuration while they are called.
\<close>

datatype watch_cb = Watch_fn nat | Set_bool nat

record winfo =
  wi_cookie :: nat
  wi_recurse :: bool
  wi_cb :: watch_cb

type_synonym wtree = "winfo list utree"
type_synonym watch_call = "watch_cb \<times> key \<times> key"

definition watchroot_new :: wtree where
  "watchroot_new = VNode key_EMPTY [] None"

definition wt_isessential :: "wtree \<Rightarrow> bool" where
  "wt_isessential node \<longleftrightarrow> vt_haschildren node \<or> vt_value node \<noteq> []"

text \<open>Nodes that are missing on the way are made.\<close>

primrec wt_add :: "key list \<Rightarrow> winfo \<Rightarrow> wtree \<Rightarrow> wtree option" where
  "wt_add [] w node = Some (VNode (vt_key node) (vt_value node @ [w]) (vt_children node))"
| "wt_add (k # ks) w node =
     (if key_isempty k then wt_add ks w node
      else case vt_findslot k node of
             None \<Rightarrow> None
           | Some (Some s) \<Rightarrow> map_option (\<lambda>child. vt_poke s child node) (wt_add ks w (vt_slot s node))
           | Some None \<Rightarrow>
               (case wt_add ks w (VNode k [] None) of None \<Rightarrow> None | Some child \<Rightarrow> vt_link child node))"

definition watch_add_callback :: "nat \<Rightarrow> key \<Rightarrow> watch_cb \<Rightarrow> bool \<Rightarrow> wtree \<Rightarrow> wtree option" where
  "watch_add_callback cookie key callback recurse root =
     wt_add (key_iter key) \<lparr>wi_cookie = cookie, wi_recurse = recurse, wi_cb = callback\<rparr> root"

primrec wl_remove :: "nat \<Rightarrow> bool \<Rightarrow> winfo list \<Rightarrow> winfo list" where
  "wl_remove cookie recurse [] = []"
| "wl_remove cookie recurse (i # is) =
     (if wi_cookie i = cookie \<and> wi_recurse i = recurse then is else i # wl_remove cookie recurse is)"

text \<open>The flag tells that the loop of \<open>prune\<close> has come up to the node.\<close>

primrec wt_del :: "key list \<Rightarrow> nat \<Rightarrow> bool \<Rightarrow> wtree \<Rightarrow> (wtree \<times> bool) option" where
  "wt_del [] cookie recurse node =
     Some (VNode (vt_key node) (wl_remove cookie recurse (vt_value node)) (vt_children node), True)"
| "wt_del (k # ks) cookie recurse node =
     (if key_isempty k then wt_del ks cookie recurse node
      else case vt_findslot k node of
             None \<Rightarrow> None
           | Some None \<Rightarrow> Some (node, False)
           | Some (Some s) \<Rightarrow> do {
               (child, prune) \<leftarrow> wt_del ks cookie recurse (vt_slot s node);
               (if prune \<and> \<not> wt_isessential child
                then map_option (\<lambda>node'. (node', True)) (vt_unlink (vt_slot s node) node)
                else Some (vt_poke s child node, False)) })"

definition watch_del_callback :: "nat \<Rightarrow> key \<Rightarrow> bool \<Rightarrow> wtree \<Rightarrow> wtree option" where
  "watch_del_callback cookie key recurse root = map_option fst (wt_del (key_iter key) cookie recurse root)"

definition watch_add_setbool :: "key \<Rightarrow> nat \<Rightarrow> bool \<Rightarrow> wtree \<Rightarrow> wtree option" where
  "watch_add_setbool key flag recurse root = watch_add_callback flag key (Set_bool flag) recurse root"

definition watch_del_setbool :: "key \<Rightarrow> nat \<Rightarrow> bool \<Rightarrow> wtree \<Rightarrow> wtree option" where
  "watch_del_setbool key flag recurse root = watch_del_callback flag key recurse root"

subsection \<open>Notification\<close>

primrec wl_check :: "winfo list \<Rightarrow> key \<Rightarrow> int \<Rightarrow> watch_call list" where
  "wl_check [] key segleft = []"
| "wl_check (i # is) key segleft =
     (if \<not> wi_recurse i \<and> segleft > 0 then wl_check is key segleft
      else (wi_cb i, key_removelast key segleft, key_last key segleft) # wl_check is key segleft)"

definition wt_check :: "wtree \<Rightarrow> key \<Rightarrow> int \<Rightarrow> watch_call list" where
  "wt_check node key segleft = wl_check (vt_value node) key segleft"

fun wt_deletioncheck :: "wtree \<Rightarrow> key \<Rightarrow> watch_call list" where
  "wt_deletioncheck node key =
     concat (map (\<lambda>w. (let subkey = key_concat key (vt_key w) in wt_check w subkey 0 @ wt_deletioncheck w subkey))
       (vt_childlist node))"

declare wt_deletioncheck.simps [simp del]

text \<open>The loop down the segments of the key; it stops where there is no node.\<close>

primrec wt_descend :: "key list \<Rightarrow> key \<Rightarrow> wtree \<Rightarrow> (watch_call list \<times> wtree option) option" where
  "wt_descend [] key node = Some ([], Some node)"
| "wt_descend (k # ks) key node =
     (case vt_findchild k node of
        None \<Rightarrow> None
      | Some None \<Rightarrow> Some ([], None)
      | Some (Some child) \<Rightarrow> do {
          (calls, r) \<leftarrow> wt_descend ks key child;
          Some (wt_check child key (int (length ks)) @ calls, r) })"

definition watch_gen_callback :: "key \<Rightarrow> wvstring \<Rightarrow> wtree \<Rightarrow> watch_call list option" where
  "watch_gen_callback key value root = do {
     (calls, r) \<leftarrow> wt_descend (key_iter key) key root;
     Some (wt_check root key (key_numsegments key) @ calls @
       (case r of
          None \<Rightarrow> []
        | Some node \<Rightarrow> if value = None then wt_deletioncheck node key else [])) }"

text \<open>Whether watches remain when the root is destroyed.\<close>

fun wt_watchout :: "wtree \<Rightarrow> bool" where
  "wt_watchout t =
     list_ex (\<lambda>w. (vt_haschildren w \<and> wt_watchout w) \<or> vt_value w \<noteq> []) (vt_childlist t)"

declare wt_watchout.simps [simp del]

subsection \<open>The watches of a path\<close>

abbreviation wt_ok :: "nat \<Rightarrow> wtree \<Rightarrow> bool" where
  "wt_ok \<equiv> ut_ok (\<lambda>_. True)"

abbreviation wt_map :: "string list \<Rightarrow> wtree \<Rightarrow> winfo list option" where
  "wt_map \<equiv> ut_map Some"

definition watches :: "wtree \<Rightarrow> string list \<Rightarrow> winfo list" where
  "watches root q = (case wt_map q root of None \<Rightarrow> [] | Some ws \<Rightarrow> ws)"

lemma wt_ok_leaf: "wt_ok n (VNode k ws None)"
  by (subst ut_ok.simps) simp

lemma wt_map_leaf: "wt_map q (VNode k ws None) = (if q = [] then Some ws else None)"
  by (cases q) simp_all

text \<open>Another list at the node itself.\<close>

lemma wt_map_value: "wt_map q (VNode k ws (vt_children node)) = (if q = [] then Some ws else wt_map q node)"
  by (cases q) (simp_all add: vt_childlist_def)

lemma wt_ok_value: "wt_ok n node \<Longrightarrow> wt_ok n (VNode k ws (vt_children node))"
  by (subst ut_ok.simps, subst (asm) ut_ok.simps) (simp add: vt_childlist_def)

lemma wt_map_slot:
  assumes "ut_ok vok n node" "vt_children node = Some t" "vt_slot i node \<in> set (sh_elems t)"
    "map lower (vt_key (vt_slot i node)) = [s]"
  shows "ut_map pr (s # q) node = ut_map pr q (vt_slot i node)" "ut_ok vok n (vt_slot i node)"
  using vt_map_child [OF assms(1) _ assms(4)] vt_okD(3) [OF assms(1)] assms(2,3) by (simp_all add: vt_childlist_Some)

definition watch_set :: "string list \<Rightarrow> (winfo list \<Rightarrow> winfo list) \<Rightarrow> (string list \<Rightarrow> winfo list option) \<Rightarrow> string list \<Rightarrow> winfo list option" where
  "watch_set K f M q =
     (if q = K then Some (f (case M q of None \<Rightarrow> [] | Some ws \<Rightarrow> ws))
      else if strict_prefix q K \<and> M q = None then Some [] else M q)"

lemma watch_set_Nil: "M [] \<noteq> None \<Longrightarrow> watch_set [] f M = M([] := Some (f (the (M []))))"
  by (auto simp: watch_set_def fun_eq_iff)

lemma watch_set_Cons:
  assumes "M [] \<noteq> None" "M' [] = M []" "\<And>r q. M' (r # q) = (if r = s then watch_set K f (\<lambda>q. M (s # q)) q else M (r # q))"
  shows "M' = watch_set (s # K) f M"
proof
  show "M' q = watch_set (s # K) f M q" for q
    using assms by (cases q) (auto simp: watch_set_def)
qed

lemma wt_add_spec:
  assumes "wt_ok n node" "n < 26000" "\<forall>k \<in> set ks. seg_key k"
  shows "\<exists>node'. wt_add ks w node = Some node' \<and> wt_ok (Suc n) node' \<and> vt_key node' = vt_key node \<and>
    (\<lambda>q. wt_map q node') = watch_set (path_lower ks) (\<lambda>ws. ws @ [w]) (\<lambda>q. wt_map q node)"
  using assms
proof (induction ks arbitrary: node)
  case Nil
  then show ?case
    using wt_ok_value [OF vt_ok_mono [OF Nil.prems(1), of "Suc n"]]
    by (auto simp: watch_set_Nil wt_map_value fun_eq_iff)
next
  case (Cons k ks)
  have ks: "\<forall>k \<in> set ks. seg_key k" using Cons.prems(3) by simp
  show ?case
  proof (cases "k = []")
    case True
    then show ?thesis using Cons.IH [OF Cons.prems(1,2) ks] by (simp add: key_isempty_def)
  next
    case False
    then obtain s where k: "k = [s]" "seg_ok s" using Cons.prems(3) by (auto simp: seg_key_def)
    have e: "\<not> key_isempty k" "path_lower (k # ks) = lower s # path_lower ks"
      using k seg_ok_lower by (simp_all add: key_isempty_def path_lower_Cons)
    from vt_findslot_spec [OF Cons.prems(1) k(2)] show ?thesis
    proof (elim disjE exE conjE)
      fix i t
      assume t: "vt_children node = Some t" and f: "vt_findslot [s] node = Some (Some i)" and
        i: "i < sh_numslots t" "is_occupied (sh_slots t ! i)" and m: "vt_slot i node \<in> set (sh_elems t)" and
        l: "map lower (vt_key (vt_slot i node)) = [lower s]"
      let ?c = "vt_slot i node"
      obtain c' where c': "wt_add ks w ?c = Some c'" "wt_ok (Suc n) c'" "vt_key c' = vt_key ?c"
        "(\<lambda>q. wt_map q c') = watch_set (path_lower ks) (\<lambda>ws. ws @ [w]) (\<lambda>q. wt_map q ?c)"
        using Cons.IH [OF wt_map_slot(2) [OF Cons.prems(1) t m l] Cons.prems(2) ks] by blast
      have p: "wt_ok (Suc n) (vt_poke i c' node)"
        "\<And>r q. wt_map (r # q) (vt_poke i c' node) = (if r = lower s then wt_map q c' else wt_map (r # q) node)"
        using vt_poke_spec [where pr = Some, OF Cons.prems(1) t i c'(3,2)] l by (auto simp del: ut_map.simps)
      have "(\<lambda>q. wt_map q (vt_poke i c' node)) = watch_set (lower s # path_lower ks) (\<lambda>ws. ws @ [w]) (\<lambda>q. wt_map q node)"
        by (rule watch_set_Cons) (use p(2) c'(4) wt_map_slot(1) [OF Cons.prems(1) t m l, where pr = Some] in
            \<open>simp_all add: fun_eq_iff del: ut_map.simps(2)\<close>)
      then show ?thesis using e f k c'(1) p(1) by simp
    next
      assume f: "vt_findslot [s] node = Some None" and new: "\<forall>c \<in> set (vt_childlist node). map lower (vt_key c) \<noteq> [lower s]"
      obtain c' where c': "wt_add ks w (VNode k [] None) = Some c'" "wt_ok (Suc n) c'" "vt_key c' = k"
        "(\<lambda>q. wt_map q c') = watch_set (path_lower ks) (\<lambda>ws. ws @ [w]) (\<lambda>q. wt_map q (VNode k [] None))"
        using Cons.IH [OF wt_ok_leaf Cons.prems(2) ks] by (metis utree.sel(1))
      obtain node' where node': "vt_link c' node = Some node'" "wt_ok (Suc n) node'" "vt_key node' = vt_key node"
        "vt_value node' = vt_value node" "\<forall>r q. wt_map (r # q) node' = (if r = lower s then wt_map q c' else wt_map (r # q) node)"
        "\<forall>q. wt_map (lower s # q) node = None"
        using vt_link_spec [where pr = Some, OF Cons.prems(1,2) _ k(2) c'(2) new] c'(3) k(1) by blast
      have c: "wt_map q c' = watch_set (path_lower ks) (\<lambda>ws. ws @ [w]) (\<lambda>q. None) q" for q
        using fun_cong [OF c'(4), of q] by (auto simp: watch_set_def wt_map_leaf strict_prefix_def)
      have "(\<lambda>q. wt_map q node') = watch_set (lower s # path_lower ks) (\<lambda>ws. ws @ [w]) (\<lambda>q. wt_map q node)"
        by (rule watch_set_Cons) (use node'(4-6) c in \<open>simp_all del: ut_map.simps(2)\<close>)
      then show ?thesis using e f k c'(1) node'(1-3) by simp
    qed
  qed
qed

text \<open>The callbacks of a path after one was added.\<close>

lemma watches_watch_set:
  "(\<lambda>q. wt_map q node') = watch_set K f (\<lambda>q. wt_map q node) \<Longrightarrow>
     watches node' q = (if q = K then f (watches node q) else watches node q)"
  by (auto simp: watches_def watch_set_def fun_eq_iff split: option.split)

lemma watch_add_callback_spec:
  assumes "wt_ok n root" "n < 26000" "key_cstr k"
  shows "\<exists>root'. watch_add_callback c k cb r root = Some root' \<and> wt_ok (Suc n) root' \<and>
    (\<lambda>q. wt_map q root') = watch_set (key_path k) (\<lambda>ws. ws @ [\<lparr>wi_cookie = c, wi_recurse = r, wi_cb = cb\<rparr>]) (\<lambda>q. wt_map q root)"
  using wt_add_spec [OF assms(1,2), of "key_iter k"] seg_key_iter [OF assms(3)]
  by (auto simp: watch_add_callback_def path_lower_key_iter)

text \<open>A tree in which every node but the root leads to a watch.\<close>

definition wt_pruned :: "wtree \<Rightarrow> bool" where
  "wt_pruned node \<longleftrightarrow> (\<forall>p. p \<noteq> [] \<longrightarrow> wt_map p node \<noteq> None \<longrightarrow> (\<exists>q. watches node (p @ q) \<noteq> []))"

definition wt_used :: "wtree \<Rightarrow> bool" where
  "wt_used node \<longleftrightarrow> (\<exists>q. watches node q \<noteq> [])"

lemma haschildren_childlist:
  assumes "ut_ok vok n node"
  shows "vt_haschildren node \<longleftrightarrow> vt_childlist node \<noteq> []"
proof (cases "vt_children node")
  case (Some t)
  have "vt_dict t" "0 < sh_num t" using vt_okD(2) [OF assms Some] by simp_all
  then have "sh_elems t \<noteq> []" by (auto simp: dict_inv_def sh_inv_def sh_core_def sh_elems_def)
  then show ?thesis using Some \<open>0 < sh_num t\<close> by (simp add: vt_haschildren_def vt_childlist_def sh_isempty_def)
qed (simp add: vt_haschildren_def vt_childlist_def)

lemma essential_used:
  assumes "wt_ok n node" "wt_pruned node" "wt_isessential node"
  shows "wt_used node"
proof (cases "vt_value node = []")
  case True
  then obtain c where c: "c \<in> set (vt_childlist node)"
    using assms(1,3) haschildren_childlist [OF assms(1)] last_in_set by (auto simp: wt_isessential_def)
  then obtain s where s: "vt_key c = [s]" using vt_okD(3) [OF assms(1)] by blast
  have "wt_map [lower s] node = wt_map [] c" by (rule vt_map_child [OF assms(1) c]) (simp add: s)
  then show ?thesis using assms(2) unfolding wt_pruned_def wt_used_def by (metis append_Cons not_Cons_self option.distinct(1) ut_map.simps(1))
next
  case False
  then show ?thesis by (auto simp: wt_used_def watches_def intro!: exI [of _ "[]"])
qed

lemma inessential_empty:
  assumes "wt_ok n node" "\<not> wt_isessential node"
  shows "watches node q = []"
  using assms haschildren_childlist [OF assms(1)]
  by (cases q) (auto simp: wt_isessential_def watches_def)

lemma watches_Cons: "wt_map (s # q) node = wt_map q c \<Longrightarrow> watches node (s # q) = watches c q"
  by (simp add: watches_def del: ut_map.simps)

lemma watches_Nil: "watches node [] = vt_value node"
  by (simp add: watches_def)

lemma wt_pruned_child:
  assumes "wt_pruned node" "\<And>q. wt_map (s # q) node = wt_map q c"
  shows "wt_pruned c" "wt_used c \<or> wt_map [] c = None"
proof -
  have w: "watches node (s # q) = watches c q" for q by (rule watches_Cons [OF assms(2)])
  show "wt_pruned c" unfolding wt_pruned_def
  proof (intro allI impI)
    fix p assume "p \<noteq> []" "wt_map p c \<noteq> None"
    then have "\<exists>q. watches node ((s # p) @ q) \<noteq> []" using assms unfolding wt_pruned_def by (metis list.distinct(1))
    then show "\<exists>q. watches c (p @ q) \<noteq> []" using w by simp
  qed
  have "\<exists>q. watches node ([s] @ q) \<noteq> []" if "wt_map [s] node \<noteq> None" using assms(1) that unfolding wt_pruned_def by blast
  then show "wt_used c \<or> wt_map [] c = None" using assms(2) [of "[]"] w by (auto simp: wt_used_def simp del: ut_map.simps)
qed

lemma wt_pruned_step:
  assumes "wt_pruned node" "\<And>r q. wt_map (r # q) node' = (if r = s then M q else wt_map (r # q) node)"
    "\<And>p. M p \<noteq> None \<Longrightarrow> \<exists>q. case M (p @ q) of None \<Rightarrow> False | Some ws \<Rightarrow> ws \<noteq> []"
  shows "wt_pruned node'"
  unfolding wt_pruned_def
proof (intro allI impI)
  fix p assume p: "p \<noteq> []" "wt_map p node' \<noteq> None"
  obtain r p' where r: "p = r # p'" using p(1) by (cases p) auto
  have w: "watches node' (r # q) = (if r = s then (case M q of None \<Rightarrow> [] | Some ws \<Rightarrow> ws) else watches node (r # q))" for q
    by (simp add: watches_def assms(2) del: ut_map.simps)
  show "\<exists>q. watches node' (p @ q) \<noteq> []"
  proof (cases "r = s")
    case True
    have "M p' \<noteq> None" using True assms(2) p(2) r by (simp del: ut_map.simps)
    from assms(3) [OF this] obtain q where "case M (p' @ q) of None \<Rightarrow> False | Some ws \<Rightarrow> ws \<noteq> []" by blast
    then show ?thesis using True w [of "p' @ q"] r by (intro exI [of _ q]) (auto split: option.splits)
  next
    case False
    then have "wt_map p node \<noteq> None" using assms(2) p(2) r by (simp del: ut_map.simps)
    then obtain q where "watches node (p @ q) \<noteq> []" using assms(1) p(1) unfolding wt_pruned_def by blast
    then show ?thesis using False w [of "p' @ q"] r by (intro exI [of _ q]) simp
  qed
qed

lemma wt_del_spec:
  assumes "wt_ok n node" "\<forall>k \<in> set ks. seg_key k"
  shows "\<exists>node' act. wt_del ks c r node = Some (node', act) \<and> wt_ok n node' \<and> vt_key node' = vt_key node \<and>
    (\<forall>q. watches node' q = (if q = path_lower ks then wl_remove c r (watches node q) else watches node q)) \<and>
    (wt_pruned node \<longrightarrow> wt_pruned node' \<and> (\<not> act \<longrightarrow> wt_used node \<longrightarrow> wt_used node'))"
  using assms
proof (induction ks arbitrary: node)
  case Nil
  let ?n = "VNode (vt_key node) (wl_remove c r (vt_value node)) (vt_children node)"
  have w: "watches ?n q = (if q = [] then wl_remove c r (watches node q) else watches node q)" for q
    by (simp add: watches_def wt_map_value)
  have "wt_pruned ?n" if "wt_pruned node" using that w unfolding wt_pruned_def by (auto simp: wt_map_value)
  then show ?case using wt_ok_value [OF Nil.prems(1)] w by (intro exI [of _ ?n] exI [of _ True]) simp
next
  case (Cons k ks)
  have ks: "\<forall>k \<in> set ks. seg_key k" using Cons.prems(2) by simp
  show ?case
  proof (cases "k = []")
    case True
    then show ?thesis using Cons.IH [OF Cons.prems(1) ks] by (simp add: key_isempty_def)
  next
    case False
    then obtain s where k: "k = [s]" "seg_ok s" using Cons.prems(2) by (auto simp: seg_key_def)
    have e: "\<not> key_isempty k" "path_lower (k # ks) = lower s # path_lower ks"
      using k seg_ok_lower by (simp_all add: key_isempty_def path_lower_Cons)
    let ?K = "path_lower ks"
    from vt_findslot_spec [OF Cons.prems(1) k(2)] show ?thesis
    proof (elim disjE exE conjE)
      fix i t
      assume t: "vt_children node = Some t" and f: "vt_findslot [s] node = Some (Some i)" and
        i: "i < sh_numslots t" "is_occupied (sh_slots t ! i)" and m: "vt_slot i node \<in> set (sh_elems t)" and
        l: "map lower (vt_key (vt_slot i node)) = [lower s]"
      let ?c = "vt_slot i node"
      note slot = wt_map_slot [OF Cons.prems(1) t m l]
      obtain c' act where c': "wt_del ks c r ?c = Some (c', act)" "wt_ok n c'" "vt_key c' = vt_key ?c"
        "\<forall>q. watches c' q = (if q = ?K then wl_remove c r (watches ?c q) else watches ?c q)"
        "wt_pruned ?c \<longrightarrow> wt_pruned c' \<and> (\<not> act \<longrightarrow> wt_used ?c \<longrightarrow> wt_used c')"
        using Cons.IH [OF slot(2) ks] by blast
      have wc: "watches node (lower s # q) = watches ?c q" for q by (rule watches_Cons [OF slot(1)])
      have pc: "wt_pruned ?c" "wt_used ?c" if "wt_pruned node"
        using wt_pruned_child [OF that slot(1)] by auto
      show ?thesis
      proof (cases "act \<and> \<not> wt_isessential c'")
        case True
        obtain s0 where s0: "vt_key ?c = [s0]" "lower s0 = lower s" using l by auto
        have cl: "?c \<in> set (vt_childlist node)" using t m by (simp add: vt_childlist_Some)
        obtain node' where node': "vt_unlink ?c node = Some node'" "wt_ok n node'" "vt_key node' = vt_key node"
          "vt_value node' = vt_value node" "\<forall>r q. wt_map (r # q) node' = (if r = lower s then None else wt_map (r # q) node)"
          using vt_unlink_spec [where pr = Some, OF Cons.prems(1) cl s0(1)] s0(2) by auto
        have z: "watches c' q = []" for q using inessential_empty [OF c'(2)] True by blast
        have "watches node' q = (if q = lower s # ?K then wl_remove c r (watches node q) else watches node q)" for q
        proof (cases q)
          case Nil
          then show ?thesis using node'(4) by (simp add: watches_Nil)
        next
          case (Cons a q')
          have "watches node' (a # q') = (if a = lower s then [] else watches node (a # q'))"
            using node'(5) by (simp add: watches_def del: ut_map.simps)
          then show ?thesis using Cons wc c'(4) z by (auto split: if_splits)
        qed
        moreover have "wt_pruned node'" if "wt_pruned node"
          by (rule wt_pruned_step [OF that, where M = "\<lambda>_. None" and s = "lower s"]) (simp_all add: node'(5) del: ut_map.simps)
        moreover have "wt_del (k # ks) c r node = Some (node', True)" using e(1) f k(1) c'(1) True node'(1) by simp
        ultimately show ?thesis using node'(2,3) e(2) by (intro exI [of _ node'] exI [of _ True]) (simp del: wt_del.simps)
      next
        case False
        have p: "wt_ok n (vt_poke i c' node)"
          "\<And>r q. wt_map (r # q) (vt_poke i c' node) = (if r = lower s then wt_map q c' else wt_map (r # q) node)"
          using vt_poke_spec [where pr = Some, OF Cons.prems(1) t i c'(3,2)] l by (auto simp del: ut_map.simps)
        have w: "watches (vt_poke i c' node) q = (if q = lower s # ?K then wl_remove c r (watches node q) else watches node q)" for q
        proof (cases q)
          case Nil
          then show ?thesis by (simp add: watches_Nil)
        next
          case (Cons a q')
          have "watches (vt_poke i c' node) (a # q') = (if a = lower s then watches c' q' else watches node (a # q'))"
            using p(2) by (simp add: watches_def del: ut_map.simps)
          then show ?thesis using Cons wc c'(4) by auto
        qed
        have "wt_pruned (vt_poke i c' node) \<and> wt_used (vt_poke i c' node)" if pn: "wt_pruned node"
        proof
          have u: "wt_used c'"
            using c'(5) pc [OF pn] False essential_used [OF c'(2)] by (cases act) auto
          have P: "wt_pruned c'" using c'(5) pc [OF pn] by blast
          show "wt_pruned (vt_poke i c' node)"
          proof (rule wt_pruned_step [OF pn p(2)])
            fix q assume q: "wt_map q c' \<noteq> None"
            have "\<exists>q'. watches c' (q @ q') \<noteq> []" using P u q by (cases "q = []") (auto simp: wt_pruned_def wt_used_def)
            then show "\<exists>q'. case wt_map (q @ q') c' of None \<Rightarrow> False | Some ws \<Rightarrow> ws \<noteq> []"
              by (auto simp: watches_def split: option.splits)
          qed
          have "watches (vt_poke i c' node) (lower s # q) = watches c' q" for q
            using p(2) by (simp add: watches_def del: ut_map.simps)
          then show "wt_used (vt_poke i c' node)" using u by (metis wt_used_def)
        qed
        moreover have "wt_del (k # ks) c r node = Some (vt_poke i c' node, False)" using e(1) f k(1) c'(1) False by auto
        ultimately show ?thesis using p(1) w e(2)
          by (intro exI [of _ "vt_poke i c' node"] exI [of _ False]) (simp del: wt_del.simps)
      qed
    next
      assume f: "vt_findslot [s] node = Some None" and new: "\<forall>c \<in> set (vt_childlist node). map lower (vt_key c) \<noteq> [lower s]"
      have "watches node (lower s # q) = []" for q using new by (simp add: watches_def find_None_iff [THEN iffD2])
      then have "\<forall>q. watches node q = (if q = lower s # ?K then wl_remove c r (watches node q) else watches node q)" by simp
      then show ?thesis using e f k(1) Cons.prems(1) by (intro exI [of _ node] exI [of _ False]) simp
    qed
  qed
qed

lemma watch_del_callback_spec:
  assumes "wt_ok n root" "key_cstr k"
  shows "\<exists>root'. watch_del_callback c k r root = Some root' \<and> wt_ok n root' \<and>
    (\<forall>q. watches root' q = (if q = key_path k then wl_remove c r (watches root q) else watches root q)) \<and>
    (wt_pruned root \<longrightarrow> wt_pruned root')"
  using wt_del_spec [OF assms(1), of "key_iter k"] seg_key_iter [OF assms(2)]
  by (fastforce simp: watch_del_callback_def path_lower_key_iter)

lemma wt_pruned_add:
  assumes "wt_pruned root" "(\<lambda>q. wt_map q root') = watch_set K (\<lambda>ws. ws @ [w]) (\<lambda>q. wt_map q root)"
  shows "wt_pruned root'"
  unfolding wt_pruned_def
proof (intro allI impI)
  fix p assume p: "p \<noteq> []" "wt_map p root' \<noteq> None"
  note W = watches_watch_set [OF assms(2)]
  show "\<exists>q. watches root' (p @ q) \<noteq> []"
  proof (cases "prefix p K")
    case True
    then obtain q where "K = p @ q" by (auto simp: prefix_def)
    then show ?thesis using W [of K] by (intro exI [of _ q]) simp
  next
    case False
    then have "wt_map p root \<noteq> None" using fun_cong [OF assms(2), of p] p(2) by (auto simp: watch_set_def strict_prefix_def split: if_splits)
    then obtain q where "watches root (p @ q) \<noteq> []" using assms(1) p(1) unfolding wt_pruned_def by blast
    then show ?thesis using W [of "p @ q"] by (intro exI [of _ q]) auto
  qed
qed

lemma wt_map_above: "wt_map p node = None \<Longrightarrow> wt_map (p @ q) node = None"
proof (induction p arbitrary: node)
  case (Cons s p)
  then show ?case by (cases "find (\<lambda>c. map lower (vt_key c) = [s]) (vt_childlist node)") simp_all
qed simp

text \<open>Where there is a node: exactly on the way to a watch.\<close>

lemma wt_pruned_nodes:
  assumes "wt_ok n root" "wt_pruned root"
  shows "wt_map p root \<noteq> None \<longleftrightarrow> p = [] \<or> (\<exists>q. watches root (p @ q) \<noteq> [])"
proof (cases "p = []")
  case False
  have "wt_map p root \<noteq> None" if "watches root (p @ q) \<noteq> []" for q
    using that wt_map_above [of p root q] by (cases "wt_map p root") (auto simp: watches_def)
  then show ?thesis using assms(2) False unfolding wt_pruned_def by blast
qed simp

text \<open>Series of requests, and what they mean at each path.\<close>

datatype watch_op = Watch_add nat key watch_cb bool | Watch_del nat key bool

primrec watch_ops :: "watch_op list \<Rightarrow> wtree \<Rightarrow> wtree option" where
  "watch_ops [] root = Some root"
| "watch_ops (x # xs) root = do {
     root' \<leftarrow> (case x of
        Watch_add cookie key callback recurse \<Rightarrow> watch_add_callback cookie key callback recurse root
      | Watch_del cookie key recurse \<Rightarrow> watch_del_callback cookie key recurse root);
     watch_ops xs root' }"

fun watch_op_key :: "watch_op \<Rightarrow> key" where
  "watch_op_key (Watch_add c k cb r) = k"
| "watch_op_key (Watch_del c k r) = k"

fun watch_op_spec :: "(string list \<Rightarrow> winfo list) \<Rightarrow> watch_op \<Rightarrow> string list \<Rightarrow> winfo list" where
  "watch_op_spec W (Watch_add c k cb r) =
     W(key_path k := W (key_path k) @ [\<lparr>wi_cookie = c, wi_recurse = r, wi_cb = cb\<rparr>])"
| "watch_op_spec W (Watch_del c k r) = W(key_path k := wl_remove c r (W (key_path k)))"

lemma watch_op_step:
  assumes "wt_ok n root" "wt_pruned root" "n < 26000" "key_cstr (watch_op_key x)"
  shows "\<exists>root'. watch_ops (x # xs) root = watch_ops xs root' \<and> wt_ok (Suc n) root' \<and> wt_pruned root' \<and>
    watches root' = watch_op_spec (watches root) x"
proof (cases x)
  case (Watch_add c k cb r)
  then obtain root' where a: "watch_add_callback c k cb r root = Some root'" "wt_ok (Suc n) root'"
    "(\<lambda>q. wt_map q root') = watch_set (key_path k) (\<lambda>ws. ws @ [\<lparr>wi_cookie = c, wi_recurse = r, wi_cb = cb\<rparr>]) (\<lambda>q. wt_map q root)"
    using watch_add_callback_spec [OF assms(1,3)] assms(4) by force
  show ?thesis using a(1,2) Watch_add wt_pruned_add [OF assms(2) a(3)] watches_watch_set [OF a(3)]
    by (intro exI [of _ root']) (simp add: fun_eq_iff)
next
  case (Watch_del c k r)
  then obtain root' where d: "watch_del_callback c k r root = Some root'" "wt_ok n root'" "wt_pruned root'"
    "\<forall>q. watches root' q = (if q = key_path k then wl_remove c r (watches root q) else watches root q)"
    using watch_del_callback_spec [OF assms(1)] assms(2,4) by fastforce
  show ?thesis using d(1,3,4) Watch_del vt_ok_mono [OF d(2), of "Suc n"] by (intro exI [of _ root']) (simp add: fun_eq_iff)
qed

lemma watch_ops_spec:
  assumes "wt_ok n root" "wt_pruned root" "n + length xs \<le> 26000" "\<forall>x \<in> set xs. key_cstr (watch_op_key x)"
  shows "\<exists>root'. watch_ops xs root = Some root' \<and> wt_ok (n + length xs) root' \<and> wt_pruned root' \<and>
    watches root' = foldl watch_op_spec (watches root) xs"
  using assms
proof (induction xs arbitrary: n root)
  case (Cons x xs)
  then obtain root1 where r1: "watch_ops (x # xs) root = watch_ops xs root1" "wt_ok (Suc n) root1" "wt_pruned root1"
    "watches root1 = watch_op_spec (watches root) x"
    using watch_op_step [of n root x xs] by auto
  then show ?case using Cons.IH [OF r1(2,3)] Cons.prems(3,4) by simp
qed simp

subsection \<open>Who is told\<close>

lemma wl_check_eq:
  "wl_check ws key left =
     map (\<lambda>w. (wi_cb w, key_removelast key left, key_last key left)) (filter (\<lambda>w. wi_recurse w \<or> left \<le> 0) ws)"
  by (induction ws) auto

lemma key_iter_plain: "plain_segs k \<Longrightarrow> key_iter k = map (\<lambda>s. [s]) k"
  by (auto simp: key_iter_eq plain_segs_def)

lemma wt_descend_spec:
  assumes "wt_ok n node" "plain_segs ss"
  shows "\<exists>calls r. wt_descend (map (\<lambda>s. [s]) ss) key node = Some (calls, r) \<and>
    calls = concat (map (\<lambda>j. wl_check (watches node (take j (map lower ss))) key (int (length ss - j))) [1..<Suc (length ss)]) \<and>
    (case r of
       None \<Rightarrow> wt_map (map lower ss) node = None
     | Some c \<Rightarrow> wt_ok n c \<and> (\<forall>q. wt_map (map lower ss @ q) node = wt_map q c))"
  using assms
proof (induction ss arbitrary: node)
  case (Cons s ss)
  have s: "seg_ok s" "plain_segs ss" using Cons.prems(2) by (auto simp: plain_segs_def seg_ok_def)
  have e: "\<not> key_isempty [s]" by (simp add: key_isempty_def)
  have up: "[1..<Suc (length (s # ss))] = 1 # map Suc [1..<Suc (length ss)]"
    by (simp add: map_Suc_upt upt_conv_Cons del: upt_Suc)
  from vt_findslot_spec [OF Cons.prems(1) s(1)] show ?case
  proof (elim disjE exE conjE)
    fix i t
    assume t: "vt_children node = Some t" and f: "vt_findslot [s] node = Some (Some i)" and
      m: "vt_slot i node \<in> set (sh_elems t)" and l: "map lower (vt_key (vt_slot i node)) = [lower s]"
    let ?c = "vt_slot i node"
    note slot = wt_map_slot(1) [OF Cons.prems(1) t m l, where pr = Some] wt_map_slot(2) [OF Cons.prems(1) t m l]
    have w: "watches node (lower s # q) = watches ?c q" for q by (rule watches_Cons [OF slot(1)])
    obtain calls r where d: "wt_descend (map (\<lambda>s. [s]) ss) key ?c = Some (calls, r)"
      "calls = concat (map (\<lambda>j. wl_check (watches ?c (take j (map lower ss))) key (int (length ss - j))) [1..<Suc (length ss)])"
      "case r of None \<Rightarrow> wt_map (map lower ss) ?c = None
       | Some c \<Rightarrow> wt_ok n c \<and> (\<forall>q. wt_map (map lower ss @ q) ?c = wt_map q c)"
      using Cons.IH [OF slot(2) s(2)] by blast
    have "wt_descend (map (\<lambda>s. [s]) (s # ss)) key node = Some (wt_check ?c key (int (length ss)) @ calls, r)"
      using f e d(1) by (simp add: vt_findchild_slot)
    moreover have "wt_check ?c key (int (length ss)) = wl_check (watches node (take 1 (map lower (s # ss)))) key (int (length (s # ss) - 1))"
      using w [of "[]"] by (simp add: wt_check_def watches_Nil)
    moreover have "calls = concat (map (\<lambda>j. wl_check (watches node (take (Suc j) (map lower (s # ss)))) key (int (length (s # ss) - Suc j))) [1..<Suc (length ss)])"
      using d(2) w by simp
    moreover have "case r of None \<Rightarrow> wt_map (map lower (s # ss)) node = None
       | Some c \<Rightarrow> wt_ok n c \<and> (\<forall>q. wt_map (map lower (s # ss) @ q) node = wt_map q c)"
      using d(3) slot(1) by (auto simp del: ut_map.simps split: option.splits)
    ultimately show ?thesis unfolding up by (simp add: comp_def del: upt_Suc)
  next
    assume f: "vt_findslot [s] node = Some None" and new: "\<forall>c \<in> set (vt_childlist node). map lower (vt_key c) \<noteq> [lower s]"
    have z: "wt_map (lower s # q) node = None" for q using new by (simp add: find_None_iff [THEN iffD2])
    then have w0: "watches node (take j (map lower (s # ss))) = []" if "1 \<le> j" for j
      using that by (cases j) (simp_all add: watches_def del: ut_map.simps)
    have "\<forall>j \<in> set [1..<Suc (length (s # ss))]. wl_check (watches node (take j (map lower (s # ss)))) key (int (length (s # ss) - j)) = []"
      by (intro ballI, subst w0) (auto simp del: upt_Suc)
    then have "concat (map (\<lambda>j. wl_check (watches node (take j (map lower (s # ss)))) key (int (length (s # ss) - j))) [1..<Suc (length (s # ss))]) = []"
      by (simp only: concat_eq_Nil_conv set_map) blast
    moreover have "wt_descend (map (\<lambda>s. [s]) (s # ss)) key node = Some ([], None)" using f e by (simp add: vt_findchild_slot)
    ultimately show ?thesis using z by (simp del: ut_map.simps upt_Suc)
  qed
qed (simp add: ut_map.simps)

text \<open>The paths of the nodes below a node, in the order of the iterators.\<close>

fun wt_paths :: "wtree \<Rightarrow> string list list" where
  "wt_paths node =
     concat (map (\<lambda>c. map lower (vt_key c) # map (\<lambda>p. map lower (vt_key c) @ p) (wt_paths c)) (vt_childlist node))"

declare wt_paths.simps [simp del]

lemma distinct_concat_heads:
  assumes "distinct (map h cs)" "\<And>c. c \<in> set cs \<Longrightarrow> distinct (g c)" "\<And>c p. c \<in> set cs \<Longrightarrow> p \<in> set (g c) \<Longrightarrow> f p = h c"
  shows "distinct (concat (map g cs))"
  using assms
proof (induction cs)
  case (Cons c cs)
  have "set (g c) \<inter> set (concat (map g cs)) = {}"
  proof (rule ccontr)
    assume "set (g c) \<inter> set (concat (map g cs)) \<noteq> {}"
    then obtain p d where "p \<in> set (g c)" "d \<in> set cs" "p \<in> set (g d)" by auto
    then have "h c = h d" using Cons.prems(3) by (metis list.set_intros)
    then show False using Cons.prems(1) \<open>d \<in> set cs\<close> by auto
  qed
  then show ?case using Cons by simp
qed simp

lemma wt_paths_spec:
  "wt_ok n node \<Longrightarrow> distinct (wt_paths node) \<and> set (wt_paths node) = {p. p \<noteq> [] \<and> wt_map p node \<noteq> None}"
proof (induction node rule: wt_paths.induct)
  case (1 node)
  have k: "\<exists>s. vt_key c = [s]" "distinct (wt_paths c)" "set (wt_paths c) = {p. p \<noteq> [] \<and> wt_map p c \<noteq> None}"
    if "c \<in> set (vt_childlist node)" for c
    using vt_okD(3) [OF 1(2) that] 1(1) [OF that] by blast+
  have "distinct (map (\<lambda>c. map lower (vt_key c)) (vt_childlist node))"
    using vt_okD(2) [OF 1(2)] by (cases "vt_children node") (auto simp: vt_childlist_def dict_inv_def)
  then have "distinct (wt_paths node)"
    unfolding wt_paths.simps [of node]
  proof (rule distinct_concat_heads [where f = "take 1"])
    fix c assume c: "c \<in> set (vt_childlist node)"
    show "distinct (map lower (vt_key c) # map (\<lambda>p. map lower (vt_key c) @ p) (wt_paths c))"
      using k [OF c] by (auto simp: distinct_map inj_on_def)
    show "take 1 p = map lower (vt_key c)" if "p \<in> set (map lower (vt_key c) # map (\<lambda>p. map lower (vt_key c) @ p) (wt_paths c))" for p
      using that k(1) [OF c] by auto
  qed
  moreover have "p \<in> set (wt_paths node) \<longleftrightarrow> p \<noteq> [] \<and> wt_map p node \<noteq> None" for p
  proof
    assume "p \<in> set (wt_paths node)"
    then obtain c q where c: "c \<in> set (vt_childlist node)" "p = map lower (vt_key c) @ q" "q = [] \<or> q \<in> set (wt_paths c)"
      by (subst (asm) wt_paths.simps) fastforce
    obtain s where s: "vt_key c = [s]" using k(1) [OF c(1)] by blast
    have "wt_map (lower s # q) node = wt_map q c" by (rule vt_map_child [OF 1(2) c(1)]) (simp add: s)
    moreover have "wt_map q c \<noteq> None" using c(3) k(3) [OF c(1)] by auto
    ultimately show "p \<noteq> [] \<and> wt_map p node \<noteq> None" using c(2) s by (simp del: ut_map.simps)
  next
    assume "p \<noteq> [] \<and> wt_map p node \<noteq> None"
    then obtain s q where p: "p = s # q" "wt_map (s # q) node \<noteq> None" by (cases p) auto
    then obtain c where "find (\<lambda>c. map lower (vt_key c) = [s]) (vt_childlist node) = Some c" "wt_map q c \<noteq> None"
      by (auto split: option.splits)
    then have c: "c \<in> set (vt_childlist node)" "map lower (vt_key c) = [s]" "wt_map q c \<noteq> None"
      by (auto simp: find_Some_iff)
    then have "q = [] \<or> q \<in> set (wt_paths c)" using k(3) [OF c(1)] by auto
    then have "p \<in> set (map lower (vt_key c) # map (\<lambda>p. map lower (vt_key c) @ p) (wt_paths c))" using c(2) p(1) by auto
    then show "p \<in> set (wt_paths node)" using c(1) by (subst wt_paths.simps) (simp only: set_concat set_map, blast)
  qed
  ultimately show ?case by blast
qed

text \<open>The calls with keys in lower case, and what the watches of a path are told of a changed key.\<close>

definition call_path :: "watch_call \<Rightarrow> watch_cb \<times> string list \<times> string list" where
  "call_path c = (case c of (cb, cfg, subkey) \<Rightarrow> (cb, map lower cfg, map lower subkey))"

definition calls_for :: "string list \<Rightarrow> string list \<Rightarrow> winfo list \<Rightarrow> (watch_cb \<times> string list \<times> string list) list" where
  "calls_for K p ws =
     map (\<lambda>w. (wi_cb w, p, drop (length p) K)) (filter (\<lambda>w. wi_recurse w \<or> length K \<le> length p) ws)"

lemma calls_for_Nil [simp]: "calls_for K p [] = []"
  by (simp add: calls_for_def)

lemma plain_segs_sub: "plain_segs k \<Longrightarrow> plain_segs (take n k)" "plain_segs k \<Longrightarrow> plain_segs (drop n k)"
  by (auto simp: plain_segs_def key_cstr_def dest: in_set_takeD in_set_dropD)

lemma plain_segs_collapse: "plain_segs k \<Longrightarrow> key_collapse k = k"
  by (auto simp: plain_segs_def intro!: key_collapse_plain)

lemma wl_check_calls:
  assumes "plain_segs k" "int (length k) \<le> INT_MAX" "j \<le> length k"
  shows "map call_path (wl_check ws k (int (length k - j))) = calls_for (map lower k) (take j (map lower k)) ws"
proof -
  have "key_removelast k (int (length k - j)) = take j k"
    using assms plain_segs_collapse [OF plain_segs_sub(1), of k j]
    by (simp add: key_removelast_def key_range_def Let_def key_numsegments_def of_nat_diff)
  moreover have "key_last k (int (length k - j)) = drop j k"
    using assms plain_segs_collapse [OF plain_segs_sub(2), of k j]
    by (simp add: key_last_def key_range_def Let_def key_numsegments_def of_nat_diff)
  ultimately show ?thesis using assms(3)
    by (auto simp: wl_check_eq calls_for_def call_path_def take_map drop_map intro!: filter_cong arg_cong2 [of _ _ _ _ map])
qed

lemma concat_map_concat: "concat (map f (concat (map g xs))) = concat (map (\<lambda>x. concat (map f (g x))) xs)"
  by (induction xs) simp_all

lemma wt_deletioncheck_calls:
  assumes "wt_ok n node" "plain_segs key"
  shows "map call_path (wt_deletioncheck node key) =
    concat (map (\<lambda>p. map (\<lambda>w. (wi_cb w, map lower key @ p, [])) (watches node p)) (wt_paths node))"
  using assms
proof (induction node key rule: wt_deletioncheck.induct)
  case (1 node key)
  have "map call_path (let subkey = key_concat key (vt_key c) in wt_check c subkey 0 @ wt_deletioncheck c subkey) =
      concat (map (\<lambda>p. map (\<lambda>w. (wi_cb w, map lower key @ p, [])) (watches node p))
        (map lower (vt_key c) # map (\<lambda>p. map lower (vt_key c) @ p) (wt_paths c)))"
    if c: "c \<in> set (vt_childlist node)" for c
  proof -
    obtain s where s: "vt_key c = [s]" "seg_ok s" "wt_ok n c" using vt_okD(3) [OF 1(2) c] by blast
    have w: "watches node (lower s # q) = watches c q" for q
      by (rule watches_Cons, rule vt_map_child [OF 1(2) c]) (simp add: s)
    have k: "key_concat key (vt_key c) = key @ [s]" "plain_segs (key @ [s])"
      using key_concat_plain [of "[s]" key] nonempty_segs_plain [OF 1(3)] 1(3) s by simp_all
    have "key_removelast (key @ [s]) 0 = key @ [s]" "key_last (key @ [s]) 0 = []"
      using plain_segs_collapse [OF k(2)] s(2)
      by (simp_all add: seg_ok_def key_removelast_def key_last_def key_range_def Let_def key_numsegments_def key_collapse_def)
    then have "map call_path (wt_check c (key @ [s]) 0) = map (\<lambda>w. (wi_cb w, map lower key @ [lower s], [])) (watches node [lower s])"
      using w [of "[]"] by (simp add: wt_check_def wl_check_eq call_path_def watches_Nil)
    moreover have "map call_path (wt_deletioncheck c (key @ [s])) =
        concat (map (\<lambda>p. map (\<lambda>w. (wi_cb w, map lower (key @ [s]) @ p, [])) (watches c p)) (wt_paths c))"
      using 1(1) [OF c refl] k s(3) by simp
    ultimately show ?thesis unfolding k(1) Let_def by (simp add: s(1) w comp_def)
  qed
  then show ?case
    by (subst wt_deletioncheck.simps, subst wt_paths.simps, subst concat_map_concat, subst map_concat, subst map_map,
        intro arg_cong [of _ _ concat] map_cong refl) (simp only: comp_apply)
qed

text \<open>A change is told to the watches of the key and of the keys above it, those above only if they are recursive, and
  when a key is gone to all below it: each once.\<close>

lemma watch_gen_callback_spec:
  assumes "wt_ok n root" "plain_segs k" "int (length k) \<le> INT_MAX"
  defines "K \<equiv> map lower k"
  shows "\<exists>calls ps. watch_gen_callback k v root = Some calls \<and> distinct ps \<and>
    set ps = {p. wt_map p root \<noteq> None \<and> (prefix p K \<or> v = None \<and> prefix K p)} \<and>
    map call_path calls = concat (map (\<lambda>p. calls_for K p (watches root p)) ps)"
proof -
  obtain calls r where d: "wt_descend (map (\<lambda>s. [s]) k) k root = Some (calls, r)"
    "calls = concat (map (\<lambda>j. wl_check (watches root (take j K)) k (int (length k - j))) [1..<Suc (length k)])"
    "case r of None \<Rightarrow> wt_map K root = None | Some c \<Rightarrow> wt_ok n c \<and> (\<forall>q. wt_map (K @ q) root = wt_map q c)"
    using wt_descend_spec [OF assms(1,2), of k] unfolding K_def by blast
  define as where "as = map (\<lambda>j. take j K) [0..<Suc (length k)]"
  define ds where "ds = (case r of None \<Rightarrow> [] | Some c \<Rightarrow> if v = None then map ((@) K) (wt_paths c) else [])"
  define dcalls where "dcalls = (case r of None \<Rightarrow> [] | Some c \<Rightarrow> if v = None then wt_deletioncheck c k else [])"
  let ?f = "\<lambda>p. calls_for K p (watches root p)"
  have u: "[0..<Suc (length k)] = 0 # [1..<Suc (length k)]" by (simp add: upt_conv_Cons del: upt_Suc)
  have run: "watch_gen_callback k v root = Some (wt_check root k (key_numsegments k) @ calls @ dcalls)"
    using d(1) by (simp add: watch_gen_callback_def key_iter_plain [OF assms(2)] dcalls_def split: option.split)
  have one: "map call_path (wl_check (watches root (take j K)) k (int (length k - j))) = ?f (take j K)" if "j \<le> length k" for j
    using wl_check_calls [OF assms(2,3) that] by (simp add: K_def)
  have c0: "wt_check root k (key_numsegments k) = wl_check (watches root (take 0 K)) k (int (length k - 0))"
    by (simp add: wt_check_def watches_Nil key_numsegments_def)
  have "map call_path (wt_check root k (key_numsegments k) @ calls) =
      concat (map (\<lambda>j. map call_path (wl_check (watches root (take j K)) k (int (length k - j)))) [0..<Suc (length k)])"
    unfolding u c0 d(2) by (simp add: map_concat comp_def del: upt_Suc)
  also have "\<dots> = concat (map ?f as)"
    unfolding as_def map_map by (intro arg_cong [of _ _ concat] map_cong refl, subst comp_apply, rule one) auto
  finally have a: "map call_path (wt_check root k (key_numsegments k) @ calls) = concat (map ?f as)" .
  have b: "map call_path dcalls = concat (map ?f ds)"
  proof (cases r)
    case (Some c)
    have c: "wt_ok n c" "\<And>q. wt_map (K @ q) root = wt_map q c" using d(3) Some by auto
    then have "watches root (K @ q) = watches c q" for q by (simp add: watches_def)
    then show ?thesis using Some wt_deletioncheck_calls [OF c(1) assms(2)]
      by (cases v) (simp_all add: dcalls_def ds_def comp_def calls_for_def K_def)
  qed (simp add: dcalls_def ds_def)
  define ps where "ps = filter (\<lambda>p. wt_map p root \<noteq> None) as @ ds"
  have "map call_path (wt_check root k (key_numsegments k) @ calls @ dcalls) = concat (map ?f ps)"
  proof -
    have "concat (map ?f (filter (\<lambda>p. wt_map p root \<noteq> None) xs)) = concat (map ?f xs)" for xs
      by (induction xs) (auto simp: watches_def)
    then show ?thesis using a b by (simp add: ps_def)
  qed
  moreover have "distinct ps \<and> set ps = {p. wt_map p root \<noteq> None \<and> (prefix p K \<or> v = None \<and> prefix K p)}"
  proof -
    have "take i K = take j K \<Longrightarrow> i \<le> length k \<Longrightarrow> j \<le> length k \<Longrightarrow> i = j" for i j
      by (drule arg_cong [of _ _ length]) (simp add: K_def)
    then have "distinct as" unfolding as_def distinct_map inj_on_def by simp
    moreover have sa: "set as = {p. prefix p K}"
    proof (intro set_eqI iffI)
      fix p assume "p \<in> {p. prefix p K}"
      then have "p = take (length p) K" "length p \<le> length k" using prefix_length_le [of p K] by (auto simp: prefix_def K_def)
      then show "p \<in> set as" unfolding as_def by (auto simp del: upt_Suc)
    qed (auto simp: as_def take_is_prefix)
    moreover have sd: "distinct ds \<and> set ds = {p. v = None \<and> wt_map p root \<noteq> None \<and> strict_prefix K p}"
    proof (cases r)
      case None
      then show ?thesis using d(3) wt_map_above [of K root] by (auto simp: ds_def strict_prefix_def prefix_def)
    next
      case (Some c)
      have c: "wt_ok n c" "\<And>q. wt_map (K @ q) root = wt_map q c" using d(3) Some by auto
      show ?thesis using wt_paths_spec [OF c(1)] c(2) Some
        by (auto simp: ds_def distinct_map inj_on_def strict_prefix_def prefix_def)
    qed
    ultimately show ?thesis by (auto simp: ps_def strict_prefix_def)
  qed
  ultimately show ?thesis using run by blast
qed

text \<open>A key with a trailing slash is told to a recursive watch twice: the empty last segment is found at the node itself,
  which is checked again.\<close>

lemma wt_descend_trailing:
  assumes "wt_ok n node" "plain_segs ss" "wt_map (map lower ss) node = Some ws"
  shows "\<exists>calls r. wt_descend (map (\<lambda>s. [s]) ss @ [[]]) key node = Some (calls, r) \<and>
    set (wl_check ws key 0) \<subseteq> set calls \<and> (ss \<noteq> [] \<longrightarrow> set (wl_check ws key 1) \<subseteq> set calls)"
  using assms
proof (induction ss arbitrary: node)
  case Nil
  then show ?case by (simp add: vt_findchild_def key_isempty_def wt_check_def)
next
  case (Cons s ss)
  have s: "seg_ok s" "plain_segs ss" using Cons.prems(2) by (auto simp: plain_segs_def seg_ok_def)
  have e: "\<not> key_isempty [s]" by (simp add: key_isempty_def)
  from vt_findslot_spec [OF Cons.prems(1) s(1)] show ?case
  proof (elim disjE exE conjE)
    fix i t
    assume t: "vt_children node = Some t" and f: "vt_findslot [s] node = Some (Some i)" and
      m: "vt_slot i node \<in> set (sh_elems t)" and l: "map lower (vt_key (vt_slot i node)) = [lower s]"
    let ?c = "vt_slot i node"
    note slot = wt_map_slot(1) [OF Cons.prems(1) t m l, where pr = Some] wt_map_slot(2) [OF Cons.prems(1) t m l]
    have ws: "wt_map (map lower ss) ?c = Some ws" using Cons.prems(3) slot(1) by (simp del: ut_map.simps)
    obtain calls r where d: "wt_descend (map (\<lambda>s. [s]) ss @ [[]]) key ?c = Some (calls, r)"
      "set (wl_check ws key 0) \<subseteq> set calls" "ss \<noteq> [] \<longrightarrow> set (wl_check ws key 1) \<subseteq> set calls"
      using Cons.IH [OF slot(2) s(2) ws] by blast
    have "vt_value ?c = ws" if "ss = []" using ws that by simp
    then have "set (wl_check ws key 1) \<subseteq> set (wt_check ?c key (int (length (map (\<lambda>s. [s]) ss @ [[]]))) @ calls)"
      using d(3) by (cases "ss = []") (auto simp: wt_check_def)
    moreover have "wt_descend (map (\<lambda>s. [s]) (s # ss) @ [[]]) key node =
        Some (wt_check ?c key (int (length (map (\<lambda>s. [s]) ss @ [[]]))) @ calls, r)"
      using f e d(1) by (simp add: vt_findchild_slot)
    ultimately show ?thesis using d(2) by auto
  next
    assume "\<forall>c \<in> set (vt_childlist node). map lower (vt_key c) \<noteq> [lower s]"
    then show ?thesis using Cons.prems(3) by (simp add: find_None_iff [THEN iffD2])
  qed
qed

lemma watch_trailing_twice:
  assumes "wt_ok n root" "plain_segs k" "k \<noteq> []" "int (length k) < INT_MAX" "w \<in> set (watches root (map lower k))" "wi_recurse w"
  shows "\<exists>calls. watch_gen_callback (k @ [[]]) v root = Some calls \<and>
    (wi_cb w, k, []) \<in> set calls \<and> (wi_cb w, k @ [[]], []) \<in> set calls"
proof -
  obtain ws where ws: "wt_map (map lower k) root = Some ws" "w \<in> set ws"
    using assms(5) by (cases "wt_map (map lower k) root") (auto simp: watches_def)
  have i: "key_iter (k @ [[]]) = map (\<lambda>s. [s]) k @ [[]]" using assms(2) by (auto simp: key_iter_eq plain_segs_def)
  obtain calls r where d: "wt_descend (key_iter (k @ [[]])) (k @ [[]]) root = Some (calls, r)"
    "set (wl_check ws (k @ [[]]) 0) \<subseteq> set calls" "set (wl_check ws (k @ [[]]) 1) \<subseteq> set calls"
    using wt_descend_trailing [OF assms(1,2) ws(1), of "k @ [[]]"] assms(3) unfolding i by blast
  have "k \<noteq> [[]]" using assms(2) by (auto simp: plain_segs_def)
  have c: "key_collapse (k @ [[]]) = k @ [[]]" "key_collapse k = k"
    using assms(2,3) by (auto simp: key_collapse_def plain_segs_def append_eq_Cons_conv)
  have "key_removelast (k @ [[]]) 0 = k @ [[]]" "key_last (k @ [[]]) 0 = []" "key_removelast (k @ [[]]) 1 = k" "key_last (k @ [[]]) 1 = []"
    using c assms(3,4) \<open>k \<noteq> [[]]\<close>
    by (simp_all add: key_removelast_def key_last_def key_range_def Let_def key_numsegments_def key_collapse_def)
  then have "(wi_cb w, k @ [[]], []) \<in> set calls" "(wi_cb w, k, []) \<in> set calls"
    using d(2,3) ws(2) assms(6) by (force simp: wl_check_eq)+
  then show ?thesis using d(1) by (auto simp: watch_gen_callback_def)
qed

end
