(* ===== verification/UniConfInt.thy ===== *)
theory UniConfInt
  imports UniConfGen
begin

text \<open>
  Integers and truth values in a configuration: \<open>str2int\<close> of \<open>uniconf/uniconfgen.cc\<close>, with \<open>strtol\<close> for the base 0
  as C defines it for a \<open>long\<close> of 64 bits; \<open>None\<close> is a string that does not start with a number.
\<close>

definition c_digit :: "char \<Rightarrow> int" where
  "c_digit c =
     (if c_isdigit c then int (code_of c) - 48
      else if c_isalpha c then int (code_of (c_tolower c)) - 87
      else 36)"

definition base_value :: "int \<Rightarrow> string \<Rightarrow> int" where
  "base_value b ds = foldl (\<lambda>a c. a * b + c_digit c) 0 ds"

definition long_clamp :: "int \<Rightarrow> int" where
  "long_clamp n = max (- (2 ^ 63)) (min (2 ^ 63 - 1) n)"

definition strtol_base :: "string \<Rightarrow> int \<times> string" where
  "strtol_base s =
     (case s of
        z # x # d # r \<Rightarrow>
          if z = CHR ''0'' \<and> c_tolower x = CHR ''x'' \<and> c_digit d < 16 then (16, d # r)
          else if z = CHR ''0'' then (8, s) else (10, s)
      | z # r \<Rightarrow> if z = CHR ''0'' then (8, s) else (10, s)
      | [] \<Rightarrow> (10, s))"

definition c_strtol0 :: "string \<Rightarrow> int option" where
  "c_strtol0 s =
     (let s1 = dropWhile c_isspace s;
          neg = (case s1 of [] \<Rightarrow> False | c # r \<Rightarrow> c = CHR ''-'');
          s2 = (case s1 of [] \<Rightarrow> [] | c # r \<Rightarrow> if c = CHR ''-'' \<or> c = CHR ''+'' then r else s1);
          (b, s3) = strtol_base s2;
          ds = takeWhile (\<lambda>c. c_digit c < b) s3
      in if ds = [] then None
         else Some (long_clamp (if neg then - base_value b ds else base_value b ds)))"

definition bool_strs :: "string list" where
  "bool_strs = [''true'', ''yes'', ''on'', ''enabled'', ''false'', ''no'', ''off'', ''disabled'']"

primrec str2int_loop :: "string \<Rightarrow> nat \<Rightarrow> string list \<Rightarrow> int option" where
  "str2int_loop s i [] = None"
| "str2int_loop s i (t # ts) = (if c_strcasecmp s t = 0 then Some (if i < 4 then 1 else 0) else str2int_loop s (Suc i) ts)"

text \<open>The number is cut to an \<open>int\<close>.\<close>

definition str2int :: "wvstring \<Rightarrow> int \<Rightarrow> int" where
  "str2int value defvalue =
     (case value of
        None \<Rightarrow> defvalue
      | Some s \<Rightarrow>
          (case c_strtol0 s of
             Some num \<Rightarrow> sint (word_of_int num :: 32 word)
           | None \<Rightarrow>
               (case str2int_loop s 0 bool_strs of Some b \<Rightarrow> b | None \<Rightarrow> defvalue)))"

subsection \<open>What was printed is read\<close>

lemma c_digit_digit: "c_isdigit c \<Longrightarrow> c_digit c = int (code_of c) - 48 \<and> c_digit c < 10"
  by (auto simp: c_digit_def c_isdigit_def)

lemma base_value_digits: "\<forall>c \<in> set ds. c_isdigit c \<Longrightarrow> base_value 10 ds = digits_value ds"
  by (induction ds rule: rev_induct) (simp_all add: base_value_def digits_value_def c_digit_digit)

lemma uitoar_last: "0 < i \<Longrightarrow> uitoar_loop i \<noteq> [] \<and> last (uitoar_loop i) \<noteq> CHR ''0''"
proof (induction i rule: uitoar_loop.induct)
  case (1 i)
  show ?case
  proof (cases "0 < i div 10")
    case True
    then show ?thesis using 1 by (subst (1 2) uitoar_loop.simps) simp
  next
    case False
    then have "i < 10" using 1(2) by linarith
    moreover have "uitoar_loop 0 = []" by (simp add: uitoar_loop.simps)
    ultimately have u: "uitoar_loop i = [char_of (48 + nat i)]" using 1(2) by (subst uitoar_loop.simps) simp
    have "code_of (char_of (48 + nat i) :: char) = 48 + nat i" using \<open>i < 10\<close> 1(2) by (simp add: of_char_of)
    moreover have "code_of (CHR ''0'') = (48 :: nat)" by simp
    ultimately have "(char_of (48 + nat i) :: char) \<noteq> CHR ''0''" using 1(2) by force
    then show ?thesis using u by simp
  qed
qed

lemma strtol_decimal:
  assumes "\<forall>c \<in> set (d # r). c_isdigit c" "d = CHR ''0'' \<longrightarrow> r = []"
  shows "c_strtol0 (d # r) = Some (long_clamp (digits_value (d # r)))"
    "c_strtol0 (CHR ''-'' # d # r) = Some (long_clamp (- digits_value (d # r)))"
proof -
  have d: "c_isdigit d" using assms(1) by simp
  have n: "\<not> c_isspace d" "d \<noteq> CHR ''-''" "d \<noteq> CHR ''+''" "\<not> c_isspace (CHR ''-'')"
    using d by (auto simp: c_isdigit_def c_isspace_def)
  obtain b where b: "strtol_base (d # r) = (b, d # r)" "b = 10 \<or> b = 8 \<and> d # r = ''0''"
  proof (cases "d = CHR ''0''")
    case True
    then show ?thesis using that [of 8] assms(2) by (simp add: strtol_base_def)
  next
    case False
    then show ?thesis using that [of 10] by (auto simp: strtol_base_def split: list.split)
  qed
  have t: "takeWhile (\<lambda>c. c_digit c < b) (d # r) = d # r" "base_value b (d # r) = digits_value (d # r)"
    using b(2) assms(1) c_digit_digit base_value_digits [OF assms(1)]
    by (auto simp: takeWhile_eq_all_conv) (auto simp: c_digit_def c_isdigit_def base_value_def digits_value_def)
  show "c_strtol0 (d # r) = Some (long_clamp (digits_value (d # r)))"
    "c_strtol0 (CHR ''-'' # d # r) = Some (long_clamp (- digits_value (d # r)))"
    using n b(1) t by (simp_all add: c_strtol0_def Let_def)
qed

lemma str2int_signed:
  fixes i :: "32 word"
  assumes "- (2 ^ 31) < sint i"
  shows "str2int (Some (string_of_signed i)) defvalue = sint i"
proof -
  obtain neg where z: "string_of_signed i = (if neg then [CHR ''-''] else []) @ rev (wv_uitoar \<bar>sint i\<bar>)" "neg \<longleftrightarrow> sint i < 0"
  proof (cases "sint i < 0")
    case True
    have "sint (- i) = - sint i"
      unfolding sint_negate using assms True by (intro signed_take_bit_int_eq_self) auto
    then show ?thesis using True that [of True] by (simp add: string_of_signed_def wv_itoar_def wv_strrev_rev)
  qed (use that [of False] in \<open>simp add: string_of_signed_def wv_itoar_def wv_strrev_rev\<close>)
  have v: "digits_value (rev (wv_uitoar \<bar>sint i\<bar>)) = \<bar>sint i\<bar>" by (rule wv_uitoar_value) simp
  obtain d r where d: "rev (wv_uitoar \<bar>sint i\<bar>) = d # r" "d = CHR ''0'' \<longrightarrow> r = []"
  proof (cases "sint i = 0")
    case True
    then show ?thesis using that [of "CHR ''0''" "[]"] by (simp add: wv_uitoar_def)
  next
    case False
    then have u: "uitoar_loop \<bar>sint i\<bar> \<noteq> []" "last (uitoar_loop \<bar>sint i\<bar>) \<noteq> CHR ''0''" using uitoar_last [of "\<bar>sint i\<bar>"] by auto
    then have "rev (uitoar_loop \<bar>sint i\<bar>) = last (uitoar_loop \<bar>sint i\<bar>) # rev (butlast (uitoar_loop \<bar>sint i\<bar>))"
      by (metis append_butlast_last_id rev_eq_Cons_iff rev_rev_ident)
    moreover have "wv_uitoar \<bar>sint i\<bar> = uitoar_loop \<bar>sint i\<bar>" using False by (simp add: wv_uitoar_def)
    ultimately have "rev (wv_uitoar \<bar>sint i\<bar>) = last (uitoar_loop \<bar>sint i\<bar>) # rev (butlast (uitoar_loop \<bar>sint i\<bar>))" by (simp only:)
    then show ?thesis by (rule that) (use u(2) in simp)
  qed
  have ds: "\<forall>c \<in> set (d # r). c_isdigit c" using wv_uitoar_digits [of "\<bar>sint i\<bar>"] d(1) by (metis set_rev)
  have b: "- (2 ^ 31) \<le> sint i" "sint i < 2 ^ 31" using sint_range_size [of i] by (simp_all add: word_size)
  have "c_strtol0 (string_of_signed i) = Some (long_clamp (sint i))"
    using strtol_decimal [OF ds d(2)] z v d(1) by auto
  moreover have "long_clamp (sint i) = sint i" using b by (simp add: long_clamp_def)
  ultimately show ?thesis by (simp add: str2int_def)
qed

text \<open>The least integer is stored as a lone minus sign, which is no number.\<close>

lemma str2int_least: "str2int (Some (string_of_signed (- (2 ^ 31) :: 32 word))) defvalue = defvalue"
proof -
  have "string_of_signed (- (2 ^ 31) :: 32 word) = ''-''" by code_simp
  moreover have "c_strtol0 ''-'' = None" "str2int_loop ''-'' 0 bool_strs = None" by code_simp+
  ultimately show ?thesis by (simp add: str2int_def)
qed

end
