(* ===== verification/UniConfRoot.thy ===== *)
theory UniConfRoot
  imports UniMountGen UniWatch UniConfInt
begin

text \<open>
  The root of a configuration (\<open>uniconf/uniconfroot.cc\<close>): the generator that mounts others, the tree of
  watches, and the calls that callbacks got.  \<open>this\<close> is the cookie of the root at the mounting generator,
  \<open>mnt\<close> that of the mounting generator at the mounted ones.  What the mounting generator sends while one of
  its methods runs is taken up when the method returns.
\<close>

record 'i uroot =
  ur_mounts :: "'i mountgen"
  ur_watchroot :: wtree
  ur_calls :: "watch_call list"

definition ur_new :: "nat \<Rightarrow> 'i uroot option" where
  "ur_new this = do {
     mounts \<leftarrow> add_callback this mg_new;
     Some \<lparr>ur_mounts = mounts, ur_watchroot = watchroot_new, ur_calls = []\<rparr> }"

text \<open>The constructor that mounts one generator at the root adds its callback afterwards.\<close>

definition ur_new_gen :: "'i igen \<Rightarrow> nat \<Rightarrow> nat \<Rightarrow> nat \<Rightarrow> 'i \<Rightarrow> bool \<Rightarrow> 'i uroot option" where
  "ur_new_gen inner mnt this ident gen refresh = do {
     mounts \<leftarrow> mg_mountgen inner mnt key_root ident gen refresh mg_new;
     mounts' \<leftarrow> add_callback this mounts;
     Some \<lparr>ur_mounts = mounts', ur_watchroot = watchroot_new, ur_calls = []\<rparr> }"

definition ur_gen_callback :: "key \<Rightarrow> wvstring \<Rightarrow> 'i uroot \<Rightarrow> 'i uroot option" where
  "ur_gen_callback key value r = do {
     calls \<leftarrow> watch_gen_callback key value (ur_watchroot r);
     mounts \<leftarrow> unhold_delta (hold_delta (ur_mounts r));
     Some (r\<lparr>ur_mounts := mounts, ur_calls := ur_calls r @ calls\<rparr>) }"

primrec ur_callbacks :: "notice list \<Rightarrow> 'i uroot \<Rightarrow> 'i uroot option" where
  "ur_callbacks [] r = Some r"
| "ur_callbacks (d # ds) r = do { r' \<leftarrow> ur_gen_callback (fst d) (snd d) r; ur_callbacks ds r' }"

definition ur_after :: "nat \<Rightarrow> 'i mountgen \<Rightarrow> 'i uroot \<Rightarrow> 'i uroot option" where
  "ur_after this mounts r = ur_callbacks (sent_to this (gen_sent mounts)) (r\<lparr>ur_mounts := gen_forget this mounts\<rparr>)"

definition ur_add_callback :: "nat \<Rightarrow> key \<Rightarrow> watch_cb \<Rightarrow> bool \<Rightarrow> 'i uroot \<Rightarrow> 'i uroot option" where
  "ur_add_callback cookie key callback recurse r =
     map_option (\<lambda>t. r\<lparr>ur_watchroot := t\<rparr>) (watch_add_callback cookie key callback recurse (ur_watchroot r))"

definition ur_del_callback :: "nat \<Rightarrow> key \<Rightarrow> bool \<Rightarrow> 'i uroot \<Rightarrow> 'i uroot option" where
  "ur_del_callback cookie key recurse r =
     map_option (\<lambda>t. r\<lparr>ur_watchroot := t\<rparr>) (watch_del_callback cookie key recurse (ur_watchroot r))"

text \<open>The destructor: a watch that remains is a failed assertion.\<close>

definition ur_destroy :: "'i igen \<Rightarrow> nat \<Rightarrow> nat \<Rightarrow> 'i uroot \<Rightarrow> 'i uroot option" where
  "ur_destroy inner mnt this r = do {
     mounts \<leftarrow> mg_zap inner mnt (ur_mounts r);
     r' \<leftarrow> ur_after this mounts r;
     (if wt_watchout (ur_watchroot r') then None
      else map_option (\<lambda>m. r'\<lparr>ur_mounts := m\<rparr>) (del_callback this (ur_mounts r'))) }"

subsection \<open>\<open>UniConf\<close>\<close>

text \<open>A \<open>UniConf\<close> object is the root with the full key of its place (\<open>uniconf/uniconf.cc\<close>).\<close>

definition uc_at :: "key \<Rightarrow> key \<Rightarrow> key" where
  "uc_at xfullkey key = key_concat xfullkey key"

definition uc_parent :: "key \<Rightarrow> key" where
  "uc_parent xfullkey = key_removelast xfullkey 1"

definition uc_key :: "key \<Rightarrow> key" where
  "uc_key xfullkey = key_last xfullkey 1"

definition uc_exists :: "'i igen \<Rightarrow> key \<Rightarrow> 'i uroot \<Rightarrow> bool option" where
  "uc_exists inner xfullkey r = mg_exists inner xfullkey (ur_mounts r)"

definition uc_haschildren :: "'i igen \<Rightarrow> key \<Rightarrow> 'i uroot \<Rightarrow> bool option" where
  "uc_haschildren inner xfullkey r = mg_haschildren inner xfullkey (ur_mounts r)"

definition uc_getme :: "'i igen \<Rightarrow> key \<Rightarrow> wvstring \<Rightarrow> 'i uroot \<Rightarrow> wvstring option" where
  "uc_getme inner xfullkey defvalue r =
     map_option (\<lambda>value. if value = None then defvalue else value) (mg_get inner xfullkey (ur_mounts r))"

definition uc_setme :: "'i igen \<Rightarrow> nat \<Rightarrow> nat \<Rightarrow> key \<Rightarrow> wvstring \<Rightarrow> 'i uroot \<Rightarrow> 'i uroot option" where
  "uc_setme inner mnt this xfullkey value r = do {
     mounts \<leftarrow> mg_set inner mnt xfullkey value (ur_mounts r);
     ur_after this mounts r }"

definition uc_remove :: "'i igen \<Rightarrow> nat \<Rightarrow> nat \<Rightarrow> key \<Rightarrow> 'i uroot \<Rightarrow> 'i uroot option" where
  "uc_remove inner mnt this xfullkey r = uc_setme inner mnt this xfullkey None r"

definition uc_xget :: "'i igen \<Rightarrow> key \<Rightarrow> wvstring \<Rightarrow> wvstring \<Rightarrow> 'i uroot \<Rightarrow> wvstring option" where
  "uc_xget inner xfullkey key defvalue r = uc_getme inner (uc_at xfullkey (key_of_string key)) defvalue r"

definition uc_xset :: "'i igen \<Rightarrow> nat \<Rightarrow> nat \<Rightarrow> key \<Rightarrow> wvstring \<Rightarrow> wvstring \<Rightarrow> 'i uroot \<Rightarrow> 'i uroot option" where
  "uc_xset inner mnt this xfullkey key value r = uc_setme inner mnt this (uc_at xfullkey (key_of_string key)) value r"

definition uc_refresh :: "'i igen \<Rightarrow> nat \<Rightarrow> nat \<Rightarrow> 'i uroot \<Rightarrow> (bool \<times> 'i uroot) option" where
  "uc_refresh inner mnt this r = do {
     (ok, mounts) \<leftarrow> mg_refresh inner mnt (ur_mounts r);
     r' \<leftarrow> ur_after this mounts r;
     Some (ok, r') }"

definition uc_commit :: "'i igen \<Rightarrow> nat \<Rightarrow> nat \<Rightarrow> 'i uroot \<Rightarrow> 'i uroot option" where
  "uc_commit inner mnt this r = do { mounts \<leftarrow> mg_commit inner mnt (ur_mounts r); ur_after this mounts r }"

definition uc_mountgen :: "'i igen \<Rightarrow> nat \<Rightarrow> nat \<Rightarrow> key \<Rightarrow> nat \<Rightarrow> 'i \<Rightarrow> bool \<Rightarrow> 'i uroot \<Rightarrow> 'i uroot option" where
  "uc_mountgen inner mnt this xfullkey ident gen refresh r = do {
     mounts \<leftarrow> mg_mountgen inner mnt xfullkey ident gen refresh (ur_mounts r);
     ur_after this mounts r }"

definition uc_unmount :: "'i igen \<Rightarrow> nat \<Rightarrow> nat \<Rightarrow> nat \<Rightarrow> bool \<Rightarrow> 'i uroot \<Rightarrow> 'i uroot option" where
  "uc_unmount inner mnt this ident commit r = do {
     mounts \<leftarrow> mg_unmount inner mnt ident commit (ur_mounts r);
     ur_after this mounts r }"

definition uc_ismountpoint :: "key \<Rightarrow> 'i uroot \<Rightarrow> bool" where
  "uc_ismountpoint xfullkey r = ismountpoint xfullkey (mg_mounts (ur_mounts r))"

definition uc_whichmount :: "key \<Rightarrow> 'i uroot \<Rightarrow> (nat \<times> key) option" where
  "uc_whichmount xfullkey r = whichmount xfullkey (mg_mounts (ur_mounts r))"

definition uc_isok :: "'i igen \<Rightarrow> key \<Rightarrow> 'i uroot \<Rightarrow> bool" where
  "uc_isok inner xfullkey r =
     (case findmount xfullkey (mg_mounts (ur_mounts r)) of
        None \<Rightarrow> False
      | Some p \<Rightarrow> ig_isok inner (gm_gen (mg_mounts (ur_mounts r) ! p)))"

text \<open>The full key relative to another; an object that is not below it is a failed assertion.\<close>

definition key_subkey :: "key \<Rightarrow> key \<Rightarrow> key option" where
  "key_subkey this key = key_suborsame_sub this key"

definition uc_fullkey :: "key \<Rightarrow> key \<Rightarrow> key option" where
  "uc_fullkey xfullkey k = key_subkey k xfullkey"

definition uc_getmeint :: "'i igen \<Rightarrow> key \<Rightarrow> int \<Rightarrow> 'i uroot \<Rightarrow> int option" where
  "uc_getmeint inner xfullkey defvalue r = map_option (\<lambda>v. str2int v defvalue) (uc_getme inner xfullkey None r)"

definition uc_setmeint :: "'i igen \<Rightarrow> nat \<Rightarrow> nat \<Rightarrow> key \<Rightarrow> 32 word \<Rightarrow> 'i uroot \<Rightarrow> 'i uroot option" where
  "uc_setmeint inner mnt this xfullkey value r = uc_setme inner mnt this xfullkey (Some (string_of_signed value)) r"

text \<open>The recursive iterator of \<open>UniConf\<close>, which goes on while the tree changes: one of a mounted generator, if
  that alone is involved, or one of the mounting generator.  Mounted generators have the default iterator.\<close>

datatype uc_riter = On_mount nat key riter | On_tree riter

definition uc_ri_rewind :: "'i igen \<Rightarrow> nat \<Rightarrow> key \<Rightarrow> 'i uroot \<Rightarrow> uc_riter option" where
  "uc_ri_rewind inner mnt base r =
     (let ms = mg_mounts (ur_mounts r)
      in case findmountunder base ms of
           Some p \<Rightarrow> (let sub = trimkey (gm_key (ms ! p)) base in map_option (On_mount p sub) (ri_rewind inner (gm_gen (ms ! p)) sub))
         | None \<Rightarrow> map_option On_tree (ri_rewind (mg_ops inner mnt) (ur_mounts r) base))"

definition uc_ri_next :: "'i igen \<Rightarrow> nat \<Rightarrow> key \<Rightarrow> uc_riter \<Rightarrow> 'i uroot \<Rightarrow> (bool \<times> uc_riter) option" where
  "uc_ri_next inner mnt base it r =
     (case it of
        On_mount p sub i \<Rightarrow>
          map_option (apsnd (On_mount p sub)) (ri_next inner (gm_gen (mg_mounts (ur_mounts r) ! p)) sub i)
      | On_tree i \<Rightarrow> map_option (apsnd On_tree) (ri_next (mg_ops inner mnt) (ur_mounts r) base i))"

definition uc_ri_current :: "key \<Rightarrow> uc_riter \<Rightarrow> key option" where
  "uc_ri_current base it =
     map_option (uc_at base) (case it of On_mount p sub i \<Rightarrow> ri_key i | On_tree i \<Rightarrow> ri_key i)"

text \<open>\<open>copy\<close>; the fuel bounds the number of keys that the iterator meets.\<close>

primrec copy_loop :: "nat \<Rightarrow> 'i igen \<Rightarrow> nat \<Rightarrow> nat \<Rightarrow> key \<Rightarrow> key \<Rightarrow> bool \<Rightarrow> uc_riter \<Rightarrow> 'i uroot \<Rightarrow> 'i uroot option" where
  "copy_loop 0 inner mnt this src dst force it r = None"
| "copy_loop (Suc fuel) inner mnt this src dst force it r = do {
     (more, it') \<leftarrow> uc_ri_next inner mnt src it r;
     (if \<not> more then Some r
      else do {
        i \<leftarrow> uc_ri_current src it';
        sub \<leftarrow> uc_fullkey i src;
        old \<leftarrow> uc_getme inner (uc_at dst sub) None r;
        r' \<leftarrow> (if force \<or> old = None
              then do { v \<leftarrow> uc_getme inner i None r; uc_setme inner mnt this (uc_at dst sub) v r }
              else Some r);
        copy_loop fuel inner mnt this src dst force it' r' }) }"

definition uc_copy :: "nat \<Rightarrow> 'i igen \<Rightarrow> nat \<Rightarrow> nat \<Rightarrow> key \<Rightarrow> key \<Rightarrow> bool \<Rightarrow> 'i uroot \<Rightarrow> 'i uroot option" where
  "uc_copy fuel inner mnt this src dst force r = do {
     v \<leftarrow> uc_getme inner src None r;
     r1 \<leftarrow> uc_setme inner mnt this dst v r;
     it \<leftarrow> uc_ri_rewind inner mnt src r1;
     copy_loop fuel inner mnt this src dst force it r1 }"

definition uc_move :: "nat \<Rightarrow> 'i igen \<Rightarrow> nat \<Rightarrow> nat \<Rightarrow> key \<Rightarrow> key \<Rightarrow> 'i uroot \<Rightarrow> 'i uroot option" where
  "uc_move fuel inner mnt this src dst r = do {
     r1 \<leftarrow> uc_remove inner mnt this dst r;
     r2 \<leftarrow> uc_copy fuel inner mnt this src dst True r1;
     uc_remove inner mnt this src r2 }"

subsection \<open>Changes reach the watches\<close>

lemma wt_descend_total:
  assumes "wt_ok n node" "\<forall>k \<in> set ks. seg_key k"
  shows "\<exists>calls r. wt_descend ks key node = Some (calls, r)"
  using assms
proof (induction ks arbitrary: node)
  case (Cons k ks)
  show ?case
  proof (cases "k = []")
    case True
    then show ?thesis using Cons.IH [OF Cons.prems(1)] Cons.prems(2) by (force simp: vt_findchild_def key_isempty_def)
  next
    case False
    then obtain s where k: "k = [s]" "seg_ok s" using Cons.prems(2) by (auto simp: seg_key_def)
    have e: "\<not> key_isempty [s]" by (simp add: key_isempty_def)
    from vt_findslot_spec [OF Cons.prems(1) k(2)] show ?thesis
    proof (elim disjE exE conjE)
      fix i t
      assume f: "vt_findslot [s] node = Some (Some i)"
      have "wt_ok n (vt_slot i node)" using vt_findslot_child [OF Cons.prems(1) _ _ f] k e by (auto simp: seg_key_def)
      then show ?thesis using Cons.IH Cons.prems(2) f e k(1) by (force simp: vt_findchild_slot)
    qed (use e k(1) in \<open>simp add: vt_findchild_slot\<close>)
  qed
qed simp

lemma watch_gen_callback_total: "wt_ok n root \<Longrightarrow> key_cstr k \<Longrightarrow> \<exists>calls. watch_gen_callback k v root = Some calls"
  using wt_descend_total [of n root "key_iter k" k] seg_key_iter by (fastforce simp: watch_gen_callback_def)

text \<open>All calls of a series of notifications; nothing else changes.\<close>

lemma ur_callbacks_spec:
  assumes "wt_ok n (ur_watchroot r)" "gen_hold (ur_mounts r) = 0" "gen_deltas (ur_mounts r) = []" "\<forall>d \<in> set ds. key_cstr (fst d)"
  shows "\<exists>calls. ur_callbacks ds r = Some (r\<lparr>ur_calls := ur_calls r @ calls\<rparr>) \<and>
    (\<forall>d \<in> set ds. \<exists>cs. watch_gen_callback (fst d) (snd d) (ur_watchroot r) = Some cs \<and> set cs \<subseteq> set calls)"
  using assms
proof (induction ds arbitrary: r)
  case Nil
  then show ?case by (intro exI [of _ "[]"]) simp
next
  case (Cons d ds)
  obtain cs where cs: "watch_gen_callback (fst d) (snd d) (ur_watchroot r) = Some cs"
    using watch_gen_callback_total [OF Cons.prems(1)] Cons.prems(4) by (metis list.set_intros(1))
  have h: "unhold_delta (hold_delta (ur_mounts r)) = Some (ur_mounts r)"
    using Cons.prems(2,3) by (simp add: unhold_delta_def hold_delta_def flush_delta_eq Let_def)
  let ?r = "r\<lparr>ur_calls := ur_calls r @ cs\<rparr>"
  obtain calls where calls: "ur_callbacks ds ?r = Some (?r\<lparr>ur_calls := ur_calls ?r @ calls\<rparr>)"
    "\<forall>d \<in> set ds. \<exists>cs. watch_gen_callback (fst d) (snd d) (ur_watchroot ?r) = Some cs \<and> set cs \<subseteq> set calls"
    using Cons.IH [of ?r] Cons.prems by auto
  have "ur_gen_callback (fst d) (snd d) r = Some ?r" using cs h by (simp add: ur_gen_callback_def)
  then have "ur_callbacks (d # ds) r = Some (r\<lparr>ur_calls := ur_calls r @ cs @ calls\<rparr>)" using calls(1) by simp
  moreover have "\<exists>cs'. watch_gen_callback (fst e) (snd e) (ur_watchroot r) = Some cs' \<and> set cs' \<subseteq> set (cs @ calls)"
    if "e \<in> set (d # ds)" for e
  proof (cases "e = d")
    case False
    with that have "e \<in> set ds" by simp
    with calls(2) obtain cs' where "watch_gen_callback (fst e) (snd e) (ur_watchroot ?r) = Some cs'" "set cs' \<subseteq> set calls" by blast
    then show ?thesis by auto
  qed (simp add: cs)
  ultimately show ?case by blast
qed

text \<open>A key that a listener's map changes at was told to it.\<close>

lemma key_note_told: "foldl key_note M ds q \<noteq> M q \<Longrightarrow> \<exists>d \<in> set ds. map lower (fst d) = q"
proof (induction ds arbitrary: M)
  case (Cons d ds)
  show ?case
  proof (cases "map lower (fst d) = q")
    case False
    then have m: "key_note M d q = M q" by (auto simp: key_note_def)
    have "foldl key_note (key_note M d) ds q \<noteq> key_note M d q" using Cons.prems unfolding m by simp
    from Cons.IH [OF this] show ?thesis by auto
  qed simp
qed simp

text \<open>A change at or below a key reaches its recursive watches, and a change at it every watch.\<close>

lemma watch_notified:
  assumes "wt_ok n root" "plain_segs k" "int (length k) \<le> INT_MAX" "watch_gen_callback k v root = Some calls"
    and "w \<in> set (watches root q)" "prefix q (map lower k)" "wi_recurse w \<or> q = map lower k"
  shows "(wi_cb w, q, drop (length q) (map lower k)) \<in> call_path ` set calls"
proof -
  obtain ps where ps: "set ps = {p. wt_map p root \<noteq> None \<and> (prefix p (map lower k) \<or> v = None \<and> prefix (map lower k) p)}"
    "map call_path calls = concat (map (\<lambda>p. calls_for (map lower k) p (watches root p)) ps)"
    using watch_gen_callback_spec [OF assms(1-3), of v] assms(4) by auto
  have "q \<in> set ps" using assms(5,6) unfolding ps(1) by (cases "wt_map q root") (auto simp: watches_def)
  moreover have "(wi_cb w, q, drop (length q) (map lower k)) \<in> set (calls_for (map lower k) q (watches root q))"
    using assms(5,7) by (auto simp: calls_for_def)
  ultimately have "(wi_cb w, q, drop (length q) (map lower k)) \<in> set (map call_path calls)" unfolding ps(2) by auto
  then show ?thesis by simp
qed

lemma string_of_signed_cstr: "c_str (string_of_signed i)"
proof -
  have "c_str (rev (wv_uitoar x))" for x using wv_uitoar_digits [of x] by (auto simp: c_str_def c_isdigit_def)
  then show ?thesis by (auto simp: string_of_signed_def wv_itoar_def wv_strrev_rev c_str_def)
qed

lemma key_concat_segs:
  assumes "plain_segs p" "plain_segs q"
  shows "key_cstr (key_concat p q)"
proof (cases "q = []")
  case True
  then show ?thesis using assms(1) nonempty_segs_plain [OF assms(1)]
    by (auto simp: key_concat_def Let_def key_isempty_def key_collapse_def plain_segs_def nonempty_segs_def)
next
  case False
  then show ?thesis using key_concat_plain [OF assms(2)] nonempty_segs_plain [OF assms(1)] assms by (simp add: plain_segs_def)
qed

text \<open>A root: its mounts are sound, it listens to them and has taken up what they sent, and its watches are a tree.\<close>

definition root_valid :: "'i igen \<Rightarrow> (nat \<Rightarrow> 'i \<Rightarrow> bool) \<Rightarrow> nat \<Rightarrow> nat \<Rightarrow> nat \<Rightarrow> 'i uroot \<Rightarrow> bool" where
  "root_valid inner inner_valid mnt this n r \<longleftrightarrow>
     mg_valid inner inner_valid mnt n (ur_mounts r) \<and> this \<in> set (gen_cblist (ur_mounts r)) \<and>
     sent_to this (gen_sent (ur_mounts r)) = [] \<and> (\<exists>m. wt_ok m (ur_watchroot r))"

context uni_gen
begin

text \<open>What a change does: the mount that owns the key takes it, its notifications go to the watches under the
  key of the mount, and the value is read back.\<close>

lemma uc_setme_spec:
  assumes r: "root_valid ops valid mnt this n r" "n < 26000"
    and k: "plain_key k" "int (length k) \<le> klen" "val_ok v" "mount_of (map lower k) (mg_mounts (ur_mounts r)) = Some p"
  shows "\<exists>r' calls ds. uc_setme ops mnt this k v r = Some r' \<and> ur_calls r' = ur_calls r @ calls \<and>
    uc_getme ops k None r' = Some v \<and> ur_watchroot r' = ur_watchroot r \<and> root_valid ops valid mnt this (Suc n) r' \<and>
    foldl key_note (contents (gm_gen (mg_mounts (ur_mounts r) ! p))) ds (drop (length (gm_key (mg_mounts (ur_mounts r) ! p))) (map lower k)) = v \<and>
    (\<forall>d \<in> set ds. notice_ok klen d) \<and>
    (\<forall>d \<in> set ds. \<exists>cs. watch_gen_callback (key_concat (gm_key (mg_mounts (ur_mounts r) ! p)) (fst d)) (snd d) (ur_watchroot r) = Some cs \<and>
       set cs \<subseteq> set calls)"
proof -
  let ?g = "ur_mounts r" and ?K = "map lower k"
  let ?m = "mg_mounts ?g ! p"
  let ?T = "drop (length (gm_key ?m)) ?K"
  have ok: "mounts_ok ops valid mnt n (mg_mounts ?g)" "gen_hold ?g = 0" "gen_deltas ?g = []" "distinct (gen_cblist ?g)"
      "this \<in> set (gen_cblist ?g)" "sent_to this (gen_sent ?g) = []"
    using r(1) by (simp_all add: root_valid_def mg_valid_def)
  obtain m where w: "wt_ok m (ur_watchroot r)" using r(1) by (auto simp: root_valid_def)
  have v: "v \<noteq> None" by (rule val_ok_Some [OF k(3)])
  note t = trim_spec [OF ok(1) k(1,2,4)]
  obtain g' ds where g': "mg_set ops mnt k v ?g = Some g'" "mounts_ok ops valid mnt (Suc n) (mg_mounts g')"
    "places (mg_mounts g') = places (mg_mounts ?g)" "told (mount_notes (gm_key ?m) ds) (?g\<lparr>mg_mounts := mg_mounts g'\<rparr>) g'"
    "\<forall>q. mg_contents contents g' q = (if mount_of q (mg_mounts ?g) = Some p
       then update_spec (trimkey (gm_key ?m) k) v (contents (gm_gen ?m)) (drop (length (gm_key ?m)) q) else mg_contents contents ?g q)"
    "foldl key_note (contents (gm_gen ?m)) ds = update_spec (trimkey (gm_key ?m) k) v (contents (gm_gen ?m))"
    "\<forall>d \<in> set ds. notice_ok klen d"
    using mg_set_spec [OF ok(1) _ r(2) k(1,2) _ k(4), of v] ok(2) k(3) by auto
  have u: "update_spec (trimkey (gm_key ?m) k) v M ?T = v" for M
    using v plain_key_no_slash [OF t(3)] plain_key_path [OF t(3)] by (auto simp: update_spec_def set_spec_def t(2) drop_map)
  have sent: "sent_to this (gen_sent g') = mount_notes (gm_key ?m) ds"
    using g'(4) ok(2,4,5,6) by (simp add: told_def sent_to_append sent_to_list)
  define r1 where "r1 = r\<lparr>ur_mounts := gen_forget this g'\<rparr>"
  have mk: "plain_segs (gm_key ?m)" using mounts_okD(2) [OF ok(1)] mount_of_Some [OF k(4)] by (auto simp: plain_key_def)
  have "key_cstr (fst d)" if t: "d \<in> set (mount_notes (gm_key ?m) ds)" for d
  proof -
    obtain d0 where d0: "d0 \<in> set ds" "fst d = key_concat (gm_key ?m) (fst d0)" using t unfolding mount_notes_def by force
    have "plain_segs (fst d0)" using g'(7) d0(1) by (auto simp: notice_ok_def plain_segs_def)
    from key_concat_segs [OF mk this] show ?thesis using d0(2) by (simp add: plain_segs_def)
  qed
  moreover have "gen_hold (ur_mounts r1) = 0" "gen_deltas (ur_mounts r1) = []" "wt_ok m (ur_watchroot r1)"
    using g'(4) ok(2,3) w by (simp_all add: r1_def gen_forget_def told_def)
  ultimately obtain calls where calls: "ur_callbacks (mount_notes (gm_key ?m) ds) r1 = Some (r1\<lparr>ur_calls := ur_calls r1 @ calls\<rparr>)"
    "\<forall>d \<in> set (mount_notes (gm_key ?m) ds). \<exists>cs. watch_gen_callback (fst d) (snd d) (ur_watchroot r1) = Some cs \<and> set cs \<subseteq> set calls"
    using ur_callbacks_spec [of m r1 "mount_notes (gm_key ?m) ds"] by auto
  have "uc_setme ops mnt this k v r = Some (r1\<lparr>ur_calls := ur_calls r1 @ calls\<rparr>)"
    using g'(1) sent calls(1) by (simp add: uc_setme_def ur_after_def r1_def)
  moreover have "mg_get ops k (gen_forget this g') = Some v"
    using mg_get_spec [of mnt "Suc n" "gen_forget this g'", OF _ k(1,2)] g'(2,5) k(4) u by (simp add: gen_forget_def)
  then have "uc_getme ops k None (r1\<lparr>ur_calls := ur_calls r1 @ calls\<rparr>) = Some v" by (simp add: uc_getme_def r1_def v)
  moreover have "\<forall>d \<in> set ds. \<exists>cs. watch_gen_callback (key_concat (gm_key ?m) (fst d)) (snd d) (ur_watchroot r) = Some cs \<and> set cs \<subseteq> set calls"
    using calls(2) by (simp add: mount_notes_def r1_def)
  moreover have "root_valid ops valid mnt this (Suc n) (r1\<lparr>ur_calls := ur_calls r1 @ calls\<rparr>)"
    using g'(2,4) ok w by (auto simp: root_valid_def mg_valid_def r1_def gen_forget_def told_def sent_to_def)
  ultimately show ?thesis using g'(6,7) u
    by (intro exI [of _ "r1\<lparr>ur_calls := ur_calls r1 @ calls\<rparr>"] exI [of _ calls] exI [of _ ds]) (simp add: r1_def)
qed

lemma uc_setme_watch:
  assumes r: "root_valid ops valid mnt this n r" "n < 26000"
    and k: "plain_key k" "int (length k) \<le> klen" "val_ok v" "mount_of (map lower k) (mg_mounts (ur_mounts r)) = Some p"
      "gm_path (mg_mounts (ur_mounts r) ! p) \<noteq> map lower k \<or> gm_key (mg_mounts (ur_mounts r) ! p) = []"
      "mg_contents contents (ur_mounts r) (map lower k) \<noteq> v"
    and w: "w \<in> set (watches (ur_watchroot r) q)" "prefix q (map lower k)" "wi_recurse w \<or> q = map lower k"
  shows "\<exists>r' calls. uc_setme ops mnt this k v r = Some r' \<and> ur_calls r' = ur_calls r @ calls \<and>
    (wi_cb w, q, drop (length q) (map lower k)) \<in> call_path ` set calls \<and>
    uc_getme ops k None r' = Some v \<and> root_valid ops valid mnt this (Suc n) r'"
proof -
  let ?K = "map lower k" and ?m = "mg_mounts (ur_mounts r) ! p"
  let ?T = "drop (length (gm_key ?m)) ?K"
  obtain r' calls ds where s: "uc_setme ops mnt this k v r = Some r'" "ur_calls r' = ur_calls r @ calls"
    "uc_getme ops k None r' = Some v \<and> root_valid ops valid mnt this (Suc n) r'" "foldl key_note (contents (gm_gen ?m)) ds ?T = v" "\<forall>d \<in> set ds. notice_ok klen d"
    "\<forall>d \<in> set ds. \<exists>cs. watch_gen_callback (key_concat (gm_key ?m) (fst d)) (snd d) (ur_watchroot r) = Some cs \<and> set cs \<subseteq> set calls"
    using uc_setme_spec [OF r k(1-4)] by blast
  have "contents (gm_gen ?m) ?T \<noteq> v" using k(4,6) by (simp add: mounts_contents_def)
  then obtain d where d: "d \<in> set ds" "map lower (fst d) = ?T" using key_note_told s(4) by metis
  have ok: "mounts_ok ops valid mnt n (mg_mounts (ur_mounts r))" using r(1) by (simp add: root_valid_def mg_valid_def)
  obtain m where wt: "wt_ok m (ur_watchroot r)" using r(1) by (auto simp: root_valid_def)
  have mk: "plain_segs (gm_key ?m)" using mounts_okD(2) [OF ok] mount_of_Some [OF k(4)] by (auto simp: plain_key_def)
  have K: "gm_path ?m @ ?T = ?K" using mount_of_Some [OF k(4)] by (auto simp: prefix_def)
  have pd: "plain_segs (fst d)" using s(5) d(1) by (auto simp: notice_ok_def plain_segs_def)
  let ?d = "key_concat (gm_key ?m) (fst d)"
  obtain cs where cs: "watch_gen_callback ?d (snd d) (ur_watchroot r) = Some cs" "set cs \<subseteq> set calls" using s(6) d(1) by blast
  have "?d = gm_key ?m @ fst d"
  proof (cases "fst d = []")
    case True
    then have "gm_path ?m = ?K" using K d(2) by simp
    then show ?thesis using k(5) True by (simp add: key_concat_def key_isempty_def key_collapse_def nonempty_segs_def)
  next
    case False
    then show ?thesis using key_concat_plain [OF pd] nonempty_segs_plain [OF mk] by simp
  qed
  then have dk: "plain_segs ?d" "map lower ?d = ?K" using mk pd K d(2) by simp_all
  have "length ?d = length k" using arg_cong [OF dk(2), of length] by simp
  then have "int (length ?d) \<le> INT_MAX" using k(1) by (simp add: plain_key_def)
  from watch_notified [OF wt dk(1) this cs(1), unfolded dk(2), OF w]
  show ?thesis using s(1,2,3) cs(2) by blast
qed

text \<open>A whole number that is set is read back.\<close>

lemma uc_setmeint_getmeint:
  assumes "root_valid ops valid mnt this n r" "n < 26000" "plain_key k" "int (length k) \<le> klen"
    "mount_of (map lower k) (mg_mounts (ur_mounts r)) = Some p" "- (2 ^ 31) < sint i"
  shows "\<exists>r'. uc_setmeint ops mnt this k i r = Some r' \<and> root_valid ops valid mnt this (Suc n) r' \<and>
    uc_getmeint ops k defvalue r' = Some (sint i)"
proof -
  have "val_ok (Some (string_of_signed i))" by (simp add: val_ok_def string_of_signed_cstr)
  from uc_setme_spec [OF assms(1-4) this assms(5)] obtain r' where "uc_setmeint ops mnt this k i r = Some r'"
    "uc_getme ops k None r' = Some (Some (string_of_signed i))" "root_valid ops valid mnt this (Suc n) r'"
    by (auto simp: uc_setmeint_def)
  then show ?thesis using str2int_signed [OF assms(6)] by (auto simp: uc_getmeint_def)
qed

end

subsection \<open>Roots over generators in memory\<close>

lemma ur_new_gen_spec:
  fixes i :: tempgen
  assumes "tg_valid n i" "n < 25999" "mnt \<notin> set (gen_cblist i)" "sent_to mnt (gen_sent i) = []"
  shows "\<exists>r. ur_new_gen tg_ops mnt this ident i False = Some r \<and> root_valid tg_ops tg_valid mnt this (n + 2) r \<and>
    ur_watchroot r = watchroot_new \<and> ur_calls r = [] \<and> places (mg_mounts (ur_mounts r)) = [(ident, [])] \<and>
    (\<forall>q. mg_contents tg_contents (ur_mounts r) q = (if q = [] \<and> tg_contents i [] = None then Some [] else tg_contents i q))"
proof -
  have new: "mg_valid tg_ops tg_valid mnt n (mg_new :: tempgen mountgen)" "mounts_made tg_contents (mg_mounts (mg_new :: tempgen mountgen))"
    "mg_mounts (mg_new :: tempgen mountgen) = []" "gen_cblist (mg_new :: tempgen mountgen) = []" "gen_sent (mg_new :: tempgen mountgen) = []"
    by (simp_all add: mg_valid_def mg_new_def mounts_ok_def mounts_made_def gen_new_def gen.defs)
  have p: "plain_key key_root" by (simp add: tg_c.key_root_eq plain_key_def plain_segs_def INT_MAX_def)
  obtain g where g: "mg_mountgen tg_ops mnt key_root ident i False mg_new = Some g" "mg_valid tg_ops tg_valid mnt (n + 2) g"
    "places (mg_mounts g) = [(ident, [])]" "gen_cblist g = []" "gen_sent g = []"
    "\<forall>q. mg_contents tg_contents g q = mount_spec [] (tg_contents i) (mg_contents tg_contents (mg_new :: tempgen mountgen)) q"
    using tg_mountgen_spec [where n = n and this = mnt and i = i and ident = ident and k = key_root and g = "mg_new :: tempgen mountgen"]
      new assms p
    by (auto simp: tg_c.key_root_eq sent_list_def)
  have c: "add_callback this g = Some (g\<lparr>gen_cblist := [this]\<rparr>)" using g(4) by (simp add: add_callback_def cb_add_def)
  have w: "wt_ok 0 watchroot_new" by (simp add: watchroot_new_def wt_ok_leaf)
  let ?r = "\<lparr>ur_mounts = g\<lparr>gen_cblist := [this]\<rparr>, ur_watchroot = watchroot_new, ur_calls = []\<rparr>"
  have "ur_new_gen tg_ops mnt this ident i False = Some ?r" using g(1) c by (simp add: ur_new_gen_def)
  moreover have "root_valid tg_ops tg_valid mnt this (n + 2) ?r" using g(2,5) w by (auto simp: root_valid_def mg_valid_def sent_to_def)
  ultimately show ?thesis using g(3,6)
    by (intro exI [of _ ?r]) (simp add: mount_spec_def strict_prefix_def)
qed

lemma ur_new_gen_new:
  "\<exists>r. ur_new_gen tg_ops mnt this ident tg_new False = Some r \<and> root_valid tg_ops tg_valid mnt this 2 r \<and>
    ur_watchroot r = watchroot_new \<and> places (mg_mounts (ur_mounts r)) = [(ident, [])] \<and>
    (\<forall>q. mg_contents tg_contents (ur_mounts r) q = (if q = [] then Some [] else None))"
proof -
  have "gen_cblist tg_new = []" "gen_sent tg_new = []" by (simp_all add: tg_new_def gen_new_def gen.defs)
  then show ?thesis using ur_new_gen_spec [OF tg_valid_new(1) [of 0], of mnt this ident] tg_valid_new(2)
    by (auto simp: sent_to_def numeral_2_eq_2 cong: if_cong)
qed

lemma mount_of_root: "places ms = [(ident, [])] \<Longrightarrow> mount_of q ms = Some 0"
  by (cases ms) auto

lemma ur_add_callback_spec:
  assumes "root_valid ops valid mnt this n r" "wt_ok m (ur_watchroot r)" "m < 26000" "key_cstr k"
  shows "\<exists>r'. ur_add_callback c k cb rec r = Some r' \<and> root_valid ops valid mnt this n r' \<and> ur_mounts r' = ur_mounts r \<and>
    ur_calls r' = ur_calls r \<and> watches (ur_watchroot r') (key_path k) =
      watches (ur_watchroot r) (key_path k) @ [\<lparr>wi_cookie = c, wi_recurse = rec, wi_cb = cb\<rparr>]"
proof -
  obtain t where t: "watch_add_callback c k cb rec (ur_watchroot r) = Some t" "wt_ok (Suc m) t"
    "(\<lambda>q. wt_map q t) = watch_set (key_path k) (\<lambda>ws. ws @ [\<lparr>wi_cookie = c, wi_recurse = rec, wi_cb = cb\<rparr>]) (\<lambda>q. wt_map q (ur_watchroot r))"
    using watch_add_callback_spec [OF assms(2-4)] by blast
  show ?thesis using assms(1) t(1,2) watches_watch_set [OF t(3)]
    by (intro exI [of _ "r\<lparr>ur_watchroot := t\<rparr>"]) (auto simp: ur_add_callback_def root_valid_def)
qed

end
