(* ===== verification/UniTreeCompare.thy ===== *)
theory UniTreeCompare
  imports UniTempGen
begin

text \<open>
  The comparison of two trees (\<open>UniHashTreeBase::_recursivecompare\<close> in \<open>uniconf/unihashtree.cc\<close>), with a comparator
  that says whether two nodes are equal and has effects, listed in their order.  A node that is missing on
  one side is \<open>None\<close>.  The lists of keys lead from the roots to the nodes.
\<close>

text \<open>The children in the order of the sorting iterator.\<close>

definition vt_sorted :: "'v utree option \<Rightarrow> 'v utree list" where
  "vt_sorted node = (case node of None \<Rightarrow> [] | Some n \<Rightarrow> sort_key (\<lambda>c. key_ord (vt_key c)) (vt_childlist n))"

type_synonym ('v, 'e) comparator = "key list \<Rightarrow> key list \<Rightarrow> 'v utree option \<Rightarrow> 'v utree option \<Rightarrow> bool \<times> 'e list"

lemma sh_elems_total: "size_list g (sh_elems t) \<le> size_shash g t"
proof -
  have "size_list g (map slot_data (filter is_occupied slots)) \<le> size_list (size_slot g) slots" for slots
  proof (induction slots)
    case (Cons s slots)
    then show ?case by (cases s) (auto simp: is_occupied_def)
  qed simp
  then show ?thesis by (cases t) (simp add: sh_elems_def le_SucI)
qed

lemma size_list_sort [simp]: "size_list f (sort_key g xs) = size_list f xs"
proof -
  have "size_list f (insort_key g x ys) = f x + 1 + size_list f ys" for x ys by (induction ys) auto
  then show ?thesis by (induction xs) simp_all
qed

lemma vt_sorted_size: "size_list size (vt_sorted node) \<le> (case node of None \<Rightarrow> 0 | Some n \<Rightarrow> size n)"
proof (cases node)
  case (Some n)
  obtain k v t where n: "n = VNode k v t" by (cases n)
  show ?thesis
  proof (cases t)
    case (Some t')
    then show ?thesis using sh_elems_total [of size t'] by (simp add: vt_sorted_def vt_childlist_def \<open>node = Some n\<close> n)
  qed (simp add: vt_sorted_def vt_childlist_def Some n)
qed (simp add: vt_sorted_def)

function vt_compare :: "('v, 'e) comparator \<Rightarrow> key list \<Rightarrow> key list \<Rightarrow> 'v utree option \<Rightarrow> 'v utree option \<Rightarrow> bool \<times> 'e list"
  and vt_compare_children :: "('v, 'e) comparator \<Rightarrow> key list \<Rightarrow> key list \<Rightarrow> 'v utree list \<Rightarrow> 'v utree list \<Rightarrow> bool \<times> 'e list" where
  "vt_compare cmp pa pb a b =
     (let (equal, es) = cmp pa pb a b;
          (equal', es') = vt_compare_children cmp pa pb (vt_sorted a) (vt_sorted b)
      in (equal \<and> equal', es @ es'))"
| "vt_compare_children cmp pa pb [] [] = (True, [])"
| "vt_compare_children cmp pa pb (a # as) [] =
     (let (_, es) = vt_compare cmp (pa @ [vt_key a]) pb (Some a) None;
          (_, es') = vt_compare_children cmp pa pb as []
      in (False, es @ es'))"
| "vt_compare_children cmp pa pb [] (b # bs) =
     (let (_, es) = vt_compare cmp pa (pb @ [vt_key b]) None (Some b);
          (_, es') = vt_compare_children cmp pa pb [] bs
      in (False, es @ es'))"
| "vt_compare_children cmp pa pb (a # as) (b # bs) =
     (let order = key_compareto (vt_key a) (vt_key b)
      in if order < 0
         then (let (_, es) = vt_compare cmp (pa @ [vt_key a]) pb (Some a) None;
                   (_, es') = vt_compare_children cmp pa pb as (b # bs)
               in (False, es @ es'))
         else if order > 0
         then (let (_, es) = vt_compare cmp pa (pb @ [vt_key b]) None (Some b);
                   (_, es') = vt_compare_children cmp pa pb (a # as) bs
               in (False, es @ es'))
         else (let (equal, es) = vt_compare cmp (pa @ [vt_key a]) (pb @ [vt_key b]) (Some a) (Some b);
                   (equal', es') = vt_compare_children cmp pa pb as bs
               in (equal \<and> equal', es @ es')))"
  by pat_completeness auto
termination
proof (relation "measure (\<lambda>x. case x of Inl (cmp, pa, pb, a, b) \<Rightarrow> 2 * ((case a of None \<Rightarrow> 0 | Some n \<Rightarrow> size n) + (case b of None \<Rightarrow> 0 | Some n \<Rightarrow> size n)) + 1
    | Inr (cmp, pa, pb, as, bs) \<Rightarrow> 2 * (size_list size as + size_list size bs))", goal_cases)
  case (2 cmp pa pb a b x y)
  show ?case using vt_sorted_size [of a] vt_sorted_size [of b] by simp
qed auto

declare vt_compare.simps [simp del] vt_compare_children.simps [simp del]

subsection \<open>A comparator that tells the difference\<close>

definition tree_at :: "vtree option \<Rightarrow> string list \<Rightarrow> wvstring" where
  "tree_at node q = (case node of None \<Rightarrow> None | Some n \<Rightarrow> vt_map q n)"

definition forest_at :: "vtree list \<Rightarrow> string list \<Rightarrow> wvstring" where
  "forest_at cs q =
     (case q of
        [] \<Rightarrow> None
      | s # q' \<Rightarrow> (case find (\<lambda>c. map lower (vt_key c) = [s]) cs of None \<Rightarrow> None | Some c \<Rightarrow> vt_map q' c))"

definition forest_ok :: "nat \<Rightarrow> vtree list \<Rightarrow> bool" where
  "forest_ok n cs \<longleftrightarrow>
     (\<forall>c \<in> set cs. (\<exists>s. vt_key c = [s] \<and> seg_ok s) \<and> vt_ok n c) \<and> sorted_wrt (<) (map (\<lambda>c. key_ord (vt_key c)) cs)"

text \<open>What notifications below a path tell: only what is so in the second map, of keys in one of the maps, and
  every difference.\<close>

definition tells :: "string list \<Rightarrow> (string list \<Rightarrow> wvstring) \<Rightarrow> (string list \<Rightarrow> wvstring) \<Rightarrow> notice list \<Rightarrow> bool" where
  "tells P A B ds \<longleftrightarrow>
     (\<forall>d \<in> set ds. \<exists>q. map lower (fst d) = P @ q \<and> snd d = B q \<and> (A q \<noteq> None \<or> B q \<noteq> None)) \<and>
     (\<forall>q. A q \<noteq> B q \<longrightarrow> (\<exists>d \<in> set ds. map lower (fst d) = P @ q))"

definition cmp_tells :: "(wvstring, notice) comparator \<Rightarrow> bool" where
  "cmp_tells cmp \<longleftrightarrow>
     (\<forall>pa pb a b P n. (a \<noteq> None \<or> b \<noteq> None) \<longrightarrow>
        (\<forall>x. a = Some x \<longrightarrow> vt_ok n x \<and> path_lower pa = P) \<longrightarrow> (\<forall>x. b = Some x \<longrightarrow> vt_ok n x \<and> path_lower pb = P) \<longrightarrow>
        (\<forall>d \<in> set (snd (cmp pa pb a b)). \<exists>q. map lower (fst d) = P @ q \<and> snd d = tree_at b q \<and>
           (tree_at a q \<noteq> None \<or> tree_at b q \<noteq> None)) \<and>
        (tree_at a [] \<noteq> tree_at b [] \<longrightarrow> (\<exists>d \<in> set (snd (cmp pa pb a b)). map lower (fst d) = P)))"

lemma tells_listener:
  assumes "tells [] A B ds"
  shows "foldl key_note A ds = B"
proof
  fix q
  have "foldl key_note M ds q = (if \<exists>d \<in> set ds. map lower (fst d) = q then B q else M q)"
    if "\<forall>d \<in> set ds. snd d = B (map lower (fst d))" for M ds
    using that by (induction ds arbitrary: M) (auto simp: key_note_def)
  moreover have "\<forall>d \<in> set ds. snd d = B (map lower (fst d))" using assms by (auto simp: tells_def)
  ultimately show "foldl key_note A ds q = B q" using assms by (auto simp: tells_def)
qed

lemma tells_join:
  assumes "tells (P @ [t]) (\<lambda>q. A (t # q)) (\<lambda>q. B (t # q)) es" "tells P A' B' es'"
    "\<And>q. A' (t # q) = None" "\<And>q. B' (t # q) = None" "A [] = A' []" "B [] = B' []"
    "\<And>r q. r \<noteq> t \<Longrightarrow> A (r # q) = A' (r # q)" "\<And>r q. r \<noteq> t \<Longrightarrow> B (r # q) = B' (r # q)"
  shows "tells P A B (es @ es')"
proof -
  have e: "A q = A' q \<and> B q = B' q" if "\<forall>q'. q \<noteq> t # q'" for q
    using that assms(5-8) by (cases q) auto
  have "\<exists>q. map lower (fst d) = P @ q \<and> snd d = B q \<and> (A q \<noteq> None \<or> B q \<noteq> None)" if d: "d \<in> set es'" for d
  proof -
    obtain q where q: "map lower (fst d) = P @ q" "snd d = B' q" "A' q \<noteq> None \<or> B' q \<noteq> None"
      using assms(2) d unfolding tells_def by blast
    moreover have "\<forall>q'. q \<noteq> t # q'" using q(3) assms(3,4) by auto
    ultimately show ?thesis using e [of q] by auto
  qed
  moreover have "\<exists>q. map lower (fst d) = P @ q \<and> snd d = B q \<and> (A q \<noteq> None \<or> B q \<noteq> None)" if d: "d \<in> set es" for d
  proof -
    obtain q where "map lower (fst d) = (P @ [t]) @ q" "snd d = B (t # q)" "A (t # q) \<noteq> None \<or> B (t # q) \<noteq> None"
      using assms(1) d unfolding tells_def by blast
    then show ?thesis by (intro exI [of _ "t # q"]) simp
  qed
  moreover have "\<exists>d \<in> set (es @ es'). map lower (fst d) = P @ q" if q: "A q \<noteq> B q" for q
  proof (cases "\<exists>q'. q = t # q'")
    case True
    then show ?thesis using assms(1) q unfolding tells_def by fastforce
  next
    case False
    then show ?thesis using assms(2) q e [of q] unfolding tells_def by fastforce
  qed
  ultimately show ?thesis unfolding tells_def set_append by (intro conjI ballI allI impI) (elim UnE, blast, blast, blast)
qed

lemma forest_at_none: "\<forall>c \<in> set cs. map lower (vt_key c) \<noteq> [t] \<Longrightarrow> forest_at cs (t # q) = None"
  using find_None_iff [of "\<lambda>c. map lower (vt_key c) = [t]" cs] by (simp add: forest_at_def)

lemma forest_at_Cons:
  "map lower (vt_key c) = [t] \<Longrightarrow> forest_at (c # cs) (r # q) = (if r = t then vt_map q c else forest_at cs (r # q))"
  by (auto simp: forest_at_def)

lemma forest_okD:
  assumes "forest_ok n (c # cs)"
  shows "forest_ok n cs" "vt_ok n c" "\<exists>s. vt_key c = [s] \<and> seg_ok s" "key_cstr (vt_key c)"
    "\<And>x. x \<in> set cs \<Longrightarrow> key_ord (vt_key c) < key_ord (vt_key x)"
  using assms by (auto simp: forest_ok_def seg_ok_def)

lemma forest_ok_differs: "(key_ord (vt_key c) < key_ord (vt_key x)) \<Longrightarrow> map lower (vt_key c) \<noteq> map lower (vt_key x)"
  by (metis key_ord_eq less_irrefl)

lemma forest_ok_sorted:
  assumes "vt_ok n x"
  shows "forest_ok n (vt_sorted (Some x))" "forest_at (vt_sorted (Some x)) (s # q) = vt_map (s # q) x"
proof -
  let ?f = "\<lambda>c. map lower (vt_key c)"
  have d: "distinct (map ?f (vt_childlist x))"
    using vt_okD(2) [OF assms] by (cases "vt_children x") (auto simp: vt_childlist_def dict_inv_def)
  have m: "mset (vt_childlist x) = mset (vt_sorted (Some x))" by (simp add: vt_sorted_def)
  have "distinct (map ?f (vt_sorted (Some x)))" using d m by (metis mset_eq_imp_distinct_iff mset_map)
  then have "distinct (map (\<lambda>c. key_ord (vt_key c)) (vt_sorted (Some x)))"
    by (simp add: distinct_map inj_on_def key_ord_eq)
  moreover have "sorted (map (\<lambda>c. key_ord (vt_key c)) (vt_sorted (Some x)))" by (simp add: vt_sorted_def)
  ultimately have "sorted_wrt (<) (map (\<lambda>c. key_ord (vt_key c)) (vt_sorted (Some x)))" by (simp add: strict_sorted_iff)
  moreover have "set (vt_sorted (Some x)) = set (vt_childlist x)" using m by (metis set_mset_mset)
  ultimately show "forest_ok n (vt_sorted (Some x))" using vt_okD(3) [OF assms] by (auto simp: forest_ok_def)
  show "forest_at (vt_sorted (Some x)) (s # q) = vt_map (s # q) x"
    using find_distinct_mset [OF d m, of "[s]"] by (simp add: forest_at_def)
qed

lemma path_lower_snoc: "vt_key c = [s] \<Longrightarrow> seg_ok s \<Longrightarrow> path_lower (p @ [vt_key c]) = path_lower p @ [lower s]"
  by (simp add: path_lower_def nonempty_segs_def seg_ok_def)

lemma tree_at_sorted:
  assumes "\<forall>x. a = Some x \<longrightarrow> vt_ok n x"
  shows "forest_ok n (vt_sorted a)" "tree_at a (s # q) = forest_at (vt_sorted a) (s # q)"
proof -
  have "forest_ok n (vt_sorted a) \<and> tree_at a (s # q) = forest_at (vt_sorted a) (s # q)"
  proof (cases a)
    case (Some x)
    then show ?thesis using forest_ok_sorted(1) [of n x] forest_ok_sorted(2) [of n x s q] assms by (simp add: tree_at_def del: ut_map.simps)
  qed (simp add: vt_sorted_def forest_ok_def tree_at_def forest_at_def)
  then show "forest_ok n (vt_sorted a)" "tree_at a (s # q) = forest_at (vt_sorted a) (s # q)" by simp_all
qed

lemma forest_at_empty [simp]: "forest_at [] = (\<lambda>_. None)" "forest_at cs [] = None"
  by (simp_all add: forest_at_def fun_eq_iff split: list.split)

lemma forest_ok_empty [simp]: "forest_ok n []"
  by (simp add: forest_ok_def)

text \<open>One step of the walk along two lists of children: the subtree under one segment, and the rest.\<close>

lemma tells_step:
  assumes "tells (P @ [t]) (tree_at a) (tree_at b) es" "tells P (forest_at as') (forest_at bs') es'"
    "\<And>r q. forest_at as (r # q) = (if r = t then tree_at a q else forest_at as' (r # q))"
    "\<And>r q. forest_at bs (r # q) = (if r = t then tree_at b q else forest_at bs' (r # q))"
    "\<And>q. forest_at as' (t # q) = None" "\<And>q. forest_at bs' (t # q) = None"
  shows "tells P (forest_at as) (forest_at bs) (es @ es')"
  by (rule tells_join [of P t _ _ es _ _ es', OF _ assms(2)]) (use assms in simp_all)

lemma forest_at_step:
  assumes "forest_ok n (c # cs)" "vt_key c = [s]"
  shows "forest_at (c # cs) (r # q) = (if r = lower s then tree_at (Some c) q else forest_at cs (r # q))"
    "forest_at cs (lower s # q) = None"
proof -
  show "forest_at (c # cs) (r # q) = (if r = lower s then tree_at (Some c) q else forest_at cs (r # q))"
    using forest_at_Cons [of c "lower s" cs r q] assms(2) by (simp add: tree_at_def)
  have "map lower (vt_key x) \<noteq> [lower s]" if "x \<in> set cs" for x
    using forest_ok_differs [OF forest_okD(5) [OF assms(1) that]] assms(2) by simp
  then show "forest_at cs (lower s # q) = None" by (intro forest_at_none ballI)
qed

lemma forest_at_absent:
  assumes "forest_ok n (x # xs)" "key_ord [s] < key_ord (vt_key x)"
  shows "forest_at (x # xs) (lower s # q) = None"
proof (rule forest_at_none, rule ballI)
  fix c assume "c \<in> set (x # xs)"
  then have "key_ord [s] < key_ord (vt_key c)" using assms(2) forest_okD(5) [OF assms(1)] by (auto intro: less_trans)
  then show "map lower (vt_key c) \<noteq> [lower s]" by (metis key_ord_eq less_irrefl list.simps(8,9))
qed

lemma tree_at_None [simp]: "tree_at None = (\<lambda>_. None)"
  by (simp add: tree_at_def fun_eq_iff)

lemma vt_compare_tells:
  assumes "cmp_tells cmp"
  shows "(a \<noteq> None \<or> b \<noteq> None) \<Longrightarrow> (\<forall>x. a = Some x \<longrightarrow> vt_ok n x \<and> path_lower pa = P) \<Longrightarrow>
      (\<forall>x. b = Some x \<longrightarrow> vt_ok n x \<and> path_lower pb = P) \<Longrightarrow>
      tells P (tree_at a) (tree_at b) (snd (vt_compare cmp pa pb a b))"
    and "(as \<noteq> [] \<longrightarrow> path_lower pa = P) \<Longrightarrow> (bs \<noteq> [] \<longrightarrow> path_lower pb = P) \<Longrightarrow> forest_ok n as \<Longrightarrow> forest_ok n bs \<Longrightarrow>
      tells P (forest_at as) (forest_at bs) (snd (vt_compare_children cmp pa pb as bs))"
  using assms
proof (induction cmp pa pb a b and cmp pa pb as bs arbitrary: P and P rule: vt_compare_vt_compare_children.induct)
  case (1 cmp pa pb a b)
  have ok: "\<forall>x. a = Some x \<longrightarrow> vt_ok n x" "\<forall>x. b = Some x \<longrightarrow> vt_ok n x" using 1(3,4) by blast+
  note ka = tree_at_sorted [OF ok(1)] and kb = tree_at_sorted [OF ok(2)]
  have p: "vt_sorted a \<noteq> [] \<longrightarrow> path_lower pa = P" "vt_sorted b \<noteq> [] \<longrightarrow> path_lower pb = P"
    using 1(3,4) by (auto simp: vt_sorted_def split: option.splits)
  obtain e es where c: "cmp pa pb a b = (e, es)" by fastforce
  obtain e' es' where k: "vt_compare_children cmp pa pb (vt_sorted a) (vt_sorted b) = (e', es')" by fastforce
  have t: "tells P (forest_at (vt_sorted a)) (forest_at (vt_sorted b)) es'"
    using 1(1) [OF c [symmetric] refl p ka(1) kb(1) 1(5)] k by simp
  have u: "\<forall>d \<in> set es. \<exists>q. map lower (fst d) = P @ q \<and> snd d = tree_at b q \<and> (tree_at a q \<noteq> None \<or> tree_at b q \<noteq> None)"
    "tree_at a [] \<noteq> tree_at b [] \<longrightarrow> (\<exists>d \<in> set es. map lower (fst d) = P)"
    using 1(5) [unfolded cmp_tells_def, rule_format, of a b n pa P pb] 1(2-4) c by auto
  have "\<exists>q. map lower (fst d) = P @ q \<and> snd d = tree_at b q \<and> (tree_at a q \<noteq> None \<or> tree_at b q \<noteq> None)" if d: "d \<in> set es'" for d
  proof -
    obtain q where q: "map lower (fst d) = P @ q" "snd d = forest_at (vt_sorted b) q"
      "forest_at (vt_sorted a) q \<noteq> None \<or> forest_at (vt_sorted b) q \<noteq> None"
      using t d unfolding tells_def by blast
    then show ?thesis using ka(2) kb(2) by (cases q) auto
  qed
  moreover have "\<exists>d \<in> set (es @ es'). map lower (fst d) = P @ q" if q: "tree_at a q \<noteq> tree_at b q" for q
  proof (cases q)
    case Nil
    then show ?thesis using q u(2) by auto
  next
    case (Cons s r)
    then have "forest_at (vt_sorted a) q \<noteq> forest_at (vt_sorted b) q" using q ka(2) kb(2) by simp
    then show ?thesis using t unfolding tells_def by auto
  qed
  ultimately have "tells P (tree_at a) (tree_at b) (es @ es')"
    using u(1) unfolding tells_def set_append by (intro conjI ballI allI impI) (elim UnE, blast, blast, blast)
  then show ?case using c k by (simp add: vt_compare.simps)
next
  case (2 cmp pa pb)
  then show ?case by (simp add: vt_compare_children.simps tells_def)
next
  case (3 cmp pa pb a as)
  note D = forest_okD [OF 3(5)]
  obtain s where s: "vt_key a = [s]" "seg_ok s" using D(3) by blast
  obtain e es where c: "vt_compare cmp (pa @ [vt_key a]) pb (Some a) None = (e, es)" by fastforce
  obtain e' es' where k: "vt_compare_children cmp pa pb as [] = (e', es')" by fastforce
  have "tells (P @ [lower s]) (tree_at (Some a)) (tree_at None) es"
    using 3(1) [of "P @ [lower s]"] 3(3) D(2) path_lower_snoc [OF s] c 3(7) by simp
  moreover have "tells P (forest_at as) (forest_at []) es'"
    using 3(2) [OF c [symmetric] refl, of P] 3(3,7) D(1) k by (simp add: forest_ok_def)
  ultimately have "tells P (forest_at (a # as)) (forest_at []) (es @ es')"
    by (rule tells_step) (simp_all add: forest_at_step [OF 3(5) s(1)] cong: if_cong)
  then show ?case using c k by (simp add: vt_compare_children.simps)
next
  case (4 cmp pa pb b bs)
  note D = forest_okD [OF 4(6)]
  obtain s where s: "vt_key b = [s]" "seg_ok s" using D(3) by blast
  obtain e es where c: "vt_compare cmp pa (pb @ [vt_key b]) None (Some b) = (e, es)" by fastforce
  obtain e' es' where k: "vt_compare_children cmp pa pb [] bs = (e', es')" by fastforce
  have "tells (P @ [lower s]) (tree_at None) (tree_at (Some b)) es"
    using 4(1) [of "P @ [lower s]"] 4(4) D(2) path_lower_snoc [OF s] c 4(7) by simp
  moreover have "tells P (forest_at []) (forest_at bs) es'"
    using 4(2) [OF c [symmetric] refl, of P] 4(4,7) D(1) k by simp
  ultimately have "tells P (forest_at []) (forest_at (b # bs)) (es @ es')"
    by (rule tells_step) (simp_all add: forest_at_step [OF 4(6) s(1)] cong: if_cong)
  then show ?case using c k by (simp add: vt_compare_children.simps)
next
  case (5 cmp pa pb a as b bs)
  note A = forest_okD [OF 5(9)] and B = forest_okD [OF 5(10)]
  obtain s where s: "vt_key a = [s]" "seg_ok s" using A(3) by blast
  obtain t where t: "vt_key b = [t]" "seg_ok t" using B(3) by blast
  have P: "path_lower pa = P" "path_lower pb = P" using 5(7,8) by simp_all
  have cs: "key_cstr (vt_key a)" "key_cstr (vt_key b)" by (rule A(4), rule B(4))
  note sgn = key_compareto_sgn [OF cs]
  consider (lt) "key_compareto (vt_key a) (vt_key b) < 0" | (gt) "key_compareto (vt_key a) (vt_key b) > 0"
    | (eq) "key_compareto (vt_key a) (vt_key b) = 0" by linarith
  then show ?case
  proof cases
    case lt
    obtain e es where c: "vt_compare cmp (pa @ [vt_key a]) pb (Some a) None = (e, es)" by fastforce
    obtain e' es' where k: "vt_compare_children cmp pa pb as (b # bs) = (e', es')" by fastforce
    have T: "tells (P @ [lower s]) (tree_at (Some a)) (tree_at None) es"
      using 5(1) [OF refl lt, of "P @ [lower s]"] A(2) path_lower_snoc [OF s] c 5(11) P by simp
    have U: "tells P (forest_at as) (forest_at (b # bs)) es'"
      using 5(2) [OF refl lt c [symmetric] refl, of P] 5(10,11) A(1) k P by simp
    have N: "forest_at (b # bs) (lower s # q) = None" for q
      using forest_at_absent [OF 5(10)] sgn lt s(1) by simp
    have "tells P (forest_at (a # as)) (forest_at (b # bs)) (es @ es')"
      by (rule tells_step [OF T U]) (auto simp: forest_at_step [OF 5(9) s(1)] N)
    then show ?thesis using c k lt by (simp add: vt_compare_children.simps)
  next
    case gt
    obtain e es where c: "vt_compare cmp pa (pb @ [vt_key b]) None (Some b) = (e, es)" by fastforce
    obtain e' es' where k: "vt_compare_children cmp pa pb (a # as) bs = (e', es')" by fastforce
    have T: "tells (P @ [lower t]) (tree_at None) (tree_at (Some b)) es"
      using 5(3) [OF refl _ gt, of "P @ [lower t]"] gt B(2) path_lower_snoc [OF t] c 5(11) P by simp
    have U: "tells P (forest_at (a # as)) (forest_at bs) es'"
      using 5(4) [OF refl _ gt c [symmetric] refl, of P] gt 5(9,11) B(1) k P by simp
    have "key_ord (vt_key b) < key_ord (vt_key a)" using sgn gt by (simp add: not_less_iff_gr_or_eq) (metis linorder_less_linear less_irrefl)
    then have N: "forest_at (a # as) (lower t # q) = None" for q
      using forest_at_absent [OF 5(9)] t(1) by simp
    have "tells P (forest_at (a # as)) (forest_at (b # bs)) (es @ es')"
      by (rule tells_step [OF T U]) (auto simp: forest_at_step [OF 5(10) t(1)] N)
    then show ?thesis using c k gt by (simp add: vt_compare_children.simps)
  next
    case eq
    have l: "lower t = lower s" using sgn eq s(1) t(1) by (simp add: key_ord_eq)
    obtain e es where c: "vt_compare cmp (pa @ [vt_key a]) (pb @ [vt_key b]) (Some a) (Some b) = (e, es)" by fastforce
    obtain e' es' where k: "vt_compare_children cmp pa pb as bs = (e', es')" by fastforce
    have "tells (P @ [lower s]) (tree_at (Some a)) (tree_at (Some b)) es"
      using 5(5) [OF refl, of "P @ [lower s]"] eq A(2) B(2) path_lower_snoc [OF s] path_lower_snoc [OF t] c 5(11) P l by simp
    moreover have "tells P (forest_at as) (forest_at bs) es'"
      using 5(6) [OF refl _ _ c [symmetric] refl, of P] eq 5(11) A(1) B(1) k P by simp
    ultimately have "tells P (forest_at (a # as)) (forest_at (b # bs)) (es @ es')"
      by (rule tells_step) (simp_all add: forest_at_step [OF 5(9) s(1)] forest_at_step [OF 5(10) t(1), unfolded l])
    then show ?thesis using c k eq by (simp add: vt_compare_children.simps)
  qed
qed

end
