(* ===== verification/WvStrUtils.thy ===== *)
theory WvStrUtils
  imports WvString
begin

text \<open>
  The string utilities of \<open>utils/wvstrutils.cc\<close>, without those on dates, which only call
  \<open>strftime\<close>.  A function that reads or writes outside of its string, or does not return,
  has an optional result, and is \<open>None\<close> there.
\<close>

subsection \<open>Trimming and simple edits\<close>

definition isnewline :: "char \<Rightarrow> bool" where
  "isnewline c \<longleftrightarrow> c = CHR 0x0A \<or> c = CHR 0x0D"

definition terminate_string :: "wvstring \<Rightarrow> char \<Rightarrow> wvstring" where
  "terminate_string s c =
     map_option (\<lambda>t. rev (dropWhile (\<lambda>x. x = CHR 0x0D \<or> x = CHR 0x0A) (rev t)) @ [c]) s"

definition trim_string :: "wvstring \<Rightarrow> wvstring" where
  "trim_string s =
     map_option (\<lambda>t. dropWhile c_isspace (rev (dropWhile c_isspace (rev t)))) s"

definition trim_string_at :: "wvstring \<Rightarrow> char \<Rightarrow> wvstring" where
  "trim_string_at s c = map_option (takeWhile (\<lambda>x. x \<noteq> c)) s"

text \<open>The back of \<open>a\<close> is eaten away without a test for its beginning.\<close>

primrec eat_back :: "string \<Rightarrow> char \<Rightarrow> nat \<Rightarrow> nat option" where
  "eat_back a sep 0 = None"
| "eat_back a sep (Suc n) = (if a ! n = sep then eat_back a sep n else Some (Suc n))"

definition spacecat :: "string \<Rightarrow> string \<Rightarrow> char \<Rightarrow> bool \<Rightarrow> string option" where
  "spacecat a b sep onesep =
     (case (if onesep \<and> a \<noteq> [] then eat_back a sep (length a) else Some (length a)) of
        None \<Rightarrow> None
      | Some alen \<Rightarrow>
          if onesep \<and> sep = NUL then None
          else Some (take alen a @ [sep] @ (if onesep then dropWhile (\<lambda>x. x = sep) b else b)))"

definition non_breaking :: "wvstring \<Rightarrow> wvstring" where
  "non_breaking s =
     map_option (\<lambda>t. concat (map (\<lambda>c. if c_isspace c then ''&nbsp;'' else [c]) t)) s"

definition replace_char :: "string \<Rightarrow> char \<Rightarrow> char \<Rightarrow> nat \<Rightarrow> string" where
  "replace_char s c1 c2 len = map (\<lambda>c. if c = c1 then c2 else c) (take len s) @ drop len s"

text \<open>\<open>strstr\<close>: the offset of the first occurrence.\<close>

fun c_strstr :: "string \<Rightarrow> string \<Rightarrow> nat option" where
  "c_strstr [] needle = (if needle = [] then Some 0 else None)"
| "c_strstr (c # s) needle =
     (if prefix needle (c # s) then Some 0 else map_option Suc (c_strstr s needle))"

definition snip_string :: "wvstring \<Rightarrow> wvstring \<Rightarrow> wvstring" where
  "snip_string haystack needle =
     (case haystack of
        None \<Rightarrow> None
      | Some h \<Rightarrow>
          (case needle of
             None \<Rightarrow> Some h
           | Some n \<Rightarrow> if c_strstr h n = Some 0 then Some (drop (length n) h) else Some h))"

definition strlwr :: "wvstring \<Rightarrow> wvstring" where
  "strlwr s = map_option (map c_tolower) s"

definition strupr :: "wvstring \<Rightarrow> wvstring" where
  "strupr s = map_option (map c_toupper) s"

primrec is_word :: "string \<Rightarrow> bool" where
  "is_word [] = True"
| "is_word (c # s) = (if \<not> c_isalnum c then False else is_word s)"

definition backslash_escape :: "wvstring \<Rightarrow> string" where
  "backslash_escape s1 =
     (if str_not s1 then []
      else concat (map (\<lambda>c. if \<not> c_isalnum c then [CHR 0x5C, c] else [c]) (the s1)))"

primrec strcount :: "string \<Rightarrow> char \<Rightarrow> nat" where
  "strcount [] c = 0"
| "strcount (x # s) c = (if x = c then 1 else 0) + strcount s c"

primrec undupe_loop :: "string \<Rightarrow> char \<Rightarrow> bool \<Rightarrow> string" where
  "undupe_loop [] c lst = []"
| "undupe_loop (x # s) c lst =
     (if x \<noteq> c then x # undupe_loop s c False
      else if \<not> lst then c # undupe_loop s c True else undupe_loop s c lst)"

definition undupe :: "string \<Rightarrow> char \<Rightarrow> string" where
  "undupe s c = undupe_loop s c False"

text \<open>\<open>strreplace\<close>: with an empty \<open>a\<close> the loop makes no progress and never ends.\<close>

lemma c_strstr_bound: "c_strstr s a = Some i \<Longrightarrow> i + length a \<le> length s"
  by (induction s arbitrary: i) (auto split: if_splits dest: prefix_length_le)

function strreplace_loop :: "string \<Rightarrow> string \<Rightarrow> string \<Rightarrow> string" where
  "strreplace_loop a b s =
     (if a = [] then []
      else case c_strstr s a of
             None \<Rightarrow> s
           | Some i \<Rightarrow> take i s @ b @ strreplace_loop a b (drop (i + length a) s))"
  by pat_completeness auto

termination
  by (relation "measure (\<lambda>(a, b, s). length s)")
    (auto dest!: c_strstr_bound simp flip: length_greater_0_conv)

declare strreplace_loop.simps [simp del]

definition strreplace :: "string \<Rightarrow> string \<Rightarrow> string \<Rightarrow> string option" where
  "strreplace s a b = (if a = [] then None else Some (strreplace_loop a b s))"

text \<open>\<open>lookup\<close> in a table that ends with a null pointer.\<close>

primrec lookup_loop :: "string \<Rightarrow> string list \<Rightarrow> bool \<Rightarrow> int \<Rightarrow> int" where
  "lookup_loop str [] case_sensitive i = - 1"
| "lookup_loop str (t # table) case_sensitive i =
     (if (if case_sensitive then c_strcmp str t \<noteq> 0 else c_strcasecmp str t \<noteq> 0)
      then lookup_loop str table case_sensitive (i + 1) else i)"

definition str_lookup :: "string \<Rightarrow> string list \<Rightarrow> bool \<Rightarrow> int" where
  "str_lookup str table case_sensitive = lookup_loop str table case_sensitive 0"

subsection \<open>Parts of strings\<close>

definition afterstr :: "wvstring \<Rightarrow> wvstring \<Rightarrow> wvstring" where
  "afterstr line a =
     (if str_not line \<or> str_not a then None
      else case c_strstr (the line) (the a) of
             None \<Rightarrow> Some []
           | Some loc \<Rightarrow> Some (drop (loc + length (the a)) (the line)))"

definition beforestr :: "wvstring \<Rightarrow> wvstring \<Rightarrow> wvstring" where
  "beforestr line a =
     (if str_not line \<or> str_not a then None
      else case c_strstr (the line) (the a) of
             None \<Rightarrow> line
           | Some loc \<Rightarrow> Some (take loc (the line)))"

text \<open>\<open>line.len() - 1\<close> is a \<open>size_t\<close>, and \<open>pos + len\<close> an \<open>unsigned int\<close>.  The write of the
  NUL at \<open>len\<close> must stay inside of the rest of the line.\<close>

definition substr :: "string \<Rightarrow> 32 word \<Rightarrow> 32 word \<Rightarrow> string option" where
  "substr line pos len =
     (if (ucast pos :: 64 word) > of_nat (length line) - 1 then Some []
      else if unat pos > length line then None
      else let ret = drop (unat pos) line
           in if (ucast (pos + len) :: 64 word) < of_nat (length line)
              then (if unat len \<le> length ret then Some (take (unat len) ret) else None)
              else Some ret)"

definition depunctuate :: "string \<Rightarrow> string option" where
  "depunctuate line =
     (if line = [] then None
      else if last line \<in> {CHR ''.'', CHR ''?'', CHR ''!''} then Some (butlast line) else Some line)"

text \<open>\<open>strrchr\<close> of a slash: the parts before and after the last one.\<close>

definition split_last_slash :: "string \<Rightarrow> (string \<times> string) option" where
  "split_last_slash s =
     (if CHR ''/'' \<in> set s
      then Some (rev (tl (dropWhile (\<lambda>c. c \<noteq> CHR ''/'') (rev s))),
                 rev (takeWhile (\<lambda>c. c \<noteq> CHR ''/'') (rev s)))
      else None)"

lemma split_last_slash_join: "split_last_slash s = Some (d, f) \<Longrightarrow> s = d @ CHR ''/'' # f \<and> CHR ''/'' \<notin> set f"
proof -
  assume a: "split_last_slash s = Some (d, f)"
  then have m: "CHR ''/'' \<in> set (rev s)" by (auto simp: split_last_slash_def split: if_splits)
  let ?t = "takeWhile (\<lambda>c. c \<noteq> CHR ''/'') (rev s)" and ?d = "dropWhile (\<lambda>c. c \<noteq> CHR ''/'') (rev s)"
  have "?d \<noteq> []" using m by (simp add: dropWhile_eq_Nil_conv)
  then have "?d = CHR ''/'' # tl ?d" using hd_dropWhile [of "\<lambda>c. c \<noteq> CHR ''/''" "rev s"] by (cases ?d) auto
  then have "rev s = ?t @ CHR ''/'' # tl ?d" by (metis takeWhile_dropWhile_id)
  then have "s = rev (tl ?d) @ CHR ''/'' # rev ?t"
    by (metis append.assoc append_Cons append_Nil rev.simps(2) rev_append rev_rev_ident)
  moreover have "CHR ''/'' \<notin> set ?t" by (auto dest: set_takeWhileD)
  ultimately show ?thesis using a m by (auto simp: split_last_slash_def)
qed

function getfilename :: "wvstring \<Rightarrow> wvstring" where
  "getfilename fullname =
     (if str_not fullname then fullname
      else case split_last_slash (the fullname) of
             None \<Rightarrow> fullname
           | Some (d, f) \<Rightarrow> if f = [] then getfilename (Some d) else Some f)"
  by pat_completeness auto
termination
  by (relation "measure (\<lambda>s. length (the s))") (auto dest: split_last_slash_join simp: str_not_def)

declare getfilename.simps [simp del]

function getdirname :: "wvstring \<Rightarrow> wvstring" where
  "getdirname fullname =
     (if str_not fullname then fullname
      else case split_last_slash (the fullname) of
             None \<Rightarrow> Some ''.''
           | Some (d, f) \<Rightarrow> if f = [] then getdirname (Some d)
                           else Some (if d = [] then ''/'' else d))"
  by pat_completeness auto
termination
  by (relation "measure (\<lambda>s. length (the s))") (auto dest: split_last_slash_join simp: str_not_def)

declare getdirname.simps [simp del]

subsection \<open>What the functions compute\<close>

lemma is_word_all: "is_word s \<longleftrightarrow> list_all c_isalnum s"
  by (induction s) auto

lemma strcount_count: "strcount s c = count_list s c"
  by (induction s) auto

lemma c_strstr_Some:
  "c_strstr s a = Some i \<Longrightarrow> s = take i s @ a @ drop (i + length a) s"
proof (induction s arbitrary: i)
  case Nil
  then show ?case by (simp split: if_splits)
next
  case (Cons c s)
  then show ?case by (auto simp: prefix_def split: if_splits)
qed

lemma c_strstr_first: "c_strstr s a = Some i \<Longrightarrow> j < i \<Longrightarrow> \<not> prefix a (drop j s)"
proof (induction s arbitrary: i j)
  case (Cons c s)
  then show ?case by (cases j) (auto split: if_splits)
qed (simp split: if_splits)

lemma c_strstr_None: "c_strstr s a = None \<longleftrightarrow> \<not> sublist a s"
proof (induction s)
  case (Cons c s)
  then show ?case by (auto simp: sublist_Cons_right)
qed auto

lemma c_strstr_zero: "c_strstr s a = Some 0 \<longleftrightarrow> prefix a s"
  by (cases s) (auto split: if_splits)

lemma c_strstr_single:
  "c_strstr s [c] = (if c \<in> set s then Some (length (takeWhile (\<lambda>x. x \<noteq> c) s)) else None)"
  by (induction s) auto

text \<open>Replacing one character by a string, as a map over the characters.\<close>

lemma strreplace_loop_Cons:
  "strreplace_loop [c] b (x # s) = (if x = c then b else [x]) @ strreplace_loop [c] b s"
proof (cases "x = c")
  case True
  then show ?thesis by (subst strreplace_loop.simps) simp
next
  case False
  then show ?thesis
    by (simp add: strreplace_loop.simps [of "[c]" b "x # s"] strreplace_loop.simps [of "[c]" b s]
        c_strstr_single)
qed

lemma strreplace_single: "strreplace_loop [c] b s = concat (map (\<lambda>x. if x = c then b else [x]) s)"
  by (induction s) (simp_all add: strreplace_loop_Cons strreplace_loop.simps [of "[c]" b "[]"])

lemma trim_string_spec:
  "trim_string (Some t) = Some u \<Longrightarrow>
     \<exists>a b. t = a @ u @ b \<and> list_all c_isspace (a @ b) \<and>
       (u \<noteq> [] \<longrightarrow> \<not> c_isspace (hd u) \<and> \<not> c_isspace (last u))"
proof -
  assume u: "trim_string (Some t) = Some u"
  let ?r = "rev (dropWhile c_isspace (rev t))" and ?b = "rev (takeWhile c_isspace (rev t))"
  have u': "u = dropWhile c_isspace ?r" using u by (simp add: trim_string_def)
  have "t = ?r @ ?b" by (metis rev_append rev_rev_ident takeWhile_dropWhile_id)
  moreover have "?r = takeWhile c_isspace ?r @ u" by (simp add: u')
  ultimately have "t = takeWhile c_isspace ?r @ u @ ?b" by (metis append.assoc)
  moreover have "list_all c_isspace (takeWhile c_isspace ?r @ ?b)"
  proof -
    have "list_all c_isspace (takeWhile c_isspace l)" for l
      by (induction l) auto
    moreover have "list_all c_isspace (rev l) = list_all c_isspace l" for l by (simp add: list_all_iff)
    ultimately show ?thesis by (simp only: list_all_append)
  qed
  moreover have "\<not> c_isspace (hd u)" if "u \<noteq> []" using that hd_dropWhile u' by blast
  moreover have "\<not> c_isspace (last u)" if "u \<noteq> []"
  proof -
    have "last u = last ?r" using that u' by (metis last_appendR takeWhile_dropWhile_id)
    moreover have "dropWhile c_isspace (rev t) \<noteq> []" using that u' by (metis dropWhile.simps(1) rev.simps(1))
    ultimately show ?thesis using hd_dropWhile by (metis last_rev)
  qed
  ultimately show ?thesis by blast
qed

text \<open>The line is what comes before the first occurrence, the occurrence, and what comes
  after it.\<close>

lemma before_after:
  assumes "sublist a l" "a \<noteq> []" "l \<noteq> []"
  shows "\<exists>x y. beforestr (Some l) (Some a) = Some x \<and> afterstr (Some l) (Some a) = Some y \<and>
    l = x @ a @ y \<and> (\<forall>j < length x. \<not> prefix a (drop j l))"
proof -
  obtain i where i: "c_strstr l a = Some i" using assms(1) c_strstr_None by fastforce
  then have "i \<le> length l" using c_strstr_bound by fastforce
  then show ?thesis using i c_strstr_Some [OF i] c_strstr_first [OF i] assms(2,3)
    by (simp add: beforestr_def afterstr_def str_not_def)
qed

lemma getfilename_no_slash: "getfilename s = Some t \<Longrightarrow> CHR ''/'' \<notin> set t"
proof (induction s rule: getfilename.induct)
  case (1 s)
  show ?case
  proof (cases "str_not s")
    case True
    then show ?thesis using 1(2) by (auto simp: getfilename.simps [of s] str_not_def split: option.splits)
  next
    case False
    then obtain u where u: "s = Some u" by (cases s) (auto simp: str_not_def)
    show ?thesis
    proof (cases "split_last_slash u")
      case None
      then have "t = u" using 1(2) False u by (simp add: getfilename.simps [of "Some u"])
      then show ?thesis using None by (auto simp: split_last_slash_def split: if_splits)
    next
      case (Some p)
      obtain d f where p: "p = (d, f)" by (cases p)
      show ?thesis
      proof (cases "f = []")
        case True
        then show ?thesis using 1 False u Some p by (simp add: getfilename.simps [of "Some u"])
      next
        case nf: False
        then have "t = f" using 1(2) False u Some p by (simp add: getfilename.simps [of "Some u"])
        then show ?thesis using split_last_slash_join [of u d f] Some p by simp
      qed
    qed
  qed
qed

text \<open>A path that does not end in a slash is its directory, a slash, and its file name.\<close>

lemma dirname_filename:
  assumes "CHR ''/'' \<in> set t" "last t \<noteq> CHR ''/''"
  shows "\<exists>d f. getdirname (Some t) = Some (if d = [] then ''/'' else d) \<and> getfilename (Some t) = Some f \<and>
    t = d @ CHR ''/'' # f \<and> f \<noteq> []"
proof -
  obtain d f where sp: "split_last_slash t = Some (d, f)"
    using assms(1) by (simp add: split_last_slash_def)
  from split_last_slash_join [OF this] have t: "t = d @ CHR ''/'' # f" by simp
  then have "f \<noteq> []" using assms(2) by auto
  moreover have "\<not> str_not (Some t)" using assms(1) by (auto simp: str_not_def)
  ultimately have "getdirname (Some t) = Some (if d = [] then ''/'' else d)" "getfilename (Some t) = Some f"
    using sp by (simp_all add: getdirname.simps [of "Some t"] getfilename.simps [of "Some t"])
  then show ?thesis using t \<open>f \<noteq> []\<close> by blast
qed

text \<open>No two adjacent copies of the character are left.\<close>

lemma undupe_loop_adjacent:
  "(lst \<longrightarrow> undupe_loop s c lst = [] \<or> hd (undupe_loop s c lst) \<noteq> c) \<and>
   (\<forall>i. Suc i < length (undupe_loop s c lst) \<longrightarrow>
      \<not> (undupe_loop s c lst ! i = c \<and> undupe_loop s c lst ! Suc i = c))"
proof (induction s arbitrary: lst)
  case (Cons x s)
  have T: "undupe_loop s c True = [] \<or> hd (undupe_loop s c True) \<noteq> c" using Cons [of True] by blast
  show ?case
  proof (cases "x = c")
    case True
    have "\<not> (c = c \<and> undupe_loop s c True ! 0 = c)" if "0 < length (undupe_loop s c True)"
      using that T by (auto simp: hd_conv_nth)
    then show ?thesis using True Cons [of True] Cons [of lst]
      by (auto simp: nth_Cons' gr0_conv_Suc)
  next
    case False
    then show ?thesis using Cons [of False] by (auto simp: nth_Cons' gr0_conv_Suc)
  qed
qed simp

end
