(* ===== verification/UniIniGen.thy ===== *)
theory UniIniGen
  imports UniTreeCompare WvTclString WvStrUtils
begin

text \<open>
  The generator over a file in the style of \<open>.ini\<close> (\<open>uniconf/uniinigen.cc\<close>).  A file to be read is what
  \<open>blocking_getline\<close> returns for it, line by line, \<open>None\<close> when it meets the end; the stream is closed after the last
  one.  What is written is a text.  Log messages are left out.  \<open>None\<close> as a result is undefined behaviour or a
  failed assertion.
\<close>

subsection \<open>Writing\<close>

text \<open>\<open>absolutely_needs_escape\<close>: the loop goes on with the number of open braces and two flags.\<close>

primrec ane_loop :: "string \<Rightarrow> string \<Rightarrow> int \<Rightarrow> bool \<Rightarrow> bool \<Rightarrow> bool" where
  "ane_loop sepchars [] numbraces inescape inspace =
     (if inescape \<or> inspace then True else numbraces \<noteq> 0)"
| "ane_loop sepchars (c # cs) numbraces inescape inspace =
     (if \<not> inescape \<and> numbraces = 0 \<and> c \<in> set sepchars then True
      else let inescape' = (\<not> inescape \<and> c = CHR 0x5C);
               numbraces' = (if inescape then numbraces
                             else if c = CHR ''{'' then numbraces + 1
                             else if c = CHR ''}'' then numbraces - 1
                             else numbraces)
           in if numbraces' < 0 then False
              else ane_loop sepchars cs numbraces' inescape' (c_isspace c))"

definition absolutely_needs_escape :: "string \<Rightarrow> string \<Rightarrow> bool" where
  "absolutely_needs_escape s sepchars =
     (if s \<noteq> [] \<and> c_isspace (hd s) then True else ane_loop sepchars s 0 False False)"

definition ini_mask :: "string \<Rightarrow> strmask" where
  "ini_mask cs = the (mask_of_str (Some cs))"

definition section_nasties :: string where
  "section_nasties = [CHR 0x0D, CHR 0x0A, CHR ''['', CHR '']'']"

definition ini_printsection :: "key \<Rightarrow> string" where
  "ini_printsection key =
     (let s = key_printable key;
          s' = (if absolutely_needs_escape s section_nasties then the (wvtcl_escape (Some s) (ini_mask section_nasties)) else s)
      in CHR 0x0A # CHR ''['' # s' @ [CHR '']'', CHR 0x0A])"

definition ini_printkey :: "key \<Rightarrow> string \<Rightarrow> string" where
  "ini_printkey key value =
     (let k = key_printable key;
          k' = (if absolutely_needs_escape k ([CHR 0x0D, CHR 0x0A] @ ''[]=#'' @ [CHR 0x22])
                then the (wvtcl_escape (Some k) (ini_mask ([CHR 0x0D, CHR 0x0A, CHR 0x09] @ '' []=#'')))
                else if key_eq key (key_of_string (Some [])) then ''/''
                else k);
          v' = (if absolutely_needs_escape value [CHR 0x0D, CHR 0x0A]
                then the (wvtcl_escape (Some value) WVTCL_NASTY_SPACES)
                else value)
      in k' @ '' = '' @ v' @ [CHR 0x0A])"

text \<open>The nodes of one level, with all below them if \<open>recursive\<close>; \<open>path\<close> leads from \<open>toplevel\<close> to the level.  The
  flag tells if the heading was printed.\<close>

function ini_save_sect :: "key \<Rightarrow> key list \<Rightarrow> bool \<Rightarrow> vtree list \<Rightarrow> bool \<Rightarrow> string \<times> bool" where
  "ini_save_sect toplevel path recursive [] printedsection = ([], printedsection)"
| "ini_save_sect toplevel path recursive (node # nodes) printedsection =
     (let (out1, p1) =
            (if \<not> str_not (vt_value node)
             then ((if printedsection then [] else ini_printsection toplevel) @
                     ini_printkey (vt_fullkey (path @ [vt_key node])) (the (vt_value node)), True)
             else ([], printedsection));
          (out2, p2) =
            (if recursive \<and> vt_haschildren node
             then ini_save_sect toplevel (path @ [vt_key node]) recursive (vt_childlist node) p1
             else ([], p1));
          (out3, p3) = ini_save_sect toplevel path recursive nodes p2
      in (out1 @ out2 @ out3, p3))"
  by pat_completeness auto
termination
proof (relation "measure (\<lambda>(toplevel, path, recursive, nodes, printedsection). size_list size nodes)", goal_cases)
  case (2 toplevel path recursive node nodes printedsection)
  obtain k v t where n: "node = VNode k v t" by (cases node)
  then show ?case using sh_elems_total [of size] by (cases t) (auto simp: vt_childlist_def less_Suc_eq_le intro: le_SucI trans_le_add1)
qed auto

declare ini_save_sect.simps(2) [simp del]

definition ini_save :: "vtree option \<Rightarrow> string" where
  "ini_save parent =
     (case parent of
        None \<Rightarrow> []
      | Some root \<Rightarrow>
          (if str_not (vt_value root) then [] else ini_printkey (vt_key root) (the (vt_value root))) @
          fst (ini_save_sect key_EMPTY [] False (vt_childlist root) False) @
          concat (map (\<lambda>node. fst (ini_save_sect (vt_fullkey [vt_key node]) [] True (vt_childlist node) False))
            (vt_childlist root)))"

subsection \<open>Reading\<close>

text \<open>What reading keeps: the section and the new generator.\<close>

type_synonym ini_state = "key \<times> tempgen"

text \<open>\<open>trim_string\<close> cuts the word off behind in place and returns the first character that is no space; the line
  is then taken from the word.\<close>

definition ini_word :: "string \<Rightarrow> ini_state \<Rightarrow> ini_state option" where
  "ini_word word0 st =
     (let word = rev (dropWhile c_isspace (rev word0)); str = the (trim_string (Some word0)) in
      if str = [] then Some st
      else if hd str = CHR ''#'' then Some st
      else if hd str = CHR ''['' \<and> last str = CHR '']'' then do {
        name \<leftarrow> wvtcl_unescape (trim_string (Some (butlast (tl str))));
        Some (key_of_string name, snd st) }
      else do {
        (name, line) \<leftarrow> wvtcl_getword word (ini_mask ''='') False;
        (if name = None \<or> line = [] then Some st
         else do {
           name' \<leftarrow> wvtcl_unescape (trim_string name);
           (if str_not name' then Some st
            else if hd line \<noteq> CHR ''='' then None
            else do {
              value \<leftarrow> wvtcl_unescape (trim_string (Some (tl line)));
              g \<leftarrow> tg_set (key_prepend (key_of_string name') (fst st)) value (snd st);
              Some (fst st, g) }) }) })"

lemma getword_shorter: "wvtcl_getword buf m d = Some (Some word, buf') \<Longrightarrow> length buf' < length buf"
  using getword_core_pos [of m buf]
  by (auto simp: wvtcl_getword_def tcl_getword_def split: option.splits if_splits prod.splits getword_result.splits)

function ini_words :: "string \<Rightarrow> ini_state \<Rightarrow> (string \<times> ini_state) option" where
  "ini_words buf st =
     (case wvtcl_getword buf WVTCL_NASTY_NEWLINES False of
        None \<Rightarrow> None
      | Some (None, buf') \<Rightarrow> Some (buf', st)
      | Some (Some word, buf') \<Rightarrow> (case ini_word word st of None \<Rightarrow> None | Some st' \<Rightarrow> ini_words buf' st'))"
  by pat_completeness auto
termination
  by (relation "measure (\<lambda>(buf, st). length buf)") (auto dest: getword_shorter)

declare ini_words.simps [simp del]

text \<open>At the end of the file a line that gave no word is dropped.\<close>

definition ini_dropline :: "string \<Rightarrow> string option" where
  "ini_dropline buf =
     (if CHR 0x0A \<in> set buf then Some (tl (dropWhile (\<lambda>c. c \<noteq> CHR 0x0A) buf)) else None)"

lemma getword_no_longer: "wvtcl_getword buf m d = Some (w, buf') \<Longrightarrow> length buf' \<le> length buf"
  by (auto simp: wvtcl_getword_def split: getword_result.splits)

lemma ini_words_length: "ini_words buf st = Some (buf', st') \<Longrightarrow> length buf' \<le> length buf"
proof (induction buf st rule: ini_words.induct)
  case (1 buf st)
  show ?case
  proof (cases "wvtcl_getword buf WVTCL_NASTY_NEWLINES False")
    case None
    then show ?thesis using 1(2) by (simp add: ini_words.simps)
  next
    case (Some r)
    then show ?thesis using 1(2) 1(1) [OF Some] getword_no_longer [of buf]
      by (cases r; cases "fst r") (force simp: ini_words.simps [of buf st] split: option.splits)+
  qed
qed

lemma ini_dropline_length: "ini_dropline buf = Some buf' \<Longrightarrow> length buf' < length buf"
  using length_dropWhile_le [of "\<lambda>c. c \<noteq> CHR 0x0A" buf]
  by (cases "dropWhile (\<lambda>c. c \<noteq> CHR 0x0A) buf") (auto simp: ini_dropline_def dropWhile_eq_Nil_conv split: if_splits)

function ini_read :: "wvstring list \<Rightarrow> string \<Rightarrow> ini_state \<Rightarrow> ini_state option" where
  "ini_read reads buf st =
     (if buf = [] \<and> reads = [] then Some st
      else let buf1 = (case reads of Some line # _ \<Rightarrow> buf @ line @ [CHR 0x0A] | _ \<Rightarrow> buf)
           in case ini_words buf1 st of
                None \<Rightarrow> None
              | Some (buf2, st') \<Rightarrow>
                  (case (if buf2 \<noteq> [] \<and> tl reads = [] then ini_dropline buf2 else Some buf2) of
                     None \<Rightarrow> None
                   | Some buf3 \<Rightarrow> ini_read (tl reads) buf3 st'))"
  by pat_completeness auto
termination
proof (relation "measures [\<lambda>(reads, buf, st). length reads, \<lambda>(reads, buf, st). length buf]", goal_cases)
  case (2 reads buf st buf1 r buf2 st' buf3)
  show ?case
  proof (cases reads)
    case Nil
    then have "length buf2 \<le> length buf" using 2(2,3,4) ini_words_length [of buf st buf2 st'] by simp
    moreover have "buf2 \<noteq> [] \<longrightarrow> length buf3 < length buf2" "buf2 = [] \<longrightarrow> buf3 = []"
      using 2(5) Nil ini_dropline_length by (auto split: if_splits)
    moreover have "buf \<noteq> []" using 2(1) Nil by simp
    ultimately show ?thesis using Nil by (cases "buf2 = []") auto
  qed simp
qed simp

declare ini_read.simps [simp del]

text \<open>The lines of a file with this text.\<close>

function file_reads :: "string \<Rightarrow> wvstring list" where
  "file_reads t =
     (if t = [] then [None]
      else let line = takeWhile (\<lambda>c. c \<noteq> CHR 0x0A) t; rest = dropWhile (\<lambda>c. c \<noteq> CHR 0x0A) t
           in if rest = [] then [Some line] else Some line # file_reads (tl rest))"
  by pat_completeness auto
termination
proof (relation "measure length", goal_cases)
  case (2 t line rest)
  have "length rest \<le> length t" unfolding 2(3) by (rule length_dropWhile_le)
  moreover have "length (tl rest) < length rest" using 2(4) by (cases rest) simp_all
  ultimately show ?case by simp
qed simp

declare file_reads.simps [simp del]

subsection \<open>The generator\<close>

text \<open>\<open>old_st\<close> is what \<open>fstat\<close> told of the file when it was last looked at, as a number; after a failed attempt to open
  the file it is a copy of an uninitialised variable, which is \<open>None\<close> here and taken to differ from any.\<close>

record inigen = tempgen +
  in_old_st :: "nat option"

datatype ini_file = No_file | File (fi_st: nat) (fi_sticky: bool) (fi_reads: "wvstring list") (fi_err: bool)

definition ini_new :: "inigen option" where
  "ini_new = tg_set key_EMPTY (Some []) (tempgen.extend tg_new \<lparr>in_old_st = Some 0\<rparr>)"

definition ini_set :: "key \<Rightarrow> wvstring \<Rightarrow> 'a tempgen_scheme \<Rightarrow> 'a tempgen_scheme option" where
  "ini_set key value g = do {
     g1 \<leftarrow> tg_set key value g;
     (if value = None \<and> key_isempty key then tg_set key_EMPTY (Some []) g1 else Some g1) }"

definition ini_refreshcomparator :: "(wvstring, notice) comparator" where
  "ini_refreshcomparator pa pb a b =
     (case a of
        Some x \<Rightarrow>
          (case b of
             Some y \<Rightarrow> if str_ne (vt_value x) (vt_value y) then (False, [(vt_fullkey pb, vt_value y)]) else (True, [])
           | None \<Rightarrow> (False, map (\<lambda>p. (vt_fullkey (pa @ p), None)) (vt_postorder x)))
      | None \<Rightarrow> (case b of Some y \<Rightarrow> (False, [(vt_fullkey pb, vt_value y)]) | None \<Rightarrow> (False, [])))"

text \<open>The new tree takes the place of the old one, and the differences are told.\<close>

definition ini_switch :: "vtree option \<Rightarrow> 'a tempgen_scheme \<Rightarrow> 'a tempgen_scheme option" where
  "ini_switch newtree g = do {
     g1 \<leftarrow> delta_list (snd (vt_compare ini_refreshcomparator [] [] (tg_root g) newtree))
            ((hold_delta g)\<lparr>tg_root := newtree, tg_dirty := False\<rparr>);
     unhold_delta g1 }"

definition ini_refresh :: "ini_file \<Rightarrow> inigen \<Rightarrow> (bool \<times> inigen) option" where
  "ini_refresh file g =
     (case file of
        No_file \<Rightarrow> Some (False, g\<lparr>in_old_st := None\<rparr>)
      | File st sticky reads err \<Rightarrow>
          if \<not> sticky \<and> in_old_st g = Some st then Some (True, g)
          else (let g1 = g\<lparr>in_old_st := Some st\<rparr>
                in if sticky then Some (False, g1)
                   else do {
                     newgen \<leftarrow> tg_set key_EMPTY (Some []) tg_new;
                     st' \<leftarrow> ini_read reads [] (key_EMPTY, newgen);
                     (if err then Some (False, g1)
                      else do {
                        g2 \<leftarrow> ini_switch (tg_root (snd st')) g1;
                        tg_refresh g2 }) }))"

text \<open>What \<open>commit\<close> writes, if anything, and to which file: one that is renamed to the real one, or, if that did
  not work, the real one itself, unless it cannot be opened.\<close>

datatype ini_written = Not_written | Renamed string | Overwritten string

definition ini_commit :: "bool \<Rightarrow> bool \<Rightarrow> 'a tempgen_scheme \<Rightarrow> (ini_written \<times> 'a tempgen_scheme) option" where
  "ini_commit atomic_works opens g =
     (if \<not> tg_dirty g then Some (Not_written, g)
      else do {
        g1 \<leftarrow> tg_commit g;
        (if atomic_works then Some (Renamed (ini_save (tg_root g1)), g1\<lparr>tg_dirty := False\<rparr>)
         else if \<not> opens then Some (Not_written, g1)
         else Some (Overwritten (ini_save (tg_root g1)), g1\<lparr>tg_dirty := False\<rparr>)) })"

subsection \<open>What a refresh tells\<close>

lemma map_lower_fullkey_append: "map lower (vt_fullkey (pa @ p)) = path_lower pa @ path_lower p"
  by (simp add: map_lower_fullkey path_lower_def)

lemma tree_at_Some: "tree_at (Some x) q = vt_map q x"
  by (simp add: tree_at_def)

lemma refreshcomparator_tells: "cmp_tells ini_refreshcomparator"
  unfolding cmp_tells_def
proof (intro allI impI)
  fix pa pb :: "key list" and a b :: "vtree option" and P and n :: nat
  assume ne: "a \<noteq> None \<or> b \<noteq> None" and a: "\<forall>x. a = Some x \<longrightarrow> vt_ok n x \<and> path_lower pa = P"
    and b: "\<forall>x. b = Some x \<longrightarrow> vt_ok n x \<and> path_lower pb = P"
  let ?ds = "snd (ini_refreshcomparator pa pb a b)"
  show "(\<forall>d \<in> set ?ds. \<exists>q. map lower (fst d) = P @ q \<and> snd d = tree_at b q \<and> (tree_at a q \<noteq> None \<or> tree_at b q \<noteq> None)) \<and>
      (tree_at a [] \<noteq> tree_at b [] \<longrightarrow> (\<exists>d \<in> set ?ds. map lower (fst d) = P))"
  proof (cases a)
    case None
    then obtain y where y: "b = Some y" using ne by blast
    then have "vt_value y \<noteq> None" using b val_ok_Some vt_okD(1) by blast
    then show ?thesis using None y b by (auto simp: ini_refreshcomparator_def tree_at_Some map_lower_fullkey intro!: exI [of _ "[]"])
  next
    case (Some x)
    have x: "vt_ok n x" "path_lower pa = P" "val_ok (vt_value x)" using Some a vt_okD(1) by blast+
    show ?thesis
    proof (cases b)
      case None
      have "vt_map (path_lower p) x \<noteq> None" if "p \<in> set (vt_postorder x)" for p
        using vt_postorder_paths [OF x(1)] that by blast
      moreover have "[] \<in> set (vt_postorder x)" by (subst vt_postorder.simps) simp
      ultimately show ?thesis using Some None x(2)
        by (force simp: ini_refreshcomparator_def tree_at_Some map_lower_fullkey_append)
    next
      case (Some y)
      have y: "path_lower pb = P" "val_ok (vt_value y)" using Some b vt_okD(1) by blast+
      then show ?thesis using Some \<open>a = Some x\<close> x(3) val_ok_Some
        by (auto simp: ini_refreshcomparator_def tree_at_Some map_lower_fullkey str_ne_val intro!: exI [of _ "[]"])
    qed
  qed
qed

lemma ini_switch_spec:
  assumes "tg_valid n g" "tg_root g \<noteq> None \<or> tg_root h \<noteq> None" "tg_valid m h"
  shows "\<exists>g' ds. ini_switch (tg_root h) g = Some g' \<and> tg_valid (max n m) g' \<and> tg_contents g' = tg_contents h \<and>
    tempgen.more g' = tempgen.more g \<and> tg_dirty g' = False \<and> gen_cblist g' = gen_cblist g \<and> tg_root g' = tg_root h \<and>
    gen_sent g' = gen_sent g @ sent_list (gen_cblist g) ds \<and> foldl key_note (tg_contents g) ds = tg_contents h"
proof -
  let ?ds = "snd (vt_compare ini_refreshcomparator [] [] (tg_root g) (tg_root h))"
  have c: "tg_contents k = tree_at (tg_root k)" for k :: "'x tempgen_scheme"
    by (auto simp: tg_contents_def tree_at_def fun_eq_iff split: option.split)
  have "\<forall>x. tg_root g = Some x \<longrightarrow> vt_ok (max n m) x \<and> path_lower [] = []"
    "\<forall>x. tg_root h = Some x \<longrightarrow> vt_ok (max n m) x \<and> path_lower [] = []"
    using assms(1,3) vt_ok_mono [of val_ok _ _ "max n m"] by (auto simp: tg_valid_def)
  from vt_compare_tells(1) [OF refreshcomparator_tells assms(2) this]
  have t: "foldl key_note (tg_contents g) ?ds = tg_contents h" unfolding c by (rule tells_listener)
  have h: "gen_hold g = 0" "gen_deltas g = []" using assms(1) by (simp_all add: tg_valid_def)
  let ?g = "g\<lparr>gen_deltas := [], gen_sent := gen_sent g @ sent_list (gen_cblist g) ?ds, tg_root := tg_root h, tg_dirty := False\<rparr>"
  have "ini_switch (tg_root h) g = Some ?g"
    using h by (simp add: ini_switch_def hold_delta_def delta_list_held unhold_delta_def flush_delta_eq)
  moreover have "tg_contents ?g = tg_contents h" by (simp add: c)
  moreover have "tg_valid (max n m) ?g"
    using assms(1,3) vt_ok_mono [of val_ok _ _ "max n m"] by (auto simp: tg_valid_def tg_contents_def)
  ultimately show ?thesis using t by (intro exI [of _ ?g] exI [of _ ?ds]) simp
qed

end
