(* ===== verification/UniIniRead.thy ===== *)
theory UniIniRead
  imports UniIniGen
begin

text \<open>
  Reading any file: the reader of \<open>uniconf/uniinigen.cc\<close> comes to an end without undefined behaviour on every file
  without double quotes, and the generator it fills is sound.
\<close>

subsection \<open>Words\<close>

definition ini_safe :: "string \<Rightarrow> bool" where
  "ini_safe s \<longleftrightarrow> c_str s \<and> CHR 0x22 \<notin> set s"

lemma ini_safe_simps [simp]: "ini_safe []" "ini_safe (c # s) \<longleftrightarrow> c \<noteq> NUL \<and> c \<noteq> CHR 0x22 \<and> ini_safe s"
  "ini_safe (s @ t) \<longleftrightarrow> ini_safe s \<and> ini_safe t"
  by (auto simp: ini_safe_def c_str_def)

lemma ini_safe_mono: "ini_safe s \<Longrightarrow> set t \<subseteq> set s \<Longrightarrow> ini_safe t"
  by (auto simp: ini_safe_def c_str_def)

lemma trim_string_sub:
  "\<exists>u. trim_string (Some t) = Some u \<and> set u \<subseteq> set t \<and> length u \<le> length t"
proof -
  let ?u = "dropWhile c_isspace (rev (dropWhile c_isspace (rev t)))"
  have "length ?u \<le> length (rev (dropWhile c_isspace (rev t)))" by (rule length_dropWhile_le)
  also have "\<dots> \<le> length t" using length_dropWhile_le [of c_isspace "rev t"] by simp
  finally have "length ?u \<le> length t" .
  moreover have "set ?u \<subseteq> set t" by (auto dest!: set_dropWhileD)
  ultimately show ?thesis by (simp add: trim_string_def)
qed

lemma unbackslash_sub: "set (unbackslash e s) \<subseteq> set s" "length (unbackslash e s) \<le> length s"
  by (induction s arbitrary: e) (auto intro: le_SucI)

lemma unescape_sub:
  assumes "CHR 0x22 \<notin> set t"
  shows "\<exists>u. wvtcl_unescape (Some t) = Some (Some u) \<and> set u \<subseteq> set t \<and> length u \<le> length t"
proof -
  have "\<exists>u. tcl_unescape_core t = Some u \<and> set u \<subseteq> set t \<and> length u \<le> length t"
  proof (cases "t \<noteq> [] \<and> hd t = CHR ''{'' \<and> last t = CHR ''}''")
    case True
    then have "set (butlast (tl t)) \<subseteq> set t" by (cases t) (auto dest: in_set_butlastD)
    then show ?thesis using True by (simp add: tcl_unescape_core_def)
  next
    case False
    have "t \<noteq> [] \<Longrightarrow> hd t \<noteq> CHR 0x22" using assms by (cases t) auto
    then show ?thesis using False unbackslash_sub [of False t] by (auto simp: tcl_unescape_core_def)
  qed
  then show ?thesis by (auto simp: wvtcl_unescape_def)
qed

lemma getword_loop_end:
  assumes "getword_loop m False s pos e bc ic = (p, e', bc', ic')"
  shows "pos \<le> p \<and> p \<le> pos + length s \<and> (p < pos + length s \<longrightarrow> mask_get m (s ! (p - pos)))"
  using assms
proof (induction s arbitrary: pos e bc ic)
  case (Cons ch rest)
  have step: ?case if "getword_loop m False rest (pos + 1) e1 bc1 ic1 = (p, e', bc', ic')" for e1 bc1 ic1
  proof -
    from Cons.IH [OF that] have i: "pos + 1 \<le> p" "p \<le> pos + 1 + length rest"
      "p < pos + 1 + length rest \<longrightarrow> mask_get m (rest ! (p - (pos + 1)))" by simp_all
    moreover have "(ch # rest) ! (p - pos) = rest ! (p - (pos + 1))" using i(1) by (simp add: nth_Cons')
    ultimately show ?thesis by simp
  qed
  show ?case
  proof (cases "\<not> e \<and> ch \<noteq> CHR 0x5C \<and> bc = 0 \<and> mask_get m ch")
    case True
    then show ?thesis using Cons.prems by auto
  next
    case False
    then have "\<exists>e1 bc1 ic1. getword_loop m False rest (pos + 1) e1 bc1 ic1 = (p, e', bc', ic')"
      using Cons.prems by (auto split: if_splits)
    then show ?thesis using step by blast
  qed
qed simp

text \<open>A word and what is left of the buffer, which begins with a separator.\<close>

lemma getword_parts:
  assumes "wvtcl_getword buf m False = Some (Some w, r)"
  shows "\<exists>u. buf = u @ w @ r \<and> (\<forall>c \<in> set u. mask_get m c) \<and> w \<noteq> [] \<and> (r \<noteq> [] \<longrightarrow> mask_get m (hd r))"
proof -
  obtain e where c: "getword_core m buf = Some (w, e)" "r = drop e buf"
    using assms by (auto simp: wvtcl_getword_def tcl_getword_def split: option.splits)
  let ?u = "takeWhile (mask_get m) buf" and ?s = "dropWhile (mask_get m) buf"
  have s: "?s \<noteq> []" "hd ?s \<noteq> CHR 0x22" using c(1) by (auto simp: getword_core_def Let_def split: if_splits prod.splits)
  obtain len ie bc ic where l: "getword_loop m False ?s 0 False 0 False = (len, ie, bc, ic)" using prod_cases4 by blast
  then have w: "w = take len ?s" "e = length ?u + len" "len \<noteq> 0"
    using c(1) s by (auto simp: getword_core_def Let_def split: if_splits)
  from getword_loop_end [OF l] have b: "len \<le> length ?s" "len < length ?s \<longrightarrow> mask_get m (?s ! len)" by simp_all
  have "buf = ?u @ ?s" by simp
  then have r: "r = drop len ?s" unfolding c(2) w(2) by (metis drop_append drop_all le_add1 append_Nil diff_add_inverse length_drop)
  then have "buf = ?u @ w @ r" unfolding w(1) by simp
  moreover have "r \<noteq> [] \<longrightarrow> mask_get m (hd r)" using b(2) r by (simp add: hd_drop_conv_nth)
  moreover have "w \<noteq> []" using w s(1) by simp
  moreover have "\<forall>c \<in> set ?u. mask_get m c" by (auto dest: set_takeWhileD)
  ultimately show ?thesis by blast
qed

lemma getword_defined: "\<exists>w r. wvtcl_getword buf m False = Some (w, r) \<and> (w = None \<longrightarrow> r = buf)"
  by (auto simp: wvtcl_getword_def tcl_getword_def split: option.splits getword_result.splits prod.splits)

lemma ini_mask_get: "list_all (\<lambda>c. (code_of c :: nat) < 128) t \<Longrightarrow> mask_get (ini_mask t) c \<longleftrightarrow> c \<in> set t"
  unfolding ini_mask_def by (rule mask_get_the(1)) (rule mask_index_ok_ascii)

lemma equals_mask_get: "mask_get (ini_mask ''='') c \<longleftrightarrow> c = CHR ''=''"
  by (subst ini_mask_get) simp_all

subsection \<open>Keys\<close>

lemma length_words: "length (words p s) \<le> length s"
  by (induction s) (auto split: list.split)

lemma length_key_of_string: "length (key_of_string (Some t)) \<le> length t + 1"
  using length_words [of is_slash t] by (auto simp: key_of_string_def str_not_def Let_def split_parts)

lemma key_of_string_None [simp]: "key_of_string None = []" "key_of_string (Some []) = []"
  by (simp_all add: key_of_string_def str_not_def)

lemma ini_key_ok:
  assumes "key_cstr sec" "c_str t" "int (length sec + length t + 1) \<le> INT_MAX"
  shows "key_ok INT_MAX (key_prepend (key_of_string (Some t)) sec)"
proof -
  have wf: "key_wf (key_of_string (Some t))" by (rule key_of_string_wf [OF assms(2)])
  have n: "key_cstr (nonempty_segs sec)" "[] \<notin> set (nonempty_segs sec)" "length (nonempty_segs sec) \<le> length sec"
    using assms(1) by (auto simp: nonempty_segs_def key_cstr_def)
  let ?k = "nonempty_segs sec @ key_of_string (Some t)"
  have "key_cstr ?k" "[] \<notin> set (butlast ?k)" using wf n by (auto simp: key_wf_def butlast_append dest: in_set_butlastD)
  moreover have "?k \<noteq> [[]]" using wf n by (auto simp: key_wf_def append_eq_Cons_conv)
  moreover have "int (length ?k) \<le> INT_MAX" using n(3) length_key_of_string [of t] assms(3) by simp
  ultimately show ?thesis by (auto simp: key_prepend_def key_ok_def key_collapse_def)
qed

subsection \<open>The state of the reader\<close>

definition ini_ok :: "nat \<Rightarrow> nat \<Rightarrow> ini_state \<Rightarrow> bool" where
  "ini_ok L n st \<longleftrightarrow> key_cstr (fst st) \<and> length (fst st) \<le> L + 1 \<and> tg_valid n (snd st) \<and> tg_contents (snd st) [] \<noteq> None"

lemma ini_ok_mono: "ini_ok L n st \<Longrightarrow> n \<le> m \<Longrightarrow> ini_ok L m st"
  using vt_ok_mono [of val_ok n _ m] by (auto simp: ini_ok_def tg_valid_def)

text \<open>The kinds of lines.\<close>

lemma ini_word_skip:
  assumes "trim_string (Some w) = Some str" "str = [] \<or> hd str = CHR ''#''"
  shows "ini_word w st = Some st"
  using assms by (auto simp: ini_word_def Let_def)

lemma ini_word_section:
  assumes "trim_string (Some w) = Some str" "str \<noteq> []" "hd str = CHR ''[''" "last str = CHR '']''"
    "trim_string (Some (butlast (tl str))) = Some u" "wvtcl_unescape (Some u) = Some v"
  shows "ini_word w st = Some (key_of_string v, snd st)"
  using assms by (simp add: ini_word_def Let_def)

definition ini_no_section :: "string \<Rightarrow> bool" where
  "ini_no_section str \<longleftrightarrow> str \<noteq> [] \<and> hd str \<noteq> CHR ''#'' \<and> \<not> (hd str = CHR ''['' \<and> last str = CHR '']'')"

lemma ini_word_malformed:
  assumes "trim_string (Some w) = Some str" "ini_no_section str"
    "wvtcl_getword (rev (dropWhile c_isspace (rev w))) (ini_mask ''='') False = Some (name, line)"
    "name = None \<or> line = [] \<or> (\<exists>a. trim_string name = Some a \<and> wvtcl_unescape (Some a) = Some (Some []))"
  shows "ini_word w st = Some st"
  using assms by (auto simp: ini_word_def Let_def str_not_def ini_no_section_def)

lemma ini_word_entry:
  assumes "trim_string (Some w) = Some str" "ini_no_section str"
    "wvtcl_getword (rev (dropWhile c_isspace (rev w))) (ini_mask ''='') False = Some (Some name, line)"
    "trim_string (Some name) = Some a" "wvtcl_unescape (Some a) = Some (Some b)" "b \<noteq> []"
    "line = CHR ''='' # rest" "trim_string (Some rest) = Some c" "wvtcl_unescape (Some c) = Some d"
    "tg_set (key_prepend (key_of_string (Some b)) (fst st)) d (snd st) = Some g"
  shows "ini_word w st = Some (fst st, g)"
  using assms by (auto simp: ini_word_def Let_def str_not_def ini_no_section_def)

lemma ini_section_ok:
  assumes "ini_ok L n st" "c_str v" "length v \<le> L"
  shows "ini_ok L (Suc n) (key_of_string (Some v), snd st)"
  using assms key_of_string_wf [OF assms(2)] length_key_of_string [of v] ini_ok_mono [OF assms(1), of "Suc n"]
  by (simp add: ini_ok_def key_wf_def)

lemma ini_entry_ok:
  assumes "ini_ok L n st" "ini_safe b" "length b \<le> L" "c_str d" "n < 26000" "L \<le> 26000"
  shows "\<exists>g. tg_set (key_prepend (key_of_string (Some b)) (fst st)) (Some d) (snd st) = Some g \<and> ini_ok L (Suc n) (fst st, g) \<and>
    tg_contents g = update_spec (key_prepend (key_of_string (Some b)) (fst st)) (Some d) (tg_contents (snd st))"
proof -
  have ok: "key_cstr (fst st)" "length (fst st) \<le> L + 1" "tg_valid n (snd st)" "tg_contents (snd st) [] \<noteq> None"
    using assms(1) by (simp_all add: ini_ok_def)
  have k: "key_ok INT_MAX (key_prepend (key_of_string (Some b)) (fst st))"
    using ini_key_ok [OF ok(1), of b] assms(2,3,6) ok(2) by (simp add: ini_safe_def INT_MAX_def)
  have "val_ok (Some d)" using assms(4) by (simp add: val_ok_def)
  then obtain g where g: "tg_set (key_prepend (key_of_string (Some b)) (fst st)) (Some d) (snd st) = Some g" "tg_valid (Suc n) g"
    "tg_contents g = update_spec (key_prepend (key_of_string (Some b)) (fst st)) (Some d) (tg_contents (snd st))"
    using tg_set_spec [OF ok(3) assms(5) k, of "Some d"] by blast
  have "tg_contents g [] \<noteq> None" using ok(4) by (auto simp: g(3) update_spec_def set_spec_def)
  then show ?thesis using g ok(1,2) by (intro exI [of _ g]) (simp add: ini_ok_def)
qed

text \<open>Trimming and unescaping a part of a line.\<close>

lemma part_safe:
  assumes "ini_safe t"
  shows "\<exists>u v. trim_string (Some t) = Some u \<and> wvtcl_unescape (Some u) = Some (Some v) \<and> ini_safe v \<and> length v \<le> length t"
proof -
  obtain u where u: "trim_string (Some t) = Some u" "set u \<subseteq> set t" "length u \<le> length t" using trim_string_sub by blast
  have su: "ini_safe u" by (rule ini_safe_mono [OF assms u(2)])
  then obtain v where v: "wvtcl_unescape (Some u) = Some (Some v)" "set v \<subseteq> set u" "length v \<le> length u"
    using unescape_sub by (auto simp: ini_safe_def)
  then show ?thesis using u ini_safe_mono [OF su v(2)] by auto
qed

lemma ini_word_ok:
  assumes "ini_ok L n st" "ini_safe w" "length w \<le> L" "n < 26000" "L \<le> 26000"
  shows "\<exists>st'. ini_word w st = Some st' \<and> ini_ok L (Suc n) st'"
proof -
  have same: ?thesis if "ini_word w st = Some st" using that ini_ok_mono [OF assms(1), of "Suc n"] by auto
  let ?word = "rev (dropWhile c_isspace (rev w))"
  obtain str where str: "trim_string (Some w) = Some str" "set str \<subseteq> set w" "length str \<le> length w" using trim_string_sub by blast
  have safe: "ini_safe str" "ini_safe ?word" "length ?word \<le> L"
    using assms(2,3) str(2) length_dropWhile_le [of c_isspace "rev w"] by (auto elim!: ini_safe_mono dest!: set_dropWhileD)
  consider (skip) "str = [] \<or> hd str = CHR ''#''" | (sect) "str \<noteq> []" "hd str = CHR ''[''" "last str = CHR '']''" | (line) "ini_no_section str"
    by (auto simp: ini_no_section_def)
  then show ?thesis
  proof cases
    case skip
    then show ?thesis by (intro same ini_word_skip [OF str(1)])
  next
    case sect
    have "set (butlast (tl str)) \<subseteq> set str" using sect(1) by (auto dest!: in_set_butlastD list.set_sel(2) [OF sect(1)])
    then have "ini_safe (butlast (tl str))" by (rule ini_safe_mono [OF safe(1)])
    then obtain u v where v: "trim_string (Some (butlast (tl str))) = Some u" "wvtcl_unescape (Some u) = Some (Some v)"
      "ini_safe v" "length v \<le> length (butlast (tl str))" using part_safe by blast
    then have "length v \<le> L" using str(3) assms(3) by simp
    then show ?thesis using ini_word_section [OF str(1) sect v(1,2)] ini_section_ok [OF assms(1), of v] v(3) by (auto simp: ini_safe_def)
  next
    case line
    obtain name line where nl: "wvtcl_getword ?word (ini_mask ''='') False = Some (name, line)" using getword_defined by blast
    show ?thesis
    proof (cases "name = None \<or> line = []")
      case True
      then show ?thesis by (intro same ini_word_malformed [OF str(1) \<open>ini_no_section str\<close> nl]) auto
    next
      case nm: False
      then obtain nn where nn: "name = Some nn" by auto
      obtain p rest where p: "?word = p @ nn @ line" "line = CHR ''='' # rest"
        using getword_parts [OF nl [unfolded nn]] nm equals_mask_get by (cases line) auto
      have s: "ini_safe nn" "ini_safe rest" "length nn \<le> L" using safe(2,3) unfolding p by simp_all
      obtain a b where b: "trim_string (Some nn) = Some a" "wvtcl_unescape (Some a) = Some (Some b)" "ini_safe b" "length b \<le> length nn"
        using part_safe [OF s(1)] by blast
      obtain c d where d: "trim_string (Some rest) = Some c" "wvtcl_unescape (Some c) = Some (Some d)" "ini_safe d"
        using part_safe [OF s(2)] by blast
      show ?thesis
      proof (cases "b = []")
        case True
        then show ?thesis using b(1,2) nn by (intro same ini_word_malformed [OF str(1) \<open>ini_no_section str\<close> nl]) auto
      next
        case False
        obtain g where g: "tg_set (key_prepend (key_of_string (Some b)) (fst st)) (Some d) (snd st) = Some g" "ini_ok L (Suc n) (fst st, g)"
          using ini_entry_ok [OF assms(1) b(3) _ _ assms(4,5), of d] b(4) s(3) d(3) by (auto simp: ini_safe_def)
        from ini_word_entry [OF str(1) \<open>ini_no_section str\<close> nl [unfolded nn] b(1,2) False p(2) d(1,2) g(1)] g(2) show ?thesis by blast
      qed
    qed
  qed
qed

subsection \<open>A file\<close>

lemma ini_words_ok:
  assumes "ini_ok L n st" "ini_safe buf" "length buf \<le> L" "n + length buf \<le> 26000" "L \<le> 26000"
  shows "\<exists>u buf' st'. ini_words buf st = Some (buf', st') \<and> buf = u @ buf' \<and> ini_ok L (n + length u) st'"
  using assms
proof (induction buf st arbitrary: n rule: ini_words.induct)
  case (1 buf st)
  obtain w r where g: "wvtcl_getword buf WVTCL_NASTY_NEWLINES False = Some (w, r)" "w = None \<longrightarrow> r = buf"
    using getword_defined by blast
  show ?case
  proof (cases w)
    case None
    then have "ini_words buf st = Some (buf, st)" using g by (simp add: ini_words.simps [of buf st])
    then show ?thesis using 1(2) by (intro exI [of _ "[]"] exI [of _ buf] exI [of _ st]) simp
  next
    case (Some word)
    obtain u where u: "buf = u @ word @ r" "word \<noteq> []" using getword_parts [of buf] g(1) Some by blast
    have sw: "ini_safe word" "ini_safe r" using 1(3) unfolding u(1) by simp_all
    have len: "length word \<le> L" "length r \<le> L" "n < 26000" "Suc n + length r \<le> 26000"
      using 1(4,5) u by (cases word; simp)+
    obtain st1 where st1: "ini_word word st = Some st1" "ini_ok L (Suc n) st1"
      using ini_word_ok [OF 1(2) sw(1) len(1,3) 1(6)] by blast
    obtain v buf' st' where v: "ini_words r st1 = Some (buf', st')" "r = v @ buf'" "ini_ok L (Suc n + length v) st'"
      using 1(1) [OF g(1) [unfolded Some] refl refl st1(1) st1(2) sw(2) len(2,4) 1(6)] by blast
    have "ini_words buf st = Some (buf', st')" using g(1) Some st1(1) v(1) by (simp add: ini_words.simps [of buf st])
    moreover have "Suc n + length v \<le> n + length (u @ word @ v)" using u(2) by (cases word) simp_all
    then have "ini_ok L (n + length (u @ word @ v)) st'" by (rule ini_ok_mono [OF v(3)])
    ultimately show ?thesis using u(1) v(2) by (intro exI [of _ "u @ word @ v"] exI [of _ buf'] exI [of _ st']) simp
  qed
qed

definition reads_size :: "wvstring list \<Rightarrow> nat" where
  "reads_size reads = sum_list (map (\<lambda>r. case r of None \<Rightarrow> 0 | Some line \<Rightarrow> length line + 1) reads)"

definition reads_safe :: "wvstring list \<Rightarrow> bool" where
  "reads_safe reads \<longleftrightarrow> (\<forall>r \<in> set reads. \<forall>line. r = Some line \<longrightarrow> ini_safe line)"

abbreviation ends_line :: "string \<Rightarrow> bool" where
  "ends_line buf \<equiv> buf = [] \<or> last buf = CHR 0x0A"

lemma ini_dropline_ok:
  assumes "ends_line buf" "buf \<noteq> []" "ini_safe buf"
  shows "\<exists>buf'. ini_dropline buf = Some buf' \<and> ends_line buf' \<and> ini_safe buf' \<and> length buf' \<le> length buf"
proof -
  have n: "CHR 0x0A \<in> set buf" using assms(1,2) last_in_set by force
  then obtain a b where ab: "buf = a @ CHR 0x0A # b" "CHR 0x0A \<notin> set a" by (meson split_list_first)
  have "dropWhile (\<lambda>c. c \<noteq> CHR 0x0A) buf = CHR 0x0A # b" using ab by (auto simp: dropWhile_append)
  then have "ini_dropline buf = Some b" using n by (simp add: ini_dropline_def)
  then show ?thesis using assms unfolding ab(1) by (auto split: if_splits)
qed

lemma ini_read_ok:
  assumes "ini_ok L n st" "ini_safe buf" "reads_safe reads" "ends_line buf"
    "length buf + reads_size reads \<le> L" "n + length buf + reads_size reads \<le> 26000" "L \<le> 26000"
  shows "\<exists>st'. ini_read reads buf st = Some st' \<and> ini_ok L (n + length buf + reads_size reads) st'"
  using assms
proof (induction reads buf st arbitrary: n rule: ini_read.induct)
  case (1 reads buf st)
  show ?case
  proof (cases "buf = [] \<and> reads = []")
    case True
    then show ?thesis using 1(2) by (subst ini_read.simps) (simp add: reads_size_def)
  next
    case False
    define buf1 where "buf1 = (case reads of Some line # _ \<Rightarrow> buf @ line @ [CHR 0x0A] | _ \<Rightarrow> buf)"
    have b1: "ini_safe buf1" "ends_line buf1" "length buf1 + reads_size (tl reads) = length buf + reads_size reads"
      using 1(3-5) by (auto simp: buf1_def reads_safe_def reads_size_def split: list.split option.split)
    obtain u buf2 st2 where w: "ini_words buf1 st = Some (buf2, st2)" "buf1 = u @ buf2" "ini_ok L (n + length u) st2"
      using ini_words_ok [OF 1(2) b1(1) _ _ 1(8)] 1(6,7) b1(3) by (auto simp: add.assoc)
    have b2: "ini_safe buf2" "ends_line buf2" using b1(1,2) unfolding w(2) by (cases "buf2 = []"; simp)+
    obtain buf3 where b3: "(if buf2 \<noteq> [] \<and> tl reads = [] then ini_dropline buf2 else Some buf2) = Some buf3"
      "ini_safe buf3" "ends_line buf3" "length buf3 \<le> length buf2"
      using ini_dropline_ok [OF b2(2) _ b2(1)] b2 by (cases "buf2 \<noteq> [] \<and> tl reads = []") auto
    have t: "reads_safe (tl reads)" using 1(4) by (cases reads) (auto simp: reads_safe_def)
    have len: "length buf3 + reads_size (tl reads) \<le> L" "n + length u + length buf3 + reads_size (tl reads) \<le> 26000"
      "n + length u + length buf3 + reads_size (tl reads) \<le> n + length buf + reads_size reads"
      using b3(4) b1(3) w(2) 1(6,7) by simp_all
    obtain st' where r: "ini_read (tl reads) buf3 st2 = Some st'" "ini_ok L (n + length u + length buf3 + reads_size (tl reads)) st'"
      using 1(1) [OF False buf1_def w(1) refl b3(1) w(3) b3(2) t b3(3) len(1,2) 1(8)] by blast
    have "ini_read reads buf st = Some st'" using False w(1) b3(1) r(1)
      by (subst ini_read.simps) (auto simp: Let_def buf1_def [symmetric])
    then show ?thesis using ini_ok_mono [OF r(2) len(3)] by blast
  qed
qed

text \<open>The lines of a text.\<close>

lemma file_reads_size: "reads_size (file_reads t) \<le> length t + 1"
proof (induction t rule: file_reads.induct)
  case (1 t)
  show ?case
  proof (cases "t = [] \<or> dropWhile (\<lambda>c. c \<noteq> CHR 0x0A) t = []")
    case True
    then show ?thesis using length_takeWhile_le [of "\<lambda>c. c \<noteq> CHR 0x0A" t]
      by (subst file_reads.simps) (auto simp: reads_size_def Let_def)
  next
    case False
    let ?r = "dropWhile (\<lambda>c. c \<noteq> CHR 0x0A) t"
    have "reads_size (file_reads (tl ?r)) \<le> length (tl ?r) + 1" using 1 False by simp
    moreover have "length (takeWhile (\<lambda>c. c \<noteq> CHR 0x0A) t) + length ?r = length t" by (metis length_append takeWhile_dropWhile_id)
    moreover have "length ?r \<noteq> 0" using False by simp
    ultimately show ?thesis using False by (subst file_reads.simps) (auto simp: reads_size_def Let_def)
  qed
qed

lemma file_reads_safe: "ini_safe t \<Longrightarrow> reads_safe (file_reads t)"
proof (induction t rule: file_reads.induct)
  case (1 t)
  let ?l = "takeWhile (\<lambda>c. c \<noteq> CHR 0x0A) t" and ?r = "dropWhile (\<lambda>c. c \<noteq> CHR 0x0A) t"
  have s: "ini_safe ?l" "ini_safe ?r"
    by (rule ini_safe_mono [OF 1(2)], auto dest!: set_takeWhileD set_dropWhileD)+
  have "set (tl xs) \<subseteq> set xs" for xs :: string by (cases xs) auto
  then have "ini_safe (tl ?r)" by (rule ini_safe_mono [OF s(2)])
  then show ?case using 1(1) s by (subst file_reads.simps) (auto simp: reads_safe_def Let_def)
qed

lemma ini_read_file:
  assumes "ini_ok L n st" "ini_safe t" "length t < L" "n + length t < 26000" "L \<le> 26000"
  shows "\<exists>st'. ini_read (file_reads t) [] st = Some st' \<and> ini_ok L (n + length t + 1) st'"
proof -
  obtain st' where "ini_read (file_reads t) [] st = Some st'" "ini_ok L (n + reads_size (file_reads t)) st'"
    using ini_read_ok [OF assms(1) _ file_reads_safe [OF assms(2)], of "[]"] file_reads_size [of t] assms(3-5) by auto
  then show ?thesis using ini_ok_mono [of L "n + reads_size (file_reads t)" st' "n + length t + 1"] file_reads_size [of t] by auto
qed

text \<open>The generator that a refresh starts from.\<close>

lemma ini_start:
  "\<exists>g. tg_set key_EMPTY (Some []) tg_new = Some g \<and> ini_ok L 1 (key_EMPTY, g) \<and> tg_contents g = (\<lambda>q. if q = [] then Some [] else None)"
proof -
  have k: "key_ok INT_MAX key_EMPTY" "val_ok (Some [])" by (simp_all add: key_ok_def INT_MAX_def key_EMPTY_def val_ok_def)
  obtain g where "tg_set key_EMPTY (Some []) tg_new = Some g" "tg_valid 1 g"
    "tg_contents g = update_spec key_EMPTY (Some []) (\<lambda>_. None)"
    using tg_set_spec [OF tg_valid_new(1) [of 0] _ k(1), of "Some []"] k(2) tg_valid_new(2) by auto
  moreover have "update_spec key_EMPTY (Some []) (\<lambda>_. None) = (\<lambda>q. if q = [] then Some [] else None)"
    by (simp add: update_spec_def key_EMPTY_def key_hastrailingslash_def key_path_def nonempty_segs_def set_spec_def fun_eq_iff strict_prefix_def)
  ultimately show ?thesis by (intro exI [of _ g]) (simp add: ini_ok_def key_EMPTY_def)
qed

text \<open>A refresh from such a file ends, and its listeners are told the difference.\<close>

lemma ini_refresh_spec:
  fixes g :: inigen
  assumes "tg_valid n g" "tg_root g \<noteq> None" "ini_safe t" "length t < 25999" "in_old_st g \<noteq> Some st"
  shows "\<exists>g' st' ds. ini_refresh (File st False (file_reads t) False) g = Some (True, g') \<and>
    ini_read (file_reads t) [] (key_EMPTY, the (tg_set key_EMPTY (Some []) tg_new)) = Some st' \<and>
    tg_contents g' = tg_contents (snd st') \<and> tg_valid (max n (length t + 2)) g' \<and> tg_contents g' [] \<noteq> None \<and>
    tg_dirty g' = False \<and> gen_sent g' = gen_sent g @ sent_list (gen_cblist g) ds \<and> foldl key_note (tg_contents g) ds = tg_contents g'"
proof -
  obtain g0 where g0: "tg_set key_EMPTY (Some []) tg_new = Some g0" "ini_ok 26000 1 (key_EMPTY, g0)" using ini_start by blast
  obtain st' where st': "ini_read (file_reads t) [] (key_EMPTY, g0) = Some st'" "ini_ok 26000 (1 + length t + 1) st'"
    using ini_read_file [OF g0(2) assms(3)] assms(4) by auto
  let ?g = "g\<lparr>in_old_st := Some st\<rparr>"
  have v: "tg_valid n ?g" "tg_root ?g \<noteq> None" using assms(1,2) by (simp_all add: tg_valid_def tg_contents_def)
  have c: "tg_contents ?g = tg_contents g" by (simp add: tg_contents_def)
  have h: "tg_valid (1 + length t + 1) (snd st')" "tg_contents (snd st') [] \<noteq> None" using st'(2) by (simp_all add: ini_ok_def)
  obtain g' ds where g': "ini_switch (tg_root (snd st')) ?g = Some g'" "tg_valid (max n (1 + length t + 1)) g'"
    "tg_contents g' = tg_contents (snd st')" "tg_dirty g' = False" "gen_cblist g' = gen_cblist ?g"
    "gen_sent g' = gen_sent ?g @ sent_list (gen_cblist ?g) ds" "foldl key_note (tg_contents ?g) ds = tg_contents (snd st')"
    using ini_switch_spec [OF v(1) _ h(1)] v(2) by blast
  have "ini_refresh (File st False (file_reads t) False) g = Some (True, g')"
    using assms(5) g0(1) st'(1) g'(1) by (simp add: ini_refresh_def Let_def tg_refresh_def)
  then show ?thesis using g' g0(1) st'(1) h(2) c
    by (intro exI [of _ g'] exI [of _ st'] exI [of _ ds]) (simp add: numeral_2_eq_2)
qed

end
