(* ===== verification/UniIniSaved.thy ===== *)
theory UniIniSaved
  imports UniIniRead
begin

text \<open>
  What the generator of \<open>uniconf/uniinigen.cc\<close> writes is read back: the words that the reader takes from the text
  are the printed sections and keys, and each has the effect of the entry it was printed for.
\<close>

subsection \<open>A text as a list of words\<close>

text \<open>Words in which a separator stands between braces only.\<close>

definition brace_char :: "char \<Rightarrow> bool" where
  "brace_char c \<longleftrightarrow> c = CHR 0x5C \<or> c = CHR ''{'' \<or> c = CHR ''}''"

inductive braced :: "strmask \<Rightarrow> string \<Rightarrow> bool" for m where
  braced_Nil: "braced m []"
| braced_raw: "\<not> brace_char c \<Longrightarrow> \<not> mask_get m c \<Longrightarrow> braced m w \<Longrightarrow> braced m (c # w)"
| braced_braces: "\<forall>c \<in> set s. \<not> brace_char c \<Longrightarrow> braced m w \<Longrightarrow> braced m (CHR ''{'' # s @ CHR ''}'' # w)"

lemma braced_append: "braced m v \<Longrightarrow> braced m w \<Longrightarrow> braced m (v @ w)"
  by (induction rule: braced.induct) (auto intro: braced.intros)

lemma braced_plain: "\<forall>c \<in> set s. \<not> brace_char c \<and> \<not> mask_get m c \<Longrightarrow> braced m s"
  by (induction s) (auto intro: braced.intros)

lemma braced_single: "\<forall>c \<in> set s. \<not> brace_char c \<Longrightarrow> braced m (CHR ''{'' # s @ [CHR ''}''])"
  using braced_braces [OF _ braced_Nil] by simp

lemma loop_inside:
  "\<forall>c \<in> set s. \<not> brace_char c \<Longrightarrow> 0 < bc \<Longrightarrow>
     getword_loop m False (s @ r) pos False bc False = getword_loop m False r (pos + length s) False bc False"
  by (induction s arbitrary: pos) (auto simp: brace_char_def)

definition mask_plain :: "strmask \<Rightarrow> bool" where
  "mask_plain m \<longleftrightarrow> (\<forall>c. mask_get m c \<longrightarrow> \<not> brace_char c)"

lemma loop_braces:
  assumes "mask_plain m" "\<forall>c \<in> set s. \<not> brace_char c"
  shows "getword_loop m False (CHR ''{'' # s @ CHR ''}'' # r) pos False 0 False = getword_loop m False r (pos + length s + 2) False 0 False"
proof -
  have "\<not> mask_get m (CHR ''{'')" "\<not> mask_get m (CHR ''}'')" using assms(1) by (auto simp: mask_plain_def brace_char_def)
  then show ?thesis using loop_inside [OF assms(2), of 1 m "CHR ''}'' # r" "pos + 1"] by simp
qed

lemma loop_braced:
  assumes "braced m w" "mask_plain m" "mask_get m c"
  shows "getword_loop m False (w @ c # r) pos False 0 False = (pos + length w, False, 0, False)"
  using assms
proof (induction arbitrary: pos rule: braced.induct)
  case (braced_braces s w)
  then show ?case using loop_braces [OF braced_braces(4,1), of "w @ c # r" pos] by (simp add: algebra_simps)
qed (auto simp: brace_char_def mask_plain_def)

text \<open>A separator inside is met with an open brace.\<close>

lemma loop_open:
  assumes "braced m w" "mask_plain m" "mask_get m c" "w = p @ c # q"
  shows "\<exists>k. getword_loop m False (p @ [c]) pos False 0 False = (k, False, 1, False)"
  using assms
proof (induction arbitrary: pos p rule: braced.induct)
  case braced_Nil
  then show ?case by simp
next
  case (braced_raw d w)
  then obtain p' where "p = d # p'" "w = p' @ c # q" by (cases p) auto
  then show ?case using braced_raw(4) [OF braced_raw(5,6), of p' "pos + 1"] braced_raw(1,2) by (auto simp: brace_char_def)
next
  case (braced_braces s w)
  have nc: "\<not> brace_char c" using braced_braces(4,5) by (auto simp: mask_plain_def)
  then obtain p' where p: "p = CHR ''{'' # p'" "s @ CHR ''}'' # w = p' @ c # q"
    using braced_braces(6) by (cases p) (auto simp: brace_char_def)
  have m: "\<not> mask_get m (CHR ''{'')" using braced_braces(4) by (auto simp: mask_plain_def brace_char_def)
  from p(2) consider (inside) x where "s = p' @ c # x" | (after) x where "p' = s @ CHR ''}'' # x" "w = x @ c # q"
    using nc by (auto simp: append_eq_append_conv2 append_eq_Cons_conv Cons_eq_append_conv brace_char_def)
  then show ?case
  proof cases
    case inside
    then have "\<forall>x \<in> set (p' @ [c]). \<not> brace_char x" using braced_braces(1) by auto
    from loop_inside [OF this, of 1 m "[]" "pos + 1"] show ?thesis using m by (simp add: p(1))
  next
    case after
    have "p @ [c] = CHR ''{'' # s @ CHR ''}'' # (x @ [c])" by (simp add: p(1) after(1))
    then show ?thesis using loop_braces [OF braced_braces(4,1), of "x @ [c]" pos] braced_braces(3) [OF braced_braces(4,5) after(2)] by simp
  qed
qed

definition word_ok :: "strmask \<Rightarrow> string \<Rightarrow> bool" where
  "word_ok m w \<longleftrightarrow> braced m w \<and> w \<noteq> [] \<and> hd w \<noteq> CHR 0x22 \<and> \<not> mask_get m (hd w)"

lemma getword_braced:
  assumes "word_ok m w" "mask_plain m" "\<forall>x \<in> set pre. mask_get m x" "mask_get m c"
  shows "wvtcl_getword (pre @ w @ c # r) m False = Some (Some w, c # r)"
proof -
  have w: "w \<noteq> []" "hd w \<noteq> CHR 0x22" "\<not> mask_get m (hd w)" "braced m w" using assms(1) by (simp_all add: word_ok_def)
  have "takeWhile (mask_get m) (pre @ w @ c # r) = pre" "dropWhile (mask_get m) (pre @ w @ c # r) = w @ c # r"
    using assms(3) w(1,3) by (cases w; auto simp: takeWhile_append dropWhile_append)+
  then have "getword_core m (pre @ w @ c # r) = Some (w, length pre + length w)"
    using w loop_braced [OF w(4) assms(2,4), of r 0] by (simp add: getword_core_def Let_def)
  then show ?thesis by (simp add: wvtcl_getword_def tcl_getword_def)
qed

lemma getword_open:
  assumes "word_ok m w" "mask_plain m" "\<forall>x \<in> set pre. mask_get m x" "mask_get m c" "w = p @ c # q"
  shows "wvtcl_getword (pre @ p @ [c]) m False = Some (None, pre @ p @ [c])"
proof -
  have w: "p \<noteq> []" "hd p \<noteq> CHR 0x22" "\<not> mask_get m (hd p)" "braced m w"
    using assms(1,4,5) by (cases p; simp add: word_ok_def)+
  have "dropWhile (mask_get m) (pre @ p @ [c]) = p @ [c]"
    using assms(3) w(1,3) by (cases p) (auto simp: dropWhile_append)
  then have "getword_core m (pre @ p @ [c]) = None"
    using w loop_open [OF w(4) assms(2,4,5), of 0] by (auto simp: getword_core_def Let_def)
  then show ?thesis by (simp add: wvtcl_getword_def tcl_getword_def)
qed

lemma getword_blank:
  assumes "\<forall>x \<in> set pre. mask_get m x"
  shows "wvtcl_getword pre m False = Some (None, pre)"
proof -
  have "dropWhile (mask_get m) pre = []" using assms by (simp add: dropWhile_eq_Nil_conv)
  then show ?thesis by (simp add: wvtcl_getword_def tcl_getword_def getword_core_def)
qed

lemma newline_mask: "mask_plain WVTCL_NASTY_NEWLINES" "mask_get WVTCL_NASTY_NEWLINES (CHR 0x0A)"
  by (auto simp: mask_plain_def default_masks_get WVTCL_NASTY_NEWLINES_STR_def brace_char_def)

text \<open>What the words of a text do, one after the other; an empty one stands for an empty line.\<close>

primrec ini_run :: "string list \<Rightarrow> ini_state \<Rightarrow> ini_state option" where
  "ini_run [] st = Some st"
| "ini_run (w # ws) st = (if w = [] then ini_run ws st else case ini_word w st of None \<Rightarrow> None | Some st' \<Rightarrow> ini_run ws st')"

abbreviation nl :: char where
  "nl \<equiv> CHR 0x0A"

lemma file_reads_line: "nl \<notin> set l \<Longrightarrow> file_reads (l @ nl # r) = Some l # file_reads r"
  by (subst file_reads.simps) (auto simp: Let_def takeWhile_append dropWhile_append)

lemma file_reads_ne: "file_reads r \<noteq> []"
  by (subst file_reads.simps) (simp add: Let_def)

lemma ini_read_line:
  assumes "nl \<notin> set l"
  shows "ini_read (file_reads (l @ nl # r)) buf st =
    (case ini_words (buf @ l @ [nl]) st of None \<Rightarrow> None | Some (buf', st') \<Rightarrow> ini_read (file_reads r) buf' st')"
  using assms by (subst ini_read.simps) (auto simp: file_reads_line file_reads_ne Let_def split: option.split)

lemma ini_words_none: "wvtcl_getword buf WVTCL_NASTY_NEWLINES False = Some (None, buf) \<Longrightarrow> ini_words buf st = Some (buf, st)"
  by (simp add: ini_words.simps)

lemma read_word:
  assumes "word_ok WVTCL_NASTY_NEWLINES w" "set pre \<subseteq> {nl}" "w = p @ q"
  shows "ini_read (file_reads (q @ nl # r)) (pre @ p) st =
    (case ini_word w st of None \<Rightarrow> None | Some st' \<Rightarrow> ini_read (file_reads r) [nl] st')"
  using assms(3)
proof (induction "length q" arbitrary: p q rule: less_induct)
  case less
  have pre: "\<forall>x \<in> set pre. mask_get WVTCL_NASTY_NEWLINES x" using assms(2) newline_mask(2) by auto
  show ?case
  proof (cases "nl \<in> set q")
    case False
    have "wvtcl_getword (pre @ w @ [nl]) WVTCL_NASTY_NEWLINES False = Some (Some w, [nl])"
      by (rule getword_braced [OF assms(1) newline_mask(1) pre newline_mask(2)])
    moreover have "ini_words [nl] st' = Some ([nl], st')" for st'
      by (rule ini_words_none, rule getword_blank) (simp add: newline_mask(2))
    ultimately have "ini_words (pre @ w @ [nl]) st = (case ini_word w st of None \<Rightarrow> None | Some st' \<Rightarrow> Some ([nl], st'))"
      by (subst ini_words.simps) (simp split: option.split)
    then show ?thesis using ini_read_line [OF False, of r "pre @ p" st] less(2) by (simp split: option.split)
  next
    case True
    then obtain q1 q2 where q: "q = q1 @ nl # q2" "nl \<notin> set q1" by (meson split_list_first)
    have "wvtcl_getword (pre @ (p @ q1) @ [nl]) WVTCL_NASTY_NEWLINES False = Some (None, pre @ (p @ q1) @ [nl])"
      using getword_open [OF assms(1) newline_mask(1) pre newline_mask(2), of "p @ q1" q2] less(2) q(1) by simp
    then have w: "ini_words (pre @ p @ q1 @ [nl]) st = Some (pre @ p @ q1 @ [nl], st)" by (intro ini_words_none) simp
    have "ini_read (file_reads (q @ nl # r)) (pre @ p) st = ini_read (file_reads (q2 @ nl # r)) (pre @ (p @ q1 @ [nl])) st"
      using ini_read_line [OF q(2), of "q2 @ nl # r" "pre @ p" st] w by (simp add: q(1))
    then show ?thesis using less(1) [of q2 "p @ q1 @ [nl]"] less(2) q(1) by simp
  qed
qed

lemma read_end: "set pre \<subseteq> {nl} \<Longrightarrow> ini_read [] pre st = Some st"
proof (induction pre)
  case (Cons c pre)
  have "ini_words (c # pre) st = Some (c # pre, st)"
    using Cons.prems newline_mask(2) by (intro ini_words_none getword_blank) auto
  moreover have "ini_dropline (c # pre) = Some pre" using Cons.prems by (simp add: ini_dropline_def)
  ultimately have "ini_read [] (c # pre) st = ini_read [] pre st"
    by (subst ini_read.simps) (simp add: Let_def)
  then show ?case using Cons by simp
qed (simp add: ini_read.simps)

lemma read_text:
  assumes "\<forall>w \<in> set ws. w = [] \<or> word_ok WVTCL_NASTY_NEWLINES w" "set pre \<subseteq> {nl}"
  shows "ini_read (file_reads (concat (map (\<lambda>w. w @ [nl]) ws))) pre st = ini_run ws st"
  using assms
proof (induction ws arbitrary: pre st)
  case Nil
  have w: "ini_words pre st = Some (pre, st)" using Nil.prems newline_mask(2) by (intro ini_words_none getword_blank) auto
  have "ini_read [None] pre st = ini_read [] (if pre = [] then [] else tl pre) st"
    using w Nil.prems(2) by (subst ini_read.simps) (cases pre; auto simp: Let_def ini_dropline_def)
  moreover have "set (if pre = [] then [] else tl pre) \<subseteq> {nl}" using Nil.prems(2) by (cases pre) auto
  ultimately show ?case using read_end by (simp add: file_reads.simps)
next
  case (Cons w ws)
  show ?case
  proof (cases "w = []")
    case True
    have "ini_words (pre @ [nl]) st = Some (pre @ [nl], st)"
      using Cons.prems(2) newline_mask(2) by (intro ini_words_none getword_blank) auto
    then show ?thesis using True ini_read_line [of "[]" "concat (map (\<lambda>w. w @ [nl]) ws)" pre st] Cons.IH [of "pre @ [nl]" st] Cons.prems by simp
  next
    case False
    then have "word_ok WVTCL_NASTY_NEWLINES w" using Cons.prems(1) by simp
    from read_word [OF this Cons.prems(2), of "[]" w "concat (map (\<lambda>w. w @ [nl]) ws)" st]
    show ?thesis using False Cons.IH [of "[nl]"] Cons.prems(1) by (simp split: option.split)
  qed
qed

subsection \<open>Printed names and values\<close>

text \<open>Characters without a meaning to the reader: no backslash, brace or double quote, and no space that is escaped
  by none of the masks.\<close>

definition ini_char :: "char \<Rightarrow> bool" where
  "ini_char c \<longleftrightarrow> c \<noteq> NUL \<and> \<not> brace_char c \<and> c \<noteq> CHR 0x22 \<and> c \<noteq> CHR 0x0B \<and> c \<noteq> CHR 0x0C"

definition ini_text :: "string \<Rightarrow> bool" where
  "ini_text s \<longleftrightarrow> s \<noteq> [] \<and> (\<forall>c \<in> set s. ini_char c)"

text \<open>A text as it is printed where these characters would be taken for separators.\<close>

definition ini_printed :: "string \<Rightarrow> string \<Rightarrow> string" where
  "ini_printed seps s = (if c_isspace (hd s) \<or> c_isspace (last s) \<or> (\<exists>c \<in> set s. c \<in> set seps) then CHR ''{'' # s @ [CHR ''}''] else s)"

lemma isspace_cases: "c_isspace c \<Longrightarrow> c \<in> {CHR '' '', CHR 0x09, CHR 0x0A, CHR 0x0B, CHR 0x0C, CHR 0x0D}"
proof -
  assume a: "c_isspace c"
  have c: "c = char_of (code_of c)" by simp
  from a have "code_of c = 32 \<or> code_of c = 9 \<or> code_of c = 10 \<or> code_of c = 11 \<or> code_of c = 12 \<or> code_of c = 13"
    by (auto simp: c_isspace_def)
  then show ?thesis using c by (elim disjE) (simp_all, code_simp+)
qed

lemma isspace_simps [simp]: "\<not> c_isspace (CHR ''{'')" "\<not> c_isspace (CHR ''}'')" "\<not> c_isspace (CHR ''['')" "\<not> c_isspace (CHR '']'')"
  "\<not> c_isspace (CHR ''/'')" "c_isspace (CHR '' '')" "\<not> c_isspace (CHR ''='')"
  by code_simp+

lemma ane_loop_text:
  "\<forall>c \<in> set s. ini_char c \<Longrightarrow>
     ane_loop seps s 0 False sp \<longleftrightarrow> (\<exists>c \<in> set s. c \<in> set seps) \<or> (if s = [] then sp else c_isspace (last s))"
  by (induction s arbitrary: sp) (auto simp: ini_char_def brace_char_def Let_def)

lemma needs_escape_text:
  "ini_text s \<Longrightarrow> absolutely_needs_escape s seps \<longleftrightarrow> c_isspace (hd s) \<or> c_isspace (last s) \<or> (\<exists>c \<in> set s. c \<in> set seps)"
  by (auto simp: absolutely_needs_escape_def ini_text_def ane_loop_text)

lemma escape_text:
  assumes "ini_text s" "\<exists>c \<in> set s. mask_get n c"
  shows "wvtcl_escape (Some s) n = Some (CHR ''{'' # s @ [CHR ''}''])"
proof -
  have "es_bracecount (foldl (escape_scan_step n) st s) = es_bracecount st \<and>
      es_backslashify (foldl (escape_scan_step n) st s) = es_backslashify st \<and> es_inescape (foldl (escape_scan_step n) st s) = es_inescape st"
    if "\<forall>c \<in> set s. ini_char c" "es_bracecount st = 0" "\<not> es_inescape st" for st
    using that by (induction s arbitrary: st) (auto simp: escape_scan_step_def Let_def ini_char_def brace_char_def)
  from this [of escape_scan_init] have "\<not> needs_backslash n s"
    using assms(1) by (simp add: ini_text_def needs_backslash_def escape_scan_all_def Let_def escape_scan_init_def)
  moreover have "\<exists>c \<in> set s. is_nasty n c" using assms(2) by (auto simp: is_nasty_def)
  then have "filter (is_nasty n) s \<noteq> []" by (simp add: filter_empty_conv)
  ultimately show ?thesis using assms(1)
    by (simp add: wvtcl_escape_def escape_verbatim_def tcl_escape_write_def scan_counts ini_text_def)
qed

lemma printed_eq:
  assumes "ini_text s" "\<And>c. c \<in> set s \<Longrightarrow> c \<in> set seps \<Longrightarrow> mask_get n c"
    "c_isspace (hd s) \<Longrightarrow> mask_get n (hd s)" "c_isspace (last s) \<Longrightarrow> mask_get n (last s)"
  shows "(if absolutely_needs_escape s seps then the (wvtcl_escape (Some s) n) else s) = ini_printed seps s"
proof -
  have "\<exists>c \<in> set s. mask_get n c" if "absolutely_needs_escape s seps"
    using that assms(2-4) needs_escape_text [OF assms(1)] assms(1) hd_in_set last_in_set unfolding ini_text_def by metis
  then show ?thesis using escape_text [OF assms(1)] needs_escape_text [OF assms(1)] by (simp add: ini_printed_def)
qed

lemma printed_facts:
  assumes "ini_text s"
  shows "ini_printed seps s \<noteq> []" "\<not> c_isspace (hd (ini_printed seps s))" "\<not> c_isspace (last (ini_printed seps s))"
    "hd (ini_printed seps s) \<noteq> CHR 0x22" "CHR ''{'' \<notin> set seps \<Longrightarrow> hd (ini_printed seps s) \<notin> set seps"
    "wvtcl_unescape (Some (ini_printed seps s)) = Some (Some s)"
    "(\<And>c. mask_get m c \<Longrightarrow> c \<in> set seps) \<Longrightarrow> braced m (ini_printed seps s)"
proof -
  have s: "s \<noteq> []" "\<forall>c \<in> set s. ini_char c" using assms by (simp_all add: ini_text_def)
  show "ini_printed seps s \<noteq> []" using s by (simp add: ini_printed_def)
  show "\<not> c_isspace (hd (ini_printed seps s))" "\<not> c_isspace (last (ini_printed seps s))" by (simp_all add: ini_printed_def)
  have "hd s \<noteq> CHR 0x22" "hd s \<noteq> CHR ''{''" using s hd_in_set unfolding ini_char_def brace_char_def by metis+
  then show "hd (ini_printed seps s) \<noteq> CHR 0x22" by (simp add: ini_printed_def)
  show "CHR ''{'' \<notin> set seps \<Longrightarrow> hd (ini_printed seps s) \<notin> set seps" using s(1) by (auto simp: ini_printed_def)
  have "\<forall>c \<in> set s. c \<noteq> CHR 0x5C" using s(2) by (auto simp: ini_char_def brace_char_def)
  then show "wvtcl_unescape (Some (ini_printed seps s)) = Some (Some s)"
    using s(1) \<open>hd s \<noteq> CHR 0x22\<close> \<open>hd s \<noteq> CHR ''{''\<close>
    by (simp add: ini_printed_def wvtcl_unescape_def tcl_unescape_core_def unbackslash_plain)
  have b: "\<forall>c \<in> set s. \<not> brace_char c" using s(2) by (simp add: ini_char_def)
  show "braced m (ini_printed seps s)" if "\<And>c. mask_get m c \<Longrightarrow> c \<in> set seps"
    unfolding ini_printed_def by (auto intro!: braced_single [OF b] braced_plain simp: b) (use that in blast)
qed

lemma trim_id: "p \<noteq> [] \<Longrightarrow> \<not> c_isspace (hd p) \<Longrightarrow> \<not> c_isspace (last p) \<Longrightarrow>
    trim_string (Some p) = Some p \<and> trim_string (Some (p @ '' '')) = Some p \<and> trim_string (Some (CHR '' '' # p)) = Some p \<and>
    rev (dropWhile c_isspace (rev p)) = p"
proof -
  assume p: "p \<noteq> []" "\<not> c_isspace (hd p)" "\<not> c_isspace (last p)"
  have a: "dropWhile c_isspace (rev p @ x) = rev p @ x" for x using p(1,3) by (cases "rev p") (auto simp: hd_rev [symmetric])
  have b: "dropWhile c_isspace p = p" using p(1,2) by (cases p) auto
  show ?thesis using a [of "[]"] a [of "'' ''"] b by (simp add: trim_string_def)
qed

subsection \<open>Printed lines\<close>

definition ini_keyseps :: string where
  "ini_keyseps = [CHR 0x0D, CHR 0x0A] @ ''[]=#'' @ [CHR 0x22]"

definition ini_segs :: "key \<Rightarrow> bool" where
  "ini_segs k \<longleftrightarrow> (\<forall>s \<in> set k. ini_text s \<and> CHR ''/'' \<notin> set s)"

definition ini_entry_word :: "key \<Rightarrow> string \<Rightarrow> string" where
  "ini_entry_word k v =
     (if k = [] then ''/'' else ini_printed ini_keyseps (key_printable k)) @ '' = '' @ ini_printed [CHR 0x0D, CHR 0x0A] v"

definition ini_section_word :: "key \<Rightarrow> string" where
  "ini_section_word k = CHR ''['' # (if k = [] then [] else ini_printed section_nasties (key_printable k)) @ '']''"

text \<open>A section that begins or ends with a blank loses it.\<close>

definition ini_sect :: "key \<Rightarrow> bool" where
  "ini_sect k \<longleftrightarrow> ini_segs k \<and>
     (k \<noteq> [] \<longrightarrow> {hd (key_printable k), last (key_printable k)} \<inter> {CHR '' '', CHR 0x09} = {})"

lemma printable_chars: "set (key_printable k) \<subseteq> insert (CHR ''/'') (\<Union> (set ` set k))"
  by (induction k rule: key_printable.induct) auto

lemma ini_segs_printable:
  assumes "ini_segs k" "k \<noteq> []"
  shows "ini_text (key_printable k)" "key_of_string (Some (key_printable k)) = k"
proof -
  have "ini_char (CHR ''/'')" by (simp add: ini_char_def brace_char_def)
  then have "\<forall>c \<in> set (key_printable k). ini_char c" using printable_chars [of k] assms(1) by (fastforce simp: ini_segs_def ini_text_def)
  moreover have "k \<noteq> [[]]" using assms(1) by (auto simp: ini_segs_def ini_text_def)
  ultimately show "ini_text (key_printable k)" using assms(2) by (simp add: ini_text_def key_printable_eq_Nil)
  have "key_wf k" using assms \<open>k \<noteq> [[]]\<close>
    by (fastforce simp: key_wf_def ini_segs_def ini_text_def key_cstr_def c_str_def ini_char_def dest: in_set_butlastD)
  then show "key_of_string (Some (key_printable k)) = k" by (rule key_of_printable)
qed

lemma isspace_text:
  assumes "ini_char c" "c_isspace c"
  shows "c \<in> {CHR '' '', CHR 0x09, CHR 0x0A, CHR 0x0D}"
  using isspace_cases [OF assms(2)] assms(1) by (auto simp: ini_char_def)

lemma ini_text_ends: "ini_text s \<Longrightarrow> ini_char (hd s) \<and> ini_char (last s)"
  by (simp add: ini_text_def)

lemma printkey_word:
  assumes "ini_segs k" "ini_text v"
  shows "ini_printkey k v = ini_entry_word k v @ [nl]"
proof -
  have v: "(if absolutely_needs_escape v [CHR 0x0D, CHR 0x0A] then the (wvtcl_escape (Some v) WVTCL_NASTY_SPACES) else v) =
      ini_printed [CHR 0x0D, CHR 0x0A] v"
  proof (rule printed_eq [OF assms(2)])
    show "c_isspace (hd v) \<Longrightarrow> mask_get WVTCL_NASTY_SPACES (hd v)" "c_isspace (last v) \<Longrightarrow> mask_get WVTCL_NASTY_SPACES (last v)"
      using isspace_text [of "hd v"] isspace_text [of "last v"] ini_text_ends [OF assms(2)] by (auto simp: default_masks_get WVTCL_NASTY_SPACES_STR_def)
  qed (auto simp: default_masks_get WVTCL_NASTY_SPACES_STR_def)
  show ?thesis
  proof (cases "k = []")
    case True
    then show ?thesis using v by (simp add: ini_printkey_def ini_entry_word_def absolutely_needs_escape_def Let_def)
  next
    case False
    let ?s = "key_printable k"
    define m where "m = ini_mask ([CHR 0x0D, CHR 0x0A, CHR 0x09] @ '' []=#'')"
    note t = ini_segs_printable(1) [OF assms(1) False]
    have n: "mask_get m c \<longleftrightarrow> c \<in> set ([CHR 0x0D, CHR 0x0A, CHR 0x09] @ '' []=#'')" for c
      unfolding m_def by (rule ini_mask_get) simp
    have "(if absolutely_needs_escape ?s ini_keyseps then the (wvtcl_escape (Some ?s) m) else ?s) = ini_printed ini_keyseps ?s"
    proof (rule printed_eq [OF t])
      show "c_isspace (hd ?s) \<Longrightarrow> mask_get m (hd ?s)" "c_isspace (last ?s) \<Longrightarrow> mask_get m (last ?s)"
        using isspace_text [of "hd ?s"] isspace_text [of "last ?s"] ini_text_ends [OF t] by (auto simp: n)
      show "mask_get m c" if "c \<in> set ?s" "c \<in> set ini_keyseps" for c
        using that t by (auto simp: n ini_keyseps_def ini_text_def ini_char_def)
    qed
    moreover have "\<not> key_eq k (key_of_string (Some []))" using False by (cases k) (simp_all add: key_eq_def)
    ultimately show ?thesis using v False
      by (auto simp: ini_printkey_def ini_entry_word_def ini_keyseps_def m_def Let_def split: if_splits)
  qed
qed

lemma printsection_word:
  assumes "ini_sect k"
  shows "ini_printsection k = [nl] @ ini_section_word k @ [nl]"
proof (cases "k = []")
  case True
  then show ?thesis by (simp add: ini_printsection_def ini_section_word_def absolutely_needs_escape_def Let_def)
next
  case False
  let ?s = "key_printable k"
  define m where "m = ini_mask section_nasties"
  have k: "ini_segs k" using assms by (simp add: ini_sect_def)
  note t = ini_segs_printable(1) [OF k False]
  have n: "mask_get m c \<longleftrightarrow> c \<in> set section_nasties" for c unfolding m_def by (rule ini_mask_get) (simp add: section_nasties_def)
  have "(if absolutely_needs_escape ?s section_nasties then the (wvtcl_escape (Some ?s) m) else ?s) = ini_printed section_nasties ?s"
  proof (rule printed_eq [OF t])
    show "c_isspace (hd ?s) \<Longrightarrow> mask_get m (hd ?s)" "c_isspace (last ?s) \<Longrightarrow> mask_get m (last ?s)"
      using isspace_text [of "hd ?s"] isspace_text [of "last ?s"] ini_text_ends [OF t] assms False
      by (auto simp: n section_nasties_def ini_sect_def)
  qed (simp add: n)
  then show ?thesis using False by (auto simp: ini_printsection_def ini_section_word_def m_def Let_def split: if_splits)
qed

lemma entry_word_ok:
  assumes "ini_segs k" "ini_text v"
  shows "word_ok WVTCL_NASTY_NEWLINES (ini_entry_word k v)"
proof -
  let ?m = WVTCL_NASTY_NEWLINES
  let ?p = "if k = [] then ''/'' else ini_printed ini_keyseps (key_printable k)"
  have m: "mask_get ?m c \<longleftrightarrow> c = CHR 0x0A \<or> c = CHR 0x0D" for c by (simp add: default_masks_get WVTCL_NASTY_NEWLINES_STR_def)
  have p: "braced ?m ?p \<and> ?p \<noteq> [] \<and> hd ?p \<noteq> CHR 0x22 \<and> \<not> mask_get ?m (hd ?p)"
  proof (cases "k = []")
    case True
    then show ?thesis by (auto simp: m brace_char_def intro!: braced_plain)
  next
    case False
    note f = printed_facts [OF ini_segs_printable(1) [OF assms(1) False], where seps = ini_keyseps]
    have "c_isspace (CHR 0x0A)" "c_isspace (CHR 0x0D)" by code_simp+
    then have "\<not> mask_get ?m (hd (ini_printed ini_keyseps (key_printable k)))" using f(2) by (auto simp: m)
    moreover have "braced ?m (ini_printed ini_keyseps (key_printable k))" by (rule f(7)) (auto simp: m ini_keyseps_def)
    ultimately show ?thesis using False f(1,4) by simp
  qed
  have "braced ?m '' = ''" by (rule braced_plain) (simp add: m brace_char_def)
  moreover have "braced ?m (ini_printed [CHR 0x0D, CHR 0x0A] v)" by (rule printed_facts(7) [OF assms(2)]) (auto simp: m)
  ultimately have "braced ?m ('' = '' @ ini_printed [CHR 0x0D, CHR 0x0A] v)" by (rule braced_append)
  from braced_append [OF conjunct1 [OF p] this] have "braced ?m (ini_entry_word k v)" by (simp only: ini_entry_word_def)
  then show ?thesis using p by (simp add: word_ok_def ini_entry_word_def)
qed

lemma section_word_ok:
  assumes "ini_sect k"
  shows "word_ok WVTCL_NASTY_NEWLINES (ini_section_word k)"
proof -
  let ?m = WVTCL_NASTY_NEWLINES
  have m: "mask_get ?m c \<longleftrightarrow> c = CHR 0x0A \<or> c = CHR 0x0D" for c by (simp add: default_masks_get WVTCL_NASTY_NEWLINES_STR_def)
  have p: "braced ?m (if k = [] then [] else ini_printed section_nasties (key_printable k))"
  proof (cases "k = []")
    case False
    have "ini_segs k" using assms by (simp add: ini_sect_def)
    then have "braced ?m (ini_printed section_nasties (key_printable k))"
      by (intro printed_facts(7) [OF ini_segs_printable(1) [OF _ False]]) (auto simp: m section_nasties_def)
    then show ?thesis using False by simp
  qed (simp add: braced_Nil)
  have q: "braced ?m ''[''" "braced ?m '']''" by (rule braced_plain, simp add: m brace_char_def)+
  have "braced ?m (''['' @ (if k = [] then [] else ini_printed section_nasties (key_printable k)) @ '']'')"
    by (rule braced_append [OF q(1) braced_append [OF p q(2)]])
  then show ?thesis by (simp add: word_ok_def ini_section_word_def m)
qed

lemma section_word_run:
  assumes "ini_sect k"
  shows "ini_word (ini_section_word k) st = Some (k, snd st)"
proof -
  let ?p = "if k = [] then [] else ini_printed section_nasties (key_printable k)"
  have t: "trim_string (Some (ini_section_word k)) = Some (ini_section_word k)"
    using trim_id [of "ini_section_word k"] by (simp add: ini_section_word_def)
  have "\<exists>v. trim_string (Some ?p) = Some ?p \<and> wvtcl_unescape (Some ?p) = Some (Some v) \<and> key_of_string (Some v) = k"
  proof (cases "k = []")
    case True
    then show ?thesis by (simp add: trim_string_def wvtcl_unescape_def tcl_unescape_core_def)
  next
    case False
    have k: "ini_segs k" using assms by (simp add: ini_sect_def)
    note q = ini_segs_printable [OF k False]
    note f = printed_facts [OF q(1), where seps = section_nasties]
    show ?thesis using False trim_id [OF f(1-3)] f(6) q(2) by auto
  qed
  then obtain v where "trim_string (Some ?p) = Some ?p" "wvtcl_unescape (Some ?p) = Some (Some v)" "key_of_string (Some v) = k" by blast
  then show ?thesis using ini_word_section [OF t, of ?p "Some v" st] by (simp add: ini_section_word_def)
qed

lemma entry_word_run:
  assumes "ini_segs k" "ini_text v" "tg_set (key_prepend k (fst st)) (Some v) (snd st) = Some g"
  shows "ini_word (ini_entry_word k v) st = Some (fst st, g)"
proof -
  let ?p = "if k = [] then ''/'' else ini_printed ini_keyseps (key_printable k)" and ?v = "ini_printed [CHR 0x0D, CHR 0x0A] v"
  let ?w = "ini_entry_word k v"
  note fv = printed_facts [OF assms(2), where seps = "[CHR 0x0D, CHR 0x0A]"]
  have "\<exists>b. ?p \<noteq> [] \<and> \<not> c_isspace (hd ?p) \<and> \<not> c_isspace (last ?p) \<and> hd ?p \<notin> set ini_keyseps \<and> braced (ini_mask ''='') ?p \<and>
      wvtcl_unescape (Some ?p) = Some (Some b) \<and> b \<noteq> [] \<and> key_of_string (Some b) = k"
  proof (cases "k = []")
    case True
    have "wvtcl_unescape (Some ''/'') = Some (Some ''/'')" by (simp add: wvtcl_unescape_def tcl_unescape_core_def)
    moreover have "key_of_string (Some ''/'') = []" by code_simp
    moreover have "braced (ini_mask ''='') ''/''" by (rule braced_plain) (simp add: brace_char_def equals_mask_get)
    ultimately show ?thesis using True by (auto simp: ini_keyseps_def)
  next
    case False
    note q = ini_segs_printable [OF assms(1) False]
    note f = printed_facts [OF q(1), where seps = ini_keyseps]
    have "braced (ini_mask ''='') (ini_printed ini_keyseps (key_printable k))" by (rule f(7)) (simp add: equals_mask_get ini_keyseps_def)
    moreover have "hd (ini_printed ini_keyseps (key_printable k)) \<notin> set ini_keyseps" by (rule f(5)) (simp add: ini_keyseps_def)
    ultimately show ?thesis using False f(1-4,6) q by (auto simp: ini_text_def)
  qed
  then obtain b where p: "?p \<noteq> []" "\<not> c_isspace (hd ?p)" "\<not> c_isspace (last ?p)" "hd ?p \<notin> set ini_keyseps" "braced (ini_mask ''='') ?p"
    "wvtcl_unescape (Some ?p) = Some (Some b)" "b \<noteq> []" "key_of_string (Some b) = k" by blast
  have w: "?w = ?p @ '' = '' @ ?v" by (simp add: ini_entry_word_def)
  have h: "hd ?w = hd ?p" "last ?w = last ?v" "?w \<noteq> []" unfolding w using p(1) fv(1) by simp_all
  have t: "trim_string (Some ?w) = Some ?w" "rev (dropWhile c_isspace (rev ?w)) = ?w"
    using trim_id [OF h(3)] h(1,2) p(2) fv(3) by simp_all
  have ns: "ini_no_section ?w" using h p(4) by (auto simp: ini_no_section_def ini_keyseps_def)
  have "braced (ini_mask ''='') (?p @ '' '')" by (rule braced_append [OF p(5) braced_plain]) (simp add: brace_char_def equals_mask_get)
  then have "word_ok (ini_mask ''='') (?p @ '' '')" using p(1,4) by (simp add: word_ok_def equals_mask_get ini_keyseps_def)
  from getword_braced [OF this, of "[]" "CHR ''=''" "CHR '' '' # ?v"]
  have g: "wvtcl_getword ?w (ini_mask ''='') False = Some (Some (?p @ '' ''), CHR ''='' # CHR '' '' # ?v)"
    unfolding w by (simp add: mask_plain_def equals_mask_get brace_char_def)
  show ?thesis
    using ini_word_entry [OF t(1) ns, unfolded t(2), OF g _ p(6,7) refl _ fv(6), of st g] trim_id [OF p(1-3)] trim_id [OF fv(1-3)]
      assms(3) p(8) by simp
qed

subsection \<open>The entries of a tree\<close>

text \<open>The nodes with a value that is not empty, in the order in which they are written.\<close>

function ini_entries :: "key list \<Rightarrow> bool \<Rightarrow> vtree list \<Rightarrow> (key list \<times> string) list" where
  "ini_entries path rec [] = []"
| "ini_entries path rec (node # nodes) =
     (if str_not (vt_value node) then [] else [(path @ [vt_key node], the (vt_value node))]) @
     (if rec then ini_entries (path @ [vt_key node]) rec (vt_childlist node) else []) @
     ini_entries path rec nodes"
  by pat_completeness auto
termination
proof (relation "measure (\<lambda>(path, rec, nodes). size_list size nodes)", goal_cases)
  case (2 path rec node nodes)
  obtain k v t where n: "node = VNode k v t" by (cases node)
  then show ?case using sh_elems_total [of size] by (cases t) (auto simp: vt_childlist_def less_Suc_eq_le intro: le_SucI trans_le_add1)
qed auto

definition ini_section :: "key \<Rightarrow> (key list \<times> string) list \<Rightarrow> string" where
  "ini_section sec es = (if es = [] then [] else ini_printsection sec) @ concat (map (\<lambda>(p, v). ini_printkey (vt_fullkey p) v) es)"

lemma no_children: "\<not> vt_haschildren node \<Longrightarrow> vt_childlist node = [] \<or> (\<exists>t. vt_children node = Some t \<and> sh_num t = 0)"
  by (auto simp: vt_haschildren_def vt_childlist_def sh_isempty_def split: option.splits)

definition forest_good :: "nat \<Rightarrow> vtree list \<Rightarrow> bool" where
  "forest_good n cs \<longleftrightarrow>
     (\<forall>c \<in> set cs. (\<exists>s. vt_key c = [s] \<and> seg_ok s) \<and> vt_ok n c) \<and> distinct (map (\<lambda>c. map lower (vt_key c)) cs)"

lemma forest_good_children: "vt_ok n x \<Longrightarrow> forest_good n (vt_childlist x)"
proof -
  assume x: "vt_ok n x"
  have "distinct (map (\<lambda>c. map lower (vt_key c)) (vt_childlist x))"
    using vt_okD(2) [OF x] by (cases "vt_children x") (auto simp: vt_childlist_def dict_inv_def)
  then show ?thesis using vt_okD(3) [OF x] by (auto simp: forest_good_def)
qed

lemma ini_save_sect_eq:
  assumes "forest_good n nodes"
  shows "ini_save_sect sec path rec nodes p =
    ((if p then concat (map (\<lambda>(p, v). ini_printkey (vt_fullkey p) v) (ini_entries path rec nodes)) else ini_section sec (ini_entries path rec nodes)),
     p \<or> ini_entries path rec nodes \<noteq> [])"
  using assms
proof (induction path rec nodes arbitrary: p rule: ini_entries.induct)
  case (1 path rec)
  then show ?case by (simp add: ini_section_def)
next
  case (2 path rec node nodes)
  have n: "vt_ok n node" "forest_good n nodes" using 2(3) by (auto simp: forest_good_def)
  have c: "vt_childlist node = []" if "\<not> vt_haschildren node"
    using no_children [OF that] vt_okD(2) [OF n(1)] by auto
  note c1 = 2(1) [OF _ forest_good_children [OF n(1)]] and c2 = 2(2) [OF n(2)]
  show ?case
  proof (cases rec)
    case True
    then have r: "rec = True" by simp
    show ?thesis using c1 [OF True, unfolded r] c2 [unfolded r] c unfolding r
      by (cases "vt_haschildren node"; cases "str_not (vt_value node)"; cases p) (auto simp: ini_save_sect.simps(2) ini_section_def)
  next
    case False
    then have r: "rec = False" by simp
    show ?thesis using c2 [unfolded r] unfolding r
      by (cases "str_not (vt_value node)"; cases p) (auto simp: ini_save_sect.simps(2) ini_section_def)
  qed
qed

lemma forest_at_childlist: "vt_map q x = (if q = [] then vt_value x else forest_at (vt_childlist x) q)"
  by (cases q) (simp_all add: forest_at_def)

text \<open>The entries are the values of the contents that are not empty, on one level or all the way down.\<close>

definition ini_value :: "wvstring \<Rightarrow> bool" where
  "ini_value v \<longleftrightarrow> v \<noteq> None \<and> v \<noteq> Some []"

lemma str_not_value: "str_not v \<longleftrightarrow> \<not> ini_value v"
  by (cases v) (auto simp: ini_value_def str_not_def)

lemma ini_entries_set:
  assumes "forest_good n nodes"
  shows "(\<lambda>(p, v). (path_lower p, v)) ` set (ini_entries path rec nodes) =
    {(path_lower path @ q, v) | q v. forest_at nodes q = Some v \<and> v \<noteq> [] \<and> (rec \<or> length q = 1)}"
  using assms
proof (induction path rec nodes rule: ini_entries.induct)
  case (2 path rec node nodes)
  obtain s where s: "vt_key node = [s]" "seg_ok s" "vt_ok n node" "forest_good n nodes" using 2(3) by (auto simp: forest_good_def)
  let ?f = "\<lambda>(p, v). (path_lower p, v)" and ?t = "lower s"
  have k: "map lower (vt_key node) = [?t]" using s(1) by simp
  have p: "path_lower (path @ [vt_key node]) = path_lower path @ [?t]" by (rule path_lower_snoc [OF s(1,2)])
  have at: "forest_at (node # nodes) (r # q) = (if r = ?t then vt_map q node else forest_at nodes (r # q))" for r q
    by (rule forest_at_Cons [OF k])
  have none: "forest_at nodes (?t # q) = None" for q
    using 2(3) k by (intro forest_at_none) (auto simp: forest_good_def image_iff)
  have a: "?f ` set (if str_not (vt_value node) then [] else [(path @ [vt_key node], the (vt_value node))]) =
      {(path_lower path @ [?t], v) | v. vt_value node = Some v \<and> v \<noteq> []}"
    by (auto simp: str_not_value ini_value_def p)
  have b: "?f ` set (if rec then ini_entries (path @ [vt_key node]) rec (vt_childlist node) else []) =
      {(path_lower path @ ?t # q, v) | q v. forest_at (vt_childlist node) q = Some v \<and> v \<noteq> [] \<and> rec}"
    using 2(1) [OF _ forest_good_children [OF s(3)]] by (cases rec) (simp_all add: p)
  have "?f ` set (ini_entries path rec (node # nodes)) =
      {(path_lower path @ [?t], v) | v. vt_value node = Some v \<and> v \<noteq> []} \<union>
      {(path_lower path @ ?t # q, v) | q v. forest_at (vt_childlist node) q = Some v \<and> v \<noteq> [] \<and> rec} \<union>
      {(path_lower path @ q, v) | q v. forest_at nodes q = Some v \<and> v \<noteq> [] \<and> (rec \<or> length q = 1)}"
    unfolding ini_entries.simps(2) set_append image_Un a b 2(2) [OF s(4)] Un_assoc ..
  also have "\<dots> = {(path_lower path @ q, v) | q v. forest_at (node # nodes) q = Some v \<and> v \<noteq> [] \<and> (rec \<or> length q = 1)}" (is "?l = ?r")
  proof (rule set_eqI, rule iffI)
    fix x assume "x \<in> ?l"
    then consider v where "x = (path_lower path @ [?t], v)" "vt_value node = Some v" "v \<noteq> []"
      | q v where "x = (path_lower path @ ?t # q, v)" "forest_at (vt_childlist node) q = Some v" "v \<noteq> []" rec
      | q v where "x = (path_lower path @ q, v)" "forest_at nodes q = Some v" "v \<noteq> []" "rec \<or> length q = 1" by blast
    then show "x \<in> ?r"
    proof cases
      case 1
      then show ?thesis using at [of ?t "[]"] by auto
    next
      case (2 q v)
      then have "q \<noteq> []" by auto
      then show ?thesis using 2 at [of ?t q] forest_at_childlist [of q node] by auto
    next
      case (3 q v)
      then obtain r q' where q: "q = r # q'" by (cases q) auto
      then have "r \<noteq> ?t" using none 3(2) by auto
      then show ?thesis using 3 q at [of r q'] by auto
    qed
  next
    fix x assume "x \<in> ?r"
    then obtain q v where x: "x = (path_lower path @ q, v)" "forest_at (node # nodes) q = Some v" "v \<noteq> []" "rec \<or> length q = 1" by blast
    then obtain r q' where q: "q = r # q'" by (cases q) auto
    show "x \<in> ?l"
    proof (cases "r = ?t")
      case True
      then show ?thesis using x at [of r q'] forest_at_childlist [of q' node] by (cases "q' = []") (auto simp: q)
    next
      case False
      then show ?thesis using x at [of r q'] q by auto
    qed
  qed
  finally show ?case .
qed simp

end
