(* ===== verification/UniIniTrip.thy ===== *)
theory UniIniTrip
  imports UniIniSaved
begin

text \<open>
  A tree that is written by \<open>uniconf/uniinigen.cc\<close> and read again: its values that are not empty come back, with
  empty ones on the way to them.
\<close>

subsection \<open>What is kept\<close>

definition ini_kept :: "(string list \<Rightarrow> wvstring) \<Rightarrow> string list \<Rightarrow> wvstring" where
  "ini_kept M q =
     (if ini_value (M q) then M q
      else if q = [] \<or> (\<exists>r. strict_prefix q r \<and> ini_value (M r)) then Some []
      else None)"

definition entries_set :: "(string list \<times> string) list \<Rightarrow> (string list \<Rightarrow> wvstring) \<Rightarrow> string list \<Rightarrow> wvstring" where
  "entries_set es M = foldl (\<lambda>M (q, v). set_spec q (Some v) M) M es"

lemma entries_set_append: "entries_set (es @ fs) M = entries_set fs (entries_set es M)"
  by (simp add: entries_set_def)

lemma entries_set_consistent:
  assumes "\<forall>(q, v) \<in> set es. F q = Some v"
  shows "entries_set es M q =
    (if q \<in> fst ` set es then F q else if M q = None \<and> (\<exists>r \<in> fst ` set es. strict_prefix q r) then Some [] else M q)"
  using assms
proof (induction es arbitrary: M)
  case (Cons e es)
  obtain p v where e: "e = (p, v)" by (cases e)
  have "entries_set (e # es) M q = entries_set es (set_spec p (Some v) M) q" by (simp add: entries_set_def e)
  then show ?case using Cons by (auto simp: e set_spec_def)
qed (simp add: entries_set_def)

lemma entries_set_kept:
  assumes "set es = {(q, v). F q = Some v \<and> v \<noteq> []}"
  shows "entries_set es (\<lambda>q. if q = [] then Some [] else None) = ini_kept F"
proof
  fix q
  have d: "fst ` set es = {q. ini_value (F q)}" unfolding assms by (force simp: ini_value_def)
  have "\<forall>(q, v) \<in> set es. F q = Some v" unfolding assms by auto
  from entries_set_consistent [OF this] show "entries_set es (\<lambda>q. if q = [] then Some [] else None) q = ini_kept F q"
    unfolding d by (auto simp: ini_kept_def)
qed

subsection \<open>Contents that are written as they are\<close>

definition ini_clean :: "(string list \<Rightarrow> wvstring) \<Rightarrow> bool" where
  "ini_clean M \<longleftrightarrow> (\<forall>q v. M q = Some v \<and> v \<noteq> [] \<longrightarrow> ini_text v \<and> ini_segs q \<and> ini_sect (take 1 q))"

lemma tolower_special:
  "c_tolower c = d \<longleftrightarrow> c = d" if "d \<in> set ([NUL, CHR 0x5C, CHR 0x22, CHR 0x0B, CHR 0x0C, CHR 0x09] @ ''{}/ '')"
proof -
  have u: "c = char_of (code_of c)" by simp
  have "c_isupper c \<Longrightarrow> c_tolower c \<noteq> d \<and> c \<noteq> d"
  proof -
    assume "c_isupper c"
    then have b: "65 \<le> code_of c" "code_of c \<le> 90" by (auto simp: c_isupper_def)
    then have "code_of (c_tolower c) = code_of c + 32" by (simp add: c_tolower_def c_isupper_def)
    moreover have "code_of d \<notin> {65..90} \<and> code_of d \<notin> {97..122}" using that by (auto)
    ultimately show ?thesis using b by auto
  qed
  then show ?thesis by (cases "c_isupper c") (auto simp: c_tolower_def)
qed

lemma tolower_specials:
  "c_tolower c = NUL \<longleftrightarrow> c = NUL" "c_tolower c = CHR 0x5C \<longleftrightarrow> c = CHR 0x5C" "c_tolower c = CHR 0x22 \<longleftrightarrow> c = CHR 0x22"
  "c_tolower c = CHR 0x0B \<longleftrightarrow> c = CHR 0x0B" "c_tolower c = CHR 0x0C \<longleftrightarrow> c = CHR 0x0C" "c_tolower c = CHR 0x09 \<longleftrightarrow> c = CHR 0x09"
  "c_tolower c = CHR ''{'' \<longleftrightarrow> c = CHR ''{''" "c_tolower c = CHR ''}'' \<longleftrightarrow> c = CHR ''}''"
  "c_tolower c = CHR ''/'' \<longleftrightarrow> c = CHR ''/''" "c_tolower c = CHR '' '' \<longleftrightarrow> c = CHR '' ''"
  by (rule tolower_special, simp)+

lemma ini_char_lower: "ini_char (c_tolower c) \<longleftrightarrow> ini_char c"
  by (simp add: ini_char_def brace_char_def tolower_specials)

lemma ini_segs_lower: "ini_segs (map lower k) \<longleftrightarrow> ini_segs k"
proof -
  have "ini_text (lower s) \<longleftrightarrow> ini_text s" for s by (auto simp: ini_text_def lower_def ini_char_lower)
  moreover have "CHR ''/'' \<in> set (lower s) \<longleftrightarrow> CHR ''/'' \<in> set s" for s
    by (auto simp: lower_def image_iff eq_commute [of "CHR ''/''"] tolower_specials)
  ultimately show ?thesis by (simp add: ini_segs_def)
qed

lemma ini_sect_lower: "ini_sect [lower s] \<longleftrightarrow> ini_sect [s]"
proof -
  have "ini_segs [lower s] \<longleftrightarrow> ini_segs [s]" using ini_segs_lower [of "[s]"] by simp
  moreover have "s \<noteq> [] \<Longrightarrow> {hd (lower s), last (lower s)} \<inter> {CHR '' '', CHR 0x09} = {} \<longleftrightarrow> {hd s, last s} \<inter> {CHR '' '', CHR 0x09} = {}"
    by (simp add: lower_def hd_map last_map eq_commute [of "CHR '' ''"] eq_commute [of "CHR 0x09"] tolower_specials)
  moreover have "ini_segs [s] \<Longrightarrow> s \<noteq> []" by (simp add: ini_segs_def ini_text_def)
  ultimately show ?thesis unfolding ini_sect_def by auto
qed

subsection \<open>Running the words\<close>

definition entry_words :: "(key list \<times> string) list \<Rightarrow> string list" where
  "entry_words es = map (\<lambda>(p, v). ini_entry_word (vt_fullkey p) v) es"

definition section_words :: "key \<Rightarrow> (key list \<times> string) list \<Rightarrow> string list" where
  "section_words sec es = (if es = [] then [] else [[], ini_section_word sec]) @ entry_words es"

text \<open>What the words of some entries do to a state: the section is the last one named, and the values are set.\<close>

definition runs :: "string list \<Rightarrow> (string list \<times> string) list \<Rightarrow> key \<Rightarrow> key \<Rightarrow> bool" where
  "runs ws es sec sec' \<longleftrightarrow>
     (\<forall>n g. tg_valid n g \<and> n + length es < 26000 \<longrightarrow>
        (\<exists>g'. ini_run ws (sec, g) = Some (sec', g') \<and> tg_valid (n + length es) g' \<and> tg_contents g' = entries_set es (tg_contents g)))"

lemma ini_run_append: "ini_run (ws @ vs) st = (case ini_run ws st of None \<Rightarrow> None | Some st' \<Rightarrow> ini_run vs st')"
  by (induction ws arbitrary: st) (auto split: option.split)

lemma runs_Nil: "runs [] [] sec sec"
  by (simp add: runs_def entries_set_def)

lemma runs_append:
  assumes "runs ws es a b" "runs vs fs b c"
  shows "runs (ws @ vs) (es @ fs) a c"
  unfolding runs_def
proof (intro allI impI, elim conjE)
  fix n and g :: tempgen assume g: "tg_valid n g" "n + length (es @ fs) < 26000"
  then have l: "n + length es < 26000" "n + length es + length fs < 26000" by simp_all
  obtain g1 where g1: "ini_run ws (a, g) = Some (b, g1)" "tg_valid (n + length es) g1" "tg_contents g1 = entries_set es (tg_contents g)"
    using assms(1) g(1) l(1) unfolding runs_def by blast
  obtain g2 where g2: "ini_run vs (b, g1) = Some (c, g2)" "tg_valid (n + length es + length fs) g2" "tg_contents g2 = entries_set fs (tg_contents g1)"
    using assms(2) g1(2) l(2) unfolding runs_def by blast
  show "\<exists>g'. ini_run (ws @ vs) (a, g) = Some (c, g') \<and> tg_valid (n + length (es @ fs)) g' \<and>
      tg_contents g' = entries_set (es @ fs) (tg_contents g)"
    using g1 g2 by (intro exI [of _ g2]) (simp add: ini_run_append entries_set_append add.assoc)
qed

lemma runs_section:
  assumes "ini_sect k"
  shows "runs [[], ini_section_word k] [] sec k"
  using section_word_run [OF assms] by (simp add: runs_def entries_set_def ini_section_word_def)

lemma prepend_path:
  assumes "[] \<notin> set a" "[] \<notin> set b"
  shows "key_prepend b a = a @ b"
  using assms by (simp add: key_prepend_def nonempty_segs_id key_collapse_nonempty)

lemma ini_segs_nonempty: "ini_segs k \<Longrightarrow> [] \<notin> set k \<and> key_cstr k"
  by (auto simp: ini_segs_def ini_text_def key_cstr_def c_str_def ini_char_def)

lemma runs_entry:
  assumes "ini_segs k" "ini_segs sec" "ini_text v" "int (length (sec @ k)) \<le> INT_MAX"
  shows "runs [ini_entry_word k v] [(map lower (sec @ k), v)] sec sec"
  unfolding runs_def
proof (intro allI impI, elim conjE)
  fix n and g :: tempgen assume g: "tg_valid n g" "n + length [(map lower (sec @ k), v)] < 26000"
  note k = ini_segs_nonempty [OF assms(1)] and sec = ini_segs_nonempty [OF assms(2)]
  have p: "key_prepend k sec = sec @ k" using k sec by (intro prepend_path) simp_all
  have ne: "[] \<notin> set (sec @ k)" using k sec by simp
  then have "sec @ k \<noteq> [[]]" by (metis list.set_intros(1))
  then have ok: "key_ok INT_MAX (sec @ k)" using ne k sec assms(4) by (auto simp: key_ok_def key_cstr_def dest: in_set_butlastD)
  have "val_ok (Some v)" using assms(3) by (auto simp: val_ok_def ini_text_def ini_char_def c_str_def)
  moreover have "n < 26000" using g(2) by simp
  ultimately obtain g' where g': "tg_set (sec @ k) (Some v) g = Some g'" "tg_valid (Suc n) g'"
    "tg_contents g' = update_spec (sec @ k) (Some v) (tg_contents g)"
    using tg_set_spec [OF g(1) _ ok] by blast
  have "\<not> key_hastrailingslash (sec @ k)" using ne by (metis key_hastrailingslash_def last_in_set)
  moreover have "key_path (sec @ k) = map lower (sec @ k)" using ne by (simp add: key_path_def nonempty_segs_id)
  ultimately have "tg_contents g' = entries_set [(map lower (sec @ k), v)] (tg_contents g)"
    using g'(3) by (simp add: update_spec_def entries_set_def)
  moreover have "ini_word (ini_entry_word k v) (sec, g) = Some (sec, g')"
    using entry_word_run [OF assms(1,3), of "(sec, g)" g'] g'(1) p by simp
  moreover have "ini_entry_word k v \<noteq> []" by (simp add: ini_entry_word_def)
  ultimately show "\<exists>g'. ini_run [ini_entry_word k v] (sec, g) = Some (sec, g') \<and>
      tg_valid (n + length [(map lower (sec @ k), v)]) g' \<and>
      tg_contents g' = entries_set [(map lower (sec @ k), v)] (tg_contents g)"
    using g'(2) by (intro exI [of _ g']) simp
qed

text \<open>A section with its entries.\<close>

definition entry_paths :: "key \<Rightarrow> (key list \<times> string) list \<Rightarrow> (string list \<times> string) list" where
  "entry_paths sec es = map (\<lambda>(p, v). (map lower (sec @ vt_fullkey p), v)) es"

definition entry_good :: "key \<Rightarrow> key list \<times> string \<Rightarrow> bool" where
  "entry_good sec e \<longleftrightarrow> ini_segs (vt_fullkey (fst e)) \<and> ini_text (snd e) \<and> int (length (sec @ vt_fullkey (fst e))) \<le> INT_MAX"

lemma runs_entries:
  assumes "ini_segs sec" "\<forall>e \<in> set es. entry_good sec e"
  shows "runs (entry_words es) (entry_paths sec es) sec sec"
  using assms(2)
proof (induction es)
  case (Cons e es)
  obtain p v where e: "e = (p, v)" by (cases e)
  have "entry_good sec (p, v)" using Cons.prems e by simp
  then have "runs [ini_entry_word (vt_fullkey p) v] [(map lower (sec @ vt_fullkey p), v)] sec sec"
    unfolding entry_good_def by (intro runs_entry assms(1)) simp_all
  from runs_append [OF this Cons.IH] show ?case using Cons.prems by (simp add: e entry_words_def entry_paths_def)
qed (simp add: entry_words_def entry_paths_def runs_Nil)

lemma runs_section_words:
  assumes "es \<noteq> [] \<longrightarrow> ini_sect sec" "\<forall>e \<in> set es. entry_good sec e"
  shows "runs (section_words sec es) (entry_paths sec es) old (if es = [] then old else sec)"
proof (cases "es = []")
  case True
  then show ?thesis by (simp add: section_words_def entry_words_def entry_paths_def runs_Nil)
next
  case False
  then have "ini_sect sec" "ini_segs sec" using assms(1) by (simp_all add: ini_sect_def)
  from runs_append [OF runs_section [OF this(1)] runs_entries [OF this(2) assms(2)]]
  show ?thesis using False by (simp add: section_words_def)
qed

lemma section_words_text:
  assumes "es \<noteq> [] \<longrightarrow> ini_sect sec" "\<forall>e \<in> set es. entry_good sec e"
  shows "ini_section sec es = concat (map (\<lambda>w. w @ [nl]) (section_words sec es))"
    "\<forall>w \<in> set (section_words sec es). w = [] \<or> word_ok WVTCL_NASTY_NEWLINES w"
proof -
  have "concat (map (\<lambda>(p, v). ini_printkey (vt_fullkey p) v) es) = concat (map (\<lambda>w. w @ [nl]) (entry_words es))"
    using assms(2) by (induction es) (auto simp: entry_words_def entry_good_def printkey_word)
  then show "ini_section sec es = concat (map (\<lambda>w. w @ [nl]) (section_words sec es))"
    using assms(1) printsection_word by (auto simp: ini_section_def section_words_def)
  show "\<forall>w \<in> set (section_words sec es). w = [] \<or> word_ok WVTCL_NASTY_NEWLINES w"
    using assms section_word_ok entry_word_ok by (auto simp: section_words_def entry_words_def entry_good_def split: if_splits)
qed

subsection \<open>The whole tree\<close>

definition ini_sections :: "vtree \<Rightarrow> (key \<times> (key list \<times> string) list) list" where
  "ini_sections root =
     ([], ini_entries [] False (vt_childlist root)) #
     map (\<lambda>node. (vt_fullkey [vt_key node], ini_entries [] True (vt_childlist node))) (vt_childlist root)"

definition root_entry :: "vtree \<Rightarrow> string list" where
  "root_entry root = (if str_not (vt_value root) then [] else [the (vt_value root)])"

definition all_entries :: "vtree \<Rightarrow> (string list \<times> string) list" where
  "all_entries root = map (\<lambda>v. ([], v)) (root_entry root) @ concat (map (\<lambda>(sec, es). entry_paths sec es) (ini_sections root))"

definition all_words :: "vtree \<Rightarrow> string list" where
  "all_words root = map (ini_entry_word []) (root_entry root) @ concat (map (\<lambda>(sec, es). section_words sec es) (ini_sections root))"

lemma ini_save_sections:
  assumes "vt_ok n root" "vt_key root = []"
  shows "ini_save (Some root) =
    concat (map (ini_printkey []) (root_entry root)) @ concat (map (\<lambda>(sec, es). ini_section sec es) (ini_sections root))"
proof -
  note f = forest_good_children [OF assms(1)]
  have "fst (ini_save_sect (vt_fullkey [vt_key node]) [] True (vt_childlist node) False) =
      ini_section (vt_fullkey [vt_key node]) (ini_entries [] True (vt_childlist node))" if "node \<in> set (vt_childlist root)" for node
    using ini_save_sect_eq [OF forest_good_children] f that by (auto simp: forest_good_def)
  then have "concat (map (\<lambda>node. fst (ini_save_sect (vt_fullkey [vt_key node]) [] True (vt_childlist node) False)) (vt_childlist root)) =
      concat (map (\<lambda>node. ini_section (vt_fullkey [vt_key node]) (ini_entries [] True (vt_childlist node))) (vt_childlist root))"
    by (metis (mono_tags, lifting) map_eq_conv)
  moreover have "fst (ini_save_sect key_EMPTY [] False (vt_childlist root) False) = ini_section [] (ini_entries [] False (vt_childlist root))"
    using ini_save_sect_eq [OF f, of key_EMPTY "[]" False False] by (simp add: key_EMPTY_def)
  ultimately show ?thesis using assms(2)
    by (simp add: ini_save_def ini_sections_def root_entry_def comp_def)
qed

lemma entry_paths_set:
  assumes "forest_good n nodes"
  shows "set (entry_paths sec (ini_entries [] rec nodes)) =
    {(map lower sec @ q, v) | q v. forest_at nodes q = Some v \<and> v \<noteq> [] \<and> (rec \<or> length q = 1)}"
proof -
  have "set (entry_paths sec (ini_entries [] rec nodes)) =
      (\<lambda>(q, v). (map lower sec @ q, v)) ` (\<lambda>(p, v). (path_lower p, v)) ` set (ini_entries [] rec nodes)"
    by (force simp: entry_paths_def map_lower_fullkey image_iff)
  then show ?thesis unfolding ini_entries_set [OF assms] by (auto simp: image_iff)
qed

lemma all_entries_set:
  assumes "vt_ok n root"
  shows "set (all_entries root) = {(q, v). vt_map q root = Some v \<and> v \<noteq> []}"
proof -
  let ?cs = "vt_childlist root"
  have f: "forest_good n ?cs" by (rule forest_good_children [OF assms])
  have d: "distinct (map (\<lambda>c. map lower (vt_key c)) ?cs)" using f by (simp add: forest_good_def)
  have a: "set (map (\<lambda>v. ([], v)) (root_entry root)) = {([], v) | v. vt_value root = Some v \<and> v \<noteq> []}"
    by (auto simp: root_entry_def str_not_value ini_value_def)
  have b: "set (entry_paths [] (ini_entries [] False ?cs)) = {(q, v) | q v. forest_at ?cs q = Some v \<and> v \<noteq> [] \<and> length q = 1}"
    using entry_paths_set [OF f, of "[]" False] by simp
  have c: "set (entry_paths (vt_fullkey [vt_key c]) (ini_entries [] True (vt_childlist c))) =
      {(q, v) | q v. forest_at ?cs q = Some v \<and> v \<noteq> [] \<and> length q \<noteq> 1 \<and> map lower (vt_key c) = [hd q]}" if c: "c \<in> set ?cs" for c
  proof -
    obtain s where s: "vt_key c = [s]" "seg_ok s" "vt_ok n c" using f c by (auto simp: forest_good_def)
    then have k: "vt_fullkey [vt_key c] = [s]" by (simp add: vt_fullkey_eq nonempty_segs_def seg_ok_def)
    have "find (\<lambda>c. map lower (vt_key c) = [lower s]) ?cs = Some c" using find_distinct [OF d c] s(1) by simp
    then have at: "forest_at ?cs (lower s # q) = vt_map q c" for q by (simp add: forest_at_def)
    have fc: "forest_at (vt_childlist c) q = Some v \<longleftrightarrow> forest_at ?cs (lower s # q) = Some v \<and> q \<noteq> []" for q v
      unfolding at by (cases "q = []") (simp_all add: forest_at_childlist)
    have "set (entry_paths [s] (ini_entries [] True (vt_childlist c))) =
        {(lower s # q, v) | q v. forest_at (vt_childlist c) q = Some v \<and> v \<noteq> []}"
      using entry_paths_set [OF forest_good_children [OF s(3)], of "[s]" True] by simp
    also have "\<dots> = {(lower s # q, v) | q v. forest_at ?cs (lower s # q) = Some v \<and> v \<noteq> [] \<and> q \<noteq> []}"
      unfolding fc by blast
    also have "\<dots> = {(q, v) | q v. forest_at ?cs q = Some v \<and> v \<noteq> [] \<and> length q \<noteq> 1 \<and> lower s = hd q}" (is "_ = ?r")
    proof (rule set_eqI, rule iffI)
      fix x assume "x \<in> ?r"
      then obtain q v where q: "x = (q, v)" "forest_at ?cs q = Some v" "v \<noteq> []" "length q \<noteq> 1" "lower s = hd q" by blast
      moreover have "q \<noteq> []" using q(2) by auto
      ultimately show "x \<in> {(lower s # q, v) | q v. forest_at ?cs (lower s # q) = Some v \<and> v \<noteq> [] \<and> q \<noteq> []}"
        by (cases q) auto
    qed auto
    finally show ?thesis unfolding k using s(1) by simp
  qed
  have ex: "\<exists>c \<in> set ?cs. map lower (vt_key c) = [hd q]" if a: "forest_at ?cs q = Some v" for q v
  proof -
    from a obtain r q' where q: "q = r # q'" by (cases q) auto
    obtain c where "find (\<lambda>c. map lower (vt_key c) = [r]) ?cs = Some c" using a unfolding q forest_at_def
      by (cases "find (\<lambda>c. map lower (vt_key c) = [r]) ?cs") auto
    then have "c \<in> set ?cs" "map lower (vt_key c) = [hd q]" by (auto simp: find_Some_iff q)
    then show ?thesis by (intro bexI [of _ c])
  qed
  have "set (concat (map (\<lambda>(sec, es). entry_paths sec es) (ini_sections root))) =
      set (entry_paths [] (ini_entries [] False ?cs)) \<union>
      (\<Union>c \<in> set ?cs. set (entry_paths (vt_fullkey [vt_key c]) (ini_entries [] True (vt_childlist c))))"
    by (simp add: ini_sections_def comp_def)
  also have "\<dots> = {(q, v) | q v. forest_at ?cs q = Some v \<and> v \<noteq> []}"
    unfolding b using c ex by (auto; blast)
  finally have e: "set (concat (map (\<lambda>(sec, es). entry_paths sec es) (ini_sections root))) = {(q, v) | q v. forest_at ?cs q = Some v \<and> v \<noteq> []}" .
  show ?thesis unfolding all_entries_def set_append a e forest_at_childlist by (auto split: if_splits)
qed

lemma in_sections:
  assumes "(sec, es) \<in> set (ini_sections root)" "(p, v) \<in> set es"
  shows "(map lower (sec @ vt_fullkey p), v) \<in> set (all_entries root)"
  using assms by (force simp: all_entries_def entry_paths_def)

text \<open>Clean contents make printable entries.\<close>

lemma sections_good:
  assumes "tg_valid n g" "tg_root g = Some root" "ini_clean (tg_contents g)" "(sec, es) \<in> set (ini_sections root)"
  shows "es \<noteq> [] \<longrightarrow> ini_sect sec" "\<forall>e \<in> set es. entry_good sec e"
proof -
  have ok: "vt_ok n root" and c: "tg_contents g = (\<lambda>q. vt_map q root)" using assms(1,2) by (simp_all add: tg_valid_def tg_contents_def)
  have at: "ini_text v \<and> ini_segs (sec @ vt_fullkey p) \<and> ini_sect (take 1 (map lower (sec @ vt_fullkey p))) \<and>
      int (length (sec @ vt_fullkey p)) \<le> INT_MAX" if "(p, v) \<in> set es" for p v
  proof -
    let ?q = "map lower (sec @ vt_fullkey p)"
    have q: "tg_contents g ?q = Some v" "v \<noteq> []"
      using in_sections [OF assms(4) that] unfolding all_entries_set [OF ok] c by simp_all
    then have "ini_text v \<and> ini_segs ?q \<and> ini_sect (take 1 ?q)" using assms(3) unfolding ini_clean_def by blast
    moreover have "int (length ?q) \<le> INT_MAX" using assms(1) q(1) unfolding tg_valid_def by blast
    ultimately show ?thesis unfolding ini_segs_lower by simp
  qed
  then show "\<forall>e \<in> set es. entry_good sec e" by (auto simp: entry_good_def ini_segs_def)
  have "vt_fullkey [vt_key c] = [] \<or> (\<exists>s. vt_fullkey [vt_key c] = [s])" if c: "c \<in> set (vt_childlist root)" for c
  proof -
    obtain s where "vt_key c = [s]" using vt_okD(3) [OF ok c] by blast
    then show ?thesis by (cases "s = []") (simp_all add: vt_fullkey_eq nonempty_segs_def)
  qed
  then have "sec = [] \<or> (\<exists>s. sec = [s])" using assms(4) unfolding ini_sections_def by auto
  moreover have "ini_sect []" by (simp add: ini_sect_def ini_segs_def)
  ultimately show "es \<noteq> [] \<longrightarrow> ini_sect sec" using at ini_sect_lower by (cases es) force+
qed

lemma runs_sections:
  assumes "\<forall>(sec, es) \<in> set ss. (es \<noteq> [] \<longrightarrow> ini_sect sec) \<and> (\<forall>e \<in> set es. entry_good sec e)"
  shows "\<exists>sec'. runs (concat (map (\<lambda>(sec, es). section_words sec es) ss)) (concat (map (\<lambda>(sec, es). entry_paths sec es) ss)) old sec'"
  using assms
proof (induction ss arbitrary: old)
  case (Cons s ss)
  obtain sec es where s: "s = (sec, es)" by (cases s)
  obtain sec' where "runs (concat (map (\<lambda>(sec, es). section_words sec es) ss)) (concat (map (\<lambda>(sec, es). entry_paths sec es) ss))
      (if es = [] then old else sec) sec'" using Cons.IH [of "if es = [] then old else sec"] Cons.prems by auto
  moreover have "runs (section_words sec es) (entry_paths sec es) old (if es = [] then old else sec)"
    using Cons.prems by (intro runs_section_words) (auto simp: s)
  ultimately show ?case by (auto simp: s intro: runs_append)
qed (auto intro: runs_Nil)

lemma entries_le_text: "length (all_entries root) \<le> length (concat (map (\<lambda>w. w @ [nl]) (all_words root)))"
proof -
  have a: "length ws \<le> length (concat (map (\<lambda>w. w @ [nl]) ws))" for ws :: "string list" by (induction ws) auto
  have "length (entry_paths sec es) \<le> length (section_words sec es)" for sec es
    by (simp add: entry_paths_def section_words_def entry_words_def)
  then have "length (concat (map (\<lambda>(sec, es). entry_paths sec es) ss)) \<le> length (concat (map (\<lambda>(sec, es). section_words sec es) ss))" for ss
    by (induction ss) (auto intro: add_mono)
  then have "length (all_entries root) \<le> length (all_words root)" by (simp add: all_entries_def all_words_def)
  also note a
  finally show ?thesis .
qed

lemma concat_sections:
  assumes "\<And>sec es. (sec, es) \<in> set ss \<Longrightarrow> ini_section sec es = concat (map (\<lambda>w. w @ [nl]) (section_words sec es))"
  shows "concat (map (\<lambda>(sec, es). ini_section sec es) ss) = concat (map (\<lambda>w. w @ [nl]) (concat (map (\<lambda>(sec, es). section_words sec es) ss)))"
  using assms by (induction ss) auto

text \<open>Writing and reading.\<close>

lemma ini_saved_read:
  assumes "tg_valid n g" "tg_root g = Some root" "vt_key root = []" "ini_clean (tg_contents g)"
    "length (ini_save (Some root)) < 25999" "tg_valid 1 g0" "tg_contents g0 = (\<lambda>q. if q = [] then Some [] else None)"
  shows "\<exists>sec' g'. ini_read (file_reads (ini_save (Some root))) [] (key_EMPTY, g0) = Some (sec', g') \<and>
    tg_contents g' = ini_kept (tg_contents g)"
proof -
  let ?ss = "ini_sections root"
  have ok: "vt_ok n root" and c: "tg_contents g = (\<lambda>q. vt_map q root)" using assms(1,2) by (simp_all add: tg_valid_def tg_contents_def)
  note good = sections_good [OF assms(1,2,4)]
  have rt: "ini_text v" if "v \<in> set (root_entry root)" for v
  proof -
    have "tg_contents g [] = Some v" "v \<noteq> []"
      using that by (auto simp: c root_entry_def str_not_value ini_value_def split: if_splits)
    then show ?thesis using assms(4) unfolding ini_clean_def by blast
  qed
  have s: "ini_segs []" by (simp add: ini_segs_def)
  have "concat (map (ini_printkey []) vs) = concat (map (\<lambda>w. w @ [nl]) (map (ini_entry_word []) vs))" if "\<forall>v \<in> set vs. ini_text v" for vs
    using that by (induction vs) (auto simp: printkey_word [OF s])
  then have "concat (map (ini_printkey []) (root_entry root)) = concat (map (\<lambda>w. w @ [nl]) (map (ini_entry_word []) (root_entry root)))"
    using rt by blast
  moreover have "concat (map (\<lambda>(sec, es). ini_section sec es) ?ss) = concat (map (\<lambda>w. w @ [nl]) (concat (map (\<lambda>(sec, es). section_words sec es) ?ss)))"
    by (rule concat_sections) (rule section_words_text(1) [OF good])
  ultimately have t: "ini_save (Some root) = concat (map (\<lambda>w. w @ [nl]) (all_words root))"
    unfolding ini_save_sections [OF ok assms(3)] all_words_def by simp
  have w: "\<forall>w \<in> set (all_words root). w = [] \<or> word_ok WVTCL_NASTY_NEWLINES w"
  proof
    fix w assume "w \<in> set (all_words root)"
    then consider v where "v \<in> set (root_entry root)" "w = ini_entry_word [] v"
      | sec es where "(sec, es) \<in> set ?ss" "w \<in> set (section_words sec es)" by (auto simp: all_words_def)
    then show "w = [] \<or> word_ok WVTCL_NASTY_NEWLINES w"
      by cases (use entry_word_ok [OF s rt] in blast, use section_words_text(2) [OF good] in blast)
  qed
  have "runs (map (ini_entry_word []) (root_entry root)) (map (\<lambda>v. ([], v)) (root_entry root)) [] []"
    using runs_entry [OF s s] rt runs_Nil by (auto simp: root_entry_def INT_MAX_def)
  moreover obtain sec' where "runs (concat (map (\<lambda>(sec, es). section_words sec es) ?ss)) (concat (map (\<lambda>(sec, es). entry_paths sec es) ?ss)) [] sec'"
    using runs_sections [of ?ss "[]"] good by blast
  ultimately have "runs (all_words root) (all_entries root) [] sec'"
    unfolding all_words_def all_entries_def by (rule runs_append)
  moreover have "1 + length (all_entries root) < 26000" using entries_le_text [of root] assms(5) t by simp
  ultimately obtain g' where g': "ini_run (all_words root) ([], g0) = Some (sec', g')" "tg_contents g' = entries_set (all_entries root) (tg_contents g0)"
    using assms(6) unfolding runs_def by blast
  have "tg_contents g' = ini_kept (tg_contents g)"
    unfolding g'(2) assms(7) by (rule entries_set_kept) (simp add: all_entries_set [OF ok] c)
  then show ?thesis using read_text [OF w, of "[]" "([], g0)"] g'(1) unfolding t by (simp add: key_EMPTY_def)
qed

text \<open>A saved text has no double quotes, so that a refresh from it is defined.\<close>

lemma text_safe: "ini_text s \<Longrightarrow> ini_safe s" "ini_text s \<Longrightarrow> ini_safe (ini_printed seps s)"
  by (auto simp: ini_text_def ini_safe_def ini_char_def c_str_def ini_printed_def)

lemma entry_word_safe: "ini_segs k \<Longrightarrow> ini_text v \<Longrightarrow> ini_safe (ini_entry_word k v)"
  using text_safe(2) ini_segs_printable(1) by (simp add: ini_entry_word_def)

lemma section_word_safe: "ini_sect k \<Longrightarrow> ini_safe (ini_section_word k)"
  using text_safe(2) ini_segs_printable(1) by (simp add: ini_section_word_def ini_sect_def)

lemma ini_safe_concat: "\<forall>w \<in> set ws. ini_safe w \<Longrightarrow> ini_safe (concat ws)"
  by (induction ws) auto

lemma ini_save_safe:
  assumes "tg_valid n g" "tg_root g = Some root" "vt_key root = []" "ini_clean (tg_contents g)"
  shows "ini_safe (ini_save (Some root))"
proof -
  have ok: "vt_ok n root" and c: "tg_contents g = (\<lambda>q. vt_map q root)" using assms(1,2) by (simp_all add: tg_valid_def tg_contents_def)
  have s: "ini_segs []" by (simp add: ini_segs_def)
  have "ini_safe (ini_section sec es)" if e: "(sec, es) \<in> set (ini_sections root)" for sec es
  proof -
    have "\<forall>w \<in> set (section_words sec es). ini_safe w"
      using sections_good [OF assms(1,2,4) e] entry_word_safe section_word_safe
      by (auto simp: section_words_def entry_words_def entry_good_def split: if_splits)
    then show ?thesis unfolding section_words_text(1) [OF sections_good [OF assms(1,2,4) e]] by (intro ini_safe_concat) auto
  qed
  moreover have "ini_safe (ini_printkey [] v)" if v: "v \<in> set (root_entry root)" for v
  proof -
    have "tg_contents g [] = Some v" "v \<noteq> []"
      using v by (auto simp: c root_entry_def str_not_value ini_value_def split: if_splits)
    then have "ini_text v" using assms(4) unfolding ini_clean_def by blast
    then show ?thesis using entry_word_safe [OF s] printkey_word [OF s] by simp
  qed
  ultimately show ?thesis unfolding ini_save_sections [OF ok assms(3)] by (auto intro!: ini_safe_concat)
qed

text \<open>Committing, and a refresh of a generator over the file.\<close>

lemma ini_commit_refresh:
  fixes g h :: inigen
  assumes "tg_valid n g" "tg_root g = Some root" "vt_key root = []" "tg_dirty g" "ini_clean (tg_contents g)"
    "length (ini_save (tg_root g)) < 25999" "tg_valid m h" "tg_root h \<noteq> None" "in_old_st h \<noteq> Some st"
  shows "\<exists>t g' h'. ini_commit True opens g = Some (Renamed t, g') \<and> \<not> tg_dirty g' \<and> tg_contents g' = tg_contents g \<and>
    ini_refresh (File st False (file_reads t) False) h = Some (True, h') \<and> tg_contents h' = ini_kept (tg_contents g)"
proof -
  let ?t = "ini_save (Some root)"
  have len: "length ?t < 25999" using assms(2,6) by simp
  obtain g0 where g0: "tg_set key_EMPTY (Some []) tg_new = Some g0" "ini_ok 26000 1 (key_EMPTY, g0)"
    "tg_contents g0 = (\<lambda>q. if q = [] then Some [] else None)" using ini_start by blast
  then have v: "tg_valid 1 g0" by (simp add: ini_ok_def)
  obtain sec' g1 where r: "ini_read (file_reads ?t) [] (key_EMPTY, g0) = Some (sec', g1)" "tg_contents g1 = ini_kept (tg_contents g)"
    using ini_saved_read [OF assms(1-3,5) len v g0(3)] by blast
  obtain h' st' where h: "ini_refresh (File st False (file_reads ?t) False) h = Some (True, h')"
    "ini_read (file_reads ?t) [] (key_EMPTY, the (tg_set key_EMPTY (Some []) tg_new)) = Some st'" "tg_contents h' = tg_contents (snd st')"
    using ini_refresh_spec [OF assms(7,8) ini_save_safe [OF assms(1-3,5)] len assms(9)] by blast
  have "ini_commit True opens g = Some (Renamed ?t, g\<lparr>tg_dirty := False\<rparr>)"
    using assms(2,4) by (simp add: ini_commit_def tg_commit_def)
  moreover have "tg_contents (g\<lparr>tg_dirty := False\<rparr>) = tg_contents g" by (simp add: tg_contents_def)
  ultimately show ?thesis using h r g0(1) by auto
qed

text \<open>Whatever a refresh meets, it ends and leaves a valid generator.\<close>

lemma ini_refresh_valid:
  fixes g :: inigen
  assumes "tg_valid n g" "tg_root g \<noteq> None" "ini_safe t" "length t < 25999"
  shows "\<exists>b g'. ini_refresh (File st sticky (file_reads t) err) g = Some (b, g') \<and> tg_valid (max n (length t + 2)) g' \<and> tg_root g' \<noteq> None \<and>
    (b \<longrightarrow> in_old_st g = Some st \<or> \<not> err \<and> \<not> sticky) \<and> (\<not> b \<longrightarrow> tg_contents g' = tg_contents g \<and> tg_dirty g' = tg_dirty g)"
proof -
  have mono: "tg_valid (max n (length t + 2)) g" using assms(1) vt_ok_mono [of val_ok n _ "max n (length t + 2)"] by (auto simp: tg_valid_def)
  let ?g = "g\<lparr>in_old_st := Some st\<rparr>"
  have g: "tg_valid (max n (length t + 2)) ?g" "tg_contents ?g = tg_contents g" "tg_root ?g \<noteq> None"
    using mono assms(2) by (simp_all add: tg_valid_def tg_contents_def)
  obtain g0 where g0: "tg_set key_EMPTY (Some []) tg_new = Some g0" "ini_ok 26000 1 (key_EMPTY, g0)" using ini_start by blast
  obtain st' where st': "ini_read (file_reads t) [] (key_EMPTY, g0) = Some st'"
    using ini_read_file [OF g0(2) assms(3)] assms(4) by auto
  consider "\<not> sticky" "in_old_st g = Some st" | sticky | "\<not> sticky" "in_old_st g \<noteq> Some st" err | "\<not> sticky" "in_old_st g \<noteq> Some st" "\<not> err" by blast
  then show ?thesis
  proof cases
    case 4
    obtain g' where "ini_refresh (File st False (file_reads t) False) g = Some (True, g')" "tg_valid (max n (length t + 2)) g'" "tg_contents g' [] \<noteq> None"
      using ini_refresh_spec [OF assms(1-4) 4(2)] by blast
    moreover from this(3) have "tg_root g' \<noteq> None" by (cases "tg_root g'") (simp_all add: tg_contents_def)
    ultimately show ?thesis using 4 by auto
  qed (use mono g g0(1) st' assms(2) in \<open>auto simp: ini_refresh_def Let_def\<close>)
qed

text \<open>A new generator.\<close>

lemma ini_new_ok: "\<exists>h. ini_new = Some h \<and> in_old_st h = Some 0 \<and> tg_root h \<noteq> None \<and> tg_valid 1 h"
proof -
  have "map_option (\<lambda>h. (in_old_st h, tg_root h)) ini_new = Some (Some 0, Some (VNode [] (Some []) None))" by code_simp
  then obtain h where h: "ini_new = Some h" "in_old_st h = Some 0" "tg_root h \<noteq> None" by (cases ini_new) auto
  have k: "key_ok INT_MAX []" "val_ok (Some [])" by (simp_all add: key_ok_def INT_MAX_def val_ok_def)
  have "tg_valid 0 (tempgen.extend tg_new \<lparr>in_old_st = Some 0\<rparr>)"
    by (simp add: tg_valid_def tg_new_def gen_new_def gen.defs tempgen.defs tg_contents_def)
  from tg_set_spec [OF this _ k(1), of "Some []"] have "tg_valid 1 h" using k(2) h(1) by (auto simp: ini_new_def key_EMPTY_def)
  then show ?thesis using h by blast
qed

end
