(* ===== verification/WvStrFormat.thy ===== *)
theory WvStrFormat
  imports WvStrUtils "HOL-Library.Signed_Division"
begin

text \<open>
  The functions of \<open>utils/wvstrutils.cc\<close> that format data for people or for the web:
  hexadecimal dumps, URL encoding, grouped numbers, durations and sizes with units.
\<close>

subsection \<open>Hexadecimal dumps\<close>

definition hex_upper :: "nat \<Rightarrow> char" where
  "hex_upper d = char_of (if d < 10 then 48 + d else 55 + d)"

text \<open>The conversions \<open>%02X\<close> of a byte and \<open>%03X\<close> of an \<open>unsigned int\<close>.\<close>

definition hex_byte :: "char \<Rightarrow> string" where
  "hex_byte c = [hex_upper (code_of c div 16), hex_upper (code_of c mod 16)]"

function hex_digits :: "nat \<Rightarrow> string" where
  "hex_digits n = (if n < 16 then [hex_upper n] else hex_digits (n div 16) @ [hex_upper (n mod 16)])"
  by pat_completeness auto
termination by (relation "measure id") auto

declare hex_digits.simps [simp del]

definition hex_pad :: "nat \<Rightarrow> nat \<Rightarrow> string" where
  "hex_pad w n = (let d = hex_digits n in replicate (w - length d) (CHR ''0'') @ d)"

definition hexdump_line :: "string \<Rightarrow> nat \<Rightarrow> nat \<Rightarrow> bool \<Rightarrow> string" where
  "hexdump_line buf len count charRep =
     (let top = (if len - count < 16 then len - count else 16)
      in ''['' @ hex_pad 3 (count mod 2 ^ 32) @ ''] ''
         @ concat (map (\<lambda>c2. (if c2 \<noteq> 0 \<and> c2 mod 4 = 0 then '' '' else []) @ hex_byte (buf ! (count + c2))) [0..<top])
         @ concat (map (\<lambda>c2. if c2 \<noteq> 0 \<and> c2 mod 4 = 0 then ''   '' else ''  '') [top..<16])
         @ '' ''
         @ (if charRep
            then concat (map (\<lambda>c2. (if c2 mod 4 = 0 then '' '' else [])
                   @ [if c_isprint (buf ! (count + c2)) then buf ! (count + c2) else CHR ''.'']) [0..<top])
            else [])
         @ [CHR 0x0A])"

function hexdump_loop :: "string \<Rightarrow> nat \<Rightarrow> nat \<Rightarrow> bool \<Rightarrow> string" where
  "hexdump_loop buf len count charRep =
     (if count < len then hexdump_line buf len count charRep @ hexdump_loop buf len (count + 16) charRep else [])"
  by pat_completeness auto
termination by (relation "measure (\<lambda>(buf, len, count, charRep). len - count)") auto

declare hexdump_loop.simps [simp del]

definition hexdump_buffer :: "string \<Rightarrow> bool \<Rightarrow> string" where
  "hexdump_buffer buf charRep = hexdump_loop buf (length buf) 0 charRep"

subsection \<open>URL encoding\<close>

definition url_safe :: "wvstring \<Rightarrow> char \<Rightarrow> bool" where
  "url_safe unsafe c \<longleftrightarrow>
     ((\<not> str_not unsafe \<and> c \<notin> set (the unsafe)) \<or>
      (str_not unsafe \<and> (c_isalnum c \<or> c \<in> set (''_.!~*'' @ [CHR 0x27] @ ''()-''))))
     \<and> c \<noteq> CHR ''%''"

definition url_encode_char :: "wvstring \<Rightarrow> char \<Rightarrow> string" where
  "url_encode_char unsafe c = (if url_safe unsafe c then [c] else CHR ''%'' # hex_byte c)"

definition url_encode :: "wvstring \<Rightarrow> wvstring \<Rightarrow> string" where
  "url_encode str unsafe =
     concat (map (url_encode_char unsafe) (case str of None \<Rightarrow> [] | Some t \<Rightarrow> t))"

text \<open>The index of a character, in upper case, in the sixteen digits.\<close>

definition hex_index :: "char \<Rightarrow> nat option" where
  "hex_index c =
     (let u = c_toupper c
      in if c_isdigit u then Some (code_of u - 48)
         else if 65 \<le> (code_of u :: nat) \<and> (code_of u :: nat) \<le> 70 then Some (code_of u - 55) else None)"

definition url_plain :: "bool \<Rightarrow> char \<Rightarrow> char" where
  "url_plain no_space c = (if c = CHR ''+'' \<and> \<not> no_space then CHR '' '' else c)"

definition url_escape :: "char \<Rightarrow> char \<Rightarrow> string" where
  "url_escape a b =
     (case (hex_index a, hex_index b) of
        (Some i, Some j) \<Rightarrow> [char_of (i * 16 + j)]
      | _ \<Rightarrow> [])"

fun url_decode_loop :: "bool \<Rightarrow> string \<Rightarrow> string" where
  "url_decode_loop no_space [] = []"
| "url_decode_loop no_space [c] = [url_plain no_space c]"
| "url_decode_loop no_space [c, a] = [url_plain no_space c, url_plain no_space a]"
| "url_decode_loop no_space (c # a # b # s) =
     (if c = CHR ''%'' then url_escape a b @ url_decode_loop no_space s
      else url_plain no_space c # url_decode_loop no_space (a # b # s))"

text \<open>A decoded NUL ends the result.\<close>

definition url_decode :: "wvstring \<Rightarrow> bool \<Rightarrow> wvstring" where
  "url_decode str no_space =
     (if str_not str then str
      else map_option (\<lambda>t. takeWhile (\<lambda>c. c \<noteq> NUL) (url_decode_loop no_space t)) (trim_string str))"

subsection \<open>Numbers in groups of three digits\<close>

function count_digits :: "int \<Rightarrow> nat" where
  "count_digits j = (if j \<noteq> 0 then 1 + count_digits (j sdiv 10) else 0)"
  by pat_completeness auto
termination
  by (relation "measure (\<lambda>j. nat \<bar>j\<bar>)")
    (auto simp: signed_divide_int_def abs_mult zdiv_mono_strict)

declare count_digits.simps [simp del]

text \<open>The characters from the last to the first; \<open>k\<close> digits are still to come.\<close>

primrec metric_loop :: "nat \<Rightarrow> int \<Rightarrow> nat \<Rightarrow> string" where
  "metric_loop 0 j digit = []"
| "metric_loop (Suc k) j digit =
     char_of (nat ((48 + j smod 10) mod 256))
       # (if (digit + 1) mod 3 = 0 \<and> 0 < k then '' '' else [])
       @ metric_loop k (j sdiv 10) (digit + 1)"

definition metriculate :: "64 word \<Rightarrow> string" where
  "metriculate i =
     (let digits = count_digits (sint i);
          j = (if sint i < 0 then sint (- i) else sint i)
      in (if sint i < 0 then ''-'' else []) @ rev (metric_loop digits j 0))"

subsection \<open>Durations\<close>

definition secondstoa :: "32 word \<Rightarrow> string" where
  "secondstoa total_seconds =
     (let t = unat total_seconds;
          days = t div 86400; t1 = t mod 86400;
          hours = t1 div 3600; t2 = t1 mod 3600;
          mins = t2 div 60; secs = t2 mod 60;
          num = (if days > 0 then 1 else 0) + (if hours > 0 then 1 else 0) + (if mins > 0 then 1 else (0::nat));
          num1 = (if days > 0 then num - 1 else num);
          num2 = (if hours > 0 then num1 - 1 else num1);
          glue = (\<lambda>n. if n > (1::nat) then '', '' else if n = 1 then '' and '' else [])
      in (if days > 0
          then wv_strrev (wv_uitoar (int days)) @ (if days > 1 then '' days'' else '' day'') @ glue num1 else [])
         @ (if hours > 0
            then wv_strrev (wv_uitoar (int hours)) @ (if hours > 1 then '' hours'' else '' hour'') @ glue num2 else [])
         @ (if mins > 0
            then wv_strrev (wv_uitoar (int mins)) @ (if mins > 1 then '' minutes'' else '' minute'') else [])
         @ (if days = 0 \<and> hours = 0 \<and> mins = 0
            then wv_strrev (wv_uitoar (int secs)) @ (if secs \<noteq> 1 then '' seconds'' else '' second'') else []))"

subsection \<open>Sizes with units\<close>

text \<open>The arithmetic is that of \<open>unsigned long long\<close>, with \<open>u64\<close> for the wrap-around.  A
  division by zero and a prefix outside of the table are \<open>None\<close>.\<close>

definition u64 :: "nat \<Rightarrow> nat" where
  "u64 n = n mod 2 ^ 64"

datatype rounding = ROUND_DOWN | ROUND_DOWN_AT_POINT_FIVE | ROUND_UP_AT_POINT_FIVE | ROUND_UP

type_synonym prefixes = "(wvstring \<times> nat) list"

definition si_prefixes :: prefixes where
  "si_prefixes =
     [(Some ''k'', 1000), (Some ''M'', 1000 ^ 2), (Some ''G'', 1000 ^ 3), (Some ''T'', 1000 ^ 4),
      (Some ''P'', 1000 ^ 5), (Some ''E'', 1000 ^ 6), (Some ''Z'', 0), (Some ''Y'', 0), (None, 0)]"

definition iec_prefixes :: prefixes where
  "iec_prefixes =
     [(Some ''Ki'', 1024), (Some ''Mi'', 1024 ^ 2), (Some ''Gi'', 1024 ^ 3), (Some ''Ti'', 1024 ^ 4),
      (Some ''Pi'', 1024 ^ 5), (Some ''Ei'', 1024 ^ 6), (Some ''Zi'', 0), (Some ''Yi'', 0), (None, 0)]"

definition prefix_name :: "prefixes \<Rightarrow> int \<Rightarrow> wvstring option" where
  "prefix_name ps i = (if 0 \<le> i \<and> nat i < length ps then Some (fst (ps ! nat i)) else None)"

definition sizetoa_rounder :: "rounding \<Rightarrow> nat \<Rightarrow> nat \<Rightarrow> nat \<Rightarrow> nat option" where
  "sizetoa_rounder m sz remainder base =
     (if base = 0 then None
      else let half = base div 2; digits = sz div base; r = sz mod base
           in Some (case m of
                ROUND_DOWN \<Rightarrow> digits
              | ROUND_UP \<Rightarrow> if remainder \<noteq> 0 \<or> r \<noteq> 0 then digits + 1 else digits
              | ROUND_UP_AT_POINT_FIVE \<Rightarrow> if r \<ge> half then digits + 1 else digits
              | ROUND_DOWN_AT_POINT_FIVE \<Rightarrow> if r > half \<or> (remainder \<noteq> 0 \<and> r = half) then digits + 1 else digits))"

text \<open>The loop on the block size: what is left of it, the shift, and the value before the
  last division.\<close>

function block_loop :: "nat \<Rightarrow> nat \<Rightarrow> int \<Rightarrow> nat \<Rightarrow> nat \<times> int \<times> nat" where
  "block_loop group_base blocksize shift prev =
     (if blocksize \<ge> group_base \<and> 1 < group_base
      then block_loop group_base (blocksize div group_base) (shift + 1) blocksize
      else (blocksize, shift, prev))"
  by pat_completeness auto
termination by (relation "measure (\<lambda>(g, b, s, p). b)") auto

declare block_loop.simps [simp del]

text \<open>The loop over the prefixes, with the number of entries left as fuel: an index behind
  the table is \<open>None\<close> before the fuel runs out.\<close>

primrec unit_loop :: "nat \<Rightarrow> prefixes \<Rightarrow> rounding \<Rightarrow> nat \<Rightarrow> nat \<Rightarrow> nat \<Rightarrow> int \<Rightarrow> nat \<Rightarrow> (nat \<times> nat) option" where
  "unit_loop 0 ps m sz remainder group_base shift p1 = None"
| "unit_loop (Suc fuel) ps m sz remainder group_base shift p1 =
     (if p1 < length ps
      then (case sizetoa_rounder m (u64 (sz * 10)) remainder (snd (ps ! p1)) of
              None \<Rightarrow> None
            | Some digits \<Rightarrow>
                if digits < group_base * 10 then Some (p1, digits)
                else (case prefix_name ps (int p1 + shift + 1) of
                        None \<Rightarrow> None
                      | Some None \<Rightarrow> Some (p1, digits)
                      | Some (Some _) \<Rightarrow> unit_loop fuel ps m sz remainder group_base shift (p1 + 1)))
      else None)"

primrec block_units :: "nat \<Rightarrow> prefixes \<Rightarrow> rounding \<Rightarrow> nat \<Rightarrow> int \<Rightarrow> int \<Rightarrow> nat \<Rightarrow> (int \<times> nat) option" where
  "block_units 0 ps m group_base shift p digits = None"
| "block_units (Suc fuel) ps m group_base shift p digits =
     (if digits \<ge> group_base * 10
      then (case prefix_name ps (p + shift + 1) of
              None \<Rightarrow> None
            | Some None \<Rightarrow> Some (p, digits)
            | Some (Some _) \<Rightarrow>
                (case sizetoa_rounder m digits 0 group_base of
                   None \<Rightarrow> None
                 | Some d \<Rightarrow> block_units fuel ps m group_base shift (p + 1) d))
      else Some (p, digits))"

definition sizetoa_units :: "nat \<Rightarrow> nat \<Rightarrow> rounding \<Rightarrow> prefixes \<Rightarrow> (nat \<times> int) option" where
  "sizetoa_units sz0 blocksize0 m ps =
     (let group_base = snd (ps ! 0);
          (b1, shift1, prev) = block_loop group_base blocksize0 0 0;
          (blocksize, shift2) = (if prev \<noteq> 0 \<and> prev \<noteq> group_base then (prev, shift1 - 1) else (b1, shift1));
          digits0 = u64 (sz0 * 10);
          (sz, remainder, shift) =
            (if digits0 < sz0 then (sz0 div group_base, sz0 mod group_base, shift2 + 1) else (sz0, 0, shift2));
          start = (if sz \<ge> group_base
                   then map_option (\<lambda>(p, d). (int p, d)) (unit_loop (length ps) ps m sz remainder group_base shift 0)
                   else Some (- 1, digits0))
      in case start of
           None \<Rightarrow> None
         | Some (p, digits) \<Rightarrow>
             map_option (\<lambda>(p', d). (d, p' + shift))
               (if blocksize > 1 then block_units 64 ps m group_base shift p (u64 (digits * blocksize))
                else Some (p, digits)))"

definition sizetoa_core :: "nat \<Rightarrow> nat \<Rightarrow> rounding \<Rightarrow> prefixes \<Rightarrow> string \<Rightarrow> string option" where
  "sizetoa_core sz blocksize m ps unit =
     (if blocksize = 0 then None
      else case sizetoa_units sz blocksize m ps of
             None \<Rightarrow> None
           | Some (digits, i) \<Rightarrow>
               (case prefix_name ps i of
                  None \<Rightarrow> None
                | Some name \<Rightarrow>
                    Some (wv_strrev (wv_uitoar (int (digits div 10))) @ ''.''
                      @ wv_strrev (wv_uitoar (int (digits mod 10))) @ '' '' @ arg_text name @ unit)))"

definition sizetoa :: "nat \<Rightarrow> nat \<Rightarrow> rounding \<Rightarrow> string option" where
  "sizetoa blocks blocksize m =
     (let bytes = u64 (blocks * blocksize)
      in if bytes < 1000 \<and> bytes \<ge> blocks then Some (wv_strrev (wv_uitoar (int bytes)) @ '' bytes'')
         else sizetoa_core blocks blocksize m si_prefixes ''B'')"

definition sizektoa :: "nat \<Rightarrow> rounding \<Rightarrow> string option" where
  "sizektoa kbytes m =
     (if kbytes < 1000 then Some (wv_strrev (wv_uitoar (int kbytes)) @ '' kB'') else sizetoa kbytes 1000 m)"

definition sizeitoa :: "nat \<Rightarrow> nat \<Rightarrow> rounding \<Rightarrow> string option" where
  "sizeitoa blocks blocksize m =
     (let bytes = u64 (blocks * blocksize)
      in if bytes < 1024 \<and> bytes \<ge> blocks then Some (wv_strrev (wv_uitoar (int bytes)) @ '' bytes'')
         else sizetoa_core blocks blocksize m iec_prefixes ''B'')"

definition sizekitoa :: "nat \<Rightarrow> rounding \<Rightarrow> string option" where
  "sizekitoa kbytes m =
     (if kbytes < 1024 then Some (wv_strrev (wv_uitoar (int kbytes)) @ '' KiB'') else sizeitoa kbytes 1024 m)"

subsection \<open>URL encoding is undone by decoding\<close>

lemma hex_upper_code: "d < 16 \<Longrightarrow> code_of (hex_upper d) = (if d < 10 then 48 + d else 55 + d)"
  by (simp add: hex_upper_def)

lemma hex_upper_index:
  assumes "d < 16"
  shows "hex_index (hex_upper d) = Some d"
proof -
  have "\<not> c_islower (hex_upper d)" using assms by (simp add: c_islower_def hex_upper_code)
  then have "c_toupper (hex_upper d) = hex_upper d" by (simp add: c_toupper_def)
  then show ?thesis using assms by (simp add: hex_index_def Let_def c_isdigit_def hex_upper_code)
qed

lemma url_escape_hex_byte: "url_escape (hex_upper (code_of c div 16)) (hex_upper (code_of c mod 16)) = [c]"
proof -
  have "(code_of c :: nat) div 16 < 16" using code_of_less [of c] by (simp add: div_less_iff_less_mult)
  then show ?thesis by (simp add: url_escape_def hex_upper_index del: char_of_code)
qed

lemma url_decode_loop_escape:
  "url_decode_loop ns (CHR ''%'' # hex_byte c @ t) = c # url_decode_loop ns t"
  by (simp add: hex_byte_def url_escape_hex_byte)

lemma url_decode_loop_plain:
  "c \<noteq> CHR ''%'' \<Longrightarrow> url_decode_loop ns (c # t) = url_plain ns c # url_decode_loop ns t"
proof (cases t)
  case (Cons a r)
  assume "c \<noteq> CHR ''%''"
  then show ?thesis using Cons by (cases r) simp_all
qed simp

lemma url_decode_loop_encode:
  assumes "\<forall>c \<in> set s. url_safe u c \<longrightarrow> url_plain ns c = c"
  shows "url_decode_loop ns (concat (map (url_encode_char u) s)) = s"
  using assms
proof (induction s)
  case (Cons c s)
  show ?case
  proof (cases "url_safe u c")
    case True
    then have "c \<noteq> CHR ''%''" by (simp add: url_safe_def)
    then show ?thesis using Cons True by (simp add: url_encode_char_def url_decode_loop_plain)
  next
    case False
    then show ?thesis using Cons by (simp add: url_encode_char_def url_decode_loop_escape)
  qed
qed simp

lemma hex_upper_not_space: "d < 16 \<Longrightarrow> \<not> c_isspace (hex_upper d)"
  by (simp add: c_isspace_def hex_upper_code)

lemma url_encode_no_space:
  assumes "\<forall>c \<in> set s. url_safe u c \<longrightarrow> \<not> c_isspace c"
  shows "\<forall>c \<in> set (concat (map (url_encode_char u) s)). \<not> c_isspace c"
proof -
  have "\<forall>x \<in> set (url_encode_char u c). \<not> c_isspace x" if "c \<in> set s" for c
  proof -
    have "(code_of c :: nat) div 16 < 16" using code_of_less [of c] by (simp add: div_less_iff_less_mult)
    moreover have "\<not> c_isspace CHR ''%''" by (simp add: c_isspace_def)
    ultimately show ?thesis using assms that
      by (auto simp: url_encode_char_def hex_byte_def hex_upper_not_space)
  qed
  then show ?thesis by auto
qed

lemma trim_string_id: "\<forall>c \<in> set t. \<not> c_isspace c \<Longrightarrow> trim_string (Some t) = Some t"
proof -
  assume a: "\<forall>c \<in> set t. \<not> c_isspace c"
  then have "dropWhile c_isspace (rev t) = rev t" "dropWhile c_isspace t = t"
    by (auto simp: dropWhile_eq_self_iff hd_rev)
  then show ?thesis by (simp add: trim_string_def)
qed

lemma url_decode_encode_safe:
  assumes "c_str s" "\<forall>c \<in> set s. url_safe u c \<longrightarrow> url_plain ns c = c \<and> \<not> c_isspace c"
  shows "url_decode (Some (url_encode (Some s) u)) ns = Some s"
proof -
  define e where "e = url_encode (Some s) u"
  have "trim_string (Some e) = Some e"
    using url_encode_no_space [of s u] assms(2) by (simp only: e_def url_encode_def option.case) (simp add: trim_string_id)
  moreover have "takeWhile (\<lambda>c. c \<noteq> NUL) s = s"
    using assms(1) by (auto simp: c_str_def takeWhile_eq_all_conv)
  moreover have "url_decode_loop ns e = s"
    using url_decode_loop_encode [of s u ns] assms(2) by (simp only: e_def url_encode_def option.case) simp
  ultimately show ?thesis
    unfolding e_def [symmetric] by (cases "e = []") (auto simp: url_decode_def str_not_def)
qed

lemma url_safe_default:
  "str_not u \<Longrightarrow> url_safe u c \<Longrightarrow> url_plain ns c = c \<and> \<not> c_isspace c"
  by (auto simp: url_safe_def url_plain_def c_isspace_def c_isalnum_def c_isdigit_def c_isupper_def
      c_islower_def)

subsection \<open>Grouped numbers\<close>

lemma count_digits_uitoar: "0 \<le> j \<Longrightarrow> count_digits j = length (uitoar_loop j)"
proof (induction j rule: uitoar_loop.induct)
  case (1 j)
  then show ?case
    by (subst count_digits.simps, subst uitoar_loop.simps) (auto simp: signed_divide_int_def)
qed

lemma count_digits_minus: "count_digits (- j) = count_digits j"
proof (induction j rule: count_digits.induct)
  case (1 j)
  have "(- j) sdiv 10 = - (j sdiv 10)" by (simp add: signed_divide_int_def)
  then show ?case using 1
    by (subst count_digits.simps, subst (2) count_digits.simps) simp
qed

lemma smod10: "0 \<le> j \<Longrightarrow> j smod 10 = j mod (10::int)" "0 \<le> j \<Longrightarrow> j sdiv 10 = j div (10::int)"
  by (auto simp: signed_modulo_int_def signed_divide_int_def sgn_if minus_div_mult_eq_mod)

lemma digit_not_space: "0 \<le> d \<Longrightarrow> d < 10 \<Longrightarrow> char_of (48 + nat d) \<noteq> CHR '' ''"
proof
  assume "0 \<le> d" "d < 10" "char_of (48 + nat d) = CHR '' ''"
  then have "c_isdigit CHR '' ''" using digit_char(2) [of d] by simp
  then show False by (simp add: c_isdigit_def)
qed

lemma metric_loop_digits:
  "0 \<le> j \<Longrightarrow> filter (\<lambda>c. c \<noteq> CHR '' '') (metric_loop (length (uitoar_loop j)) j d) = uitoar_loop j"
proof (induction j arbitrary: d rule: uitoar_loop.induct)
  case (1 j)
  show ?case
  proof (cases "j > 0")
    case True
    have "(48 + j mod 10) mod 256 = 48 + j mod 10" by (rule mod_pos_pos_trivial) auto
    then have "nat ((48 + j smod 10) mod 256) = 48 + nat (j mod 10)"
      using True by (simp add: smod10 nat_add_distrib)
    moreover have "char_of (48 + nat (j mod 10)) \<noteq> CHR '' ''" by (rule digit_not_space) auto
    moreover have u: "uitoar_loop j = char_of (48 + nat (j mod 10)) # uitoar_loop (j div 10)"
      using True by (simp add: uitoar_loop.simps [of j])
    ultimately show ?thesis using 1 True by (simp only: u) (simp add: smod10)
  next
    case False
    then have "uitoar_loop j = []" by (simp add: uitoar_loop.simps)
    then show ?thesis by simp
  qed
qed

lemma metriculate_digits:
  assumes "sint i \<noteq> 0" "- (2 ^ 63) < sint i"
  shows "filter (\<lambda>c. c \<noteq> CHR '' '') (metriculate i) = string_of_signed i"
proof -
  define j where "j = (if sint i < 0 then sint (- i) else sint i)"
  have n: "sint (- i) = - sint i" if "sint i < 0"
    using assms that sint_range_size [of i]
    by (simp add: sint_negate signed_take_bit_int_eq_self word_size)
  have j: "0 < j" using assms n by (auto simp: j_def)
  have c: "count_digits (sint i) = length (uitoar_loop j)"
    using count_digits_uitoar [of j] count_digits_minus [of "sint i"] j n by (auto simp: j_def split: if_splits)
  have f: "filter (\<lambda>c. c \<noteq> CHR '' '') (metric_loop (length (uitoar_loop j)) j 0) = uitoar_loop j"
    using metric_loop_digits j by simp
  show ?thesis
  proof (cases "sint i < 0")
    case True
    then show ?thesis using j f n
      by (simp add: metriculate_def Let_def c j_def rev_filter [symmetric] string_of_signed_def
        wv_strrev_rev wv_itoar_def wv_uitoar_def)
  next
    case False
    then show ?thesis using j f
      by (simp add: metriculate_def Let_def c j_def rev_filter [symmetric] string_of_signed_def
        wv_strrev_rev wv_itoar_def wv_uitoar_def)
  qed
qed

lemma metriculate_zero: "metriculate 0 = []"
  by (simp add: metriculate_def count_digits.simps)

text \<open>The blanks: one in front of every group of three digits but the first.\<close>

lemma metric_loop_length:
  "0 < k \<Longrightarrow> length (metric_loop k j d) = k + (k + d mod 3 - 1) div 3"
proof (induction k arbitrary: j d)
  case (Suc k)
  show ?case
  proof (cases "k = 0")
    case True
    then show ?thesis by (simp add: div_less)
  next
    case False
    have m: "(d + 1) mod 3 = (if d mod 3 = 2 then 0 else d mod 3 + 1)" by presburger
    have "(k + 2) div 3 = (k - 1) div 3 + 1" using False by presburger
    moreover have "d mod 3 = 0 \<or> d mod 3 = 1 \<or> d mod 3 = 2" by presburger
    ultimately show ?thesis using Suc.IH [of "j sdiv 10" "d + 1"] False m by auto
  qed
qed simp

lemma metriculate_length:
  assumes "sint i \<noteq> 0"
  shows "length (metriculate i) =
    count_digits (sint i) + (count_digits (sint i) - 1) div 3 + (if sint i < 0 then 1 else 0)"
proof -
  have "0 < count_digits (sint i)" using assms by (subst count_digits.simps) simp
  then show ?thesis by (simp add: metriculate_def Let_def metric_loop_length)
qed

subsection \<open>A hexadecimal dump fits in its buffer\<close>

lemma hex_digits_length: "n < 16 ^ Suc k \<Longrightarrow> length (hex_digits n) \<le> Suc k"
proof (induction k arbitrary: n)
  case 0
  then show ?case by (subst hex_digits.simps) simp
next
  case (Suc k)
  then have "n div 16 < 16 ^ Suc k" by (simp add: div_less_iff_less_mult)
  then have "length (hex_digits (n div 16)) \<le> Suc k" by (rule Suc.IH)
  then show ?case by (subst hex_digits.simps) simp
qed

lemma hex_pad_length: "length (hex_pad 3 (n mod 2 ^ 32)) \<le> 8"
proof -
  have "length (hex_digits (n mod 2 ^ 32)) \<le> Suc 7" by (rule hex_digits_length) simp
  then show ?thesis by (simp add: hex_pad_def Let_def)
qed

definition hexdump_width :: "nat \<Rightarrow> nat" where
  "hexdump_width c2 = (if c2 \<noteq> 0 \<and> c2 mod 4 = 0 then 3 else 2)"

lemma hexdump_width_sum: "t \<le> 16 \<Longrightarrow>
  sum_list (map hexdump_width [0..<t]) + sum_list (map hexdump_width [t..<16]) = 35"
proof -
  assume "t \<le> 16"
  then have "[0..<t] @ [t..<16] = [0..<16]"
    by (metis le_add_diff_inverse le0 upt_add_eq_append add_0)
  then have "sum_list (map hexdump_width [0..<t]) + sum_list (map hexdump_width [t..<16]) =
      sum_list (map hexdump_width [0..<16])"
    by (metis map_append sum_list_append)
  also have "\<dots> = 35" by code_simp
  finally show ?thesis .
qed

lemma hexdump_chars_sum:
  assumes "t \<le> 16"
  shows "sum_list (map (\<lambda>c2. if c2 mod 4 = 0 then 2 else (1::nat)) [0..<t]) \<le> 20"
proof -
  let ?f = "\<lambda>c2. if c2 mod 4 = 0 then 2 else (1::nat)"
  have "[0..<t] @ [t..<16] = [0..<16]"
    using assms by (metis le_add_diff_inverse le0 upt_add_eq_append add_0)
  then have "sum_list (map ?f [0..<16]) = sum_list (map ?f ([0..<t] @ [t..<16]))" by (simp only:)
  then have "sum_list (map ?f [0..<t]) + sum_list (map ?f [t..<16]) = sum_list (map ?f [0..<16])"
    by (simp only: map_append sum_list_append)
  also have "\<dots> = 20" by code_simp
  finally show ?thesis by simp
qed

lemma hexdump_line_length: "length (hexdump_line buf len count cr) \<le> 69"
proof -
  define top where "top = (if len - count < 16 then len - count else 16)"
  have t: "top \<le> 16" by (simp add: top_def)
  let ?bytes = "map (\<lambda>c2. (if c2 \<noteq> 0 \<and> c2 mod 4 = 0 then '' '' else []) @ hex_byte (buf ! (count + c2))) [0..<top]"
  let ?pad = "map (\<lambda>c2. if c2 \<noteq> 0 \<and> c2 mod 4 = 0 then ''   '' else ''  '') [top..<16]"
  let ?chars = "map (\<lambda>c2. (if c2 mod 4 = 0 then '' '' else [])
      @ [if c_isprint (buf ! (count + c2)) then buf ! (count + c2) else CHR ''.'']) [0..<top]"
  have "map length ?bytes = map hexdump_width [0..<top]" "map length ?pad = map hexdump_width [top..<16]"
    by (auto simp: hexdump_width_def hex_byte_def)
  then have "length (concat ?bytes) + length (concat ?pad) = 35"
    using hexdump_width_sum [OF t] by (simp only: length_concat)
  moreover have "map length ?chars = map (\<lambda>c2. if c2 mod 4 = 0 then 2 else 1) [0..<top]" by auto
  then have "length (concat ?chars) \<le> 20"
    using hexdump_chars_sum [OF t] by (simp only: length_concat)
  moreover have "length (hexdump_line buf len count cr) = 5 + length (hex_pad 3 (count mod 2 ^ 32))
      + (length (concat ?bytes) + length (concat ?pad)) + (if cr then length (concat ?chars) else 0)"
    unfolding hexdump_line_def Let_def top_def [symmetric] by (simp only: length_append list.size if_distrib [of length])
  ultimately show ?thesis using hex_pad_length [of count] by simp
qed

lemma hexdump_loop_length:
  "length (hexdump_loop buf len count cr) \<le> (len - count + 15) div 16 * 69"
proof (induction buf len count cr rule: hexdump_loop.induct)
  case (1 buf len count cr)
  show ?case
  proof (cases "count < len")
    case True
    have "(len - count + 15) div 16 = Suc ((len - (count + 16) + 15) div 16)"
    proof (cases "len - count < 16")
      case less: True
      then have "(len - count + 15) div 16 = 1" "len - (count + 16) = 0"
        using True by (simp_all add: div_nat_eqI)
      then show ?thesis by simp
    next
      case False
      then have "len - count + 15 = (len - (count + 16) + 15) + 16" by simp
      moreover have "(x + 16) div 16 = Suc (x div 16)" for x :: nat by simp
      ultimately show ?thesis by (simp only:)
    qed
    moreover have "hexdump_loop buf len count cr =
        hexdump_line buf len count cr @ hexdump_loop buf len (count + 16) cr"
      using True by (simp add: hexdump_loop.simps [of buf len count])
    ultimately show ?thesis using 1 [OF True] hexdump_line_length [of buf len count cr]
      by (simp only: length_append mult_Suc add_mono)
  next
    case False
    then show ?thesis by (subst hexdump_loop.simps) simp
  qed
qed

lemma hexdump_buffer_fits: "length (hexdump_buffer buf cr) + 1 \<le> length buf div 16 * 80 + 80"
proof -
  have "length (hexdump_buffer buf cr) \<le> (length buf + 15) div 16 * 69"
    using hexdump_loop_length [of buf "length buf" 0 cr] by (simp add: hexdump_buffer_def)
  moreover have "(length buf + 15) div 16 \<le> (length buf + 16) div 16" by (rule div_le_mono) simp
  then have "(length buf + 15) div 16 \<le> length buf div 16 + 1" by simp
  then have "(length buf + 15) div 16 * 69 \<le> (length buf div 16 + 1) * 69" by (rule mult_le_mono1)
  ultimately show ?thesis by (simp add: algebra_simps)
qed

subsection \<open>Sizes\<close>

lemma sizetoa_overflow: "sizetoa 16 (2 ^ 60 + 1) m = Some ''16 bytes''"
proof -
  have "u64 (16 * (2 ^ 60 + 1)) = 16" by (simp add: u64_def)
  moreover have "wv_uitoar 16 = ''61''" by code_simp
  ultimately show ?thesis by (simp add: sizetoa_def Let_def wv_strrev_rev)
qed

lemma sizetoa_small:
  assumes "blocks * blocksize < 1000" "blocks \<le> blocks * blocksize"
  shows "sizetoa blocks blocksize m =
    Some (string_of_unsigned (word_of_nat (blocks * blocksize) :: 64 word) @ '' bytes'')"
proof -
  have "blocks * blocksize < 2 ^ 64" using assms(1) by simp
  then have "u64 (blocks * blocksize) = blocks * blocksize" unfolding u64_def by (rule mod_less)
  moreover have "n < 2 ^ 64 \<Longrightarrow> uint (word_of_nat n :: 64 word) = int n" for n
    by (simp add: unsigned_of_nat take_bit_nat_eq_self)
  then have "uint (word_of_nat (blocks * blocksize) :: 64 word) = int (blocks * blocksize)"
    using \<open>blocks * blocksize < 2 ^ 64\<close> by this
  ultimately show ?thesis using assms
    by (simp only: sizetoa_def Let_def string_of_unsigned_def simp_thms if_True)
qed

end
