(* ===== verification/Spec2Isabelle.thy ===== *)
theory Spec2Isabelle
  imports UniConfKeyStore UniFilterGen WvTclString WvEncoderChain WvLinkedBuf UniCacheGen UniListGen UniMountGen UniConfRoot UniIniTrip WvStrFormat
begin

text \<open>
  WvStreams is a C++ class library: strings and string utilities, byte buffers, encoders, the
  hierarchical configuration system UniConf, and streams over sockets and files on top of them.
  This development models the parts below the streams, where the library's own logic is.  Paths are
  relative to \<open>src/wvstreams\<close>.

  Theories, and what they model:

  \<^item> \<open>Prelude\<close>: null-terminated strings (\<open>wvstring\<close>, where \<open>None\<close> is the null string), the
    functions of \<open>ctype.h\<close> and \<open>string.h\<close> the code calls, generic list lemmas.
  \<^item> \<open>WvStringColl\<close>: \<open>strcoll_split\<close>, \<open>strcoll_splitstrict\<close>, \<open>strcoll_join\<close> of \<open>include/wvstrutils.h\<close>.
  \<^item> \<open>UniConfKey\<close>: the key class of \<open>uniconf/uniconfkey.cc\<close> as lists of segments; parsing, printing,
    order, wildcard matching, hashing.  \<open>UniConfKeyStore\<close>: the same class with its representation, a
    shared reference-counted segment vector and a window into it, refined to the lists.
  \<^item> \<open>WvScatterHash\<close>: \<open>utils/wvscatterhash.cc\<close>; open addressing with a second hash.  The locale
    \<open>hash_dict\<close> is its contract as a dictionary whose keys are compared up to a normal form.
  \<^item> \<open>UniConfTree\<close>: \<open>uniconf/unihashtree.cc\<close> and the loops of \<open>uniconf/unitempgen.cc\<close> over it; a
    node has a scatter hash of children, and a tree stands for a map from paths of lower-case
    segments to values.  The tree is generic in its values, as the class template is.
  \<^item> \<open>UniConfGen\<close>: \<open>uniconf/uniconfgen.cc\<close>; callbacks, held notifications, iterators, and the locale
    \<open>uni_gen\<close>, the contract of a generator: what its methods do to its contents, and that its
    notifications tell a listener, and a tree that replays them, the same.  \<open>UniTempGen\<close>:
    \<open>uniconf/unitempgen.cc\<close>, which keeps the contract.  \<open>UniFilterGen\<close>: the filters, with the
    subtree generator, which keeps the contract over any generator that does.  \<open>UniRecIter\<close>: the
    recursive iterator of the base class.  \<open>UniCacheGen\<close>: \<open>uniconf/unicachegen.cc\<close>.  \<open>UniListGen\<close>:
    \<open>uniconf/unilistgen.cc\<close>, a stack of generators.  \<open>WvHashTable\<close>: the hash table with chains of
    \<open>utils/wvhashtable.cc\<close>, and \<open>UniMountGen\<close>: \<open>uniconf/unimountgen.cc\<close>, a tree of generators mounted at
    keys, which uses it to share out the pairs of \<open>setv\<close>.
  \<^item> \<open>UniWatch\<close>: the tree of watches of \<open>uniconf/uniconfroot.cc\<close>, with values that are lists of watches.
    \<open>UniConfInt\<close>: the reading of numbers in \<open>uniconf/uniconfgen.cc\<close>.  \<open>UniConfRoot\<close>: the root and
    the handles of \<open>uniconf/uniconf.cc\<close>, which compose the mounting generator with the watches.
  \<^item> \<open>WvTclString\<close>: \<open>utils/wvtclstring.cc\<close> and \<open>utils/wvstringmask.cc\<close>; escaping, list encoding and
    decoding, with the measuring and the writing pass of each function.
  \<^item> \<open>WvString\<close>: \<open>utils/wvstring.cc\<close>; integer formatting at any width, in-place reversal, comparison,
    the two passes of \<open>do_format\<close>.
  \<^item> \<open>WvEncoder\<close>, \<open>WvHexBase64\<close>, \<open>WvEncoderChain\<close>: \<open>utils/wvencoder.cc\<close>, \<open>utils/wvhex.cc\<close> and
    \<open>utils/wvbase64.cc\<close>.  A subclass is a record of its virtual functions; the locales
    \<open>stream_encoder\<close> and \<open>resettable_encoder\<close> are the contract of a codec, interpreted for each.
  \<^item> \<open>WvBufStore\<close>, \<open>WvBufStores\<close>, \<open>WvCircularBuf\<close>, \<open>WvBufCursor\<close>, \<open>WvBufRuns\<close>:
    \<open>utils/wvbufferstore.cc\<close> and \<open>utils/wvbuffer.cc\<close>.  A store is a record of its virtual functions;
    \<open>buf_reader\<close>, \<open>buf_store\<close> and \<open>buf_merge\<close> are the contracts the helpers of the base class rely
    on, interpreted for the in-place, constant, null and circular stores.  \<open>WvLinkedBuf\<close> has the linked and
    the dynamic store, over the contracts \<open>piece_reader\<close> and \<open>piece_store\<close> of the buffers they are made of.  \<open>WvBufRuns\<close> has the
    transition relation of a buffer in use.
  \<^item> \<open>WvStrUtils\<close>, \<open>WvStrFormat\<close>: \<open>utils/wvstrutils.cc\<close>; trimming, searching, file names, URL
    encoding, hexadecimal dumps, numbers and sizes for people.

  Undefined behaviour of the code (an access outside of an array, a failed assertion, a division by
  zero) is \<open>None\<close> or a constructor of its own, so that a theorem with a result states that it does not
  happen.  Lengths are natural numbers where the code uses \<open>size_t\<close> far below its range; integers
  whose wrap-around matters are words or are reduced explicitly.  Loops are recursive functions with
  a measure; the tables of size units are walked with their length as fuel, which a longer run leaves
  with \<open>None\<close>.  The loops of the scatter hash that search for a slot are partial functions, shown to return;
  a rebuild that adds the elements again has fuel 2 for its nesting, which is never used up.  The fuel of
  \<open>ri_all\<close> bounds the steps of a recursive iterator, and any number above that of the keys is enough; that
  of \<open>zap_loop\<close> is the number of mounts; that of \<open>uc_copy\<close> bounds the keys that are copied.  The bound
  26000 in theorems about the tree is what the table of primes allows within a probe of 32 bits.

  The lemmas of each theory give the functional behaviour of its operations, the agreement of
  measuring and writing passes, round trips and refinements; the properties at the end of the
  development are stated below, component by component.

  Not modelled: everything over file descriptors, processes, the clock, OpenSSL, libdbus and the
  regular expressions of the system; vendored code (\<open>argp\<close>, \<open>xplc\<close>, \<open>wvports\<close>); the generators of
  UniConf that read files and sockets; address parsing.
\<close>

section \<open>UniConf keys\<close>

text \<open>C1. The order of keys is the lexicographic order of their segments, each taken in lower case, and
  equality is equality up to case.\<close>

theorem key_order:
  assumes "key_cstr k1" "key_cstr k2"
  shows "(key_less k1 k2 \<longleftrightarrow> key_ord k1 < key_ord k2) \<and> (key_eq k1 k2 \<longleftrightarrow> map lower k1 = map lower k2)"
  using assms by (simp add: key_less_iff key_eq_iff)

theorem key_order_witness:
  "key_less [''a'', ''B''] [''A'', ''b'', ''c''] \<longleftrightarrow> key_ord [''a'', ''B''] < key_ord [''A'', ''b'', ''c'']"
  using key_order [of "[''a'', ''B'']" "[''A'', ''b'', ''c'']"] by simp

text \<open>C2. Printing a key and parsing the result gives the key back, whatever string the key was made from.\<close>

theorem key_parse_print_parse:
  assumes "c_str t"
  shows "key_of_string (Some (key_printable (key_of_string (Some t)))) = key_of_string (Some t)"
  by (rule key_of_printable [OF key_of_string_wf [OF assms]])

theorem key_parse_print_parse_witness:
  "key_of_string (Some (key_printable (key_of_string (Some ''//a///b/'')))) = key_of_string (Some ''//a///b/'')"
  using key_parse_print_parse [of "''//a///b/''"] by simp

text \<open>C3. \<open>matches\<close> against a pattern of wildcards followed by literal segments: the wildcards cover
  a prefix of the key, one segment for each \<open>*\<close> and any number for each \<open>...\<close>, and the rest of the key
  equals the literal segments up to case.\<close>

theorem key_matching:
  assumes "key_plain k" "key_plain pat"
  shows "key_matches k pat \<longleftrightarrow> wild_prefix_match k pat"
  using assms by (rule key_matches_spec)

theorem key_matching_witness:
  "key_matches [''a'', ''b'', ''c''] [''...'', ''C''] \<longleftrightarrow> wild_prefix_match [''a'', ''b'', ''c''] [''...'', ''C'']"
  by (rule key_matching) (simp_all add: key_plain_def INT_MAX_def)

text \<open>A pattern whose first segment is not a wildcard matches only keys equal to the pattern: later
  wildcards have no effect.\<close>

theorem key_matching_literal_head:
  assumes "key_plain k" "key_plain (p # ps)" "\<not> seg_iswild p"
  shows "key_matches k (p # ps) \<longleftrightarrow> key_eq k (p # ps)"
  using assms by (rule key_matches_literal_head)

theorem key_matching_literal_head_witness:
  "\<not> key_matches [''etc'', ''hosts''] [''etc'', ''*'']"
proof -
  have "key_matches [''etc'', ''hosts''] [''etc'', ''*''] \<longleftrightarrow> key_eq [''etc'', ''hosts''] [''etc'', ''*'']"
    by (rule key_matching_literal_head) (simp_all add: key_plain_def INT_MAX_def seg_iswild_def)
  also have "\<not> key_eq [''etc'', ''hosts''] [''etc'', ''*'']" by code_simp
  finally show ?thesis .
qed

text \<open>A key is under a path when the path without its trailing slash is a prefix of the key,
  up to case.\<close>

theorem key_suborsame_prefix:
  assumes "key_wf a" "key_wf k"
  shows "key_suborsame a k \<longleftrightarrow> (\<exists>xs ys. k = xs @ ys \<and> map lower xs = map lower (key_trunk a))"
  using assms by (rule key_suborsame_iff)

theorem key_suborsame_prefix_witness:
  "key_suborsame [''a'', []] [''A'', ''b''] \<longleftrightarrow>
     (\<exists>xs ys. [''A'', ''b''] = xs @ ys \<and> map lower xs = map lower (key_trunk [''a'', []]))"
  by (rule key_suborsame_prefix) (simp_all add: key_wf_def)

text \<open>C4. Concatenation is undone by \<open>subkey\<close>: what is appended to a path is what
  \<open>suborsame\<close> returns below that path.\<close>

theorem key_concat_subkey:
  assumes "key_wf a" "key_wf b" "int (length a + length b) < INT_MAX"
  shows "key_suborsame_sub a (key_concat a b) = Some b"
  using assms by (rule key_suborsame_concat)

theorem key_concat_subkey_witness:
  "key_suborsame_sub [''a'', []] (key_concat [''a'', []] [''b'', ''c'']) = Some [''b'', ''c'']"
  by (rule key_concat_subkey) (simp_all add: key_wf_def INT_MAX_def)

text \<open>C5. Keys that compare as equal have the same hash.\<close>

theorem key_hash_respects_eq:
  assumes "key_cstr a" "key_cstr b" "key_eq a b"
  shows "wvhash_key a = wvhash_key b"
proof (rule wvhash_key_cong)
  show "map lower a = map lower b" using assms by (simp only: key_eq_iff)
qed

theorem key_hash_respects_eq_witness: "wvhash_key [''Foo'', ''BAR''] = wvhash_key [''fOO'', ''bar'']"
proof (rule key_hash_respects_eq)
  show "key_eq [''Foo'', ''BAR''] [''fOO'', ''bar'']" by code_simp
qed simp_all

text \<open>C6. \<open>append\<close> on the shared, reference-counted store does to the key what it says, when the store is
  shared or the key begins at its start.\<close>

theorem key_append_refines:
  assumes "uk_wf k" "uk_refs k \<noteq> 1 \<or> uk_left k = 0"
  shows "\<exists>k'. ukey_append k key = Some k' \<and> uk_wf k' \<and> uk_segs k' = key_append (uk_segs k) key"
  using assms by (rule ukey_append_eq)

theorem key_append_refines_witness:
  "\<exists>k'. ukey_append ukey_EMPTY [''a'', ''b''] = Some k' \<and> uk_wf k' \<and>
     uk_segs k' = key_append (uk_segs ukey_EMPTY) [''a'', ''b'']"
  by (rule key_append_refines)
    (simp_all add: uk_wf_def sv_wf_def ukey_EMPTY_def EMPTY_store_def)

text \<open>A key that was popped and then becomes the only owner of its store no longer begins at the
  start of it, and appending three segments to it writes outside the store.\<close>

theorem key_append_after_pop:
  "\<exists>k. popped_key = Some k \<and> uk_wf k \<and> uk_segs k = [''d''] \<and> ukey_append k [''x'', ''y'', ''z''] = None"
proof -
  obtain k where k: "popped_key = Some k" and v: "k = \<lparr>uk_store = \<lparr>sv_vec = [''a'', ''b'', ''c'', ''d''], sv_used = 4\<rparr>,
     uk_refs = 1, uk_left = 3, uk_right = 4\<rparr>" using popped_key_eq by blast
  have "uk_wf k" by (simp add: v uk_wf_def sv_wf_def)
  moreover have "uk_segs k = [''d'']" "ukey_append k [''x'', ''y'', ''z''] = None"
    unfolding v by code_simp+
  ultimately show ?thesis using k by blast
qed

section \<open>Tcl lists and string collections\<close>




text \<open>\<open>wvtcl_getword\<close> never returns a word that begins with a double quote, closed or not, although
  \<open>wvtcl_unescape\<close> takes such words: the quoted form of the documentation cannot be read.\<close>

theorem tcl_getword_quoted:
  assumes "\<forall>c \<in> set u. mask_get m c" "\<not> mask_get m (CHR 0x22)"
  shows "tcl_getword m un (u @ CHR 0x22 # s) = NoWord"
proof -
  have "dropWhile (mask_get m) (u @ CHR 0x22 # s) = CHR 0x22 # s"
    using assms by (simp add: dropWhile_append2)
  then show ?thesis by (simp add: tcl_getword_def getword_core_def Let_def split: prod.splits)
qed

theorem tcl_getword_quoted_witness:
  "tcl_getword WVTCL_SPLITCHARS True ('' '' @ CHR 0x22 # ''element 3'' @ [CHR 0x22]) = NoWord"
  by (rule tcl_getword_quoted) (simp_all add: default_masks_get WVTCL_SPLITCHARS_STR_def)

text \<open>Joining with one separator is the inverse of splitting strictly at it, with any limit.\<close>

theorem splitstrict_then_join:
  "strcoll_join (map Some (splitstrict_loop [d] limit s)) [d] = s"
  by (rule splitstrict_join)

section \<open>Strings and formats\<close>

text \<open>C9. The decimal form of an integer of any width reads back as the integer, except for the least
  value of its type.\<close>

theorem itoa_roundtrip:
  assumes "- (2 ^ (LENGTH('a) - 1)) < sint (i :: 'a::len word)"
  shows "c_atoi (string_of_signed i) = sint i"
  using assms by (rule atoi_string_of_signed)

theorem itoa_roundtrip_witness: "c_atoi (string_of_signed (- 120 :: 8 word)) = sint (- 120 :: 8 word)"
  by (rule itoa_roundtrip) simp

text \<open>The least value of a signed type is printed as a minus sign alone.\<close>

theorem itoa_least: "string_of_signed (- 2147483648 :: 32 word) = ''-''"
  by (rule string_of_min) simp




section \<open>Encoders\<close>

text \<open>C12. The Base64 encoder, run with flush and finish on a message, writes the Base64 form of the
  message as the standard defines it.  It reports success only when no padding was needed.\<close>

theorem base64_encoder_standard:
  "\<exists>e. enc_encode b64enc_vtable b64enc_new s [] True True = (e, [], b64_reference s, length s mod 3 = 0)"
  by (rule b64enc_message)

text \<open>C13. The Base64 decoder gives back any message from its standard form, appended to the output;
  it is finished exactly when it has met padding.\<close>

theorem base64_decoder_inverse:
  "\<exists>e. enc_encode b64dec_vtable b64dec_new (b64_reference s) outb True False = (e, [], outb @ s, True) \<and>
     e_okay e \<and> (e_finished e \<longleftrightarrow> length s mod 3 \<noteq> 0)"
  by (rule b64dec_message)

text \<open>The hexadecimal decoder gives back what the hexadecimal encoder has written, in upper or in
  lower case.\<close>

theorem hex_roundtrip:
  "\<exists>hex e. enc_encode hexenc_vtable (hexenc_new u) s [] True False = (hexenc_new u, [], hex, True) \<and>
     enc_encode hexdec_vtable hexdec_new hex outb True False = (e, [], outb @ s, True) \<and> e_okay e"
  using hexdec_message [of u s outb] hexenc_message [of u s "[]"] by fastforce

text \<open>The Base64 decoder does not depend on how its input is cut: if the pieces are decoded one after
  the other, so is the whole at once, with the same output and the same state.\<close>

theorem base64_decoder_pieces:
  assumes "\<forall>c \<in> set cs. c \<noteq> []" "c0 \<noteq> []"
    and "enc_feed b64dec_vtable e (c0 # cs) outb = (e', outb', True)"
  shows "enc_encode b64dec_vtable e (c0 @ concat cs) outb False False = (e', [], outb', True)"
  using assms by (rule b64dec_c.feed_concat)

theorem base64_decoder_pieces_witness:
  "enc_encode b64dec_vtable b64dec_new (''Q'' @ concat [''UJ'', ''D'']) [] False False = (b64dec_new, [], ''ABC'', True)"
proof (rule base64_decoder_pieces)
  show "enc_feed b64dec_vtable b64dec_new (''Q'' # [''UJ'', ''D'']) [] = (b64dec_new, ''ABC'', True)" by code_simp
qed simp_all

text \<open>After \<open>finish\<close> an encoder of any kind refuses: another \<open>finish\<close> and every \<open>encode\<close>
  change nothing and report failure.\<close>

theorem encoder_finished:
  assumes "enc_finish vt e outb = (e1, out1, s1)"
  shows "enc_finish vt e1 out1 = (e1, out1, False) \<and> enc_encode vt e1 inb out1 flush False = (e1, inb, out1, False)"
  using enc_finish_twice [OF assms] enc_encode_after_finish [OF assms] by simp

theorem encoder_finished_witness:
  "let (e1, out1, s1) = enc_finish b64enc_vtable b64enc_new []
   in enc_finish b64enc_vtable e1 out1 = (e1, out1, False) \<and>
      enc_encode b64enc_vtable e1 ''a'' out1 True False = (e1, ''a'', out1, False)"
  using encoder_finished [of b64enc_vtable b64enc_new "[]"] by (auto split: prod.split)



section \<open>Buffers\<close>

text \<open>C15. \<open>compact\<close> brings the used region of the circular array to its front and keeps its bytes in order,
  in each of its four cases.\<close>

theorem compact_correct:
  assumes "length data = xsize" "head < xsize" "cnt \<le> xsize"
  shows "length (compact data xsize head cnt) = xsize \<and>
    take cnt (compact data xsize head cnt) = map (\<lambda>j. data ! ((head + j) mod xsize)) [0..<cnt]"
  using compact_length_front [OF assms] assms by (simp add: cyc_def)

theorem compact_correct_witness:
  "length (compact ''efgXabcd'' 8 4 7) = 8 \<and>
     take 7 (compact ''efgXabcd'' 8 4 7) = map (\<lambda>j. ''efgXabcd'' ! ((4 + j) mod 8)) [0..<7]"
  by (rule compact_correct) simp_all

text \<open>C16. The circular store is a queue: in every run of puts, gets, put-backs and searches from an empty
  store, the bytes put in are the bytes taken out followed by those still inside.\<close>

theorem circular_fifo:
  assumes "(buf_step circ_vtable)\<^sup>*\<^sup>* (s, [], []) (s', sent, got)" "cb_wf s" "cb_cont s = []"
  shows "cb_wf s' \<and> sent = got @ cb_cont s'"
  using circ_c.run_fifo [OF assms(1)] assms(2,3) by simp

theorem circular_fifo_witness:
  "let s = \<lparr>cb_data = replicate 4 NUL, cb_xsize = 4, cb_head = 3, cb_totalused = 0, cb_totalinit = 0,
            cb_autofree = True\<rparr>;
       s' = the (buf_put circ_vtable ''abc'' s)
   in cb_wf s' \<and> ''abc'' = [] @ cb_cont s'"
proof -
  define s where "s = \<lparr>cb_data = replicate 4 NUL, cb_xsize = 4, cb_head = 3, cb_totalused = 0, cb_totalinit = 0,
            cb_autofree = True\<rparr>"
  have w: "cb_wf s" "cb_cont s = []" by (simp_all add: s_def cb_wf_def cb_cont_def cyc_def)
  have f: "length ''abc'' \<le> b_free circ_vtable s" by (simp add: s_def circ_vtable_def cb_free_def)
  obtain s' where s': "buf_put circ_vtable ''abc'' s = Some s'" using circ_c.put_spec [OF w(1) f] by blast
  then have "buf_step circ_vtable (s, [], []) (s', [] @ ''abc'', [])" by (rule buf_step.step_put [OF f])
  then have "(buf_step circ_vtable)\<^sup>*\<^sup>* (s, [], []) (s', ''abc'', [])" by auto
  from circular_fifo [OF this w] show ?thesis using s' by (simp add: s_def)
qed

text \<open>C17. Merging moves bytes from the front of one circular store to the end of another and loses none.\<close>

theorem circular_merge:
  assumes "cb_wf s" "cb_wf t" "cnt \<le> length (cb_cont t)" "cnt \<le> cb_free s"
  shows "\<exists>s' t'. basicmerge circ_vtable circ_vtable cnt s t = Some (s', t') \<and> cb_wf s' \<and> cb_wf t' \<and>
    cb_cont s' = cb_cont s @ take cnt (cb_cont t) \<and> cb_cont t' = drop cnt (cb_cont t)"
  using circ_merge.basicmerge_spec [of s t cnt] assms by (simp add: circ_vtable_def)

theorem circular_merge_witness:
  "let s = \<lparr>cb_data = ''bXXa'', cb_xsize = 4, cb_head = 3, cb_totalused = 2, cb_totalinit = 2, cb_autofree = True\<rparr>;
       t = \<lparr>cb_data = ''dXc'', cb_xsize = 3, cb_head = 2, cb_totalused = 2, cb_totalinit = 2, cb_autofree = True\<rparr>
   in \<exists>s' t'. basicmerge circ_vtable circ_vtable 2 s t = Some (s', t') \<and> cb_wf s' \<and> cb_wf t' \<and>
        cb_cont s' = cb_cont s @ take 2 (cb_cont t) \<and> cb_cont t' = drop 2 (cb_cont t)"
  unfolding Let_def by (rule circular_merge) (simp_all add: cb_wf_def cb_cont_def cb_free_def)

text \<open>A search for the first byte outside of a list, in a circular store: when every byte is in the list
  the result is 0, as if none were, and not the number of matching bytes.\<close>

theorem buffer_match:
  assumes "cb_wf s"
  shows "\<exists>s'. wvbuf_match circ_vtable l False s =
    Some (s', case find_index (\<lambda>c. c \<notin> set l) (cb_cont s) of Some i \<Rightarrow> i | None \<Rightarrow> 0) \<and> cb_cont s' = cb_cont s"
  using circ_c.match_spec [OF assms, of l False] by auto

theorem buffer_match_witness:
  "let s = \<lparr>cb_data = ''bXXa'', cb_xsize = 4, cb_head = 3, cb_totalused = 2, cb_totalinit = 2, cb_autofree = True\<rparr>
   in map_option snd (wvbuf_match circ_vtable ''ab'' False s) = Some 0"
proof -
  define s where "s = \<lparr>cb_data = ''bXXa'', cb_xsize = 4, cb_head = 3, cb_totalused = 2, cb_totalinit = 2,
    cb_autofree = True\<rparr>"
  have "cb_wf s" by (simp add: s_def cb_wf_def)
  moreover have "cb_cont s = ''ab''" unfolding s_def by code_simp
  ultimately show ?thesis using buffer_match [of s "''ab''"] by (auto simp: s_def)
qed

text \<open>A cursor that does not start at the beginning of its buffer: a byte that \<open>get\<close> returns cannot be
  peeked at, since \<open>peek\<close> compares the offset in the cursor with the start of the window.\<close>

theorem cursor_peek_window:
  "let c = cu_new digits_store 2 5
   in map_option snd (cu_get inplace_vtable 1 c) = Some ''2'' \<and>
      cu_optpeekable inplace_vtable 0 c = Some 0 \<and> cu_peek inplace_vtable 0 1 c = None"
  by (rule cursor_peek_start)


section \<open>The tree of UniConf and its generators\<close>

text \<open>C18. With any of the first sixteen table sizes and any 32-bit hash, the second hash visits every slot,
  although the probe is reduced twice: a search that is not stopped reaches each slot.\<close>

theorem hash_probe_covers:
  assumes "i \<le> 15" "s < prime_numbers ! i"
  shows "\<exists>a. curhash h (second_hash h (prime_numbers ! i)) a (prime_numbers ! i) = s"
  using curhash_reaches [OF primes_ok [OF assms(1)] assms(2)] .

theorem hash_probe_covers_witness: "\<exists>a. curhash 7 (second_hash 7 5) a 5 = 4"
  using hash_probe_covers [of 1 4 7] by (simp add: prime_numbers_def)

text \<open>C19. Adding to a hash table returns, keeps the table searchable within its load factor, and adds
  exactly the element, also when the table is rebuilt on the way.\<close>

theorem hash_add:
  assumes "sh_inv hash_of t" "sh_num t < 26000"
  shows "\<exists>t'. sh_add hash_of x f t = Some t' \<and> sh_inv hash_of t' \<and> sh_num t' = sh_num t + 1 \<and>
    mset (sh_elems t') = add_mset x (mset (sh_elems t))"
  using assms by (rule sh_add_spec)

theorem hash_add_witness:
  "\<exists>t t'. sh_new 0 = Some t \<and> sh_add (\<lambda>n. n) (7 :: nat) True t = Some t' \<and> mset (sh_elems t') = {#7#}"
proof -
  obtain t where t: "sh_new 0 = Some t" "sh_inv (\<lambda>n :: nat. n) t" "sh_elems t = []" using sh_new_spec by blast
  then have "sh_num t = 0" by (auto simp: sh_inv_def sh_core_def sh_elems_def)
  with hash_add [OF t(2), of 7 True] t show ?thesis by auto
qed



text \<open>C21. Setting a key to null removes it and all below it, and leaves every other key as it is, also when
  the key is written with a trailing slash.\<close>

theorem temp_remove:
  assumes "tg_valid n g" "n < 26000" "key_ok INT_MAX k" "key_ok INT_MAX j"
  shows "\<exists>g'. tg_set k None g = Some g' \<and> tg_valid (Suc n) g' \<and>
    tg_get j g' = (if prefix (key_path k) (key_path j) then Some None else tg_get j g)"
  using tg_c.get_after_remove [of n g k j] assms by (simp add: tg_ops_def cong: if_cong)

theorem temp_remove_witness:
  "\<exists>g'. tg_set [''a'', []] None tg_new = Some g' \<and> tg_get [''a'', ''b''] g' = Some None"
proof -
  have "prefix (key_path [''a'', []]) (key_path [''a'', ''b''])" by code_simp
  moreover have "key_ok INT_MAX [''a'', []]" "key_ok INT_MAX [''a'', ''b'']" by (simp_all add: key_ok_def INT_MAX_def)
  ultimately show ?thesis
    using temp_remove [OF tg_valid_new(1) [of 0], of "[''a'', []]" "[''a'', ''b'']"] by auto
qed

text \<open>C22. A callback that keeps its own copy of the keys is told enough: after any series of changes, the
  notifications it got, applied to the old contents one by one, give the new contents.\<close>

theorem temp_listener:
  assumes "tg_valid n g" "n + length pairs \<le> 26000" "c \<in> set (gen_cblist g)"
    "list_all (\<lambda>(k, v). key_ok INT_MAX k \<and> (v \<noteq> None \<longrightarrow> val_ok v)) pairs"
  shows "\<exists>g' ds. tg_setv pairs g = Some g' \<and> tg_valid (n + length pairs) g' \<and>
    sent_to c (gen_sent g') = sent_to c (gen_sent g) @ ds \<and>
    foldl key_note (tg_contents g) ds = tg_contents g'"
proof -
  have "\<forall>(k, v) \<in> set pairs. key_ok INT_MAX k \<and> (v = None \<or> val_ok v)"
    using assms(4) by (auto simp: list_all_iff)
  from tg_c.setv_listener [OF assms(1,2) this, of c] assms(3)
  show ?thesis unfolding tg_setv_def by (auto simp: tg_ops_def)
qed

theorem temp_listener_witness:
  "\<exists>g g' ds. add_callback 1 tg_new = Some g \<and>
     tg_setv [([''a'', ''b''], Some ''x''), ([''a''], None)] g = Some g' \<and>
     sent_to 1 (gen_sent g') = ds \<and> foldl key_note (\<lambda>_. None) ds = tg_contents g'"
proof -
  define g where "g = tg_new\<lparr>gen_cblist := [1]\<rparr>"
  have g: "tg_valid 0 g" "tg_contents g = (\<lambda>_. None)" "gen_sent g = []" "gen_cblist g = [1]"
    by (simp_all add: g_def tg_new_def gen_new_def gen.defs tg_valid_def tg_contents_def)
  have "add_callback 1 tg_new = Some g"
    by (simp add: g_def add_callback_def cb_add_def tg_new_def gen_new_def gen.defs)
  moreover have l: "list_all (\<lambda>(k, v). key_ok INT_MAX k \<and> (v \<noteq> None \<longrightarrow> val_ok v))
      [([''a'', ''b''], Some ''x''), ([''a''], None)]"
    by (simp add: key_ok_def INT_MAX_def val_ok_def)
  ultimately show ?thesis
    using temp_listener [OF g(1) _ _ l, of 1] g by (auto simp: sent_to_def)
qed



text \<open>A read-only generator in front of one in memory: \<open>set\<close> does nothing, but \<open>setv\<close> is inherited from
  the filter and writes.\<close>

theorem readonly_setv_writes:
  assumes "fg_valid tg_ops tg_valid this n g" "n < 26000" "key_ok INT_MAX k" "val_ok v" "\<not> key_hastrailingslash k"
  shows "ig_set (ro_ops tg_ops this) k v g = Some g \<and>
    (\<exists>g' i'. ig_setv (ro_ops tg_ops this) [(k, v)] g = Some g' \<and> fg_inner g' = Some i' \<and>
       tg_contents i' (key_path k) = v)"
proof -
  obtain i where i: "fg_inner g = Some i" using assms(1) by (auto simp: fg_valid_def)
  obtain g' i' where "fg_setv tg_ops keymap_default this [(k, v)] g = Some g'" "fg_inner g' = Some i'"
    "tg_contents i' = update_spec k v (tg_contents i)"
    using fg_setv_inner [OF assms(1) i, of "[(k, v)]" keymap_default] assms(2-4) by auto
  moreover from this have "tg_contents i' (key_path k) = v"
    using assms(5) val_ok_Some [OF assms(4)] by (auto simp: update_spec_def set_spec_def)
  ultimately show ?thesis by (simp add: ro_ops_def ro_set_def fg_ops_def)
qed

theorem readonly_setv_writes_witness:
  "\<exists>g g' i'. fg_new tg_ops 7 (Some tg_new) = Some g \<and>
     ig_setv (ro_ops tg_ops 7) [([''a''], Some ''x'')] g = Some g' \<and> fg_inner g' = Some i' \<and>
     tg_contents i' [''a''] = Some ''x''"
proof -
  obtain g where g: "fg_new tg_ops 7 (Some tg_new) = Some g" "fg_valid tg_ops tg_valid 7 0 g"
    using fg_new_spec [OF tg_c.uni_gen_axioms tg_valid_new(1) [of 0], of 7 "[]"]
    by (auto simp: tg_ops_def tg_new_def gen_new_def gen.defs sent_to_def)
  have "key_path [''a''] = [''a'']" by code_simp
  moreover have "key_ok INT_MAX [''a'']" "val_ok (Some ''x'')" by (simp_all add: key_ok_def INT_MAX_def val_ok_def)
  ultimately show ?thesis
    using readonly_setv_writes [OF g(2), of "[''a'']" "Some ''x''"] g(1) by (auto simp: key_hastrailingslash_def)
qed

text \<open>C24. The growing buffer is a queue: in every run of puts, gets, put-backs and searches from a new one, the
  bytes put in are the bytes taken out followed by those still inside, and the count is that of its buffers.\<close>

theorem dynbuf_fifo:
  assumes "(buf_step (dynbuf_vtable minalloc maxalloc))\<^sup>*\<^sup>* (lb_new, [], []) (s', sent, got)"
  shows "dyn_wf s' \<and> sent = got @ dyn_cont s'"
  using dynbuf.dyn.run_fifo [of minalloc maxalloc, OF assms [unfolded dynbuf_vtable_def]] dynbuf.lwf_new
  by (simp add: dyn_abs)

theorem dynbuf_fifo_witness:
  "let s' = the (buf_put (dynbuf_vtable 4 4) ''abc'' lb_new)
   in dyn_wf s' \<and> ''abc'' = [] @ dyn_cont s'"
proof -
  have f: "length ''abc'' \<le> b_free (dynbuf_vtable 4 4) lb_new"
    by (simp add: dynbuf_vtable_def dyn_vtable_def dyn_free_def unlimited_free_space_def)
  obtain s' where s': "buf_put (dynbuf_vtable 4 4) ''abc'' lb_new = Some s'"
    using dynbuf.dyn.put_spec [of lb_new "''abc''" 4 4] f dynbuf.lwf_new by (auto simp: dynbuf_vtable_def)
  then have "buf_step (dynbuf_vtable 4 4) (lb_new, [], []) (s', [] @ ''abc'', [])" by (rule buf_step.step_put [OF f])
  then have "(buf_step (dynbuf_vtable 4 4))\<^sup>*\<^sup>* (lb_new, [], []) (s', ''abc'', [])" by auto
  from dynbuf_fifo [OF this] show ?thesis using s' by simp
qed

text \<open>C25. Merging two growing buffers hands over whole sub-buffers and copies the rest: any number of bytes up to
  all moves from the front of one to the end of the other, and none is lost.\<close>

theorem dynbuf_merge:
  assumes "dyn_wf s" "dyn_wf t" "n \<le> length (dyn_cont t)" "n \<le> unlimited_free_space"
  shows "\<exists>s' t'. lb_merge circ_vtable (dynbuf_vtable minalloc maxalloc) n s t = Some (s', t') \<and> dyn_wf s' \<and> dyn_wf t' \<and>
    dyn_cont s' = dyn_cont s @ take n (dyn_cont t) \<and> dyn_cont t' = drop n (dyn_cont t)"
  using dynbuf.lmerge_spec [of s t n minalloc maxalloc] assms by (simp add: dyn_abs)

theorem dynbuf_merge_witness:
  "let b = \<lparr>cb_data = ''bXXa'', cb_xsize = 4, cb_head = 3, cb_totalused = 2, cb_totalinit = 2, cb_autofree = True\<rparr>;
       t = \<lparr>lb_list = [(b, True), (b, True)], lb_totalused = 4, lb_maxungettable = 0\<rparr>
   in \<exists>s' t'. lb_merge circ_vtable (dynbuf_vtable 4 4) 3 lb_new t = Some (s', t') \<and> dyn_wf s' \<and> dyn_wf t' \<and>
        dyn_cont s' = dyn_cont lb_new @ take 3 (dyn_cont t) \<and> dyn_cont t' = drop 3 (dyn_cont t)"
  unfolding Let_def
  by (rule dynbuf_merge) (simp_all add: dyn_wf_def dyn_cont_def cb_wf_def cb_cont_def lb_new_def unlimited_free_space_def)

text \<open>Peeking at a growing buffer with an offset: when the first sub-buffer holds as many bytes as are
  wanted, it alone is asked for them, although they reach behind its end.\<close>

theorem dynbuf_peek_across:
  assumes "dyn_wf s" "lb_list s = (b, af) # r" "0 < off" "off < cb_used b" "n \<le> cb_used b" "0 < n"
  shows "b_peek (dynbuf_vtable minalloc maxalloc) (int off) n s =
    map_option (\<lambda>(b', bs). (lb_set 0 b' s, bs)) (cb_peek (int off) n b)"
  using dynbuf.lpeek_across [of s b af r off n minalloc maxalloc] assms
  by (simp add: dyn_abs dyn_vtable_def circ_vtable_def cb_cont_def cb_used_def)

theorem dynbuf_peek_across_witness:
  "let a = \<lparr>cb_data = ''abcd'', cb_xsize = 4, cb_head = 0, cb_totalused = 4, cb_totalinit = 4, cb_autofree = True\<rparr>;
       b = \<lparr>cb_data = ''efgh'', cb_xsize = 4, cb_head = 0, cb_totalused = 4, cb_totalinit = 4, cb_autofree = True\<rparr>;
       s = \<lparr>lb_list = [(a, True), (b, True)], lb_totalused = 8, lb_maxungettable = 0\<rparr>
   in map_option snd (b_peek (dynbuf_vtable 4 4) 3 2 s) = Some ''d'' \<and> take 2 (drop 3 (dyn_cont s)) = ''de''"
proof -
  define a where "a = \<lparr>cb_data = ''abcd'', cb_xsize = 4, cb_head = 0, cb_totalused = 4, cb_totalinit = 4, cb_autofree = True\<rparr>"
  define b where "b = \<lparr>cb_data = ''efgh'', cb_xsize = 4, cb_head = 0, cb_totalused = 4, cb_totalinit = 4, cb_autofree = True\<rparr>"
  define s where "s = \<lparr>lb_list = [(a, True), (b, True)], lb_totalused = 8, lb_maxungettable = 0\<rparr>"
  have c: "dyn_cont s = ''abcdefgh''" unfolding s_def a_def b_def by code_simp
  have "dyn_wf s" unfolding dyn_wf_def c by (simp add: s_def a_def b_def cb_wf_def)
  then have "b_peek (dynbuf_vtable 4 4) (int 3) 2 s = map_option (\<lambda>(b', bs). (lb_set 0 b' s, bs)) (cb_peek (int 3) 2 a)"
    by (rule dynbuf_peek_across) (simp_all add: s_def a_def cb_used_def)
  moreover have "map_option snd (cb_peek 3 2 a) = Some ''d''" unfolding a_def by code_simp
  ultimately have "map_option snd (b_peek (dynbuf_vtable 4 4) 3 2 s) = Some ''d''" by (auto simp: map_option.compositionality comp_def case_prod_beta)
  then show ?thesis using c by (simp add: s_def a_def b_def)
qed

text \<open>C26. The recursive iterator of a generator in memory ends after enough steps, and has met every key below
  its base exactly once, with its value.\<close>

theorem recursive_iteration:
  assumes "tg_valid n g" "key_ok INT_MAX k" "depth_below (key_path k) d (tg_contents g)" "int (length k + d) < INT_MAX"
  shows "\<exists>l. (\<forall>m > length l. ri_all m tg_ops k g = Some l) \<and> distinct (map (\<lambda>d. map lower (fst d)) l) \<and>
    (\<lambda>d. (map lower (fst d), snd d)) ` set l = {(q, w). q \<noteq> [] \<and> tg_contents g (key_path k @ q) = w \<and> w \<noteq> None}"
  using tg_walk [OF assms] by blast

theorem recursive_iteration_witness:
  "\<exists>g l. tg_set [''a'', ''b''] (Some ''x'') tg_new = Some g \<and>
     (\<forall>m > length l. ri_all m tg_ops [] g = Some l) \<and>
     (\<lambda>d. (map lower (fst d), snd d)) ` set l = {([''a''], Some []), ([''a'', ''b''], Some ''x'')}"
proof -
  have k: "key_ok INT_MAX [''a'', ''b'']" "val_ok (Some ''x'')" "key_ok INT_MAX []"
    by (simp_all add: key_ok_def INT_MAX_def val_ok_def)
  obtain g where g: "tg_set [''a'', ''b''] (Some ''x'') tg_new = Some g" "tg_valid 1 g"
    "tg_contents g = update_spec [''a'', ''b''] (Some ''x'') (\<lambda>_. None)"
    using tg_set_spec [OF tg_valid_new(1) [of 0], of "[''a'', ''b'']" "Some ''x''"] k tg_valid_new(2) by auto
  have p: "key_path [''a'', ''b''] = [''a'', ''b'']" "key_path [] = []" by code_simp+
  have M: "tg_contents g q = (if q = [''a'', ''b''] then Some ''x'' else if q = [] \<or> q = [''a''] then Some [] else None)" for q
    by (auto simp: g(3) update_spec_def set_spec_def p key_hastrailingslash_def strict_prefix_def prefix_def append_eq_Cons_conv Cons_eq_append_conv)
  have d: "depth_below (key_path []) 2 (tg_contents g)" by (auto simp: depth_below_def M p)
  have b: "int (length ([] :: key) + 2) < INT_MAX" by (simp add: INT_MAX_def)
  have "{(q, w). q \<noteq> [] \<and> tg_contents g (key_path [] @ q) = w \<and> w \<noteq> None} = {([''a''], Some []), ([''a'', ''b''], Some ''x'')}"
    by (auto simp: M p split: if_splits)
  then show ?thesis using recursive_iteration [OF g(2) k(3) d b] g(1) by auto
qed

text \<open>C27. A cache that agrees with the generator behind it still does after a change through it: every key is
  read as the inner generator would be, and listeners of the cache are told the whole difference.\<close>

theorem cache_follows:
  assumes "cg_valid tg_ops tg_valid this n m g" "cg_coherent tg_contents g" "n < 26000" "key_ok INT_MAX k" "key_ok INT_MAX j"
    "v = None \<or> val_ok v" "tg_set k v (the (cg_inner g)) = Some i'" "m + length (sent_to this (gen_sent i')) \<le> 26000"
  shows "\<exists>g' es. cg_set tg_ops this k v g = Some g' \<and> cg_coherent tg_contents g' \<and>
    cg_get j g' = tg_get j i' \<and> gen_sent g' = gen_sent g @ sent_list (gen_cblist g) es \<and>
    foldl key_note (tg_contents g) es = tg_contents g'"
proof -
  obtain g' es where g': "cg_set tg_ops this k v g = Some g'"
    "cg_valid tg_ops tg_valid this (Suc n) (m + length (sent_to this (gen_sent i'))) g'" "cg_coherent tg_contents g'"
    "gen_sent g' = gen_sent g @ sent_list (gen_cblist g) es" "foldl key_note (tg_contents g) es = tg_contents g'"
    "cg_inner g' = Some (gen_forget this i')"
    using cg_set_spec [OF tg_c.uni_gen_axioms order_refl assms(1-4,6), of i'] assms(7,8) by (auto simp: tg_ops_def)
  have "cg_get j g' = ig_get tg_ops j (the (cg_inner g'))"
    by (rule cg_get_inner [OF tg_c.uni_gen_axioms order_refl g'(2,3) assms(5)])
  also have "\<dots> = tg_get j i'" using g'(6) by (simp add: tg_ops_def gen_forget_def tg_get_def)
  finally show ?thesis using g' by blast
qed

theorem cache_follows_witness:
  "\<exists>g g'. cg_new tg_ops 7 (Some tg_new) = Some g \<and> cg_set tg_ops 7 [] (Some ''x'') g = Some g' \<and>
     cg_get [] g' = Some (Some ''x'')"
proof -
  obtain i where i: "ig_add_callback tg_ops 7 tg_new = Some i" "tg_valid 0 i" "tg_contents i = (\<lambda>_. None)"
    "gen_cblist i = [7]" "gen_sent i = []" "i = tg_new\<lparr>gen_cblist := [7]\<rparr>"
    by (simp add: tg_ops_def add_callback_def cb_add_def tg_new_def gen_new_def gen.defs tg_valid_def tg_contents_def)
  define g where "g = tempgen.extend tg_new \<lparr>cg_inner = Some i, cg_refreshed_once = False\<rparr>"
  have g: "cg_new tg_ops 7 (Some tg_new) = Some g" using i(1) by (simp add: cg_new_def g_def)
  have v: "cg_valid tg_ops tg_valid 7 0 0 g" "cg_coherent tg_contents g" "the (cg_inner g) = i"
    using i(2-5) by (simp_all add: cg_valid_def cg_coherent_def g_def tempgen.defs tg_new_def gen_new_def gen.defs tg_valid_def
        tg_contents_def tg_ops_def sent_to_def)
  obtain i' where i': "tg_set [] (Some ''x'') i = Some i'" "length (sent_to 7 (gen_sent i')) \<le> 1" "tg_get [] i' = Some (Some ''x'')"
  proof -
    have "map_option (\<lambda>i'. (length (sent_to 7 (gen_sent i')), tg_get [] i')) (tg_set [] (Some ''x'') (tg_new\<lparr>gen_cblist := [7]\<rparr>)) =
        Some (1, Some (Some ''x''))" by code_simp
    then show thesis using that i(6) by auto
  qed
  have k: "key_ok INT_MAX []" "val_ok (Some ''x'')" by (simp_all add: key_ok_def INT_MAX_def val_ok_def)
  show ?thesis using cache_follows [OF v(1,2), of "[]" "[]" "Some ''x''" i'] k i' v(3) g by auto
qed

text \<open>C28. The first refresh of a cache: keys with text, and what is above them, are loaded with their values; an
  empty value with no text below is not, and the value of the root is not.\<close>

theorem cache_load_empty:
  assumes "cg_valid tg_ops tg_valid this n m g" "tg_contents g = (\<lambda>_. None)" "\<not> cg_refreshed_once g" "cg_inner g = Some i"
    "depth_below [] d (tg_contents i)" "int d < INT_MAX" "finite {q. tg_contents i q \<noteq> None}"
    "card {q. tg_contents i q \<noteq> None} < fuel" "m + card {q. tg_contents i q \<noteq> None} \<le> 26000"
  shows "\<exists>g'. cg_refresh tg_ops (default_rec fuel tg_ops) this g = Some (True, g') \<and>
    tg_contents g' = cache_loaded (tg_contents i)"
  by (rule cg_refresh_spec [OF assms])

theorem cache_load_empty_witness:
  "\<exists>i g g'. tg_set [] (Some ''x'') tg_new = Some i \<and> cg_new tg_ops 7 (Some i) = Some g \<and>
     cg_refresh tg_ops (default_rec 5 tg_ops) 7 g = Some (True, g') \<and>
     tg_get [] i = Some (Some ''x'') \<and> tg_contents g' [] = None"
proof -
  have k: "key_ok INT_MAX []" "val_ok (Some ''x'')" by (simp_all add: key_ok_def INT_MAX_def val_ok_def)
  obtain i where i: "tg_set [] (Some ''x'') tg_new = Some i" "tg_valid 1 i" "gen_cblist i = []" "gen_sent i = []"
    "tg_contents i = update_spec [] (Some ''x'') (\<lambda>_. None)"
    using tg_set_spec [OF tg_valid_new(1) [of 0], of "[]" "Some ''x''"] k tg_valid_new(2)
    by (auto simp: tg_new_def gen_new_def gen.defs sent_list_def)
  have p: "key_path [] = []" by code_simp
  have M: "tg_contents i = (\<lambda>q. if q = [] then Some ''x'' else None)"
    by (auto simp: i(5) update_spec_def set_spec_def p key_hastrailingslash_def fun_eq_iff)
  obtain i1 where i1: "ig_add_callback tg_ops 7 i = Some i1" "tg_valid 1 i1" "tg_contents i1 = tg_contents i" "gen_cblist i1 = [7]"
    "gen_sent i1 = []"
    using i(2-4) by (simp add: tg_ops_def add_callback_def cb_add_def tg_valid_def tg_contents_def)
  define g where "g = tempgen.extend tg_new \<lparr>cg_inner = Some i1, cg_refreshed_once = False\<rparr>"
  have g: "cg_new tg_ops 7 (Some i) = Some g" using i1(1) by (simp add: cg_new_def g_def)
  have v: "cg_valid tg_ops tg_valid 7 1 0 g" "tg_contents g = (\<lambda>_. None)" "\<not> cg_refreshed_once g" "cg_inner g = Some i1"
    using i1 by (simp_all add: cg_valid_def g_def tempgen.defs tg_new_def gen_new_def gen.defs tg_valid_def
        tg_contents_def tg_ops_def sent_to_def)
  have S: "{q. tg_contents i1 q \<noteq> None} = {[]}" by (auto simp: i1(3) M)
  have "\<exists>g'. cg_refresh tg_ops (default_rec 5 tg_ops) 7 g = Some (True, g') \<and> tg_contents g' = cache_loaded (tg_contents i1)"
    by (rule cache_load_empty [OF v, of 0]) (simp_all add: S depth_below_def i1(3) M INT_MAX_def)
  then show ?thesis using i(1) g tg_get_spec [OF i(2) k(1)]
    by (auto simp: cache_loaded_def has_text_below_def i1(3) M get_spec_def p key_hastrailingslash_def)
qed



text \<open>C30. With the ways to its mounts made, a tree of mounted generators answers like one tree: after a value is
  set under some mount, reading, the test for a key and the test for children see that value in the merged
  contents, across the borders of the mounts.\<close>

theorem mount_tree:
  assumes "mg_valid tg_ops tg_valid this n g" "mounts_made tg_contents (mg_mounts g)" "n < 26000"
    "plain_key k" "plain_key j" "val_ok v" "mount_of (map lower k) (mg_mounts g) \<noteq> None"
  shows "\<exists>g'. mg_set tg_ops this k v g = Some g' \<and> mounts_made tg_contents (mg_mounts g') \<and>
    mg_get tg_ops j g' = Some (set_spec (map lower k) v (mg_contents tg_contents g) (map lower j)) \<and>
    mg_exists tg_ops j g' = Some (set_spec (map lower k) v (mg_contents tg_contents g) (map lower j) \<noteq> None) \<and>
    mg_haschildren tg_ops j g' = Some (haschildren_spec j (set_spec (map lower k) v (mg_contents tg_contents g)))"
proof -
  have ok: "mounts_ok tg_ops tg_valid this n (mg_mounts g)" "0 \<le> gen_hold g" using assms(1) by (simp_all add: mg_valid_def)
  have l: "int (length k) \<le> INT_MAX" "int (length j) \<le> INT_MAX" using assms(4,5) by (simp_all add: plain_key_def)
  obtain g' where g': "mg_set tg_ops this k v g = Some g'" "mounts_ok tg_ops tg_valid this (Suc n) (mg_mounts g')"
    "mounts_made tg_contents (mg_mounts g')"
    "\<forall>q. mg_contents tg_contents g' q = set_spec (map lower k) v (mg_contents tg_contents g) q"
    using tg_c.mg_set_value [OF ok(1) assms(2) ok(2) assms(3,4) l(1) assms(6)] assms(7) by (cases "mount_of (map lower k) (mg_mounts g)") auto
  have "mg_contents tg_contents g' = set_spec (map lower k) v (mg_contents tg_contents g)" using g'(4) by (simp add: fun_eq_iff)
  then show ?thesis
    using g'(1,3) tg_c.mg_get_spec [OF g'(2) assms(5) l(2)] tg_c.mg_exists_made [OF g'(2,3) assms(5) l(2)]
      tg_c.mg_haschildren_spec [OF g'(2,3) assms(5) l(2)] by simp
qed

theorem mount_tree_witness:
  "\<exists>g g'. mg_mountgen tg_ops 7 [''a''] 1 tg_new False mg_new = Some g \<and>
     mg_set tg_ops 7 [''a'', ''b''] (Some ''x'') g = Some g' \<and> mg_get tg_ops [''a'', ''b''] g' = Some (Some ''x'')"
proof -
  have p: "plain_key [''a'']" "plain_key [''a'', ''b'']" by (simp_all add: plain_key_def plain_segs_def INT_MAX_def)
  have s: "gen_cblist tg_new = []" "gen_sent tg_new = []" by (simp_all add: tg_new_def gen_new_def gen.defs)
  have v: "mounts_made tg_contents (mg_mounts (mg_new :: tempgen mountgen))" by (rule mg_valid_new)
  obtain g where g: "mg_mountgen tg_ops 7 [''a''] 1 tg_new False mg_new = Some g" "mg_valid tg_ops tg_valid 7 3 g"
    "mounts_made tg_contents (mg_mounts g)" "places (mg_mounts g) = [(1, [''a''])]"
    using tg_mountgen_spec [OF mg_valid_new(1) [of tg_ops tg_valid 7] v, of "[''a'']" tg_new 1] p s tg_valid_new(1) [of 0]
    by (auto simp: sent_to_def numeral_3_eq_3)
  have "mount_of (map lower [''a'', ''b'']) (mg_mounts g) \<noteq> None"
    using g(4) by (cases "mg_mounts g") (auto simp: strict_prefix_def)
  moreover have "val_ok (Some ''x'')" by (simp add: val_ok_def)
  ultimately obtain g' where "mg_set tg_ops 7 [''a'', ''b''] (Some ''x'') g = Some g'" "mg_get tg_ops [''a'', ''b''] g' =
      Some (set_spec (map lower [''a'', ''b'']) (Some ''x'') (mg_contents tg_contents g) (map lower [''a'', ''b'']))"
    using mount_tree [OF g(2,3) _ p(2) p(2)] by (auto simp: INT_MAX_def)
  then show ?thesis using g(1) by (auto simp: set_spec_def)
qed

text \<open>C31. What is mounted shows at its mount point, which has a value from then on; keys that lead there and were
  missing exist with an empty value, and every other key is read as before. The ways to all mounts are made
  again.\<close>

theorem mount_contents:
  assumes "mg_valid tg_ops tg_valid this n g" "mounts_made tg_contents (mg_mounts g)" "n + length k < 25999" "plain_key k"
    "tg_valid n i" "this \<notin> set (gen_cblist i)" "sent_to this (gen_sent i) = []" "ident \<notin> set (map gm_id (mg_mounts g))"
  shows "\<exists>g'. mg_mountgen tg_ops this k ident i False g = Some g' \<and> mg_valid tg_ops tg_valid this (n + length k + 2) g' \<and>
    mounts_made tg_contents (mg_mounts g') \<and>
    (\<forall>j. plain_key j \<longrightarrow> mg_get tg_ops j g' = Some (mount_spec (map lower k) (tg_contents i) (mg_contents tg_contents g) (map lower j)))"
  using tg_mountgen_spec [OF assms] tg_mount_get by (metis (no_types, lifting))

theorem mount_contents_witness:
  "\<exists>t g. tg_set [] (Some ''x'') tg_new = Some t \<and>
     mg_mountgen tg_ops 7 [''a'', ''b''] 1 t False mg_new = Some g \<and>
     mg_get tg_ops [''a'', ''b''] g = Some (Some ''x'') \<and> mg_get tg_ops [''a''] g = Some (Some []) \<and>
     mg_get tg_ops [''c''] g = Some None"
proof -
  have k: "key_ok INT_MAX []" "val_ok (Some ''x'')" by (simp_all add: key_ok_def INT_MAX_def val_ok_def)
  have p: "plain_key [''a'', ''b'']" "plain_key [''a'']" "plain_key [''c'']" by (simp_all add: plain_key_def plain_segs_def INT_MAX_def)
  obtain t where t: "tg_set [] (Some ''x'') tg_new = Some t" "tg_valid 1 t" "gen_cblist t = []" "gen_sent t = []"
    "tg_contents t = update_spec [] (Some ''x'') (\<lambda>_. None)"
    using tg_set_spec [OF tg_valid_new(1) [of 0], of "[]" "Some ''x''"] k tg_valid_new(2)
    by (auto simp: tg_new_def gen_new_def gen.defs sent_list_def)
  have v: "mg_valid tg_ops tg_valid 7 1 (mg_new :: tempgen mountgen)" "mounts_made tg_contents (mg_mounts (mg_new :: tempgen mountgen))"
    using mg_valid_new(1) [of tg_ops tg_valid 7] by (auto simp: mg_valid_def mounts_ok_def mounts_made_def)
  obtain g where g: "mg_mountgen tg_ops 7 [''a'', ''b''] 1 t False mg_new = Some g"
    "\<forall>j. plain_key j \<longrightarrow> mg_get tg_ops j g =
       Some (mount_spec (map lower [''a'', ''b'']) (tg_contents t) (mg_contents tg_contents (mg_new :: tempgen mountgen)) (map lower j))"
    using mount_contents [OF v, of "[''a'', ''b'']" t 1] p t by (auto simp: sent_to_def)
  have l: "c_tolower CHR ''a'' = CHR ''a''" "c_tolower CHR ''b'' = CHR ''b''" "c_tolower CHR ''c'' = CHR ''c''" by code_simp+
  have M: "mounts_contents tg_contents [] q = None" for q by (simp add: mounts_contents_def)
  have C: "tg_contents t [] = Some ''x''" by (simp add: t(5) update_spec_def set_spec_def key_path_def nonempty_segs_def key_hastrailingslash_def)
  show ?thesis using t(1) g p by (intro exI [of _ t] exI [of _ g]) (simp add: mount_spec_def l M C strict_prefix_def)
qed

text \<open>C32. Mounting a generator and taking it out again restores every key, except that keys on the way to the
  mount point which were missing and belong to another mount stay behind with an empty value.\<close>

theorem mount_unmount:
  assumes "mg_valid tg_ops tg_valid this n g" "mounts_made tg_contents (mg_mounts g)" "n + length k < 25999" "plain_key k"
    "tg_valid n i" "this \<notin> set (gen_cblist i)" "sent_to this (gen_sent i) = []" "ident \<notin> set (map gm_id (mg_mounts g))"
  shows "\<exists>g1 g2. mg_mountgen tg_ops this k ident i False g = Some g1 \<and> mg_unmount tg_ops this ident False g1 = Some g2 \<and>
    (\<forall>j. plain_key j \<longrightarrow> mg_get tg_ops j g2 =
       Some (made_spec (map lower k) (mg_mounts g) (mg_contents tg_contents g) (map lower j)))"
proof -
  obtain g1 where g1: "mg_mountgen tg_ops this k ident i False g = Some g1" "mg_valid tg_ops tg_valid this (n + length k + 2) g1"
    "places (mg_mounts g1) = (ident, k) # places (mg_mounts g)"
    "\<forall>q. mounts_contents tg_contents (tl (mg_mounts g1)) q = made_spec (map lower k) (mg_mounts g) (mg_contents tg_contents g) q"
    using tg_mountgen_spec [OF assms] by (elim exE conjE) (rule that)
  obtain m ms where m: "mg_mounts g1 = m # ms" "gm_id m = ident" using g1(3) by (cases "mg_mounts g1") auto
  obtain g2 where g2: "mg_unmount tg_ops this ident False g1 = Some g2" "mg_valid tg_ops tg_valid this (n + length k + 2) g2" "mg_mounts g2 = ms"
    using tg_c.mg_unmount_head [OF g1(2) m(1) tg_del_callback] m(2) by blast
  then show ?thesis using g1(1,4) m(1) tg_mount_get [OF g2(2)] by (intro exI [of _ g1] exI [of _ g2]) simp
qed

theorem mount_unmount_witness:
  "\<exists>g1 g2. mg_mountgen tg_ops 7 [''a''] 1 tg_new False mg_new = Some g1 \<and> mg_unmount tg_ops 7 1 False g1 = Some g2 \<and>
     mg_get tg_ops [''a''] g2 = Some None"
proof -
  have p: "plain_key [''a'']" by (simp add: plain_key_def plain_segs_def INT_MAX_def)
  have s: "gen_cblist tg_new = []" "gen_sent tg_new = []" by (simp_all add: tg_new_def gen_new_def gen.defs)
  have v: "mounts_made tg_contents (mg_mounts (mg_new :: tempgen mountgen))" by (rule mg_valid_new)
  have "\<exists>g1 g2. mg_mountgen tg_ops 7 [''a''] 1 tg_new False mg_new = Some g1 \<and> mg_unmount tg_ops 7 1 False g1 = Some g2 \<and>
    (\<forall>j. plain_key j \<longrightarrow> mg_get tg_ops j g2 =
       Some (made_spec (map lower [''a'']) (mg_mounts (mg_new :: tempgen mountgen)) (mg_contents tg_contents (mg_new :: tempgen mountgen)) (map lower j)))"
    by (rule mount_unmount [OF mg_valid_new(1) v _ p tg_valid_new(1)]) (simp_all add: s sent_to_def)
  then show ?thesis using p by (auto simp: made_spec_def mounts_contents_def)
qed

text \<open>C33. The tree of watches is a map from paths to lists of watches: after any series of requests to add and to
  delete callbacks, each path has the list that the requests at it leave, and a node is there exactly when a
  watch is at it or below it, so no branch is left behind and none is pruned too early.\<close>

theorem watch_tree:
  assumes "\<forall>x \<in> set xs. key_cstr (watch_op_key x)" "length xs \<le> 26000"
  shows "\<exists>root. watch_ops xs watchroot_new = Some root \<and> watches root = foldl watch_op_spec (\<lambda>_. []) xs \<and>
    (\<forall>p. wt_map p root \<noteq> None \<longleftrightarrow> p = [] \<or> (\<exists>q. watches root (p @ q) \<noteq> []))"
proof -
  have w: "wt_ok 0 watchroot_new" "wt_pruned watchroot_new" "watches watchroot_new = (\<lambda>_. [])"
    by (simp_all add: watchroot_new_def wt_ok_leaf wt_pruned_def wt_map_leaf watches_def fun_eq_iff)
  from watch_ops_spec [OF w(1,2), of xs] assms obtain root where "watch_ops xs watchroot_new = Some root"
    "wt_ok (length xs) root" "wt_pruned root" "watches root = foldl watch_op_spec (\<lambda>_. []) xs"
    by (auto simp: w(3))
  then show ?thesis using wt_pruned_nodes by (intro exI [of _ root]) simp
qed

theorem watch_tree_witness:
  "\<exists>root. watch_ops [Watch_add 1 [''a'', ''b''] (Set_bool 5) True, Watch_del 1 [''A'', ''B''] True] watchroot_new = Some root \<and>
     wt_map [''a''] root = None"
proof -
  have l: "c_tolower CHR ''a'' = CHR ''a''" "c_tolower CHR ''b'' = CHR ''b''" "c_tolower CHR ''A'' = CHR ''a''" "c_tolower CHR ''B'' = CHR ''b''"
    by code_simp+
  obtain root where "watch_ops [Watch_add 1 [''a'', ''b''] (Set_bool 5) True, Watch_del 1 [''A'', ''B''] True] watchroot_new = Some root"
    "watches root = foldl watch_op_spec (\<lambda>_. []) [Watch_add 1 [''a'', ''b''] (Set_bool 5) True, Watch_del 1 [''A'', ''B''] True]"
    "\<forall>p. wt_map p root \<noteq> None \<longleftrightarrow> p = [] \<or> (\<exists>q. watches root (p @ q) \<noteq> [])"
    using watch_tree [of "[Watch_add 1 [''a'', ''b''] (Set_bool 5) True, Watch_del 1 [''A'', ''B''] True]"]
    by (auto simp: c_str_def)
  then show ?thesis by (auto simp: key_path_def nonempty_segs_def l)
qed





text \<open>C36. A whole number that is stored under a key, other than the least one, is read back from it as that
  number.\<close>

theorem root_int:
  assumes "root_valid tg_ops tg_valid mnt this n r" "n < 26000" "plain_key k"
    "mount_of (map lower k) (mg_mounts (ur_mounts r)) = Some p" "- (2 ^ 31) < sint i"
  shows "\<exists>r'. uc_setmeint tg_ops mnt this k i r = Some r' \<and> root_valid tg_ops tg_valid mnt this (Suc n) r' \<and>
    uc_getmeint tg_ops k defvalue r' = Some (sint i)"
  using tg_c.uc_setmeint_getmeint [OF assms(1-3) _ assms(4,5)] assms(3) by (simp add: plain_key_def)

theorem root_int_witness:
  "\<exists>r r'. ur_new_gen tg_ops 7 8 1 tg_new False = Some r \<and> uc_setmeint tg_ops 7 8 [''n''] (- 12) r = Some r' \<and>
     uc_getmeint tg_ops [''n''] 99 r' = Some (- 12)"
proof -
  obtain r where r: "ur_new_gen tg_ops 7 8 1 tg_new False = Some r" "root_valid tg_ops tg_valid 7 8 2 r"
    "places (mg_mounts (ur_mounts r)) = [(1, [])]"
    using ur_new_gen_new [of 7 8 1] by (elim exE conjE) (rule that)
  have i: "sint (- 12 :: 32 word) = - 12" by code_simp
  have "\<exists>r'. uc_setmeint tg_ops 7 8 [''n''] (- 12) r = Some r' \<and> root_valid tg_ops tg_valid 7 8 (Suc 2) r' \<and>
    uc_getmeint tg_ops [''n''] 99 r' = Some (sint (- 12 :: 32 word))"
    by (rule root_int [OF r(2) _ _ mount_of_root [OF r(3)]]) (simp_all add: plain_key_def plain_segs_def INT_MAX_def i)
  then show ?thesis using r(1) i by auto
qed

text \<open>C37. What a commit writes to an ini file is read back by a refresh: every value that is not empty comes back
  under its key, with empty values on the way to it and nothing else, for keys and values without backslashes,
  braces, double quotes, vertical tabs and form feeds, whose first segment neither begins nor ends with a
  blank.\<close>

theorem ini_roundtrip:
  fixes g h :: inigen
  assumes "tg_valid n g" "tg_root g = Some root" "vt_key root = key_EMPTY" "tg_dirty g" "ini_clean (tg_contents g)"
    "length (ini_save (tg_root g)) < 25999" "tg_valid m h" "tg_root h \<noteq> None" "in_old_st h \<noteq> Some st"
  shows "\<exists>t g' h'. ini_commit True opens g = Some (Renamed t, g') \<and> \<not> tg_dirty g' \<and> tg_contents g' = tg_contents g \<and>
    ini_refresh (File st False (file_reads t) False) h = Some (True, h') \<and> tg_contents h' = ini_kept (tg_contents g)"
  using ini_commit_refresh assms unfolding key_EMPTY_def by blast

theorem ini_roundtrip_witness:
  "\<exists>g t g' h'. ini_set [] (Some ''a b'') (the ini_new) = Some g \<and> ini_commit True True g = Some (Renamed t, g') \<and>
     ini_refresh (File 1 False (file_reads t) False) (the ini_new) = Some (True, h') \<and> tg_contents h' [] = Some ''a b''"
proof -
  obtain h where h: "ini_new = Some h" "in_old_st h = Some 0" "tg_root h \<noteq> None" and h1: "tg_valid 1 h" using ini_new_ok by blast
  have k: "key_ok INT_MAX []" "val_ok (Some ''a b'')" by (simp_all add: key_ok_def INT_MAX_def val_ok_def)
  have c: "map_option (\<lambda>g. (tg_root g, tg_dirty g, length (ini_save (tg_root g)))) (do { h \<leftarrow> ini_new; ini_set [] (Some ''a b'') h }) =
      Some (Some (VNode [] (Some ''a b'') None), True, 8)" by code_simp
  then obtain g where g: "ini_set [] (Some ''a b'') h = Some g" "tg_root g = Some (VNode [] (Some ''a b'') None)" "tg_dirty g"
    "length (ini_save (tg_root g)) = 8" unfolding h(1) by auto
  have v: "tg_valid 2 g" using tg_set_spec [OF h1 _ k(1), of "Some ''a b''"] k(2) g(1) by (auto simp: ini_set_def numeral_2_eq_2)
  have M: "tg_contents g q = (if q = [] then Some ''a b'' else None)" for q by (cases q) (simp_all add: tg_contents_def g(2))
  have "ini_text ''a b'' \<and> ini_segs [] \<and> ini_sect []" by (simp add: ini_text_def ini_char_def brace_char_def ini_segs_def ini_sect_def)
  then have "ini_clean (tg_contents g)" by (auto simp: ini_clean_def M)
  from ini_roundtrip [OF v g(2) _ g(3) this _ h1 h(3), of 1 True] obtain t g' h' where
    "ini_commit True True g = Some (Renamed t, g')" "ini_refresh (File 1 False (file_reads t) False) h = Some (True, h')"
    "tg_contents h' = ini_kept (tg_contents g)" using g(4) h(2) by (auto simp: key_EMPTY_def)
  then show ?thesis unfolding h(1) using g(1) by (auto simp: ini_kept_def M ini_value_def)
qed



text \<open>C39. Whatever text without double quotes the file has, and whatever its state, a refresh ends and leaves a
  well-formed tree with a root; when it fails the contents stay as they were.\<close>

theorem ini_refresh_total:
  fixes g :: inigen
  assumes "tg_valid n g" "tg_root g \<noteq> None" "ini_safe t" "length t < 25999"
  shows "\<exists>b g'. ini_refresh (File st sticky (file_reads t) err) g = Some (b, g') \<and> tg_valid (max n (length t + 2)) g' \<and> tg_root g' \<noteq> None \<and>
    (b \<longrightarrow> in_old_st g = Some st \<or> \<not> err \<and> \<not> sticky) \<and> (\<not> b \<longrightarrow> tg_contents g' = tg_contents g \<and> tg_dirty g' = tg_dirty g)"
  by (rule ini_refresh_valid [OF assms])

theorem ini_refresh_total_witness:
  "\<exists>b g'. ini_refresh (File 1 False (file_reads (''[s'' @ [CHR 0x0A] @ ''= {'')) False) (the ini_new) = Some (b, g') \<and> tg_root g' \<noteq> None"
proof -
  obtain h where h: "ini_new = Some h" "in_old_st h = Some 0" "tg_root h \<noteq> None" and h1: "tg_valid 1 h" using ini_new_ok by blast
  have s: "ini_safe (''[s'' @ [CHR 0x0A] @ ''= {'')" "length (''[s'' @ [CHR 0x0A] @ ''= {'') < 25999" by simp_all
  from ini_refresh_total [OF h1 h(3) s, of 1 False False] show ?thesis unfolding h(1) by auto
qed


end
